(* ===== verification/Prelude.thy ===== *)
theory Prelude
  imports Main "HOL-Library.Word"
begin

text \<open>
  Shared vocabulary of the development: the fixed-width C integer types, byte-level encodings of
  integers, C memory blocks (byte arrays with checked access) and C strings (arrays of characters
  ended by a NUL), with the lemmas about them that the component theories use.
\<close>

unbundle bit_operations_syntax

type_synonym u8 = "8 word"
type_synonym u32 = "32 word"
type_synonym u64 = "64 word"

text \<open>\<open>UINT64_MAX\<close> of \<open>stdint.h\<close>.\<close>

abbreviation UINT64_MAX :: u64 where
  "UINT64_MAX \<equiv> - 1"

lemma unat_u64_less: "unat (w :: u64) < 2 ^ 64"
proof -
  have "unat w < 2 ^ LENGTH(64)" by (rule unsigned_less)
  then show ?thesis by simp
qed

lemma unat_UINT64_MAX [simp]: "unat UINT64_MAX = 2 ^ 64 - 1"
  by (simp add: unsigned_minus_1_eq_mask mask_eq_exp_minus_1)

named_theorems cmem \<open>reads and writes of C memory blocks\<close>
named_theorems cstr \<open>C strings held in character arrays\<close>

section \<open>Integers as runs of bytes\<close>

text \<open>
  \<open>le_encode n w\<close> are the \<open>n\<close> low bytes of a word, least significant first;
  \<open>le_decode\<close> puts such a run together again.
\<close>

fun le_encode :: "nat \<Rightarrow> 'a::len word \<Rightarrow> u8 list" where
  "le_encode 0 w = []"
| "le_encode (Suc n) w = ucast w # le_encode n (drop_bit 8 w)"

fun le_decode :: "u8 list \<Rightarrow> 'a::len word" where
  "le_decode [] = 0"
| "le_decode (b # bs) = ucast b OR push_bit 8 (le_decode bs)"

lemma length_le_encode [simp]: "length (le_encode n w) = n"
  by (induction n arbitrary: w) auto

lemma le_decode_encode: "le_decode (le_encode n w) = take_bit (8 * n) (w :: 'a::len word)"
proof (induction n arbitrary: w)
  case 0
  then show ?case by simp
next
  case (Suc n)
  have "ucast (ucast w :: u8) OR push_bit 8 (take_bit (8 * n) (drop_bit 8 w))
      = take_bit (8 * Suc n) w"
    by (rule bit_word_eqI) (auto simp: bit_simps)
  with Suc show ?case by simp
qed

lemma le_decode_encode_u64 [simp]: "le_decode (le_encode 8 w) = (w :: u64)"
  by (simp add: le_decode_encode take_bit_word_eq_self)

lemma le_encode_decode:
  "8 * length bs \<le> LENGTH('a::len) \<Longrightarrow> le_encode (length bs) (le_decode bs :: 'a word) = bs"
proof (induction bs)
  case Nil
  then show ?case by simp
next
  case (Cons b bs)
  let ?d = "le_decode bs :: 'a word"
  have len: "8 * length bs + 8 \<le> LENGTH('a)" using Cons.prems by simp
  have high: "take_bit (LENGTH('a) - 8) ?d = ?d"
  proof -
    have "le_decode (le_encode (length bs) ?d) = ?d" using Cons len by simp
    then have d: "take_bit (8 * length bs) ?d = ?d" by (simp add: le_decode_encode)
    have "take_bit (LENGTH('a) - 8) (take_bit (8 * length bs) ?d) = take_bit (8 * length bs) ?d"
      using len by (simp add: min_absorb2)
    then show ?thesis by (simp add: d)
  qed
  have "ucast (ucast b OR push_bit 8 ?d) = b"
    by (rule bit_word_eqI) (use len in \<open>auto simp: bit_simps\<close>)
  moreover have "drop_bit 8 (ucast b OR push_bit 8 ?d) = ?d"
  proof (rule bit_word_eqI)
    fix n assume "n < LENGTH('a)"
    have "bit ?d n \<longleftrightarrow> bit (take_bit (LENGTH('a) - 8) ?d) n" by (simp only: high)
    then show "bit (drop_bit 8 (ucast b OR push_bit 8 ?d)) n = bit ?d n"
      using bit_imp_le_length [of b "8 + n"] by (auto simp: bit_simps)
  qed
  ultimately show ?case using Cons len by simp
qed

section \<open>C memory blocks\<close>

text \<open>
  A block of memory is its list of bytes. Reading or writing outside of it is undefined behaviour
  in C; here it is \<open>None\<close>. \<open>mem_store\<close> is an assignment to one byte, \<open>mem_write\<close> a
  \<open>memcpy\<close> into the block at an offset, and \<open>mem_read\<close> a \<open>memcpy\<close> out of it.
\<close>

definition mem_store :: "u8 list \<Rightarrow> nat \<Rightarrow> u8 \<Rightarrow> u8 list option" where
  "mem_store buf i b = (if i < length buf then Some (buf[i := b]) else None)"

definition mem_write :: "u8 list \<Rightarrow> nat \<Rightarrow> u8 list \<Rightarrow> u8 list option" where
  "mem_write buf off bs =
     (if off + length bs \<le> length buf
      then Some (take off buf @ bs @ drop (off + length bs) buf) else None)"

definition mem_read :: "u8 list \<Rightarrow> nat \<Rightarrow> nat \<Rightarrow> u8 list option" where
  "mem_read buf off n = (if off + n \<le> length buf then Some (take n (drop off buf)) else None)"

lemma mem_store_Some [cmem]: "i < length buf \<Longrightarrow> mem_store buf i b = Some (buf[i := b])"
  by (simp add: mem_store_def)

lemma mem_write_Some [cmem]:
  "off + length bs \<le> length buf
   \<Longrightarrow> mem_write buf off bs = Some (take off buf @ bs @ drop (off + length bs) buf)"
  by (simp add: mem_write_def)

lemma mem_read_write:
  "mem_write buf off bs = Some buf' \<Longrightarrow> mem_read buf' off (length bs) = Some bs"
  by (auto simp: mem_write_def mem_read_def split: if_splits)

section \<open>Arrays and runs of fallible steps\<close>

text \<open>Checked element access of a C array of any element type.\<close>

definition arr_get :: "'a list \<Rightarrow> nat \<Rightarrow> 'a option" where
  "arr_get xs i = (if i < length xs then Some (xs ! i) else None)"

definition arr_set :: "'a list \<Rightarrow> nat \<Rightarrow> 'a \<Rightarrow> 'a list option" where
  "arr_set xs i v = (if i < length xs then Some (xs[i := v]) else None)"

lemma arr_get_Some [cmem]: "i < length xs \<Longrightarrow> arr_get xs i = Some (xs ! i)"
  by (simp add: arr_get_def)

lemma arr_set_Some [cmem]: "i < length xs \<Longrightarrow> arr_set xs i v = Some (xs[i := v])"
  by (simp add: arr_set_def)

text \<open>Running one step after another; the run fails where a step does.\<close>

fun run_opt :: "('s \<Rightarrow> 'e \<Rightarrow> 's option) \<Rightarrow> 's \<Rightarrow> 'e list \<Rightarrow> 's option" where
  "run_opt f s [] = Some s"
| "run_opt f s (e # es) = (case f s e of None \<Rightarrow> None | Some s' \<Rightarrow> run_opt f s' es)"

lemma run_opt_append:
  "run_opt f s (es @ es') = (case run_opt f s es of None \<Rightarrow> None | Some s' \<Rightarrow> run_opt f s' es')"
  by (induction es arbitrary: s) (auto split: option.split)

lemma run_opt_invariant:
  assumes "\<And>s e s'. I s \<Longrightarrow> f s e = Some s' \<Longrightarrow> I s'"
  shows "I s \<Longrightarrow> run_opt f s es = Some s' \<Longrightarrow> I s'"
  using assms by (induction es arbitrary: s) (auto split: option.splits)

lemma run_opt_total:
  assumes "\<And>s e. I s \<Longrightarrow> \<exists>s'. f s e = Some s' \<and> I s'"
  shows "I s \<Longrightarrow> \<exists>s'. run_opt f s es = Some s' \<and> I s'"
proof (induction es arbitrary: s)
  case Nil
  then show ?case by simp
next
  case (Cons e es)
  then obtain s1 where "f s e = Some s1" "I s1" using assms by blast
  then show ?case using Cons.IH [of s1] by auto
qed

text \<open>Splitting a list by a classification into finitely many classes loses no element.\<close>

lemma sum_length_filter_classes:
  fixes n :: nat
  shows "(\<And>x. x \<in> set xs \<Longrightarrow> f x < n) \<Longrightarrow> (\<Sum>k<n. length (filter (\<lambda>x. f x = k) xs)) = length xs"
proof (induction xs)
  case Nil
  then show ?case by simp
next
  case (Cons x xs)
  have "(\<Sum>k<n. length (filter (\<lambda>y. f y = k) (x # xs)))
      = (\<Sum>k<n. length (filter (\<lambda>y. f y = k) xs) + (if f x = k then 1 else 0))"
    by (rule sum.cong) auto
  also have "\<dots> = length xs + (\<Sum>k<n. if f x = k then 1 else 0)"
    using Cons by (simp add: sum.distrib)
  also have "(\<Sum>k<n. if f x = k then 1 else 0) = (1 :: nat)"
    using Cons.prems [of x] by (subst sum.delta') auto
  finally show ?case by simp
qed

lemma takeWhile_stops:
  assumes "x \<in> set xs" and "\<not> P x"
  shows "length (takeWhile P xs) < length xs"
proof -
  have "takeWhile P xs \<noteq> xs" using assms by (metis takeWhile_eq_all_conv)
  then show ?thesis by (metis length_takeWhile_le nat_less_le takeWhile_eq_take take_all)
qed

lemma unat_of_nat_u64: "n < 2 ^ 64 \<Longrightarrow> unat (word_of_nat n :: u64) = n"
  by (simp add: unsigned_of_nat take_bit_nat_eq_self)

lemma unat_of_nat_length_filter:
  assumes "length xs < 2 ^ 64"
  shows "unat (word_of_nat (length (filter P xs)) :: u64) = length (filter P xs)"
  using length_filter_le assms by (rule unat_of_nat_u64 [OF le_less_trans])

section \<open>C strings in character arrays\<close>

text \<open>
  A \<open>char[n]\<close> is a list of \<open>n\<close> characters; the string it holds ends before its first NUL.
  A source string of a string function is the list of its characters without the final NUL.
\<close>

abbreviation NUL :: char where
  "NUL \<equiv> CHR 0x00"

definition c_str :: "char list \<Rightarrow> string" where
  "c_str arr = takeWhile (\<lambda>c. c \<noteq> NUL) arr"

text \<open>A character list that can be the content of a C string.\<close>

definition is_c_string :: "string \<Rightarrow> bool" where
  "is_c_string s \<longleftrightarrow> NUL \<notin> set s"

text \<open>\<open>strncpy (dst, src, n)\<close>: at most \<open>n\<close> characters, padded with NULs up to \<open>n\<close>.\<close>

definition strncpy :: "char list \<Rightarrow> string \<Rightarrow> nat \<Rightarrow> char list" where
  "strncpy dst src n = take n (src @ replicate n NUL) @ drop n dst"

text \<open>
  \<open>snprintf (buf, n, ...)\<close> with the formatted text \<open>s\<close>: at most \<open>n - 1\<close> of its
  characters and a NUL; nothing is written when the size is zero.
\<close>

definition snprintf :: "char list \<Rightarrow> nat \<Rightarrow> string \<Rightarrow> char list" where
  "snprintf buf n s =
     (if n = 0 then buf
      else take (n - 1) s @ NUL # drop (Suc (length (take (n - 1) s))) buf)"

lemma c_str_terminated [cstr]: "is_c_string s \<Longrightarrow> c_str (s @ NUL # rest) = s"
  unfolding c_str_def is_c_string_def by (subst takeWhile_append2) auto

lemma is_c_string_take [intro, cstr]: "is_c_string s \<Longrightarrow> is_c_string (take n s)"
  by (auto simp: is_c_string_def dest: in_set_takeD)

lemma is_c_string_append [simp]: "is_c_string (s @ t) \<longleftrightarrow> is_c_string s \<and> is_c_string t"
  by (simp add: is_c_string_def)

lemma is_c_string_Cons [simp]: "is_c_string (c # s) \<longleftrightarrow> c \<noteq> NUL \<and> is_c_string s"
  by (auto simp: is_c_string_def)

lemma is_c_string_c_str [simp, intro]: "is_c_string (c_str arr)"
  unfolding is_c_string_def c_str_def by (auto dest: set_takeWhileD)

lemma length_strncpy [cstr]: "n \<le> length dst \<Longrightarrow> length (strncpy dst src n) = length dst"
  by (simp add: strncpy_def)

lemma length_snprintf [cstr]: "n \<le> length buf \<Longrightarrow> length (snprintf buf n s) = length buf"
  by (auto simp: snprintf_def)

lemma c_str_snprintf [cstr]:
  "is_c_string s \<Longrightarrow> 0 < n \<Longrightarrow> c_str (snprintf buf n s) = take (n - 1) s"
  by (simp add: snprintf_def c_str_terminated is_c_string_take del: length_take)

text \<open>
  The idiom \<open>strncpy (a, src, sizeof (a) - 1); a[sizeof (a) - 1] = 0\<close> leaves the array with
  the longest prefix of the source that fits.
\<close>

lemma c_str_strncpy_terminate [cstr]:
  assumes "is_c_string src" and "length dst = Suc n"
  shows "c_str ((strncpy dst src n)[n := NUL]) = take n src"
proof -
  let ?pad = "take (n - length src) (replicate n NUL)"
  have upd: "(strncpy dst src n)[n := NUL] = take n src @ ?pad @ [NUL]"
  proof -
    have "length (drop n dst) = Suc 0" using assms(2) by simp
    then obtain d where "drop n dst = [d]" by (auto simp: length_Suc_conv simp del: length_drop)
    then show ?thesis by (auto simp: strncpy_def list_update_append min_def)
  qed
  have "\<exists>rest. ?pad @ [NUL] = NUL # rest" by (cases "n - length src") auto
  then obtain rest where "?pad @ [NUL] = NUL # rest" by blast
  with upd show ?thesis using assms(1) by (simp add: c_str_terminated is_c_string_take)
qed

text \<open>Indexes inside one window of a ring.\<close>

lemma window_mod_eq:
  assumes "h \<le> k" "k < h + cap" "h \<le> k'" "k' < h + (cap :: nat)"
  shows "k mod cap = k' mod cap \<longleftrightarrow> k = k'"
proof -
  have *: "a = b" if "a \<le> b" "b < a + cap" "a mod cap = b mod cap" for a b
  proof -
    have "cap dvd b - a" using that mod_eq_dvd_iff_nat [of a b cap] by simp
    then have "b - a = 0" using that dvd_imp_le [of cap "b - a"] by linarith
    then show ?thesis using that by simp
  qed
  show ?thesis using * [of k k'] * [of k' k] assms by (cases "k \<le> k'") auto
qed

end
