(* ===== verification/TimeUtils.thy ===== *)
theory TimeUtils
  imports Prelude
begin

text \<open>
  \<open>include/time_utils.h\<close> and \<open>src/time_utils.c\<close>: nanosecond timestamps read from the system
  clock, and unit conversions. \<open>clock_gettime\<close> is the system's; a reading of it is the
  \<open>timespec\<close> argument of the three functions that call it.
\<close>

type_synonym timestamp_ns_t = u64

record timespec =
  tv_sec :: u64
  tv_nsec :: u64

definition get_timestamp_ns :: "timespec \<Rightarrow> timestamp_ns_t" where
  "get_timestamp_ns ts = tv_sec ts * 1000000000 + tv_nsec ts"

definition get_monotonic_ns :: "timespec \<Rightarrow> timestamp_ns_t" where
  "get_monotonic_ns ts = tv_sec ts * 1000000000 + tv_nsec ts"

definition rdtsc :: "timespec \<Rightarrow> u64" where
  "rdtsc ts = tv_sec ts * 1000000000 + tv_nsec ts"

definition us_to_ns :: "u64 \<Rightarrow> timestamp_ns_t" where
  "us_to_ns microseconds = microseconds * 1000"

definition ns_to_us :: "timestamp_ns_t \<Rightarrow> u64" where
  "ns_to_us nanoseconds = nanoseconds div 1000"

definition ms_to_ns :: "u64 \<Rightarrow> timestamp_ns_t" where
  "ms_to_ns milliseconds = milliseconds * 1000000"

text \<open>
  What POSIX promises of a reading (the nanosecond part is below one second), for a clock that
  still fits: 18446744073 seconds are reached in the year 2554.
\<close>

definition valid_timespec :: "timespec \<Rightarrow> bool" where
  "valid_timespec ts \<longleftrightarrow> unat (tv_sec ts) < 18446744073 \<and> unat (tv_nsec ts) < 1000000000"

lemma unat_get_timestamp_ns:
  assumes "valid_timespec ts"
  shows "unat (get_timestamp_ns ts) = unat (tv_sec ts) * 1000000000 + unat (tv_nsec ts)"
proof -
  have "unat (tv_sec ts) * 1000000000 + unat (tv_nsec ts) < 2 ^ 64"
    using assms by (simp add: valid_timespec_def)
  then show ?thesis
    by (simp add: get_timestamp_ns_def unat_word_ariths)
qed

lemma unat_us_to_ns: "unat u \<le> 18446744073709551 \<Longrightarrow> unat (us_to_ns u) = unat u * 1000"
  by (simp add: us_to_ns_def unat_word_ariths)

lemma unat_ns_to_us: "unat (ns_to_us n) = unat n div 1000"
  by (simp add: ns_to_us_def unat_div)

text \<open>
  Timestamps order events as the clock does: for clock readings that fit the 64-bit nanosecond
  range, one timestamp is below another exactly when its reading is earlier (seconds first, then
  nanoseconds), so the unsigned difference of two timestamps of one host is the elapsed time and
  does not wrap.
\<close>

theorem timestamp_order:
  assumes "valid_timespec a" and "valid_timespec b"
  shows "(get_timestamp_ns a \<le> get_timestamp_ns b
           \<longleftrightarrow> (tv_sec a < tv_sec b \<or> tv_sec a = tv_sec b \<and> tv_nsec a \<le> tv_nsec b)) \<and>
         (get_timestamp_ns a \<le> get_timestamp_ns b \<longrightarrow>
            unat (get_timestamp_ns b - get_timestamp_ns a)
             = (unat (tv_sec b) * 1000000000 + unat (tv_nsec b))
               - (unat (tv_sec a) * 1000000000 + unat (tv_nsec a)))"
proof -
  have nsec: "unat (tv_nsec a) < 1000000000" "unat (tv_nsec b) < 1000000000"
    using assms by (simp_all add: valid_timespec_def)
  have "get_timestamp_ns a \<le> get_timestamp_ns b
           \<longleftrightarrow> (tv_sec a < tv_sec b \<or> tv_sec a = tv_sec b \<and> tv_nsec a \<le> tv_nsec b)"
    using nsec by (auto simp: word_le_nat_alt word_less_nat_alt word_unat_eq_iff
        unat_get_timestamp_ns [OF assms(1)] unat_get_timestamp_ns [OF assms(2)])
  then show ?thesis by (simp add: unat_sub assms unat_get_timestamp_ns)
qed

theorem timestamp_order_witness:
  "get_timestamp_ns \<lparr>tv_sec = 1, tv_nsec = 999999999\<rparr>
     \<le> get_timestamp_ns \<lparr>tv_sec = 2, tv_nsec = 1\<rparr> \<and>
   unat (get_timestamp_ns \<lparr>tv_sec = 2, tv_nsec = 1\<rparr>
     - get_timestamp_ns \<lparr>tv_sec = 1, tv_nsec = 999999999\<rparr>) = 2"
proof -
  have v: "valid_timespec \<lparr>tv_sec = 1, tv_nsec = 999999999\<rparr>"
    "valid_timespec \<lparr>tv_sec = 2, tv_nsec = 1\<rparr>"
    by (simp_all add: valid_timespec_def)
  show ?thesis using timestamp_order [OF v] by simp
qed

end
