(* ===== verification/BinaryMessage.thy ===== *)
theory BinaryMessage
  imports TimeUtils
begin

text \<open>
  \<open>include/binary_message.h\<close> and \<open>src/binary_message.c\<close>: the wire format, an 8-byte
  big-endian timestamp followed by filler bytes. A buffer is the memory block its pointer points
  to; an access outside of it is \<open>None\<close>.
\<close>

abbreviation (input) TIMESTAMP_SIZE :: nat where "TIMESTAMP_SIZE \<equiv> 8"
abbreviation (input) MIN_MESSAGE_SIZE :: nat where "MIN_MESSAGE_SIZE \<equiv> TIMESTAMP_SIZE"

section \<open>Host byte order\<close>

text \<open>
  The C code stores a \<open>uint64_t\<close> with \<open>memcpy\<close>, so the bytes in memory depend on the byte
  order of the host, which is what \<open>htobe64\<close> and \<open>be64toh\<close> of \<open>endian.h\<close> make up for.
\<close>

datatype endian = Little | Big

definition u64_bytes :: "endian \<Rightarrow> u64 \<Rightarrow> u8 list" where
  "u64_bytes e w = (case e of Little \<Rightarrow> le_encode 8 w | Big \<Rightarrow> rev (le_encode 8 w))"

definition u64_of_bytes :: "endian \<Rightarrow> u8 list \<Rightarrow> u64" where
  "u64_of_bytes e bs = (case e of Little \<Rightarrow> le_decode bs | Big \<Rightarrow> le_decode (rev bs))"

definition bswap64 :: "u64 \<Rightarrow> u64" where
  "bswap64 w = le_decode (rev (le_encode 8 w))"

definition htobe64 :: "endian \<Rightarrow> u64 \<Rightarrow> u64" where
  "htobe64 e w = (case e of Little \<Rightarrow> bswap64 w | Big \<Rightarrow> w)"

definition be64toh :: "endian \<Rightarrow> u64 \<Rightarrow> u64" where
  "be64toh e w = (case e of Little \<Rightarrow> bswap64 w | Big \<Rightarrow> w)"

section \<open>The three operations\<close>

text \<open>The filler loop of \<open>create_binary_message\<close> from index \<open>i\<close>.\<close>

function fill_payload :: "nat \<Rightarrow> nat \<Rightarrow> u8 list \<Rightarrow> u8 list option" where
  "fill_payload i buffer_size buffer =
     (if i < buffer_size
      then case mem_store buffer i (word_of_nat ((i - TIMESTAMP_SIZE) mod 256)) of
             None \<Rightarrow> None
           | Some buffer' \<Rightarrow> fill_payload (Suc i) buffer_size buffer'
      else Some buffer)"
  by pat_completeness auto
termination
  by (relation "measure (\<lambda>(i, n, _). n - i)") auto

declare fill_payload.simps [simp del]

definition create_binary_message ::
  "endian \<Rightarrow> u8 list \<Rightarrow> nat \<Rightarrow> timestamp_ns_t \<Rightarrow> u8 list option" where
  "create_binary_message e buffer buffer_size timestamp =
     (if buffer_size < MIN_MESSAGE_SIZE then Some buffer
      else case mem_write buffer 0 (u64_bytes e (htobe64 e timestamp)) of
             None \<Rightarrow> None
           | Some buffer' \<Rightarrow> fill_payload TIMESTAMP_SIZE buffer_size buffer')"

definition parse_binary_message_timestamp :: "endian \<Rightarrow> u8 list \<Rightarrow> timestamp_ns_t option" where
  "parse_binary_message_timestamp e buffer =
     map_option (\<lambda>bs. be64toh e (u64_of_bytes e bs)) (mem_read buffer 0 TIMESTAMP_SIZE)"

text \<open>The buffer is \<open>None\<close> for the null pointer.\<close>

definition validate_binary_message :: "u8 list option \<Rightarrow> nat \<Rightarrow> bool" where
  "validate_binary_message buffer n = (buffer \<noteq> None \<and> MIN_MESSAGE_SIZE \<le> n)"

section \<open>The format on the wire\<close>

text \<open>What a message of \<open>n\<close> bytes with a timestamp looks like, independent of any host.\<close>

definition wire_message :: "nat \<Rightarrow> timestamp_ns_t \<Rightarrow> u8 list" where
  "wire_message n timestamp =
     rev (le_encode 8 timestamp) @ map (\<lambda>k. word_of_nat (k mod 256)) [0..<n - TIMESTAMP_SIZE]"

lemma length_wire_message [simp]: "8 \<le> n \<Longrightarrow> length (wire_message n t) = n"
  by (simp add: wire_message_def)

lemma length_u64_bytes [simp]: "length (u64_bytes e w) = 8"
  by (simp add: u64_bytes_def split: endian.split)

lemma u64_bytes_htobe64: "u64_bytes e (htobe64 e w) = rev (le_encode 8 w)"
  using le_encode_decode [where 'a = 64, of "rev (le_encode 8 w)"]
  by (auto simp: u64_bytes_def htobe64_def bswap64_def split: endian.split)

lemma be64toh_u64_of_bytes: "length bs = 8 \<Longrightarrow> be64toh e (u64_of_bytes e bs) = le_decode (rev bs)"
  using le_encode_decode [where 'a = 64, of bs]
  by (auto simp: be64toh_def u64_of_bytes_def bswap64_def split: endian.split)

lemma fill_payload_eq:
  "8 \<le> i \<Longrightarrow> i \<le> n \<Longrightarrow> n \<le> length buf \<Longrightarrow>
   fill_payload i n buf =
     Some (take i buf @ map (\<lambda>k. word_of_nat ((k - 8) mod 256)) [i..<n] @ drop n buf)"
proof (induction i n buf rule: fill_payload.induct)
  case (1 i n buf)
  show ?case
  proof (cases "i < n")
    case True
    let ?b = "word_of_nat ((i - 8) mod 256) :: u8"
    have len: "i < length buf" using True "1.prems" by simp
    have "fill_payload i n buf = fill_payload (Suc i) n (buf[i := ?b])"
      using True len by (simp add: fill_payload.simps [of i] cmem)
    also have "\<dots> = Some (take (Suc i) (buf[i := ?b])
        @ map (\<lambda>k. word_of_nat ((k - 8) mod 256)) [Suc i..<n] @ drop n (buf[i := ?b]))"
      using True "1.prems" len by (intro "1.IH") (auto simp: cmem)
    also have "take (Suc i) (buf[i := ?b]) = take i buf @ [?b]"
      using len by (simp add: take_Suc_conv_app_nth)
    also have "drop n (buf[i := ?b]) = drop n buf" using True by simp
    finally show ?thesis using True by (simp add: upt_conv_Cons)
  next
    case False
    with "1.prems" show ?thesis by (subst fill_payload.simps) simp
  qed
qed

lemma fill_offset: "map (\<lambda>k. f (k - m)) [m..<n] = map f [0..<n - m]"
  by (rule nth_equalityI) auto

lemma create_binary_message_eq:
  assumes "8 \<le> n" and "n \<le> length buf"
  shows "create_binary_message e buf n t = Some (wire_message n t @ drop n buf)"
proof -
  let ?b = "rev (le_encode 8 t) @ drop 8 buf"
  have w: "mem_write buf 0 (u64_bytes e (htobe64 e t)) = Some ?b"
    using assms by (simp add: cmem u64_bytes_htobe64)
  have "fill_payload 8 n ?b
      = Some (take 8 ?b @ map (\<lambda>k. word_of_nat ((k - 8) mod 256)) [8..<n] @ drop n ?b)"
    using assms by (intro fill_payload_eq) auto
  with assms w show ?thesis
    by (simp add: create_binary_message_def wire_message_def
        fill_offset [where f = "\<lambda>k. word_of_nat (k mod 256)"])
qed

lemma create_binary_message_short: "n < 8 \<Longrightarrow> create_binary_message e buf n t = Some buf"
  by (simp add: create_binary_message_def)

lemma parse_wire_message:
  assumes "8 \<le> n"
  shows "parse_binary_message_timestamp e (wire_message n t @ rest) = Some t"
  using assms by (simp add: parse_binary_message_timestamp_def mem_read_def wire_message_def
      be64toh_u64_of_bytes)

lemma parse_too_short:
  "length buf < 8 \<Longrightarrow> parse_binary_message_timestamp e buf = None"
  by (simp add: parse_binary_message_timestamp_def mem_read_def)

text \<open>
  C21. Creating a message never writes outside a buffer of at least the given size, keeps the
  buffer's length and every byte past the given size, and produces the same bytes on hosts of
  either byte order: the timestamp big-endian in the first eight, then the bytes 0, 1, ..., 255
  again and again. A size below eight writes nothing.
\<close>

theorem create_binary_message_correct:
  assumes "n \<le> length buf"
  shows "\<exists>buf'. create_binary_message e buf n t = Some buf' \<and> length buf' = length buf \<and>
           drop n buf' = drop n buf \<and>
           (n < 8 \<longrightarrow> buf' = buf) \<and>
           (8 \<le> n \<longrightarrow> (\<forall>i<8. buf' ! i = ucast (drop_bit (8 * (7 - i)) t)) \<and>
              (\<forall>i. 8 \<le> i \<and> i < n \<longrightarrow> buf' ! i = word_of_nat ((i - 8) mod 256)))"
proof (cases "n < 8")
  case True
  then show ?thesis by (simp add: create_binary_message_short)
next
  case False
  then have n: "8 \<le> n" by simp
  have "le_encode 8 t = map (\<lambda>k. ucast (drop_bit (8 * k) t)) [0..<8]"
    by (simp add: numeral_eq_Suc)
  then have ts: "wire_message n t ! i = ucast (drop_bit (8 * (7 - i)) t)" if "i < 8" for i
    using that nth_upt [of 0 "7 - i" 8] by (simp add: wire_message_def nth_append rev_nth)
  have pay: "wire_message n t ! i = word_of_nat ((i - 8) mod 256)" if "8 \<le> i" "i < n" for i
    using that nth_upt [of 0 "i - 8" "n - 8"] by (simp add: wire_message_def nth_append)
  show ?thesis
    using n assms by (simp add: create_binary_message_eq nth_append ts pay)
qed

theorem create_binary_message_correct_witness:
  "\<exists>buf'. create_binary_message Little [9, 9, 9, 9, 9, 9, 9, 9, 9, 9, 9] 10 258 = Some buf' \<and>
     buf' ! 6 = 1 \<and> buf' ! 7 = 2 \<and> buf' ! 9 = 1 \<and> drop 10 buf' = [9]"
proof -
  let ?b = "[9, 9, 9, 9, 9, 9, 9, 9, 9, 9, 9] :: u8 list"
  have len: "10 \<le> length ?b" by simp
  obtain buf' where "create_binary_message Little ?b 10 258 = Some buf'"
    and "drop 10 buf' = drop 10 ?b"
    and ts: "\<forall>i<8. buf' ! i = ucast (drop_bit (8 * (7 - i)) (258 :: u64))"
    and pay: "\<forall>i. 8 \<le> i \<and> i < 10 \<longrightarrow> buf' ! i = word_of_nat ((i - 8) mod 256)"
    using create_binary_message_correct [OF len, of Little 258] by auto
  moreover have "buf' ! 6 = 1" "buf' ! 7 = 2" "buf' ! 9 = 1"
    using spec [OF ts, of 6] spec [OF ts, of 7] spec [OF pay, of 9]
    by (simp_all add: drop_bit_eq_div)
  ultimately show ?thesis by auto
qed

text \<open>
  C20. Round trip across hosts: whatever buffer a publisher of one byte order writes a message of at
  least eight bytes into, a subscriber of the same or the other byte order that reads it back gets
  the publisher's timestamp.
\<close>

theorem message_timestamp_roundtrip:
  assumes "8 \<le> n" and "n \<le> length buf"
    and "create_binary_message e1 buf n t = Some msg"
  shows "parse_binary_message_timestamp e2 (take n msg) = Some t \<and>
         validate_binary_message (Some (take n msg)) (length (take n msg))"
proof -
  have msg: "msg = wire_message n t @ drop n buf"
    using assms by (simp add: create_binary_message_eq)
  then have "parse_binary_message_timestamp e2 (take n msg) = Some t"
    using parse_wire_message [of n e2 t "[]"] assms(1) by simp
  then show ?thesis
    using assms by (simp add: validate_binary_message_def msg)
qed

theorem message_timestamp_roundtrip_witness:
  "\<exists>msg. create_binary_message Little (replicate 12 0) 10 77 = Some msg \<and>
     parse_binary_message_timestamp Big (take 10 msg) = Some 77"
proof -
  have len: "8 \<le> (10::nat)" "10 \<le> length (replicate 12 (0 :: u8))" by simp_all
  then obtain msg where m: "create_binary_message Little (replicate 12 0) 10 77 = Some msg"
    using create_binary_message_eq by blast
  with message_timestamp_roundtrip [OF len m, of Big] show ?thesis by blast
qed

end
