(* ===== verification/PerformanceStats.thy ===== *)
theory PerformanceStats
  imports TimeUtils
begin

text \<open>
  \<open>include/performance_stats.h\<close> and the recording half of \<open>src/performance_stats.c\<close>: the
  counters, the detailed records of the first messages and the latency histogram. A pointer that
  may be null is an \<open>option\<close>; the arrays of the structures are lists, every access to them is
  checked, and \<open>None\<close> in the outer \<open>option\<close> of a result is an access out of range.
\<close>

section \<open>The structures\<close>

definition DETAILED_RECORD_COUNT :: nat where
  "DETAILED_RECORD_COUNT = 1000"

record stats_counters =
  message_count :: u64
  total_latency :: u64
  min_latency :: u64
  max_latency :: u64
  back_pressure_count :: u64
  retry_count :: u64

record detailed_records =
  send_times :: "timestamp_ns_t list"
  receive_times :: "timestamp_ns_t list"
  latencies :: "timestamp_ns_t list"
  recorded_count :: u64

record performance_stats =
  counters :: stats_counters
  records :: detailed_records
  test_start_time :: timestamp_ns_t
  first_message_time :: timestamp_ns_t
  last_message_time :: timestamp_ns_t
  min_latency_message_index :: u64
  min_latency_send_time :: timestamp_ns_t
  min_latency_receive_time :: timestamp_ns_t
  latency_buckets :: "u64 list"
  latency_bucket_limits :: "u64 list"

abbreviation (input) ERROR_SUCCESS :: int where "ERROR_SUCCESS \<equiv> 0"
abbreviation (input) ERROR_INVALID_PARAM :: int where "ERROR_INVALID_PARAM \<equiv> - 1"
abbreviation (input) ERROR_MEMORY_ALLOC :: int where "ERROR_MEMORY_ALLOC \<equiv> - 2"
abbreviation (input) ERROR_MEMORY_ALLOCATION :: int where "ERROR_MEMORY_ALLOCATION \<equiv> - 2"
abbreviation (input) ERROR_TIMEOUT :: int where "ERROR_TIMEOUT \<equiv> - 3"

text \<open>The structure after \<open>memset (stats, 0, sizeof ...)\<close> or \<open>calloc\<close>.\<close>

definition zeroed_stats :: performance_stats where
  "zeroed_stats =
     \<lparr>counters = \<lparr>message_count = 0, total_latency = 0, min_latency = 0, max_latency = 0,
        back_pressure_count = 0, retry_count = 0\<rparr>,
      records = \<lparr>send_times = replicate DETAILED_RECORD_COUNT 0,
        receive_times = replicate DETAILED_RECORD_COUNT 0,
        latencies = replicate DETAILED_RECORD_COUNT 0, recorded_count = 0\<rparr>,
      test_start_time = 0, first_message_time = 0, last_message_time = 0,
      min_latency_message_index = 0, min_latency_send_time = 0, min_latency_receive_time = 0,
      latency_buckets = replicate 10 0, latency_bucket_limits = replicate 10 0\<rparr>"

definition init_bucket_limits :: "u64 list" where
  "init_bucket_limits = [1, 5, 10, 20, 50, 100, 500, 1000, 10000, UINT64_MAX]"

definition create_bucket_limits :: "u64 list" where
  "create_bucket_limits = [1, 5, 10, 50, 100, 500, 1000, 5000, 10000, UINT64_MAX]"

definition init_performance_stats ::
  "performance_stats option \<Rightarrow> int \<times> performance_stats option" where
  "init_performance_stats stats =
     (case stats of
        None \<Rightarrow> (ERROR_INVALID_PARAM, None)
      | Some _ \<Rightarrow>
         (ERROR_SUCCESS,
          Some (zeroed_stats
            \<lparr>counters := (counters zeroed_stats)\<lparr>min_latency := UINT64_MAX\<rparr>,
             latency_bucket_limits := init_bucket_limits\<rparr>)))"

text \<open>\<open>alloc_ok\<close> is whether \<open>calloc\<close> returned memory.\<close>

definition create_performance_stats :: "bool \<Rightarrow> performance_stats option" where
  "create_performance_stats alloc_ok =
     (if alloc_ok
      then Some (zeroed_stats
        \<lparr>latency_bucket_limits := create_bucket_limits,
         counters := (counters zeroed_stats)\<lparr>min_latency := UINT64_MAX, max_latency := 0\<rparr>\<rparr>)
      else None)"

text \<open>Does nothing: the memory of \<open>create_performance_stats\<close> is not released.\<close>

definition destroy_performance_stats :: "performance_stats option \<Rightarrow> performance_stats option" where
  "destroy_performance_stats stats = stats"

section \<open>Recording\<close>

text \<open>
  \<open>__atomic_compare_exchange_n\<close> on a location that holds \<open>mem\<close>: whether it succeeded, the
  location afterwards and the caller's expected value afterwards.
\<close>

definition atomic_compare_exchange :: "u64 \<Rightarrow> u64 \<Rightarrow> u64 \<Rightarrow> bool \<times> u64 \<times> u64" where
  "atomic_compare_exchange mem expected desired =
     (if mem = expected then (True, desired, expected) else (False, mem, mem))"

text \<open>
  The loop \<open>while (better (v, current)) if (CAS (mem, current, v)) break\<close>, with nothing else
  writing the location: its last value, and whether this call wrote it.
\<close>

function cas_update :: "(u64 \<Rightarrow> u64 \<Rightarrow> bool) \<Rightarrow> u64 \<Rightarrow> u64 \<Rightarrow> u64 \<Rightarrow> u64 \<times> bool" where
  "cas_update better v mem current =
     (if better v current
      then case atomic_compare_exchange mem current v of
             (ok, mem', current') \<Rightarrow> if ok then (mem', True) else cas_update better v mem' current'
      else (mem, False))"
  by pat_completeness auto
termination
  by (relation "measure (\<lambda>(better, v, mem, current). if mem = current then 0 else 1)")
    (auto simp: atomic_compare_exchange_def split: if_splits)

declare cas_update.simps [simp del]

text \<open>The bucket loop from bucket \<open>i\<close>; \<open>below\<close> is the loop's comparison with the limit.\<close>

function count_in_bucket ::
  "(u64 \<Rightarrow> u64 \<Rightarrow> bool) \<Rightarrow> u64 \<Rightarrow> u64 list \<Rightarrow> u64 list \<Rightarrow> nat \<Rightarrow> u64 list option" where
  "count_in_bucket below latency_us limits buckets i =
     (if i < 10
      then case arr_get limits i of
             None \<Rightarrow> None
           | Some limit \<Rightarrow>
               if below latency_us limit
               then (case arr_get buckets i of None \<Rightarrow> None | Some c \<Rightarrow> arr_set buckets i (c + 1))
               else count_in_bucket below latency_us limits buckets (Suc i)
      else Some buckets)"
  by pat_completeness auto
termination
  by (relation "measure (\<lambda>(_, _, _, _, i). 10 - i)") auto

declare count_in_bucket.simps [simp del]

text \<open>The detailed record of one message, for the first thousand messages.\<close>

definition write_record ::
  "u64 \<Rightarrow> timestamp_ns_t \<Rightarrow> timestamp_ns_t \<Rightarrow> timestamp_ns_t \<Rightarrow> detailed_records
   \<Rightarrow> detailed_records option" where
  "write_record message_index send_time receive_time latency r =
     (if unat message_index < DETAILED_RECORD_COUNT
      then case (arr_set (send_times r) (unat message_index) send_time,
                 arr_set (receive_times r) (unat message_index) receive_time,
                 arr_set (latencies r) (unat message_index) latency) of
             (Some st, Some rt, Some ls) \<Rightarrow>
               Some \<lparr>send_times = st, receive_times = rt, latencies = ls,
                     recorded_count = message_index + 1\<rparr>
           | _ \<Rightarrow> None
      else Some r)"

definition record_message_latency_body ::
  "performance_stats \<Rightarrow> timestamp_ns_t \<Rightarrow> timestamp_ns_t \<Rightarrow> performance_stats option" where
  "record_message_latency_body s send_time receive_time =
     (let latency = receive_time - send_time;
          c = counters s;
          message_index = message_count c;
          c = c\<lparr>message_count := message_count c + 1\<rparr>;
          s = (if message_index = 0 then s\<lparr>first_message_time := receive_time\<rparr> else s);
          s = s\<lparr>last_message_time := receive_time\<rparr>;
          c = c\<lparr>total_latency := total_latency c + latency\<rparr>;
          (mn, new_min) = cas_update (<) latency (min_latency c) (min_latency c);
          c = c\<lparr>min_latency := mn\<rparr>;
          s = (if new_min
               then s\<lparr>min_latency_message_index := message_index + 1,
                      min_latency_send_time := send_time,
                      min_latency_receive_time := receive_time\<rparr>
               else s);
          (mx, _) = cas_update (>) latency (max_latency c) (max_latency c);
          c = c\<lparr>max_latency := mx\<rparr>;
          latency_us = latency div 1000
      in case write_record message_index send_time receive_time latency (records s) of
           None \<Rightarrow> None
         | Some r \<Rightarrow>
             map_option (\<lambda>b. s\<lparr>counters := c, records := r, latency_buckets := b\<rparr>)
               (count_in_bucket (\<le>) latency_us (latency_bucket_limits s) (latency_buckets s) 0))"

definition record_message_latency ::
  "performance_stats option \<Rightarrow> timestamp_ns_t \<Rightarrow> timestamp_ns_t \<Rightarrow> performance_stats option option" where
  "record_message_latency stats send_time receive_time =
     (case stats of
        None \<Rightarrow> Some None
      | Some s \<Rightarrow> map_option Some (record_message_latency_body s send_time receive_time))"

text \<open>The last statement of \<open>record_latency\<close>: claim a record slot with a CAS and fill it.\<close>

definition append_latency :: "u64 \<Rightarrow> detailed_records \<Rightarrow> detailed_records option" where
  "append_latency latency_ns r =
     (let current_count = recorded_count r in
      if unat current_count < DETAILED_RECORD_COUNT
      then case atomic_compare_exchange (recorded_count r) current_count (current_count + 1) of
             (ok, cnt, expected) \<Rightarrow>
               if ok
               then map_option (\<lambda>ls. r\<lparr>recorded_count := cnt, latencies := ls\<rparr>)
                      (arr_set (latencies r) (unat expected) latency_ns)
               else Some (r\<lparr>recorded_count := cnt\<rparr>)
      else Some r)"

definition record_latency_body :: "performance_stats \<Rightarrow> u64 \<Rightarrow> performance_stats option" where
  "record_latency_body s latency_ns =
     (let c = counters s;
          c = c\<lparr>message_count := message_count c + 1\<rparr>;
          c = c\<lparr>total_latency := total_latency c + latency_ns\<rparr>;
          (mn, _) = cas_update (<) latency_ns (min_latency c) (min_latency c);
          c = c\<lparr>min_latency := mn\<rparr>;
          (mx, _) = cas_update (>) latency_ns (max_latency c) (max_latency c);
          c = c\<lparr>max_latency := mx\<rparr>;
          latency_us = latency_ns div 1000
      in case count_in_bucket (<) latency_us (latency_bucket_limits s) (latency_buckets s) 0 of
           None \<Rightarrow> None
         | Some b \<Rightarrow>
             map_option (\<lambda>r. s\<lparr>counters := c, latency_buckets := b, records := r\<rparr>)
               (append_latency latency_ns (records s)))"

definition record_latency ::
  "performance_stats option \<Rightarrow> u64 \<Rightarrow> performance_stats option option" where
  "record_latency stats latency_ns =
     (case stats of
        None \<Rightarrow> Some None
      | Some s \<Rightarrow> map_option Some (record_latency_body s latency_ns))"

text \<open>Not implemented in the program: it ignores its arguments.\<close>

definition record_send_latency ::
  "performance_stats option \<Rightarrow> timestamp_ns_t \<Rightarrow> performance_stats option" where
  "record_send_latency stats send_latency = stats"

definition record_back_pressure :: "performance_stats option \<Rightarrow> performance_stats option" where
  "record_back_pressure stats =
     map_option (\<lambda>s. s\<lparr>counters := (counters s)
       \<lparr>back_pressure_count := back_pressure_count (counters s) + 1\<rparr>\<rparr>) stats"

definition record_retry :: "performance_stats option \<Rightarrow> performance_stats option" where
  "record_retry stats =
     map_option (\<lambda>s. s\<lparr>counters := (counters s)
       \<lparr>retry_count := retry_count (counters s) + 1\<rparr>\<rparr>) stats"

section \<open>Lemmas on the loops\<close>

text \<open>The sizes the structures' array types give, and the catch-all limit of the last bucket.\<close>

definition wf_stats :: "performance_stats \<Rightarrow> bool" where
  "wf_stats s \<longleftrightarrow>
     length (send_times (records s)) = DETAILED_RECORD_COUNT \<and>
     length (receive_times (records s)) = DETAILED_RECORD_COUNT \<and>
     length (latencies (records s)) = DETAILED_RECORD_COUNT \<and>
     length (latency_buckets s) = 10 \<and> length (latency_bucket_limits s) = 10 \<and>
     last (latency_bucket_limits s) = UINT64_MAX"

lemma cas_update_min: "cas_update (<) v m m = (min v m, v < m)"
  by (auto simp: cas_update.simps atomic_compare_exchange_def min_def)

lemma cas_update_max: "cas_update (>) v m m = (max v m, m < v)"
  by (auto simp: cas_update.simps atomic_compare_exchange_def max_def)

text \<open>The bucket a latency in microseconds belongs to: the first whose limit is not passed.\<close>

definition bucket_of :: "(u64 \<Rightarrow> u64 \<Rightarrow> bool) \<Rightarrow> u64 list \<Rightarrow> u64 \<Rightarrow> nat" where
  "bucket_of below limits us = length (takeWhile (\<lambda>limit. \<not> below us limit) limits)"

definition bump :: "u64 list \<Rightarrow> nat \<Rightarrow> u64 list" where
  "bump buckets k = buckets[k := buckets ! k + 1]"

lemma length_bump [simp]: "length (bump b k) = length b"
  by (simp add: bump_def)

lemma nth_bump: "k < length b \<Longrightarrow> bump b k ! j = b ! j + (if j = k then 1 else 0)"
  by (auto simp: bump_def nth_list_update)

lemma bucket_of_less:
  assumes "limits \<noteq> []" and "below us (last limits)"
  shows "bucket_of below limits us < length limits"
  unfolding bucket_of_def using assms by (intro takeWhile_stops [of "last limits"]) simp_all

lemma count_in_bucket_from:
  assumes "length limits = 10" and "length buckets = 10"
    and "\<forall>j<i. \<not> below us (limits ! j)" and "i \<le> bucket_of below limits us"
    and "bucket_of below limits us < 10"
  shows "count_in_bucket below us limits buckets i = Some (bump buckets (bucket_of below limits us))"
  using assms(3,4)
proof (induction "10 - i" arbitrary: i rule: less_induct)
  case less
  let ?k = "bucket_of below limits us"
  have i: "i < 10" using less.prems assms(5) by simp
  show ?case
  proof (cases "below us (limits ! i)")
    case True
    have "\<not> i < ?k"
      using True nth_length_takeWhile [of "\<lambda>l. \<not> below us l" limits]
        takeWhile_nth [of i "\<lambda>l. \<not> below us l" limits]
        nth_mem [of i "takeWhile (\<lambda>l. \<not> below us l) limits"] set_takeWhileD
      unfolding bucket_of_def by fastforce
    then have "?k = i" using less.prems(2) by simp
    then show ?thesis
      using True i assms(1,2) by (simp add: count_in_bucket.simps [of _ _ _ _ i] cmem bump_def)
  next
    case False
    have "?k \<noteq> i"
      using False nth_length_takeWhile [of "\<lambda>l. \<not> below us l" limits] assms(1,5)
      unfolding bucket_of_def by auto
    then have "count_in_bucket below us limits buckets (Suc i) = Some (bump buckets ?k)"
      using False less i by (intro less.hyps) (auto simp: less_Suc_eq)
    then show ?thesis
      using False i assms(1,2) by (simp add: count_in_bucket.simps [of _ _ _ _ i] cmem)
  qed
qed

lemma count_in_bucket_Some:
  assumes "length limits = 10" and "length buckets = 10" and "below us (last limits)"
  shows "count_in_bucket below us limits buckets 0 = Some (bump buckets (bucket_of below limits us))"
proof -
  have "bucket_of below limits us < length limits"
    using assms by (intro bucket_of_less) auto
  then show ?thesis using assms by (intro count_in_bucket_from) auto
qed

end
