(* ===== verification/LatencyRecording.thy ===== *)
theory LatencyRecording
  imports PerformanceStats
begin

text \<open>
  The contract the two recording entry points of \<open>src/performance_stats.c\<close> share, as the locale
  \<open>latency_recorder\<close>: what one call does to the counters and to the histogram. The locale's
  lemmas describe a whole run of calls; both entry points are interpretations of it, and the
  properties of this theory are statements about their runs.
\<close>

section \<open>The abstract summary of a list of latencies\<close>

text \<open>What the counters and the histogram should hold after the given latencies were recorded.\<close>

record latency_summary =
  sum_count :: u64
  sum_total :: u64
  sum_min :: u64
  sum_max :: u64
  sum_hist :: "u64 list"

definition summary_of :: "(u64 \<Rightarrow> u64 \<Rightarrow> bool) \<Rightarrow> u64 list \<Rightarrow> u64 list \<Rightarrow> latency_summary" where
  "summary_of below limits ls =
     \<lparr>sum_count = of_nat (length ls), sum_total = sum_list ls,
      sum_min = Min (insert UINT64_MAX (set ls)), sum_max = Max (insert 0 (set ls)),
      sum_hist = map (\<lambda>k. of_nat (length (filter (\<lambda>l. bucket_of below limits (l div 1000) = k) ls)))
        [0..<10]\<rparr>"

definition abs_summary :: "performance_stats \<Rightarrow> latency_summary" where
  "abs_summary s =
     \<lparr>sum_count = message_count (counters s), sum_total = total_latency (counters s),
      sum_min = min_latency (counters s), sum_max = max_latency (counters s),
      sum_hist = latency_buckets s\<rparr>"

lemma summary_of_snoc:
  "summary_of below limits (ls @ [l]) =
     \<lparr>sum_count = sum_count (summary_of below limits ls) + 1,
      sum_total = sum_total (summary_of below limits ls) + l,
      sum_min = min l (sum_min (summary_of below limits ls)),
      sum_max = max l (sum_max (summary_of below limits ls)),
      sum_hist = bump (sum_hist (summary_of below limits ls)) (bucket_of below limits (l div 1000))\<rparr>"
proof -
  have "Min (insert UINT64_MAX (insert l (set ls))) = min l (Min (insert UINT64_MAX (set ls)))"
    by (subst insert_commute) (rule Min_insert, simp_all)
  moreover have "Max (insert 0 (insert l (set ls))) = max l (Max (insert 0 (set ls)))"
    by (subst insert_commute) (rule Max_insert, simp_all)
  ultimately show ?thesis
    by (auto simp: summary_of_def bump_def nth_list_update intro!: nth_equalityI)
qed

section \<open>The contract of a recorder\<close>

locale latency_recorder =
  fixes recorder :: "performance_stats \<Rightarrow> 'e \<Rightarrow> performance_stats option"
    and lat :: "'e \<Rightarrow> u64"
    and below :: "u64 \<Rightarrow> u64 \<Rightarrow> bool"
  assumes total: "wf_stats s \<Longrightarrow> \<exists>s'. recorder s e = Some s'"
    and keeps_wf: "wf_stats s \<Longrightarrow> recorder s e = Some s' \<Longrightarrow> wf_stats s'"
    and keeps_limits: "wf_stats s \<Longrightarrow> recorder s e = Some s' \<Longrightarrow>
          latency_bucket_limits s' = latency_bucket_limits s"
    and step: "wf_stats s \<Longrightarrow> recorder s e = Some s' \<Longrightarrow>
          abs_summary s' =
            \<lparr>sum_count = sum_count (abs_summary s) + 1,
             sum_total = sum_total (abs_summary s) + lat e,
             sum_min = min (lat e) (sum_min (abs_summary s)),
             sum_max = max (lat e) (sum_max (abs_summary s)),
             sum_hist = bump (sum_hist (abs_summary s))
               (bucket_of below (latency_bucket_limits s) (lat e div 1000))\<rparr>"
    and catch_all: "below (l div 1000) UINT64_MAX"
begin

lemma run_total: "wf_stats s \<Longrightarrow> \<exists>s'. run_opt recorder s es = Some s' \<and> wf_stats s'"
  by (rule run_opt_total) (metis total keeps_wf)

lemma run_keeps: "wf_stats s \<Longrightarrow> run_opt recorder s es = Some s' \<Longrightarrow>
    wf_stats s' \<and> latency_bucket_limits s' = latency_bucket_limits s"
proof (induction es arbitrary: s)
  case Nil
  then show ?case by simp
next
  case (Cons e es)
  then obtain s1 where "recorder s e = Some s1" "run_opt recorder s1 es = Some s'"
    by (auto split: option.splits)
  then show ?case using Cons.IH [of s1] Cons.prems(1) keeps_wf keeps_limits by metis
qed

text \<open>A run from a fresh structure refines the summary of the latencies it was given.\<close>

lemma run_summary:
  assumes "wf_stats s" and "abs_summary s = summary_of below limits []"
    and "latency_bucket_limits s = limits" and "run_opt recorder s es = Some s'"
  shows "abs_summary s' = summary_of below limits (map lat es)"
  using assms(4)
proof (induction es arbitrary: s' rule: rev_induct)
  case Nil
  then show ?case using assms by simp
next
  case (snoc e es)
  then obtain s1 where s1: "run_opt recorder s es = Some s1" and s': "recorder s1 e = Some s'"
    by (auto simp: run_opt_append split: option.splits)
  have "wf_stats s1" and "latency_bucket_limits s1 = limits"
    using run_keeps [OF assms(1) s1] assms(3) by auto
  with step [OF _ s'] show ?case by (simp add: snoc.IH [OF s1] summary_of_snoc)
qed

lemma bucket_bound: "wf_stats s \<Longrightarrow> bucket_of below (latency_bucket_limits s) (l div 1000) < 10"
  using bucket_of_less [of "latency_bucket_limits s" below "l div 1000"] catch_all [of l]
  by (fastforce simp: wf_stats_def)

text \<open>No latency is lost by the histogram: its buckets add up to the number of latencies.\<close>

lemma hist_complete:
  assumes "wf_stats s" and "latency_bucket_limits s = limits" and "length ls < 2 ^ 64"
  shows "(\<Sum>k<10. unat (sum_hist (summary_of below limits ls) ! k)) = length ls"
proof -
  let ?n = "\<lambda>k. length (filter (\<lambda>l. bucket_of below limits (l div 1000) = k) ls)"
  have "(\<Sum>k<10. unat (sum_hist (summary_of below limits ls) ! k)) = (\<Sum>k<10. ?n k)"
    by (intro sum.cong) (auto simp: summary_of_def unat_of_nat_length_filter [OF assms(3)])
  also have "\<dots> = length ls"
    using bucket_bound [OF assms(1)] assms(2) by (intro sum_length_filter_classes) blast
  finally show ?thesis .
qed

end

section \<open>Both entry points meet it\<close>

lemma wf_stats_lengths:
  assumes "wf_stats s"
  shows "length (latency_buckets s) = 10" "length (latency_bucket_limits s) = 10"
    "last (latency_bucket_limits s) = UINT64_MAX"
  using assms by (simp_all add: wf_stats_def)

lemma div_1000_less_max: "l div 1000 < (UINT64_MAX :: u64)"
proof -
  have "unat (l div 1000) \<le> unat l div 1000" by (simp add: unat_div)
  also have "\<dots> < 2 ^ 64 - 1"
    using unat_u64_less [of l] by simp
  also have "\<dots> = unat (UINT64_MAX :: u64)" by simp
  finally show ?thesis by (simp add: word_less_nat_alt)
qed

lemma record_latency_body_eq:
  assumes "wf_stats s"
  shows "\<exists>r. append_latency l (records s) = Some r \<and>
     record_latency_body s l =
       Some (s\<lparr>counters := (counters s)\<lparr>message_count := message_count (counters s) + 1,
                 total_latency := total_latency (counters s) + l,
                 min_latency := min l (min_latency (counters s)),
                 max_latency := max l (max_latency (counters s))\<rparr>,
               latency_buckets := bump (latency_buckets s)
                 (bucket_of (<) (latency_bucket_limits s) (l div 1000)),
               records := r\<rparr>)"
proof -
  have "unat (recorded_count (records s)) < DETAILED_RECORD_COUNT
      \<Longrightarrow> unat (recorded_count (records s)) < length (latencies (records s))"
    using assms by (simp add: wf_stats_def)
  then have "\<exists>r. append_latency l (records s) = Some r"
    by (auto simp: append_latency_def atomic_compare_exchange_def Let_def cmem)
  then show ?thesis
    using assms div_1000_less_max
    by (auto simp: record_latency_body_def Let_def cas_update_min cas_update_max
        count_in_bucket_Some wf_stats_lengths)
qed

lemma append_latency_lengths:
  "append_latency l r = Some r' \<Longrightarrow>
     length (latencies r') = length (latencies r) \<and> send_times r' = send_times r \<and>
     receive_times r' = receive_times r"
  by (auto simp: append_latency_def Let_def atomic_compare_exchange_def arr_set_def split: if_splits)

interpretation rl: latency_recorder record_latency_body "\<lambda>l. l" "(<)"
proof unfold_locales
  fix s s' :: performance_stats and e :: u64
  assume wf: "wf_stats s"
  then show "\<exists>s'. record_latency_body s e = Some s'" using record_latency_body_eq by blast
  assume step: "record_latency_body s e = Some s'"
  obtain r where "append_latency e (records s) = Some r"
    and "s' = s\<lparr>counters := (counters s)\<lparr>message_count := message_count (counters s) + 1,
                 total_latency := total_latency (counters s) + e,
                 min_latency := min e (min_latency (counters s)),
                 max_latency := max e (max_latency (counters s))\<rparr>,
               latency_buckets := bump (latency_buckets s)
                 (bucket_of (<) (latency_bucket_limits s) (e div 1000)),
               records := r\<rparr>"
    using record_latency_body_eq [OF wf, of e] step by auto
  note s' = this(2) append_latency_lengths [OF this(1)]
  show "wf_stats s'" using wf s' by (auto simp: wf_stats_def)
  show "latency_bucket_limits s' = latency_bucket_limits s" using s' by simp
  show "abs_summary s' =
            \<lparr>sum_count = sum_count (abs_summary s) + 1,
             sum_total = sum_total (abs_summary s) + e,
             sum_min = min e (sum_min (abs_summary s)),
             sum_max = max e (sum_max (abs_summary s)),
             sum_hist = bump (sum_hist (abs_summary s))
               (bucket_of (<) (latency_bucket_limits s) (e div 1000))\<rparr>"
    using s' by (simp add: abs_summary_def)
next
  show "(l :: u64) div 1000 < UINT64_MAX" for l by (rule div_1000_less_max)
qed

text \<open>
  The other entry point also keeps the times and the record of the message and the details of the
  message with the least latency; \<open>sent\<close> and \<open>received\<close> are its timestamps.
\<close>

definition new_minimum :: "performance_stats \<Rightarrow> u64 \<Rightarrow> bool" where
  "new_minimum s latency \<longleftrightarrow> latency < min_latency (counters s)"

lemma write_record_Some:
  "wf_stats s \<Longrightarrow> \<exists>r. write_record i sent received l (records s) = Some r"
  by (auto simp: write_record_def wf_stats_def cmem)

lemma write_record_lengths:
  "write_record i sent received l r = Some r' \<Longrightarrow>
     length (latencies r') = length (latencies r) \<and> length (send_times r') = length (send_times r) \<and>
     length (receive_times r') = length (receive_times r)"
  by (auto simp: write_record_def arr_set_def split: if_splits)

lemma record_message_latency_body_eq:
  assumes "wf_stats s"
  shows "\<exists>r. write_record (message_count (counters s)) sent received (received - sent) (records s) = Some r \<and>
     record_message_latency_body s sent received =
       Some (s\<lparr>counters := (counters s)\<lparr>message_count := message_count (counters s) + 1,
                 total_latency := total_latency (counters s) + (received - sent),
                 min_latency := min (received - sent) (min_latency (counters s)),
                 max_latency := max (received - sent) (max_latency (counters s))\<rparr>,
               records := r,
               first_message_time :=
                 (if message_count (counters s) = 0 then received else first_message_time s),
               last_message_time := received,
               min_latency_message_index :=
                 (if new_minimum s (received - sent) then message_count (counters s) + 1
                  else min_latency_message_index s),
               min_latency_send_time :=
                 (if new_minimum s (received - sent) then sent else min_latency_send_time s),
               min_latency_receive_time :=
                 (if new_minimum s (received - sent) then received else min_latency_receive_time s),
               latency_buckets := bump (latency_buckets s)
                 (bucket_of (\<le>) (latency_bucket_limits s) ((received - sent) div 1000))\<rparr>)"
proof -
  obtain r where "write_record (message_count (counters s)) sent received (received - sent) (records s) = Some r"
    using write_record_Some [OF assms] by blast
  then show ?thesis
    using assms
    by (auto simp: record_message_latency_body_def Let_def cas_update_min cas_update_max new_minimum_def
        count_in_bucket_Some wf_stats_lengths)
qed

abbreviation record_pair :: "performance_stats \<Rightarrow> u64 \<times> u64 \<Rightarrow> performance_stats option" where
  "record_pair s e \<equiv> record_message_latency_body s (fst e) (snd e)"

interpretation rml: latency_recorder record_pair "\<lambda>e. snd e - fst e" "(\<le>)"
proof unfold_locales
  fix s s' :: performance_stats and e :: "u64 \<times> u64"
  assume wf: "wf_stats s"
  note eq = record_message_latency_body_eq [OF wf, of "fst e" "snd e"]
  then show "\<exists>s'. record_pair s e = Some s'" by blast
  assume step: "record_pair s e = Some s'"
  with eq obtain r
    where r: "write_record (message_count (counters s)) (fst e) (snd e) (snd e - fst e) (records s) = Some r"
      and s': "records s' = r" "latency_bucket_limits s' = latency_bucket_limits s"
        "counters s' = (counters s)\<lparr>message_count := message_count (counters s) + 1,
                 total_latency := total_latency (counters s) + (snd e - fst e),
                 min_latency := min (snd e - fst e) (min_latency (counters s)),
                 max_latency := max (snd e - fst e) (max_latency (counters s))\<rparr>"
        "latency_buckets s' = bump (latency_buckets s)
                 (bucket_of (\<le>) (latency_bucket_limits s) ((snd e - fst e) div 1000))"
    by auto
  show "wf_stats s'" using wf s' write_record_lengths [OF r] by (auto simp: wf_stats_def)
  show "latency_bucket_limits s' = latency_bucket_limits s" by (rule s'(2))
  show "abs_summary s' =
            \<lparr>sum_count = sum_count (abs_summary s) + 1,
             sum_total = sum_total (abs_summary s) + (snd e - fst e),
             sum_min = min (snd e - fst e) (sum_min (abs_summary s)),
             sum_max = max (snd e - fst e) (sum_max (abs_summary s)),
             sum_hist = bump (sum_hist (abs_summary s))
               (bucket_of (\<le>) (latency_bucket_limits s) ((snd e - fst e) div 1000))\<rparr>"
    using s' by (simp add: abs_summary_def)
next
  show "(l :: u64) div 1000 \<le> UINT64_MAX" for l by (simp add: less_imp_le div_1000_less_max)
qed

end
