(* ===== verification/RecordedRuns.thy ===== *)
theory RecordedRuns
  imports LatencyRecording
begin

text \<open>
  What the statistics hold after a run of recorded messages, from a freshly created
  (\<open>create_performance_stats\<close>) or initialised (\<open>init_performance_stats\<close>) structure: the
  counters and the histogram against the abstract summary, the intervals of the buckets, the
  detailed records of the first thousand messages, and the message the minimum belongs to.
\<close>

section \<open>Fresh structures\<close>

definition created_stats :: performance_stats where
  "created_stats = zeroed_stats
     \<lparr>latency_bucket_limits := create_bucket_limits,
      counters := (counters zeroed_stats)\<lparr>min_latency := UINT64_MAX, max_latency := 0\<rparr>\<rparr>"

definition initialised_stats :: performance_stats where
  "initialised_stats = zeroed_stats
     \<lparr>counters := (counters zeroed_stats)\<lparr>min_latency := UINT64_MAX\<rparr>,
      latency_bucket_limits := init_bucket_limits\<rparr>"

lemma create_performance_stats_True: "create_performance_stats True = Some created_stats"
  by (simp add: create_performance_stats_def created_stats_def)

lemma init_performance_stats_Some:
  "init_performance_stats (Some s) = (ERROR_SUCCESS, Some initialised_stats)"
  by (simp add: init_performance_stats_def initialised_stats_def)

lemma init_null: "init_performance_stats None = (ERROR_INVALID_PARAM, None)"
  by (simp add: init_performance_stats_def)

lemma replicate_ten: "replicate 10 x = map (\<lambda>k. x) [0..<10]"
  by (rule nth_equalityI) auto

lemma fresh_stats_facts [simp]:
  "wf_stats created_stats" "wf_stats initialised_stats"
  "latency_bucket_limits created_stats = create_bucket_limits"
  "latency_bucket_limits initialised_stats = init_bucket_limits"
  "abs_summary created_stats = summary_of below limits []"
  "abs_summary initialised_stats = summary_of below limits []"
  by (simp_all add: created_stats_def initialised_stats_def zeroed_stats_def wf_stats_def
      create_bucket_limits_def init_bucket_limits_def abs_summary_def summary_of_def
      replicate_ten [symmetric])

section \<open>Runs through the pointer-level entry points\<close>

lemma run_record_latency_null: "run_opt record_latency None ls = Some None"
  by (induction ls) (simp_all add: record_latency_def)

lemma run_record_latency:
  "run_opt record_latency (Some s) ls = map_option Some (run_opt record_latency_body s ls)"
  by (induction ls arbitrary: s) (simp_all add: record_latency_def split: option.split)

abbreviation record_message :: "performance_stats option \<Rightarrow> u64 \<times> u64 \<Rightarrow> performance_stats option option" where
  "record_message p e \<equiv> record_message_latency p (fst e) (snd e)"

lemma run_record_message:
  "run_opt record_message (Some s) es = map_option Some (run_opt record_pair s es)"
  by (induction es arbitrary: s) (simp_all add: record_message_latency_def split: option.split)

text \<open>
  \<open>record_latency\<close> refines the abstract summary: recording any list of latencies into a
  structure from \<open>create_performance_stats\<close> never accesses an array out of range, and leaves the
  number of messages, their total latency, the least and the greatest latency (the initial values
  when there was no message) and, for every bucket, the number of latencies it classifies; recording
  through a null pointer does nothing.
\<close>

theorem record_latency_refines_summary:
  "(\<exists>s. run_opt record_latency (create_performance_stats True) ls = Some (Some s) \<and>
        wf_stats s \<and> abs_summary s = summary_of (<) create_bucket_limits ls) \<and>
   run_opt record_latency (create_performance_stats False) ls = Some None"
proof -
  obtain s where s: "run_opt record_latency_body created_stats ls = Some s" "wf_stats s"
    using rl.run_total [of created_stats] by auto
  then have "abs_summary s = summary_of (<) create_bucket_limits (map (\<lambda>l. l) ls)"
    by (intro rl.run_summary [of created_stats]) simp_all
  with s show ?thesis
    by (simp add: create_performance_stats_True create_performance_stats_def run_record_latency
        run_record_latency_null created_stats_def [symmetric])
qed

text \<open>
  C22. The same for \<open>record_message_latency\<close> after \<open>init_performance_stats\<close>, whose latency
  is the unsigned difference of the receive and the send time and whose buckets include their
  limit; initialising a null pointer is reported as an invalid parameter.
\<close>

theorem record_message_latency_refines_summary:
  "\<exists>s. run_opt record_message (snd (init_performance_stats (Some s0))) es = Some (Some s) \<and>
       fst (init_performance_stats (Some s0)) = ERROR_SUCCESS \<and>
       wf_stats s \<and>
       abs_summary s = summary_of (\<le>) init_bucket_limits (map (\<lambda>(sent, received). received - sent) es) \<and>
       init_performance_stats None = (ERROR_INVALID_PARAM, None)"
proof -
  obtain s where s: "run_opt record_pair initialised_stats es = Some s" "wf_stats s"
    using rml.run_total [of initialised_stats] by auto
  then have "abs_summary s = summary_of (\<le>) init_bucket_limits (map (\<lambda>e. snd e - fst e) es)"
    by (intro rml.run_summary [of initialised_stats]) simp_all
  with s show ?thesis
    by (simp add: init_performance_stats_Some run_record_message case_prod_beta' init_null)
qed

section \<open>The buckets as intervals\<close>

lemma bucket_of_eq_iff:
  assumes "k < length limits"
  shows "bucket_of below limits us = k \<longleftrightarrow>
    below us (limits ! k) \<and> (\<forall>j<k. \<not> below us (limits ! j))"
proof
  assume k: "bucket_of below limits us = k"
  let ?t = "takeWhile (\<lambda>limit. \<not> below us limit) limits"
  have "below us (limits ! k)"
    using nth_length_takeWhile [of "\<lambda>limit. \<not> below us limit" limits] assms k
    by (simp add: bucket_of_def)
  moreover have "\<not> below us (limits ! j)" if "j < k" for j
  proof -
    have j: "j < length ?t" using that k by (simp add: bucket_of_def)
    then have "\<not> below us (?t ! j)" using nth_mem [OF j] set_takeWhileD by fast
    then show ?thesis using takeWhile_nth [OF j] by simp
  qed
  ultimately show "below us (limits ! k) \<and> (\<forall>j<k. \<not> below us (limits ! j))" by blast
next
  assume "below us (limits ! k) \<and> (\<forall>j<k. \<not> below us (limits ! j))"
  then have "takeWhile (\<lambda>limit. \<not> below us limit) limits = take k limits"
    by (intro takeWhile_eq_take_P_nth) auto
  then show "bucket_of below limits us = k" using assms by (simp add: bucket_of_def)
qed

text \<open>For ascending limits the last limit that is passed decides.\<close>

lemma bucket_of_sorted:
  assumes "sorted limits" and "k < length limits"
  shows "bucket_of (<) limits us = k \<longleftrightarrow> us < limits ! k \<and> (k = 0 \<or> limits ! (k - 1) \<le> us)"
proof -
  have "(\<forall>j<k. limits ! j \<le> us) \<longleftrightarrow> (k = 0 \<or> limits ! (k - 1) \<le> us)"
  proof (cases k)
    case (Suc m)
    have "limits ! j \<le> limits ! m" if "j < Suc m" for j
      using that assms Suc by (intro sorted_nth_mono) auto
    then show ?thesis using Suc order_trans by auto
  qed simp
  then show ?thesis by (simp add: bucket_of_eq_iff [OF assms(2)] not_less)
qed

lemma sorted_create_bucket_limits: "sorted create_bucket_limits"
  by (simp add: create_bucket_limits_def)

text \<open>
  C23. The histogram loses nothing and puts every latency where its label says: with fewer than
  2^64 latencies recorded, the ten buckets add up to their number, and bucket \<open>k\<close> counts exactly
  those whose whole microseconds are below its limit and not below the previous one.
\<close>

theorem histogram_correct:
  assumes "length ls < 2 ^ 64"
    and "run_opt record_latency (create_performance_stats True) ls = Some (Some s)"
  shows "(\<Sum>k<10. unat (latency_buckets s ! k)) = length ls \<and>
         (\<forall>k<10. unat (latency_buckets s ! k) =
            length (filter (\<lambda>l. l div 1000 < create_bucket_limits ! k \<and>
               (k = 0 \<or> create_bucket_limits ! (k - 1) \<le> l div 1000)) ls))"
proof -
  have run: "run_opt record_latency_body created_stats ls = Some s"
    using assms(2) by (simp add: create_performance_stats_True run_record_latency)
  have "abs_summary s = summary_of (<) create_bucket_limits (map (\<lambda>l. l) ls)"
    using run by (intro rl.run_summary [of created_stats]) simp_all
  then have hist: "latency_buckets s = sum_hist (summary_of (<) create_bucket_limits ls)"
    by (simp add: abs_summary_def summary_of_def)
  have "unat (latency_buckets s ! k) =
      length (filter (\<lambda>l. bucket_of (<) create_bucket_limits (l div 1000) = k) ls)" if "k < 10" for k
    using that by (simp add: hist summary_of_def unat_of_nat_length_filter [OF assms(1)])
  moreover have "bucket_of (<) create_bucket_limits us = k \<longleftrightarrow>
      us < create_bucket_limits ! k \<and> (k = 0 \<or> create_bucket_limits ! (k - 1) \<le> us)" if "k < 10" for k us
    using that by (intro bucket_of_sorted sorted_create_bucket_limits) (simp add: create_bucket_limits_def)
  ultimately show ?thesis
    using rl.hist_complete [OF fresh_stats_facts(1,3) assms(1)] hist by simp
qed

theorem histogram_correct_witness:
  "\<exists>s. run_opt record_latency (create_performance_stats True) [700, 4999, 5000] = Some (Some s) \<and>
     unat (latency_buckets s ! 1) = 1 \<and> unat (latency_buckets s ! 2) = 1"
proof -
  obtain s where run: "run_opt record_latency (create_performance_stats True) [700, 4999, 5000]
      = Some (Some s)"
    using rl.run_total [of created_stats "[700, 4999, 5000]"]
    by (auto simp: create_performance_stats_True run_record_latency simp del: run_opt.simps)
  have len: "length [700, 4999, 5000 :: u64] < 2 ^ 64" by simp
  note all = histogram_correct [OF len run, THEN conjunct2, rule_format]
  have "unat (latency_buckets s ! 1) = 1" "unat (latency_buckets s ! 2) = 1"
    using all [of 1] all [of 2] by (simp_all add: create_bucket_limits_def)
  with run show ?thesis by blast
qed

section \<open>The detailed records\<close>

text \<open>The first \<open>m\<close> elements of a list in an array of size \<open>m\<close> that was zeroed before.\<close>

definition padded :: "nat \<Rightarrow> u64 list \<Rightarrow> u64 list" where
  "padded m xs = take m xs @ replicate (m - length xs) 0"

lemma padded_Nil: "padded m [] = replicate m 0"
  by (simp add: padded_def)

lemma padded_snoc: "length xs < m \<Longrightarrow> (padded m xs)[length xs := v] = padded m (xs @ [v])"
proof -
  assume len: "length xs < m"
  then have "replicate (m - length xs) 0 = 0 # replicate (m - Suc (length xs)) (0 :: u64)"
    by (simp add: replicate_Suc [symmetric] Suc_diff_Suc del: replicate_Suc)
  then show ?thesis using len by (simp add: padded_def list_update_append)
qed

lemma padded_full: "m \<le> length xs \<Longrightarrow> padded m (xs @ [v]) = padded m xs"
  by (simp add: padded_def)

lemma length_padded [simp]: "length (padded m xs) = m"
  by (auto simp: padded_def)

lemma append_latency_padded:
  assumes "latencies r = padded DETAILED_RECORD_COUNT ls"
    and "unat (recorded_count r) = min (length ls) DETAILED_RECORD_COUNT"
    and "append_latency l r = Some r'"
  shows "latencies r' = padded DETAILED_RECORD_COUNT (ls @ [l]) \<and>
    unat (recorded_count r') = min (length (ls @ [l])) DETAILED_RECORD_COUNT"
proof (cases "length ls < DETAILED_RECORD_COUNT")
  case True
  have "unat (recorded_count r + 1) = Suc (unat (recorded_count r))"
    using True assms(2) by (simp add: unat_word_ariths DETAILED_RECORD_COUNT_def)
  then show ?thesis
    using assms True
    by (auto simp: append_latency_def Let_def atomic_compare_exchange_def arr_set_def padded_snoc)
next
  case False
  then show ?thesis using assms by (auto simp: append_latency_def Let_def padded_full)
qed

lemma record_latency_body_records:
  "wf_stats s \<Longrightarrow> record_latency_body s l = Some s' \<Longrightarrow>
   append_latency l (records s) = Some (records s')"
  using record_latency_body_eq [of s l] by auto

text \<open>
  The records of \<open>record_latency\<close> are the first thousand latencies in the order they were
  recorded, the rest of the array stays zero, and the record count is their number.
\<close>

theorem record_latency_keeps_first_thousand:
  assumes "run_opt record_latency (create_performance_stats True) ls = Some (Some s)"
  shows "latencies (records s) = take 1000 ls @ replicate (1000 - length ls) 0 \<and>
         unat (recorded_count (records s)) = min (length ls) 1000"
proof -
  have run: "run_opt record_latency_body created_stats ls = Some s"
    using assms by (simp add: create_performance_stats_True run_record_latency)
  have "latencies (records s) = padded DETAILED_RECORD_COUNT ls \<and>
    unat (recorded_count (records s)) = min (length ls) DETAILED_RECORD_COUNT"
    using run
  proof (induction ls arbitrary: s rule: rev_induct)
    case Nil
    then show ?case by (auto simp: created_stats_def zeroed_stats_def padded_Nil)
  next
    case (snoc l ls)
    then obtain s1 where s1: "run_opt record_latency_body created_stats ls = Some s1"
      and "record_latency_body s1 l = Some s"
      by (auto simp: run_opt_append split: option.splits)
    moreover have "wf_stats s1" using rl.run_keeps [OF _ s1] by simp
    ultimately show ?case
      using append_latency_padded snoc.IH [OF s1] record_latency_body_records by blast
  qed
  then show ?thesis by (simp add: padded_def DETAILED_RECORD_COUNT_def)
qed

theorem record_latency_keeps_first_thousand_witness:
  "\<exists>s. run_opt record_latency (create_performance_stats True) [8, 3] = Some (Some s) \<and>
     latencies (records s) = [8, 3] @ replicate 998 0 \<and> unat (recorded_count (records s)) = 2"
proof -
  obtain s where run: "run_opt record_latency (create_performance_stats True) [8, 3] = Some (Some s)"
    using rl.run_total [of created_stats "[8, 3]"]
    by (auto simp: create_performance_stats_True run_record_latency simp del: run_opt.simps)
  show ?thesis using run record_latency_keeps_first_thousand [OF run] by simp
qed

section \<open>Records and minimum of the two-timestamp recorder\<close>

text \<open>What a run of \<open>record_message_latency\<close> has established about the messages so far.\<close>

definition message_details :: "(u64 \<times> u64) list \<Rightarrow> performance_stats \<Rightarrow> bool" where
  "message_details es s \<longleftrightarrow>
     message_count (counters s) = of_nat (length es) \<and>
     send_times (records s) = padded DETAILED_RECORD_COUNT (map fst es) \<and>
     receive_times (records s) = padded DETAILED_RECORD_COUNT (map snd es) \<and>
     latencies (records s) = padded DETAILED_RECORD_COUNT (map (\<lambda>e. snd e - fst e) es) \<and>
     unat (recorded_count (records s)) = min (length es) DETAILED_RECORD_COUNT"

lemma message_details_step:
  assumes "message_details es s" and "wf_stats s" and "Suc (length es) < 2 ^ 64"
    and "record_pair s e = Some s'"
  shows "message_details (es @ [e]) s'"
proof -
  obtain r where r: "write_record (message_count (counters s)) (fst e) (snd e) (snd e - fst e) (records s) = Some r"
    and s': "records s' = r" "message_count (counters s') = message_count (counters s) + 1"
    using record_message_latency_body_eq [OF assms(2), of "fst e" "snd e"] assms(4) by auto
  have idx: "unat (message_count (counters s)) = length es"
    using assms(1,3) by (simp add: message_details_def unat_of_nat_u64)
  show ?thesis
  proof (cases "length es < DETAILED_RECORD_COUNT")
    case True
    have "unat (message_count (counters s) + 1) = Suc (length es)"
      using True idx by (simp add: unat_word_ariths DETAILED_RECORD_COUNT_def)
    then show ?thesis
      using True r s' idx assms(1) padded_snoc [of "map fst es"] padded_snoc [of "map snd es"]
        padded_snoc [of "map (\<lambda>e. snd e - fst e) es"]
      by (auto simp: message_details_def write_record_def arr_set_def)
  next
    case False
    then show ?thesis
      using r s' idx assms(1) by (auto simp: message_details_def write_record_def padded_full)
  qed
qed

lemma run_message_details:
  assumes "run_opt record_pair initialised_stats es = Some s" and "length es < 2 ^ 64"
  shows "message_details es s"
  using assms
proof (induction es arbitrary: s rule: rev_induct)
  case Nil
  then show ?case
    by (auto simp: message_details_def initialised_stats_def zeroed_stats_def padded_Nil)
next
  case (snoc e es)
  then obtain s1 where s1: "run_opt record_pair initialised_stats es = Some s1"
    and "record_pair s1 e = Some s"
    by (auto simp: run_opt_append split: option.splits)
  moreover have "wf_stats s1" using rml.run_keeps [OF _ s1] by simp
  ultimately show ?case using snoc by (intro message_details_step [of es s1]) auto
qed

text \<open>
  The message the minimum was recorded for: the first one whose latency no message undercuts.
  As long as no latency was below the initial value there is none.
\<close>

definition first_minimum :: "(u64 \<times> u64) list \<Rightarrow> nat \<Rightarrow> bool" where
  "first_minimum es i \<longleftrightarrow> i < length es \<and>
     (\<forall>j<length es. snd (es ! i) - fst (es ! i) \<le> snd (es ! j) - fst (es ! j)) \<and>
     (\<forall>j<i. snd (es ! i) - fst (es ! i) < snd (es ! j) - fst (es ! j))"

definition minimum_details :: "(u64 \<times> u64) list \<Rightarrow> performance_stats \<Rightarrow> bool" where
  "minimum_details es s \<longleftrightarrow>
     min_latency (counters s) = UINT64_MAX \<and> (\<forall>e \<in> set es. snd e - fst e = UINT64_MAX) \<or>
     (\<exists>i. first_minimum es i \<and> min_latency (counters s) = snd (es ! i) - fst (es ! i) \<and>
        min_latency_message_index s = of_nat (Suc i) \<and>
        min_latency_send_time s = fst (es ! i) \<and> min_latency_receive_time s = snd (es ! i))"

lemma minimum_details_below:
  "minimum_details es s \<Longrightarrow> e \<in> set es \<Longrightarrow> min_latency (counters s) \<le> snd e - fst e"
proof -
  assume d: "minimum_details es s" and "e \<in> set es"
  then obtain j where "j < length es" "es ! j = e" by (auto simp: in_set_conv_nth)
  with d show ?thesis by (auto simp: minimum_details_def first_minimum_def)
qed

lemma minimum_details_step:
  assumes "minimum_details es s" and "wf_stats s" and "message_count (counters s) = of_nat (length es)"
    and "record_pair s e = Some s'"
  shows "minimum_details (es @ [e]) s'"
proof (cases "new_minimum s (snd e - fst e)")
  case True
  have "min_latency (counters s') = snd e - fst e"
    and "min_latency_message_index s' = of_nat (Suc (length es))"
    and "min_latency_send_time s' = fst e" and "min_latency_receive_time s' = snd e"
    using record_message_latency_body_eq [OF assms(2), of "fst e" "snd e"] assms(3,4) True
    by (auto simp: new_minimum_def min_def)
  moreover have "snd e - fst e < snd (es ! j) - fst (es ! j)" if "j < length es" for j
    using minimum_details_below [OF assms(1) nth_mem [OF that]] True
    unfolding new_minimum_def by (rule less_le_trans [rotated])
  then have "first_minimum (es @ [e]) (length es)"
    by (auto simp: first_minimum_def nth_append less_Suc_eq less_imp_le)
  ultimately show ?thesis by (auto simp: minimum_details_def)
next
  case False
  then have s': "min_latency (counters s') = min_latency (counters s)"
    "min_latency_message_index s' = min_latency_message_index s"
    "min_latency_send_time s' = min_latency_send_time s"
    "min_latency_receive_time s' = min_latency_receive_time s"
    using record_message_latency_body_eq [OF assms(2), of "fst e" "snd e"] assms(4)
    by (auto simp: new_minimum_def min_def not_less)
  have e: "min_latency (counters s) \<le> snd e - fst e"
    using False by (simp add: new_minimum_def not_less)
  from assms(1) show ?thesis
    unfolding minimum_details_def
  proof (elim disjE exE conjE)
    assume "min_latency (counters s) = UINT64_MAX" "\<forall>e\<in>set es. snd e - fst e = UINT64_MAX"
    then show "min_latency (counters s') = UINT64_MAX \<and> (\<forall>e\<in>set (es @ [e]). snd e - fst e = UINT64_MAX) \<or>
      (\<exists>i. first_minimum (es @ [e]) i \<and> min_latency (counters s') = snd ((es @ [e]) ! i) - fst ((es @ [e]) ! i) \<and>
        min_latency_message_index s' = of_nat (Suc i) \<and>
        min_latency_send_time s' = fst ((es @ [e]) ! i) \<and> min_latency_receive_time s' = snd ((es @ [e]) ! i))"
      using s' e by (auto simp: word_order.extremum_unique)
  next
    fix i assume i: "first_minimum es i" "min_latency (counters s) = snd (es ! i) - fst (es ! i)"
      "min_latency_message_index s = of_nat (Suc i)" "min_latency_send_time s = fst (es ! i)"
      "min_latency_receive_time s = snd (es ! i)"
    then have "first_minimum (es @ [e]) i"
      using e by (auto simp: first_minimum_def nth_append less_Suc_eq)
    moreover have "(es @ [e]) ! i = es ! i" using i(1) by (simp add: first_minimum_def nth_append)
    ultimately show "min_latency (counters s') = UINT64_MAX \<and> (\<forall>e\<in>set (es @ [e]). snd e - fst e = UINT64_MAX) \<or>
      (\<exists>i. first_minimum (es @ [e]) i \<and> min_latency (counters s') = snd ((es @ [e]) ! i) - fst ((es @ [e]) ! i) \<and>
        min_latency_message_index s' = of_nat (Suc i) \<and>
        min_latency_send_time s' = fst ((es @ [e]) ! i) \<and> min_latency_receive_time s' = snd ((es @ [e]) ! i))"
      using s' i by auto
  qed
qed

lemma run_minimum_details:
  assumes "run_opt record_pair initialised_stats es = Some s" and "length es < 2 ^ 64"
  shows "minimum_details es s"
  using assms
proof (induction es arbitrary: s rule: rev_induct)
  case Nil
  then show ?case by (auto simp: minimum_details_def initialised_stats_def zeroed_stats_def)
next
  case (snoc e es)
  then obtain s1 where s1: "run_opt record_pair initialised_stats es = Some s1"
    and s: "record_pair s1 e = Some s"
    by (auto simp: run_opt_append split: option.splits)
  have len: "length es < 2 ^ 64" using snoc.prems by simp
  have "message_details es s1" by (rule run_message_details [OF s1 len])
  moreover have "wf_stats s1" using rml.run_keeps [OF _ s1] by simp
  ultimately show ?case
    using snoc.IH [OF s1 len] s by (intro minimum_details_step [of es s1]) (auto simp: message_details_def)
qed

lemma run_message_times:
  assumes "run_opt record_pair initialised_stats es = Some s" and "length es < 2 ^ 64" and "es \<noteq> []"
  shows "first_message_time s = snd (hd es) \<and> last_message_time s = snd (last es)"
  using assms
proof (induction es arbitrary: s rule: rev_induct)
  case (snoc e es)
  then obtain s1 where s1: "run_opt record_pair initialised_stats es = Some s1"
    and s: "record_pair s1 e = Some s"
    by (auto simp: run_opt_append split: option.splits)
  have len: "length es < 2 ^ 64" using snoc.prems by simp
  have "message_details es s1" by (rule run_message_details [OF s1 len])
  then have "unat (message_count (counters s1)) = length es"
    using len by (simp add: message_details_def unat_of_nat_u64)
  then have "message_count (counters s1) = 0 \<longleftrightarrow> es = []" by (auto simp: unat_eq_0)
  moreover have "wf_stats s1" using rml.run_keeps [OF _ s1] by simp
  ultimately show ?case
    using record_message_latency_body_eq [of s1 "fst e" "snd e"] s snoc.IH [OF s1 len]
    by (cases "es = []") auto
qed simp

text \<open>
  \<open>record_message_latency\<close> keeps the right details: after fewer than 2^64 messages into an
  initialised structure, the three record arrays hold the send times, receive times and latencies
  of the first thousand messages in order; the first and last message times are the receive times
  of the first and last message; and, unless every latency was the maximal value, the details of
  the minimum are the one-based index, the send and the receive time of the first message with the
  least latency.
\<close>

theorem record_message_latency_details:
  assumes "length es < 2 ^ 64" and "es \<noteq> []"
    and "run_opt record_message (snd (init_performance_stats (Some s0))) es = Some (Some s)"
    and "\<exists>e \<in> set es. snd e - fst e \<noteq> UINT64_MAX"
  shows "send_times (records s) = padded 1000 (map fst es) \<and>
    receive_times (records s) = padded 1000 (map snd es) \<and>
    latencies (records s) = padded 1000 (map (\<lambda>e. snd e - fst e) es) \<and>
    unat (recorded_count (records s)) = min (length es) 1000 \<and>
    first_message_time s = snd (hd es) \<and> last_message_time s = snd (last es) \<and>
    (\<exists>i. first_minimum es i \<and> min_latency (counters s) = snd (es ! i) - fst (es ! i) \<and>
       min_latency_message_index s = of_nat (Suc i) \<and>
       min_latency_send_time s = fst (es ! i) \<and> min_latency_receive_time s = snd (es ! i))"
proof -
  have run: "run_opt record_pair initialised_stats es = Some s"
    using assms(3) by (simp add: init_performance_stats_Some run_record_message)
  show ?thesis
    using run_message_details [OF run assms(1)] run_message_times [OF run assms(1,2)]
      run_minimum_details [OF run assms(1)] assms(4)
    by (auto simp: message_details_def minimum_details_def DETAILED_RECORD_COUNT_def)
qed

theorem record_message_latency_details_witness:
  "\<exists>s. run_opt record_message (snd (init_performance_stats (Some zeroed_stats))) [(10, 40), (20, 30)]
       = Some (Some s) \<and>
     send_times (records s) = padded 1000 [10, 20] \<and> min_latency (counters s) = 10 \<and>
     min_latency_message_index s = 2 \<and> min_latency_send_time s = 20"
proof -
  let ?es = "[(10, 40), (20, 30)] :: (u64 \<times> u64) list"
  obtain s where run: "run_opt record_message (snd (init_performance_stats (Some zeroed_stats))) ?es
      = Some (Some s)"
    using rml.run_total [of initialised_stats ?es]
    by (auto simp: init_performance_stats_Some run_record_message simp del: run_opt.simps)
  have h: "length ?es < 2 ^ 64" "?es \<noteq> []" "\<exists>e \<in> set ?es. snd e - fst e \<noteq> UINT64_MAX"
    by simp_all
  obtain i where i: "first_minimum ?es i" "min_latency (counters s) = snd (?es ! i) - fst (?es ! i)"
      "min_latency_message_index s = of_nat (Suc i)" "min_latency_send_time s = fst (?es ! i)"
    and t: "send_times (records s) = padded 1000 (map fst ?es)"
    using record_message_latency_details [OF h(1,2) run h(3)] by blast
  have "i = 1" using i(1) by (auto simp: first_minimum_def less_Suc_eq)
  then show ?thesis using run i t by auto
qed

end
