(* ===== verification/CLibrary.thy ===== *)
theory CLibrary
  imports Prelude
begin

text \<open>
  The parts of the C library the command line parser uses: \<open>atoi\<close> and \<open>atoll\<close>, and GNU
  \<open>getopt_long\<close> with permutation of the arguments (the behaviour when \<open>POSIXLY_CORRECT\<close> is
  not set and the option string starts neither with a plus nor with a minus sign).
\<close>

section \<open>Numbers\<close>

definition is_space :: "char \<Rightarrow> bool" where
  "is_space c \<longleftrightarrow> c \<in> {CHR 0x20, CHR 0x09, CHR 0x0A, CHR 0x0B, CHR 0x0C, CHR 0x0D}"

definition digit_value :: "char \<Rightarrow> nat option" where
  "digit_value c = (let n = of_char c in if 48 \<le> n \<and> n \<le> (57 :: nat) then Some (n - 48) else None)"

fun digits_value :: "int \<Rightarrow> string \<Rightarrow> int" where
  "digits_value acc [] = acc"
| "digits_value acc (c # cs) =
     (case digit_value c of None \<Rightarrow> acc | Some d \<Rightarrow> digits_value (acc * 10 + int d) cs)"

text \<open>
  \<open>strtol\<close> and \<open>strtoll\<close> in base ten on a 64-bit system: leading white space, an optional
  sign, digits up to the first other character, clamped to the range of the result type.
\<close>

definition strtoll :: "string \<Rightarrow> int" where
  "strtoll s =
     (let t = dropWhile is_space s;
          v = (case t of
                 [] \<Rightarrow> 0
               | c # cs \<Rightarrow> if c = CHR ''-'' then - digits_value 0 cs
                           else if c = CHR ''+'' then digits_value 0 cs else digits_value 0 t)
      in max (- (2 ^ 63)) (min (2 ^ 63 - 1) v))"

text \<open>\<open>atoi\<close> is \<open>strtol\<close> converted to a 32-bit \<open>int\<close>.\<close>

definition atoi :: "string \<Rightarrow> int" where
  "atoi s = sint (word_of_int (strtoll s) :: u32)"

definition atoll :: "string \<Rightarrow> int" where
  "atoll s = strtoll s"

section \<open>getopt_long\<close>

datatype has_arg = no_argument | required_argument

type_synonym long_option = "string \<times> has_arg \<times> char"

text \<open>The scanner's position: the rest of a cluster of short options, and the arguments to come.\<close>

type_synonym scan = "string \<times> string list"

datatype getopt_result = Opt char "string option" | Bad_option | Done

fun short_lookup :: "string \<Rightarrow> char \<Rightarrow> has_arg option" where
  "short_lookup [] c = None"
| "short_lookup (x # xs) c =
     (if c = CHR '':'' \<or> c = CHR '';'' then None
      else if x = c
      then Some (case xs of y # _ \<Rightarrow> (if y = CHR '':'' then required_argument else no_argument)
                          | [] \<Rightarrow> no_argument)
      else short_lookup xs c)"

text \<open>One short option \<open>c\<close>, with the rest of its cluster and the arguments after it.\<close>

definition getopt_short :: "string \<Rightarrow> char \<Rightarrow> scan \<Rightarrow> getopt_result \<times> scan" where
  "getopt_short optstring c st =
     (case short_lookup optstring c of
        None \<Rightarrow> (Bad_option, st)
      | Some no_argument \<Rightarrow> (Opt c None, st)
      | Some required_argument \<Rightarrow>
          (case st of
             ([], []) \<Rightarrow> (Bad_option, [], [])
           | ([], a # args) \<Rightarrow> (Opt c (Some a), [], args)
           | (cluster, args) \<Rightarrow> (Opt c (Some cluster), [], args)))"

text \<open>
  The long option a name stands for: an exact match, or else the only option it abbreviates; options
  that agree in everything but their names do not make an abbreviation ambiguous.
\<close>

definition long_lookup :: "long_option list \<Rightarrow> string \<Rightarrow> long_option option" where
  "long_lookup longopts name =
     (case filter (\<lambda>(n, _). n = name) longopts of
        o1 # _ \<Rightarrow> Some o1
      | [] \<Rightarrow>
          (case filter (\<lambda>(n, _). take (length name) n = name) longopts of
             [] \<Rightarrow> None
           | o1 # os \<Rightarrow> if list_all (\<lambda>o2. snd o2 = snd o1) os then Some o1 else None))"

text \<open>
  A long option that was found, with what follows its name in the same word (nothing, or an equals
  sign and the argument).
\<close>

definition long_argument ::
  "has_arg \<Rightarrow> char \<Rightarrow> string \<Rightarrow> string list \<Rightarrow> getopt_result \<times> scan" where
  "long_argument has v after args =
     (case has of
        no_argument \<Rightarrow>
          (if after = [] then (Opt v None, [], args) else (Bad_option, [], args))
      | required_argument \<Rightarrow>
          (if after \<noteq> [] then (Opt v (Some (tl after)), [], args)
           else case args of
                  [] \<Rightarrow> (Bad_option, [], [])
                | a # args' \<Rightarrow> (Opt v (Some a), [], args')))"

text \<open>A long option, given without its two dashes.\<close>

definition getopt_long_name ::
  "long_option list \<Rightarrow> string \<Rightarrow> string list \<Rightarrow> getopt_result \<times> scan" where
  "getopt_long_name longopts word args =
     (case long_lookup longopts (takeWhile (\<lambda>c. c \<noteq> CHR ''='') word) of
        None \<Rightarrow> (Bad_option, [], args)
      | Some (_, has, v) \<Rightarrow> long_argument has v (dropWhile (\<lambda>c. c \<noteq> CHR ''='') word) args)"

fun getopt_long :: "string \<Rightarrow> long_option list \<Rightarrow> scan \<Rightarrow> getopt_result \<times> scan" where
  "getopt_long optstring longopts (c # cluster, args) = getopt_short optstring c (cluster, args)"
| "getopt_long optstring longopts ([], []) = (Done, [], [])"
| "getopt_long optstring longopts ([], a # args) =
     (if a = ''--'' then (Done, [], args)
      else if take 2 a = ''--'' then getopt_long_name longopts (drop 2 a) args
      else if take 1 a = ''-'' \<and> a \<noteq> ''-'' then getopt_short optstring (a ! 1) (drop 2 a, args)
      else getopt_long optstring longopts ([], args))"

text \<open>Every call that returns an option makes progress, so a loop over the options ends.\<close>

definition scan_size :: "scan \<Rightarrow> nat" where
  "scan_size st = length (fst st) + sum_list (map (\<lambda>a. Suc (length a)) (snd st))"

lemma getopt_short_size:
  "getopt_short optstring c st = (r, st') \<Longrightarrow> scan_size st' \<le> scan_size st"
  by (auto simp: getopt_short_def scan_size_def split: option.splits has_arg.splits prod.splits list.splits)

lemma long_argument_size:
  "long_argument has v after args = (r, st') \<Longrightarrow>
   scan_size st' \<le> sum_list (map (\<lambda>a. Suc (length a)) args)"
  by (cases args)
    (auto simp: long_argument_def scan_size_def split: has_arg.splits if_splits)

lemma getopt_long_name_size:
  "getopt_long_name longopts w args = (r, st') \<Longrightarrow>
   scan_size st' \<le> sum_list (map (\<lambda>a. Suc (length a)) args)"
proof -
  assume r: "getopt_long_name longopts w args = (r, st')"
  show ?thesis
  proof (cases "long_lookup longopts (takeWhile (\<lambda>c. c \<noteq> CHR ''='') w)")
    case None
    with r have "st' = ([], args)" by (simp add: getopt_long_name_def)
    then show ?thesis by (simp add: scan_size_def)
  next
    case (Some p)
    obtain n h v where p: "p = (n, h, v)" by (cases p)
    with r Some show ?thesis
      unfolding getopt_long_name_def Some p option.case prod.case by (intro long_argument_size)
  qed
qed

lemma getopt_long_decreases:
  "getopt_long optstring longopts st = (r, st') \<Longrightarrow> r \<noteq> Done \<Longrightarrow> scan_size st' < scan_size st"
proof (induction optstring longopts st rule: getopt_long.induct)
  case (1 optstring longopts c cluster args)
  then show ?case using getopt_short_size by (fastforce simp: scan_size_def)
next
  case (2 optstring longopts)
  then show ?case by simp
next
  case (3 optstring longopts a args)
  consider "take 2 a = ''--''" "a \<noteq> ''--''" | "take 2 a \<noteq> ''--''" "take 1 a = ''-''" "a \<noteq> ''-''"
    | "a = ''--''" | "take 1 a \<noteq> ''-'' \<or> a = ''-''" "a \<noteq> ''--''" "take 2 a \<noteq> ''--''"
    by blast
  then show ?case
  proof cases
    case 1
    then show ?thesis using "3.prems" getopt_long_name_size [of longopts "drop 2 a" args r st']
      by (auto simp: scan_size_def)
  next
    case 2
    moreover from 2 have "a \<noteq> ''--''" by auto
    ultimately have "getopt_short optstring (a ! 1) (drop 2 a, args) = (r, st')"
      using "3.prems" by (simp del: One_nat_def)
    from getopt_short_size [OF this] show ?thesis by (simp add: scan_size_def)
  next
    case 3
    then show ?thesis using "3.prems" by simp
  next
    case 4
    then have "scan_size st' < scan_size ([], args)" using "3.IH" "3.prems" by auto
    then show ?thesis by (simp add: scan_size_def)
  qed
qed

lemma short_lookup_colon [simp]: "short_lookup os (CHR '':'') = None"
  by (induction os) auto

text \<open>A short option with its argument as the next word, or joined to it.\<close>

lemma getopt_separate:
  "short_lookup optstring c = Some required_argument \<Longrightarrow> c \<noteq> CHR ''-'' \<Longrightarrow>
   getopt_long optstring longopts ([], [CHR ''-'', c] # v # args) = (Opt c (Some v), [], args)"
  by (simp add: getopt_short_def)

lemma getopt_joined:
  "short_lookup optstring c = Some required_argument \<Longrightarrow> c \<noteq> CHR ''-'' \<Longrightarrow> v \<noteq> [] \<Longrightarrow>
   getopt_long optstring longopts ([], (CHR ''-'' # c # v) # args) = (Opt c (Some v), [], args)"
  by (cases v) (simp_all add: getopt_short_def)

text \<open>A word that does not start with a dash is not an option.\<close>

lemma getopt_skip:
  "take 1 a \<noteq> ''-'' \<Longrightarrow> getopt_long optstring longopts ([], a # args) =
     getopt_long optstring longopts ([], args)"
  by (cases a) auto

text \<open>A long option with its argument after an equals sign, or as the next word.\<close>

lemma split_at_equals:
  assumes "CHR ''='' \<notin> set name"
  shows "takeWhile (\<lambda>c. c \<noteq> CHR ''='') (name @ ''='' @ v) = name"
    and "dropWhile (\<lambda>c. c \<noteq> CHR ''='') (name @ ''='' @ v) = ''='' @ v"
    and "takeWhile (\<lambda>c. c \<noteq> CHR ''='') name = name" and "dropWhile (\<lambda>c. c \<noteq> CHR ''='') name = []"
  using assms by (induction name) auto

lemma getopt_long_equals:
  assumes "long_lookup longopts name = Some (full, required_argument, opt)" and "CHR ''='' \<notin> set name"
  shows "getopt_long optstring longopts ([], (''--'' @ name @ ''='' @ v) # args) = (Opt opt (Some v), [], args)"
proof -
  have "getopt_long optstring longopts ([], (''--'' @ name @ ''='' @ v) # args)
      = getopt_long_name longopts (name @ ''='' @ v) args"
    by simp
  also have "\<dots> = (Opt opt (Some v), [], args)"
    unfolding getopt_long_name_def split_at_equals [OF assms(2)] assms(1)
    by (simp add: long_argument_def)
  finally show ?thesis .
qed

lemma getopt_long_separate:
  assumes "long_lookup longopts name = Some (full, required_argument, opt)"
    and "CHR ''='' \<notin> set name" and "name \<noteq> []"
  shows "getopt_long optstring longopts ([], (''--'' @ name) # v # args) = (Opt opt (Some v), [], args)"
proof -
  have "getopt_long optstring longopts ([], (''--'' @ name) # v # args)
      = getopt_long_name longopts name (v # args)"
    using assms(3) by simp
  also have "\<dots> = (Opt opt (Some v), [], args)"
    unfolding getopt_long_name_def split_at_equals [OF assms(2)] assms(1)
    by (simp add: long_argument_def)
  finally show ?thesis .
qed

end
