(* ===== verification/ConfigParser.thy ===== *)
theory ConfigParser
  imports CLibrary PerformanceStats
begin

text \<open>
  \<open>include/common_types.h\<close> and \<open>src/config_parser.c\<close>: the configuration structure, its
  defaults, the environment, the command lines of the two programs, validation, and the channel the
  configuration stands for. A configuration that is about to be filled in may hold anything, as the
  uninitialised variable of \<open>main\<close> does; its character arrays have the sizes of their types
  (\<open>wf_config\<close>). What is only printed is left out.
\<close>

section \<open>The configuration\<close>

text \<open>The last constructor stands for the values outside of the enumeration.\<close>

datatype transport_type =
  TRANSPORT_UDP | TRANSPORT_IPC | TRANSPORT_NETWORK_UDP | TRANSPORT_OUT_OF_RANGE

record config =
  transport :: transport_type
  channel :: "char list"
  custom_endpoint :: "char list"
  aeron_dir :: "char list"
  stream_id :: int
  message_size :: u64
  config_message_count :: u64
  target_message_count :: u64
  fragment_limit :: int

definition wf_config :: "config \<Rightarrow> bool" where
  "wf_config c \<longleftrightarrow>
     length (channel c) = 256 \<and> length (custom_endpoint c) = 64 \<and> length (aeron_dir c) = 256"

definition DEFAULT_CHANNEL :: string where
  "DEFAULT_CHANNEL = ''aeron:udp?endpoint=localhost:20121''"

abbreviation (input) DEFAULT_STREAM_ID :: int where "DEFAULT_STREAM_ID \<equiv> 1001"
abbreviation (input) DEFAULT_MESSAGE_SIZE :: u64 where "DEFAULT_MESSAGE_SIZE \<equiv> 1024"
abbreviation (input) DEFAULT_MESSAGE_COUNT :: u64 where "DEFAULT_MESSAGE_COUNT \<equiv> 1000000"
abbreviation (input) DEFAULT_TARGET_MESSAGE_COUNT :: u64 where
  "DEFAULT_TARGET_MESSAGE_COUNT \<equiv> 20000000"
abbreviation (input) DEFAULT_FRAGMENT_LIMIT :: int where "DEFAULT_FRAGMENT_LIMIT \<equiv> 10"
abbreviation (input) MIN_SIZE :: u64 where "MIN_SIZE \<equiv> 8"

text \<open>\<open>strncpy (a, s, sizeof (a) - 1); a[sizeof (a) - 1] = 0\<close>.\<close>

definition copy_string :: "char list \<Rightarrow> string \<Rightarrow> char list" where
  "copy_string a s = (strncpy a s (length a - 1))[length a - 1 := NUL]"

definition set_default_config :: "config \<Rightarrow> config" where
  "set_default_config c = c
     \<lparr>transport := TRANSPORT_UDP,
      channel := copy_string (channel c) DEFAULT_CHANNEL,
      custom_endpoint := (custom_endpoint c)[0 := NUL],
      aeron_dir := (aeron_dir c)[0 := NUL],
      stream_id := DEFAULT_STREAM_ID,
      message_size := DEFAULT_MESSAGE_SIZE,
      config_message_count := DEFAULT_MESSAGE_COUNT,
      target_message_count := DEFAULT_TARGET_MESSAGE_COUNT,
      fragment_limit := DEFAULT_FRAGMENT_LIMIT\<rparr>"

text \<open>\<open>env\<close> is the value of \<open>AERON_DIR\<close> in the environment, when it is set.\<close>

definition load_config_from_env :: "string option \<Rightarrow> config \<Rightarrow> config" where
  "load_config_from_env env c =
     (case env of
        Some dir \<Rightarrow> c\<lparr>aeron_dir := copy_string (aeron_dir c) dir\<rparr>
      | None \<Rightarrow> c\<lparr>aeron_dir := copy_string (aeron_dir c) ''/dev/shm/aeron''\<rparr>)"

definition transport_type_to_string :: "transport_type \<Rightarrow> string" where
  "transport_type_to_string t =
     (case t of
        TRANSPORT_UDP \<Rightarrow> ''UDP''
      | TRANSPORT_IPC \<Rightarrow> ''IPC''
      | TRANSPORT_NETWORK_UDP \<Rightarrow> ''NETWORK_UDP''
      | TRANSPORT_OUT_OF_RANGE \<Rightarrow> ''UNKNOWN'')"

text \<open>
  The buffer is \<open>None\<close> for a null pointer; the result is the buffer written, or \<open>None\<close> when
  the function returns the null pointer.
\<close>

definition endpoint_set :: "config \<Rightarrow> bool" where
  "endpoint_set c \<longleftrightarrow> custom_endpoint c ! 0 \<noteq> NUL"

definition get_effective_channel ::
  "config option \<Rightarrow> char list option \<Rightarrow> nat \<Rightarrow> char list option" where
  "get_effective_channel config buffer buffer_size =
     (case (config, buffer) of
        (Some c, Some buf) \<Rightarrow>
          if buffer_size = 0 then None
          else Some (case transport c of
              TRANSPORT_UDP \<Rightarrow>
                (if endpoint_set c
                 then snprintf buf buffer_size
                        (''aeron:udp?endpoint='' @ c_str (custom_endpoint c) @ '':20121'')
                 else snprintf buf buffer_size ''aeron:udp?endpoint=localhost:20121'')
            | TRANSPORT_IPC \<Rightarrow> snprintf buf buffer_size ''aeron:ipc?term-length=1048576''
            | TRANSPORT_NETWORK_UDP \<Rightarrow>
                (if endpoint_set c
                 then snprintf buf buffer_size
                        (''aeron:udp?endpoint='' @ c_str (custom_endpoint c) @ '':20121'')
                 else snprintf buf buffer_size ''aeron:udp?endpoint=localhost:20121'')
            | TRANSPORT_OUT_OF_RANGE \<Rightarrow>
                snprintf buf buffer_size ''aeron:udp?endpoint=localhost:20121'')
      | _ \<Rightarrow> None)"

definition validate_config :: "config option \<Rightarrow> int" where
  "validate_config config =
     (case config of
        None \<Rightarrow> ERROR_INVALID_PARAM
      | Some c \<Rightarrow>
          if message_size c < MIN_SIZE then ERROR_INVALID_PARAM
          else if config_message_count c = 0 \<or> target_message_count c = 0 then ERROR_INVALID_PARAM
          else if transport c = TRANSPORT_NETWORK_UDP \<and> custom_endpoint c ! 0 = NUL
          then ERROR_INVALID_PARAM
          else ERROR_SUCCESS)"

section \<open>The command lines\<close>

text \<open>The value of an option's transport argument, \<open>None\<close> for an invalid one.\<close>

definition transport_of_string :: "string \<Rightarrow> transport_type option" where
  "transport_of_string s =
     (if s = ''UDP'' \<or> s = ''udp'' then Some TRANSPORT_UDP
      else if s = ''IPC'' \<or> s = ''ipc'' then Some TRANSPORT_IPC
      else if s = ''NETWORK_UDP'' \<or> s = ''network_udp'' then Some TRANSPORT_NETWORK_UDP
      else None)"

definition publisher_long_options :: "long_option list" where
  "publisher_long_options =
     [(''size'', required_argument, CHR ''s''), (''count'', required_argument, CHR ''c''),
      (''transport'', required_argument, CHR ''t''), (''bind'', required_argument, CHR ''b''),
      (''listen'', required_argument, CHR ''l''), (''endpoint'', required_argument, CHR ''e''),
      (''ip'', required_argument, CHR ''i''), (''help'', no_argument, CHR ''h'')]"

definition publisher_optstring :: string where
  "publisher_optstring = ''s:c:t:b:l:e:i:h''"

definition subscriber_long_options :: "long_option list" where
  "subscriber_long_options =
     [(''count'', required_argument, CHR ''c''), (''transport'', required_argument, CHR ''t''),
      (''connect'', required_argument, CHR ''o''), (''endpoint'', required_argument, CHR ''e''),
      (''ip'', required_argument, CHR ''i''), (''help'', no_argument, CHR ''h'')]"

definition subscriber_optstring :: string where
  "subscriber_optstring = ''c:t:o:e:i:h''"

text \<open>
  The body of the option loop: a return code to stop with, or the configuration to go on with. An
  option of the option strings that takes an argument always has one.
\<close>

definition set_endpoint :: "config \<Rightarrow> string \<Rightarrow> config" where
  "set_endpoint c s = c\<lparr>custom_endpoint := copy_string (custom_endpoint c) s\<rparr>"

definition set_transport :: "config \<Rightarrow> string \<Rightarrow> int + config" where
  "set_transport c s =
     (case transport_of_string s of
        Some t \<Rightarrow> Inr (c\<lparr>transport := t\<rparr>)
      | None \<Rightarrow> Inl ERROR_INVALID_PARAM)"

definition publisher_option :: "config \<Rightarrow> char \<Rightarrow> string \<Rightarrow> int + config" where
  "publisher_option c opt optarg =
     (if opt = CHR ''s'' then Inr (c\<lparr>message_size := word_of_int (atoi optarg)\<rparr>)
      else if opt = CHR ''c'' then Inr (c\<lparr>config_message_count := word_of_int (atoll optarg)\<rparr>)
      else if opt = CHR ''t'' then set_transport c optarg
      else if opt = CHR ''b'' \<or> opt = CHR ''l'' \<or> opt = CHR ''e'' \<or> opt = CHR ''i''
      then Inr (set_endpoint c optarg)
      else if opt = CHR ''h'' then Inl 1
      else Inl ERROR_INVALID_PARAM)"

definition subscriber_option :: "config \<Rightarrow> char \<Rightarrow> string \<Rightarrow> int + config" where
  "subscriber_option c opt optarg =
     (if opt = CHR ''c'' then Inr (c\<lparr>target_message_count := word_of_int (atoll optarg)\<rparr>)
      else if opt = CHR ''t'' then set_transport c optarg
      else if opt = CHR ''o'' \<or> opt = CHR ''e'' \<or> opt = CHR ''i''
      then Inr (set_endpoint c optarg)
      else if opt = CHR ''h'' then Inl 1
      else Inl ERROR_INVALID_PARAM)"

text \<open>
  The option loop: the return code and the configuration as it is then, or the configuration after
  the last option. An unknown option goes to the default case of the switch.
\<close>

function option_loop ::
  "string \<Rightarrow> long_option list \<Rightarrow> (config \<Rightarrow> char \<Rightarrow> string \<Rightarrow> int + config) \<Rightarrow> scan \<Rightarrow> config
   \<Rightarrow> (int \<times> config) + config" where
  "option_loop optstring longopts handle st c =
     (case getopt_long optstring longopts st of
        (Done, _) \<Rightarrow> Inr c
      | (Bad_option, _) \<Rightarrow> Inl (ERROR_INVALID_PARAM, c)
      | (Opt opt optarg, st') \<Rightarrow>
          (case handle c opt (case optarg of None \<Rightarrow> [] | Some a \<Rightarrow> a) of
             Inl code \<Rightarrow> Inl (code, c)
           | Inr c' \<Rightarrow> option_loop optstring longopts handle st' c'))"
  by pat_completeness auto
termination
  by (relation "measure (\<lambda>(_, _, _, st, _). scan_size st)")
    (auto dest: getopt_long_decreases [OF sym])

declare option_loop.simps [simp del]

definition finish_parse :: "(int \<times> config) + config \<Rightarrow> int \<times> config" where
  "finish_parse r = (case r of Inl (code, c) \<Rightarrow> (code, c) | Inr c \<Rightarrow> (validate_config (Some c), c))"

text \<open>The arguments are those after the program name.\<close>

definition parse_publisher_args ::
  "string option \<Rightarrow> string list \<Rightarrow> config option \<Rightarrow> int \<times> config option" where
  "parse_publisher_args env args config =
     (case config of
        None \<Rightarrow> (ERROR_INVALID_PARAM, None)
      | Some c \<Rightarrow>
          (let c = load_config_from_env env (set_default_config c);
               (code, c) = finish_parse
                 (option_loop publisher_optstring publisher_long_options publisher_option ([], args) c)
           in (code, Some c)))"

definition parse_subscriber_args ::
  "string option \<Rightarrow> string list \<Rightarrow> config option \<Rightarrow> int \<times> config option" where
  "parse_subscriber_args env args config =
     (case config of
        None \<Rightarrow> (ERROR_INVALID_PARAM, None)
      | Some c \<Rightarrow>
          (let c = load_config_from_env env (set_default_config c);
               (code, c) = finish_parse
                 (option_loop subscriber_optstring subscriber_long_options subscriber_option ([], args) c)
           in (code, Some c)))"

end
