(* ===== verification/ConfigProperties.thy ===== *)
theory ConfigProperties
  imports ConfigParser
begin

text \<open>
  Properties of the command line parsers. The two option switches share a contract with the option
  loop, the locale \<open>option_switch\<close>: what a switch may change, and the codes it stops with.
\<close>

section \<open>Strings in the configuration\<close>

lemma c_str_copy_string:
  "is_c_string s \<Longrightarrow> 0 < length a \<Longrightarrow> c_str (copy_string a s) = take (length a - 1) s"
  unfolding copy_string_def by (rule c_str_strncpy_terminate) auto

text \<open>The same for any character list, of which C sees the part in front of the first NUL.\<close>

lemma c_str_take: "c_str (take n s) = take n (c_str s)"
proof (induction s arbitrary: n)
  case (Cons a s)
  then show ?case by (cases n) (simp_all add: c_str_def)
qed (simp add: c_str_def)

lemma copy_string_shape:
  assumes "length a = Suc n"
  shows "\<exists>rest. copy_string a s = take n s @ NUL # rest"
proof -
  have "length (drop n a) = Suc 0" using assms by simp
  then obtain d where "drop n a = [d]" by (auto simp: length_Suc_conv simp del: length_drop)
  then have "copy_string a s = take n s @ take (n - length s) (replicate n NUL) @ [NUL]"
    using assms by (auto simp: copy_string_def strncpy_def list_update_append min_def)
  moreover have "\<exists>rest. take (n - length s) (replicate n NUL) @ [NUL] = NUL # rest" by (cases "n - length s") auto
  ultimately show ?thesis by auto
qed

lemma c_str_copy_any: "length a = Suc n \<Longrightarrow> c_str (copy_string a s) = take n (c_str s)"
proof -
  assume "length a = Suc n"
  then obtain rest where "copy_string a s = take n s @ NUL # rest" using copy_string_shape by blast
  then have "c_str (copy_string a s) = c_str (take n s)" by (simp add: c_str_def takeWhile_append takeWhile_eq_all_conv [THEN iffD2])
  then show ?thesis by (simp add: c_str_take)
qed

lemma copy_string_terminated: "0 < length a \<Longrightarrow> NUL \<in> set (copy_string a s)"
  using copy_string_shape [of a "length a - 1" s] by auto

lemma length_copy_string [simp]: "length (copy_string a s) = length a"
  by (simp add: copy_string_def length_strncpy)

lemma first_char_c_str: "0 < length a \<Longrightarrow> a ! 0 = NUL \<longleftrightarrow> c_str a = []"
  by (cases a) (auto simp: c_str_def)

text \<open>The fields no command line option touches.\<close>

definition same_fixed :: "config \<Rightarrow> config \<Rightarrow> bool" where
  "same_fixed c c' \<longleftrightarrow> stream_id c' = stream_id c \<and> fragment_limit c' = fragment_limit c \<and>
     aeron_dir c' = aeron_dir c \<and> channel c' = channel c"

lemma same_fixed_trans [trans]: "same_fixed a b \<Longrightarrow> same_fixed b c \<Longrightarrow> same_fixed a c"
  by (simp add: same_fixed_def)

section \<open>The options of a command line\<close>

text \<open>The options \<open>getopt_long\<close> finds, with their arguments, or \<open>None\<close> when it finds one it does not know.\<close>

function options_given :: "string \<Rightarrow> long_option list \<Rightarrow> scan \<Rightarrow> (char \<times> string) list option" where
  "options_given optstring longopts st =
     (case getopt_long optstring longopts st of
        (Done, _) \<Rightarrow> Some []
      | (Bad_option, _) \<Rightarrow> None
      | (Opt opt optarg, st') \<Rightarrow>
          map_option (Cons (opt, case optarg of None \<Rightarrow> [] | Some a \<Rightarrow> a)) (options_given optstring longopts st'))"
  by pat_completeness auto
termination
  by (relation "measure (\<lambda>(_, _, st). scan_size st)") (auto dest: getopt_long_decreases [OF sym])

declare options_given.simps [simp del]

text \<open>The argument of the last option with one of the letters \<open>P\<close>.\<close>

fun last_value :: "(char \<Rightarrow> bool) \<Rightarrow> (char \<times> string) list \<Rightarrow> string option" where
  "last_value P [] = None"
| "last_value P ((opt, v) # os) = (case last_value P os of None \<Rightarrow> if P opt then Some v else None | Some w \<Rightarrow> Some w)"

text \<open>Options handled one after the other; the first that is refused ends it.\<close>

fun handle_all :: "(config \<Rightarrow> char \<Rightarrow> string \<Rightarrow> int + config) \<Rightarrow> config \<Rightarrow> (char \<times> string) list \<Rightarrow> int + config" where
  "handle_all handle c [] = Inr c"
| "handle_all handle c ((opt, v) # os) = (case handle c opt v of Inl code \<Rightarrow> Inl code | Inr c' \<Rightarrow> handle_all handle c' os)"

lemma loop_handles_all:
  "option_loop optstring longopts handle st c = Inr c' \<Longrightarrow>
   \<exists>os. options_given optstring longopts st = Some os \<and> handle_all handle c os = Inr c'"
proof (induction "scan_size st" arbitrary: st c rule: less_induct)
  case less
  obtain g st' where g: "getopt_long optstring longopts st = (g, st')" by (cases "getopt_long optstring longopts st")
  show ?case
  proof (cases g)
    case (Opt opt optarg)
    let ?a = "case optarg of None \<Rightarrow> [] | Some a \<Rightarrow> a"
    obtain c1 where c1: "handle c opt ?a = Inr c1" "option_loop optstring longopts handle st' c1 = Inr c'"
      using less.prems g Opt by (auto simp: option_loop.simps [of _ _ _ st] split: sum.splits)
    have "scan_size st' < scan_size st" using getopt_long_decreases [OF g] Opt by simp
    from less.hyps [OF this c1(2)] obtain os where "options_given optstring longopts st' = Some os" "handle_all handle c1 os = Inr c'"
      by blast
    then show ?thesis using g Opt c1(1) by (intro exI [of _ "(opt, ?a) # os"]) (simp add: options_given.simps [of _ _ st])
  qed (use less.prems g in \<open>simp_all add: option_loop.simps [of _ _ _ st] options_given.simps [of _ _ st]\<close>)
qed

text \<open>A field that the options with the letters \<open>P\<close> set and no other changes holds what the last of them gave it.\<close>

lemma handle_all_field:
  assumes "\<And>c opt v c'. I c \<Longrightarrow> handle c opt v = Inr c' \<Longrightarrow> I c' \<and> fld c' = (if P opt then g v else fld c)"
  shows "I c \<Longrightarrow> handle_all handle c os = Inr c' \<Longrightarrow>
    I c' \<and> fld c' = (case last_value P os of None \<Rightarrow> fld c | Some v \<Rightarrow> g v)"
proof (induction os arbitrary: c)
  case (Cons x os)
  obtain opt v where x: "x = (opt, v)" by (cases x)
  then obtain c1 where c1: "handle c opt v = Inr c1" "handle_all handle c1 os = Inr c'" using Cons.prems(2) by (auto split: sum.splits)
  have s: "I c1" "fld c1 = (if P opt then g v else fld c)" using assms [OF Cons.prems(1) c1(1)] by simp_all
  then show ?case using Cons.IH [OF s(1) c1(2)] by (cases "last_value P os") (auto simp: x)
qed simp

lemma handle_all_keeps:
  assumes "\<And>c opt v c'. I c \<Longrightarrow> handle c opt v = Inr c' \<Longrightarrow> I c'"
  shows "I c \<Longrightarrow> handle_all handle c os = Inr c' \<Longrightarrow> I c'"
proof (induction os arbitrary: c)
  case (Cons x os)
  obtain opt v where x: "x = (opt, v)" by (cases x)
  then obtain c1 where c1: "handle c opt v = Inr c1" "handle_all handle c1 os = Inr c'" using Cons.prems(2) by (auto split: sum.splits)
  from Cons.IH [OF assms [OF Cons.prems(1) c1(1)] c1(2)] show ?case .
qed simp

lemma handle_all_accepted: "handle_all handle c os = Inr c' \<Longrightarrow> (opt, v) \<in> set os \<Longrightarrow> \<exists>c1 c2. handle c1 opt v = Inr c2"
proof (induction os arbitrary: c)
  case (Cons x os)
  then show ?case by (cases x) (auto split: sum.splits)
qed simp

section \<open>The contract of an option switch\<close>

locale option_switch =
  fixes optstring :: string
    and longopts :: "long_option list"
    and handle :: "config \<Rightarrow> char \<Rightarrow> string \<Rightarrow> int + config"
  assumes handle_wf: "wf_config c \<Longrightarrow> handle c opt arg = Inr c' \<Longrightarrow> wf_config c'"
    and handle_fixed: "handle c opt arg = Inr c' \<Longrightarrow> same_fixed c c'"
    and handle_transport: "handle c opt arg = Inr c' \<Longrightarrow> transport c \<noteq> TRANSPORT_OUT_OF_RANGE \<Longrightarrow>
          transport c' \<noteq> TRANSPORT_OUT_OF_RANGE"
    and handle_code: "handle c opt arg = Inl code \<Longrightarrow> code = ERROR_INVALID_PARAM \<or> code = 1"
begin

text \<open>What every handled option keeps, the loop keeps, however it ends.\<close>

lemma loop_invariant:
  assumes "\<And>c opt arg c'. I c \<Longrightarrow> handle c opt arg = Inr c' \<Longrightarrow> I c'"
  shows "I c \<Longrightarrow> option_loop optstring longopts handle st c = r \<Longrightarrow>
   (case r of Inl (code, c') \<Rightarrow> (code = ERROR_INVALID_PARAM \<or> code = 1) \<and> I c' | Inr c' \<Rightarrow> I c')"
proof (induction "scan_size st" arbitrary: st c r rule: less_induct)
  case less
  obtain g st' where g: "getopt_long optstring longopts st = (g, st')"
    by (cases "getopt_long optstring longopts st")
  show ?case
  proof (cases g)
    case (Opt opt optarg)
    let ?a = "case optarg of None \<Rightarrow> [] | Some a \<Rightarrow> a"
    show ?thesis
    proof (cases "handle c opt ?a")
      case (Inl code)
      then show ?thesis using less.prems g Opt handle_code [OF Inl]
        by (auto simp: option_loop.simps [of _ _ _ st])
    next
      case (Inr c1)
      then have r: "option_loop optstring longopts handle st' c1 = r"
        using less.prems g Opt by (simp add: option_loop.simps [of _ _ _ st])
      have "scan_size st' < scan_size st" using getopt_long_decreases [OF g] Opt by simp
      from less.hyps [OF this assms [OF less.prems(1) Inr] r] show ?thesis .
    qed
  qed (use less.prems g in \<open>auto simp: option_loop.simps [of _ _ _ st]\<close>)
qed

lemma finish_invariant:
  assumes "\<And>c opt arg c'. I c \<Longrightarrow> handle c opt arg = Inr c' \<Longrightarrow> I c'" and "I c"
    and "finish_parse (option_loop optstring longopts handle st c) = (code, c')"
  shows "I c' \<and> (code = ERROR_INVALID_PARAM \<or> code = 1 \<or> code = validate_config (Some c'))"
proof (cases "option_loop optstring longopts handle st c")
  case (Inl p)
  then show ?thesis
    using loop_invariant [of I, OF assms(1,2) Inl] assms(3) by (auto simp: finish_parse_def)
next
  case (Inr c1)
  then show ?thesis
    using loop_invariant [of I, OF assms(1,2) Inr] assms(3) by (auto simp: finish_parse_def)
qed

lemma loop_keeps:
  assumes "wf_config c" and "transport c \<noteq> TRANSPORT_OUT_OF_RANGE"
    and "finish_parse (option_loop optstring longopts handle st c) = (code, c')"
  shows "wf_config c' \<and> same_fixed c c' \<and> transport c' \<noteq> TRANSPORT_OUT_OF_RANGE \<and>
    (code = ERROR_INVALID_PARAM \<or> code = 1 \<or> code = validate_config (Some c'))"
proof -
  let ?I = "\<lambda>c'. wf_config c' \<and> same_fixed c c' \<and> transport c' \<noteq> TRANSPORT_OUT_OF_RANGE"
  have "?I c" using assms(1,2) by (simp add: same_fixed_def)
  moreover have "?I c2" if "?I c1" "handle c1 opt arg = Inr c2" for c1 opt arg c2
    using that handle_wf handle_fixed handle_transport same_fixed_trans by blast
  ultimately show ?thesis using finish_invariant [of ?I, OF _ _ assms(3)] by blast
qed

lemma loop_option:
  "getopt_long optstring longopts st = (Opt opt (Some v), st') \<Longrightarrow>
   option_loop optstring longopts handle st c =
     (case handle c opt v of
        Inl code \<Rightarrow> Inl (code, c)
      | Inr c' \<Rightarrow> option_loop optstring longopts handle st' c')"
  by (simp add: option_loop.simps [of _ _ _ st])

lemma loop_same_scan:
  "getopt_long optstring longopts st1 = getopt_long optstring longopts st2 \<Longrightarrow>
   option_loop optstring longopts handle st1 c = option_loop optstring longopts handle st2 c"
  by (simp add: option_loop.simps [of _ _ _ st1] option_loop.simps [of _ _ _ st2])

text \<open>Options given as a letter and a separate value are handled one after the other.\<close>

lemmas loop_separate = loop_option [OF getopt_separate]

lemma loop_joined:
  "short_lookup optstring opt = Some required_argument \<Longrightarrow> opt \<noteq> CHR ''-'' \<Longrightarrow> v \<noteq> [] \<Longrightarrow>
   option_loop optstring longopts handle ([], (CHR ''-'' # opt # v) # args) c =
     option_loop optstring longopts handle ([], [CHR ''-'', opt] # v # args) c"
  by (rule loop_same_scan) (metis getopt_separate getopt_joined)

lemma loop_skip:
  "take 1 a \<noteq> ''-'' \<Longrightarrow>
   option_loop optstring longopts handle ([], a # args) c =
     option_loop optstring longopts handle ([], args) c"
  by (rule loop_same_scan) (rule getopt_skip)

lemma loop_end: "option_loop optstring longopts handle ([], []) c = Inr c"
  by (subst option_loop.simps) simp

text \<open>A long option in either form stands for its letter.\<close>

lemma loop_long:
  assumes "long_lookup longopts name = Some (full, required_argument, opt)"
    and "CHR ''='' \<notin> set name" and "name \<noteq> []"
    and "short_lookup optstring opt = Some required_argument" and "opt \<noteq> CHR ''-''"
  shows "option_loop optstring longopts handle ([], (''--'' @ name @ ''='' @ v) # args) c =
      option_loop optstring longopts handle ([], [CHR ''-'', opt] # v # args) c"
    and "option_loop optstring longopts handle ([], (''--'' @ name) # v # args) c =
      option_loop optstring longopts handle ([], [CHR ''-'', opt] # v # args) c"
proof -
  note sep = getopt_separate [OF assms(4,5), of longopts v args]
  show "option_loop optstring longopts handle ([], (''--'' @ name @ ''='' @ v) # args) c =
      option_loop optstring longopts handle ([], [CHR ''-'', opt] # v # args) c"
    by (rule loop_same_scan) (simp only: sep getopt_long_equals [OF assms(1,2)])
  show "option_loop optstring longopts handle ([], (''--'' @ name) # v # args) c =
      option_loop optstring longopts handle ([], [CHR ''-'', opt] # v # args) c"
    by (rule loop_same_scan) (simp only: sep getopt_long_separate [OF assms(1,2,3)])
qed

end

text \<open>What one option can do to the configuration.\<close>

lemma transport_of_string_range: "transport_of_string s \<noteq> Some TRANSPORT_OUT_OF_RANGE"
  by (simp add: transport_of_string_def)

lemma set_transport_Inr:
  "set_transport c a = Inr c' \<Longrightarrow> \<exists>t. t \<noteq> TRANSPORT_OUT_OF_RANGE \<and> c' = c\<lparr>transport := t\<rparr>"
  using transport_of_string_range [of a] by (auto simp: set_transport_def split: option.splits)

lemma set_transport_Inl: "set_transport c a = Inl code \<Longrightarrow> code = ERROR_INVALID_PARAM"
  by (auto simp: set_transport_def split: option.splits)

lemma publisher_option_Inr:
  "publisher_option c opt a = Inr c' \<Longrightarrow>
   (\<exists>n. c' = c\<lparr>message_size := n\<rparr>) \<or> (\<exists>n. c' = c\<lparr>config_message_count := n\<rparr>) \<or>
   (\<exists>t. t \<noteq> TRANSPORT_OUT_OF_RANGE \<and> c' = c\<lparr>transport := t\<rparr>) \<or> c' = set_endpoint c a"
  unfolding publisher_option_def by (fastforce dest: set_transport_Inr split: if_split_asm)

lemma subscriber_option_Inr:
  "subscriber_option c opt a = Inr c' \<Longrightarrow>
   (\<exists>n. c' = c\<lparr>target_message_count := n\<rparr>) \<or> (\<exists>t. t \<noteq> TRANSPORT_OUT_OF_RANGE \<and> c' = c\<lparr>transport := t\<rparr>) \<or> c' = set_endpoint c a"
  unfolding subscriber_option_def by (fastforce dest: set_transport_Inr split: if_split_asm)

lemma publisher_option_Inl:
  "publisher_option c opt a = Inl code \<Longrightarrow> code = ERROR_INVALID_PARAM \<or> code = 1"
  unfolding publisher_option_def by (auto dest: set_transport_Inl split: if_split_asm)

lemma subscriber_option_Inl:
  "subscriber_option c opt a = Inl code \<Longrightarrow> code = ERROR_INVALID_PARAM \<or> code = 1"
  unfolding subscriber_option_def by (auto dest: set_transport_Inl split: if_split_asm)

lemmas config_facts = set_endpoint_def same_fixed_def wf_config_def

interpretation pub: option_switch publisher_optstring publisher_long_options publisher_option
  by unfold_locales
    (auto simp: config_facts dest!: publisher_option_Inr publisher_option_Inl)

interpretation sub: option_switch subscriber_optstring subscriber_long_options subscriber_option
  by unfold_locales
    (auto simp: config_facts dest!: subscriber_option_Inr subscriber_option_Inl)

text \<open>The letters that take an argument.\<close>

lemma publisher_letters:
  "opt \<in> set ''sctblei'' \<Longrightarrow> short_lookup publisher_optstring opt = Some required_argument"
  by (auto simp: publisher_optstring_def)

lemma subscriber_letters:
  "opt \<in> set ''ctoei'' \<Longrightarrow> short_lookup subscriber_optstring opt = Some required_argument"
  by (auto simp: subscriber_optstring_def)

section \<open>Accepted configurations\<close>

lemma defaults_facts:
  assumes "wf_config c0"
  shows "wf_config (load_config_from_env env (set_default_config c0)) \<and>
    transport (load_config_from_env env (set_default_config c0)) \<noteq> TRANSPORT_OUT_OF_RANGE"
  using assms
  by (auto simp: load_config_from_env_def set_default_config_def wf_config_def split: option.splits)

text \<open>The fields the command line cannot change, as defaults and environment set them.\<close>

lemma fixed_from_defaults:
  assumes "wf_config c0" and "\<And>d. env = Some d \<Longrightarrow> is_c_string d"
    and "same_fixed (load_config_from_env env (set_default_config c0)) c"
  shows "stream_id c = 1001 \<and> fragment_limit c = 10 \<and>
    c_str (aeron_dir c) = take 255 (case env of Some d \<Rightarrow> d | None \<Rightarrow> ''/dev/shm/aeron'') \<and>
    c_str (channel c) = ''aeron:udp?endpoint=localhost:20121''"
proof -
  have "is_c_string DEFAULT_CHANNEL" "is_c_string ''/dev/shm/aeron''"
    by (simp_all add: is_c_string_def DEFAULT_CHANNEL_def)
  then show ?thesis
    using assms
    by (auto simp: same_fixed_def load_config_from_env_def set_default_config_def wf_config_def
        c_str_copy_string DEFAULT_CHANNEL_def split: option.splits)
qed

definition acceptable :: "config \<Rightarrow> bool" where
  "acceptable c \<longleftrightarrow> wf_config c \<and> transport c \<noteq> TRANSPORT_OUT_OF_RANGE \<and>
     8 \<le> message_size c \<and> config_message_count c \<noteq> 0 \<and> target_message_count c \<noteq> 0 \<and>
     (transport c = TRANSPORT_NETWORK_UDP \<longrightarrow> c_str (custom_endpoint c) \<noteq> [])"

lemma validate_acceptable:
  assumes "wf_config c" and "transport c \<noteq> TRANSPORT_OUT_OF_RANGE"
  shows "validate_config (Some c) = ERROR_SUCCESS \<longleftrightarrow> acceptable c"
  using assms first_char_c_str [of "custom_endpoint c"]
  by (auto simp: validate_config_def acceptable_def wf_config_def not_less)

text \<open>What the options of the publisher do to each field.\<close>

abbreviation endpoint_letter :: "char \<Rightarrow> bool" where
  "endpoint_letter opt \<equiv> opt \<in> {CHR ''b'', CHR ''l'', CHR ''e'', CHR ''i''}"

lemma publisher_option_cases:
  assumes "publisher_option c opt v = Inr c'"
  obtains "opt = CHR ''s''" "c' = c\<lparr>message_size := word_of_int (atoi v)\<rparr>"
  | "opt = CHR ''c''" "c' = c\<lparr>config_message_count := word_of_int (atoll v)\<rparr>"
  | t where "opt = CHR ''t''" "transport_of_string v = Some t" "c' = c\<lparr>transport := t\<rparr>"
  | "endpoint_letter opt" "c' = set_endpoint c v"
  using assms by (auto simp: publisher_option_def set_transport_def split: if_split_asm option.splits)

lemma publisher_fields:
  assumes "wf_config c" and "publisher_option c opt v = Inr c'"
  shows "wf_config c'"
    and "message_size c' = (if opt = CHR ''s'' then word_of_int (atoi v) else message_size c)"
    and "config_message_count c' = (if opt = CHR ''c'' then word_of_int (atoll v) else config_message_count c)"
    and "transport c' = (if opt = CHR ''t'' then the (transport_of_string v) else transport c)"
    and "c_str (custom_endpoint c') = (if endpoint_letter opt then take 63 (c_str v) else c_str (custom_endpoint c))"
    and "NUL \<in> set (custom_endpoint c) \<Longrightarrow> NUL \<in> set (custom_endpoint c')"
    and "target_message_count c' = target_message_count c"
  using copy_string_terminated [of "custom_endpoint c" v] c_str_copy_any [of "custom_endpoint c" 63 v] assms(1)
  by (cases rule: publisher_option_cases [OF assms(2)]; auto simp: set_endpoint_def wf_config_def)+

lemma publisher_options_fields:
  assumes "wf_config c" and "NUL \<in> set (custom_endpoint c)" and os: "handle_all publisher_option c os = Inr c'"
  shows "message_size c' = (case last_value (\<lambda>opt. opt = CHR ''s'') os of None \<Rightarrow> message_size c | Some v \<Rightarrow> word_of_int (atoi v))"
    and "config_message_count c' = (case last_value (\<lambda>opt. opt = CHR ''c'') os of None \<Rightarrow> config_message_count c | Some v \<Rightarrow> word_of_int (atoll v))"
    and "transport c' = (case last_value (\<lambda>opt. opt = CHR ''t'') os of None \<Rightarrow> transport c | Some v \<Rightarrow> the (transport_of_string v))"
    and "c_str (custom_endpoint c') = (case last_value endpoint_letter os of None \<Rightarrow> c_str (custom_endpoint c) | Some v \<Rightarrow> take 63 (c_str v))"
    and "NUL \<in> set (custom_endpoint c')" and "target_message_count c' = target_message_count c"
proof -
  let ?I = "\<lambda>d. wf_config d \<and> NUL \<in> set (custom_endpoint d) \<and> target_message_count d = target_message_count c"
  note f = handle_all_field [where I = ?I and handle = publisher_option, OF _ _ os] and p = publisher_fields
  have I: "?I c" using assms(1,2) by simp
  have keep: "?I d'" if "?I d" "publisher_option d opt v = Inr d'" for d opt v d'
    using that p(1,6,7) [of d opt v d'] by simp
  show "message_size c' = (case last_value (\<lambda>opt. opt = CHR ''s'') os of None \<Rightarrow> message_size c | Some v \<Rightarrow> word_of_int (atoi v))"
    by (rule f [THEN conjunct2, OF _ I], rule conjI, erule keep, assumption, rule p(2)) simp_all
  show "config_message_count c' = (case last_value (\<lambda>opt. opt = CHR ''c'') os of None \<Rightarrow> config_message_count c | Some v \<Rightarrow> word_of_int (atoll v))"
    by (rule f [THEN conjunct2, OF _ I], rule conjI, erule keep, assumption, rule p(3)) simp_all
  show "transport c' = (case last_value (\<lambda>opt. opt = CHR ''t'') os of None \<Rightarrow> transport c | Some v \<Rightarrow> the (transport_of_string v))"
    by (rule f [THEN conjunct2, OF _ I], rule conjI, erule keep, assumption, rule p(4)) simp_all
  show "c_str (custom_endpoint c') = (case last_value endpoint_letter os of None \<Rightarrow> c_str (custom_endpoint c) | Some v \<Rightarrow> take 63 (c_str v))"
    by (rule f [THEN conjunct2, OF _ I], rule conjI, erule keep, assumption, rule p(5)) simp_all
  have "?I c'" by (rule handle_all_keeps [where I = ?I, OF keep I os])
  then show "NUL \<in> set (custom_endpoint c')" "target_message_count c' = target_message_count c" by simp_all
qed

text \<open>The configuration the options start from.\<close>

lemma publisher_defaults:
  fixes env :: "string option"
  assumes "wf_config c0"
  defines "d \<equiv> load_config_from_env env (set_default_config c0)"
  shows "message_size d = 1024" "config_message_count d = 1000000" "transport d = TRANSPORT_UDP" "c_str (custom_endpoint d) = []"
    "NUL \<in> set (custom_endpoint d)" "target_message_count d = 20000000" "NUL \<in> set (aeron_dir d)" "NUL \<in> set (channel d)"
proof -
  obtain x xs where e: "custom_endpoint c0 = x # xs" using assms(1) by (cases "custom_endpoint c0") (simp_all add: wf_config_def)
  have "0 < length (aeron_dir c0)" "0 < length (channel c0)" using assms(1) unfolding wf_config_def by auto
  then show "message_size d = 1024" "config_message_count d = 1000000" "transport d = TRANSPORT_UDP" "c_str (custom_endpoint d) = []"
    "NUL \<in> set (custom_endpoint d)" "target_message_count d = 20000000" "NUL \<in> set (aeron_dir d)" "NUL \<in> set (channel d)"
    by (simp_all add: d_def load_config_from_env_def set_default_config_def copy_string_terminated e c_str_def split: option.split)
qed

lemma publisher_accepted:
  assumes "wf_config c0" and "parse_publisher_args env args (Some c0) = (ERROR_SUCCESS, Some c)"
  obtains os where "options_given publisher_optstring publisher_long_options ([], args) = Some os"
    "handle_all publisher_option (load_config_from_env env (set_default_config c0)) os = Inr c" "acceptable c"
proof -
  let ?d = "load_config_from_env env (set_default_config c0)"
  let ?loop = "option_loop publisher_optstring publisher_long_options publisher_option ([], args) ?d"
  have loop: "finish_parse ?loop = (ERROR_SUCCESS, c)"
    using assms(2) by (simp add: parse_publisher_args_def split: prod.splits)
  have "?loop = Inr c"
  proof (cases ?loop)
    case (Inl x)
    then show ?thesis using pub.loop_invariant [where I = "\<lambda>_. True", OF _ _ Inl] loop by (cases x) (auto simp: finish_parse_def)
  qed (use loop in \<open>simp add: finish_parse_def\<close>)
  from loop_handles_all [OF this] obtain os where
    "options_given publisher_optstring publisher_long_options ([], args) = Some os" "handle_all publisher_option ?d os = Inr c" by blast
  moreover have "acceptable c"
  proof -
    have d: "wf_config ?d" "transport ?d \<noteq> TRANSPORT_OUT_OF_RANGE" using defaults_facts [OF assms(1)] by simp_all
    from pub.loop_keeps [OF d loop] show ?thesis using validate_acceptable [of c] by auto
  qed
  ultimately show ?thesis by (rule that)
qed

lemma publisher_letters_only:
  "publisher_option c opt v = Inr c' \<Longrightarrow> opt \<in> set ''sctblei'' \<and> (opt = CHR ''t'' \<longrightarrow> transport_of_string v \<noteq> None)"
  by (erule publisher_option_cases) auto

lemma same_fixed_terminated: "same_fixed d c \<Longrightarrow> NUL \<in> set (aeron_dir d) \<Longrightarrow> NUL \<in> set (channel d) \<Longrightarrow> NUL \<in> set (aeron_dir c) \<and> NUL \<in> set (channel c)"
  by (simp add: same_fixed_def)

text \<open>
  C24. What a command line means to the publisher. Whatever the arguments, the parser returns success, the
  help code 1 or the invalid-parameter code. When it returns success, \<open>getopt_long\<close> has found only options
  with a value, and every field of the configuration is determined by them: message size and count are the
  numbers of the last \<open>-s\<close> and the last \<open>-c\<close>, converted to 64 bits without a sign, or the defaults; the
  transport is the last one named, all named ones being valid, or UDP; the endpoint is the last one given,
  cut to 63 characters, or empty; the stream, the fragment limit, the channel and the subscriber's target
  are the defaults; the directory is the environment's, cut to 255 characters, or the default. All three
  strings are terminated within their arrays. The size is then at least 8 as an unsigned number, both counts
  are not zero, and the network transport has an endpoint.
\<close>

theorem parse_publisher_args_accepts:
  assumes "wf_config c0" and "\<And>d. env = Some d \<Longrightarrow> is_c_string d"
    and "parse_publisher_args env args (Some c0) = (code, Some c)"
  shows "(code = ERROR_SUCCESS \<or> code = 1 \<or> code = ERROR_INVALID_PARAM) \<and>
    (code = ERROR_SUCCESS \<longrightarrow>
      (\<exists>os. options_given publisher_optstring publisher_long_options ([], args) = Some os \<and>
        (\<forall>(opt, v) \<in> set os. opt \<in> set ''sctblei'' \<and> (opt = CHR ''t'' \<longrightarrow> transport_of_string v \<noteq> None)) \<and>
        message_size c = (case last_value (\<lambda>opt. opt = CHR ''s'') os of None \<Rightarrow> 1024 | Some v \<Rightarrow> word_of_int (atoi v)) \<and>
        config_message_count c = (case last_value (\<lambda>opt. opt = CHR ''c'') os of None \<Rightarrow> 1000000 | Some v \<Rightarrow> word_of_int (atoll v)) \<and>
        transport c = (case last_value (\<lambda>opt. opt = CHR ''t'') os of None \<Rightarrow> TRANSPORT_UDP | Some v \<Rightarrow> the (transport_of_string v)) \<and>
        c_str (custom_endpoint c) = (case last_value endpoint_letter os of None \<Rightarrow> [] | Some v \<Rightarrow> take 63 (c_str v))) \<and>
      NUL \<in> set (custom_endpoint c) \<and> target_message_count c = 20000000 \<and> 8 \<le> message_size c \<and> config_message_count c \<noteq> 0 \<and>
      (transport c = TRANSPORT_NETWORK_UDP \<longrightarrow> c_str (custom_endpoint c) \<noteq> [])) \<and>
    wf_config c \<and> NUL \<in> set (aeron_dir c) \<and> NUL \<in> set (channel c) \<and> stream_id c = 1001 \<and> fragment_limit c = 10 \<and>
    c_str (aeron_dir c) = take 255 (case env of Some d \<Rightarrow> d | None \<Rightarrow> ''/dev/shm/aeron'') \<and>
    c_str (channel c) = ''aeron:udp?endpoint=localhost:20121''"
proof (intro conjI impI)
  let ?d = "load_config_from_env env (set_default_config c0)"
  note def = publisher_defaults [OF assms(1), of env]
  have d: "wf_config ?d" "transport ?d \<noteq> TRANSPORT_OUT_OF_RANGE" using defaults_facts [OF assms(1)] by simp_all
  have "finish_parse (option_loop publisher_optstring publisher_long_options publisher_option ([], args) ?d) = (code, c)"
    using assms(3) by (simp add: parse_publisher_args_def split: prod.splits)
  note k = pub.loop_keeps [OF d this]
  have "validate_config (Some c) = ERROR_SUCCESS \<or> validate_config (Some c) = ERROR_INVALID_PARAM"
    by (simp add: validate_config_def)
  then show "code = ERROR_SUCCESS \<or> code = 1 \<or> code = ERROR_INVALID_PARAM" using k by auto
  have same: "same_fixed ?d c" and wf: "wf_config c" using k by simp_all
  show "wf_config c" by (rule wf)
  show "NUL \<in> set (aeron_dir c)" "NUL \<in> set (channel c)" using same_fixed_terminated [OF same def(7,8)] by simp_all
  show "stream_id c = 1001" "fragment_limit c = 10" "c_str (channel c) = ''aeron:udp?endpoint=localhost:20121''"
    "c_str (aeron_dir c) = take 255 (case env of Some d \<Rightarrow> d | None \<Rightarrow> ''/dev/shm/aeron'')"
    using fixed_from_defaults [OF assms(1,2) same] by simp_all
  assume "code = ERROR_SUCCESS"
  then obtain os where os: "options_given publisher_optstring publisher_long_options ([], args) = Some os"
      "handle_all publisher_option ?d os = Inr c" "acceptable c"
    using publisher_accepted [OF assms(1), of env args c] assms(3) by blast
  note f = publisher_options_fields [OF d(1) def(5) os(2), unfolded def]
  have "\<forall>(opt, v) \<in> set os. opt \<in> set ''sctblei'' \<and> (opt = CHR ''t'' \<longrightarrow> transport_of_string v \<noteq> None)"
    using handle_all_accepted [OF os(2)] publisher_letters_only by fast
  then show "\<exists>os. options_given publisher_optstring publisher_long_options ([], args) = Some os \<and>
      (\<forall>(opt, v) \<in> set os. opt \<in> set ''sctblei'' \<and> (opt = CHR ''t'' \<longrightarrow> transport_of_string v \<noteq> None)) \<and>
      message_size c = (case last_value (\<lambda>opt. opt = CHR ''s'') os of None \<Rightarrow> 1024 | Some v \<Rightarrow> word_of_int (atoi v)) \<and>
      config_message_count c = (case last_value (\<lambda>opt. opt = CHR ''c'') os of None \<Rightarrow> 1000000 | Some v \<Rightarrow> word_of_int (atoll v)) \<and>
      transport c = (case last_value (\<lambda>opt. opt = CHR ''t'') os of None \<Rightarrow> TRANSPORT_UDP | Some v \<Rightarrow> the (transport_of_string v)) \<and>
      c_str (custom_endpoint c) = (case last_value endpoint_letter os of None \<Rightarrow> [] | Some v \<Rightarrow> take 63 (c_str v))"
    using os(1) f(1-4) by (intro exI [of _ os] conjI)
  show "NUL \<in> set (custom_endpoint c)" "target_message_count c = 20000000" by (fact f)+
  show "8 \<le> message_size c" "config_message_count c \<noteq> 0" using os(3) by (simp_all add: acceptable_def)
  show "c_str (custom_endpoint c) \<noteq> []" if "transport c = TRANSPORT_NETWORK_UDP" using os(3) that by (simp add: acceptable_def)
qed

theorem parse_publisher_args_accepts_witness:
  "\<exists>c0 c. wf_config c0 \<and>
     parse_publisher_args None [''-s'', ''64''] (Some c0) = (ERROR_SUCCESS, Some c) \<and> message_size c = 64 \<and>
     config_message_count c = 1000000 \<and> c_str (custom_endpoint c) = []"
proof -
  let ?c0 = "\<lparr>transport = TRANSPORT_OUT_OF_RANGE, channel = replicate 256 CHR ''x'',
    custom_endpoint = replicate 64 CHR ''x'', aeron_dir = replicate 256 CHR ''x'', stream_id = 0,
    message_size = 0, config_message_count = 0, target_message_count = 0, fragment_limit = 0\<rparr>"
  have wf: "wf_config ?c0" by (simp add: wf_config_def)
  let ?d = "load_config_from_env None (set_default_config ?c0)"
  have sixty: "atoi ''64'' = 64"
    by (simp add: atoi_def strtoll_def is_space_def digit_value_def)
  then have "option_loop publisher_optstring publisher_long_options publisher_option
      ([], [[CHR ''-'', CHR ''s''], ''64'']) ?d = Inr (?d\<lparr>message_size := 64\<rparr>)"
    by (simp add: pub.loop_separate publisher_letters publisher_option_def pub.loop_end)
  then obtain code c where p: "parse_publisher_args None [''-s'', ''64''] (Some ?c0) = (code, Some c)"
    and "code = ERROR_SUCCESS"
    by (simp add: parse_publisher_args_def finish_parse_def validate_config_def
        load_config_from_env_def set_default_config_def)
  moreover have "getopt_long publisher_optstring publisher_long_options ([], [''-s'', ''64'']) = (Opt CHR ''s'' (Some ''64''), [], [])"
    using getopt_separate [of publisher_optstring "CHR ''s''" publisher_long_options "''64''" "[]"] publisher_letters by simp
  then have "options_given publisher_optstring publisher_long_options ([], [''-s'', ''64'']) = Some [(CHR ''s'', ''64'')]"
    by (simp add: options_given.simps [of _ _ "([], [''-s'', ''64''])"] options_given.simps [of _ _ "([], [])"])
  ultimately show ?thesis
    using parse_publisher_args_accepts [OF wf _ p] wf sixty by auto
qed

text \<open>The same for the subscriber's command line.\<close>

theorem parse_subscriber_args_accepts:
  assumes "wf_config c0" and "\<And>d. env = Some d \<Longrightarrow> is_c_string d"
    and "parse_subscriber_args env args (Some c0) = (code, Some c)"
  shows "(code = ERROR_SUCCESS \<or> code = 1 \<or> code = ERROR_INVALID_PARAM) \<and>
    (code = ERROR_SUCCESS \<longrightarrow> acceptable c \<and> message_size c = 1024 \<and> config_message_count c = 1000000) \<and>
    wf_config c \<and> stream_id c = 1001 \<and> fragment_limit c = 10 \<and>
    c_str (aeron_dir c) = take 255 (case env of Some d \<Rightarrow> d | None \<Rightarrow> ''/dev/shm/aeron'')"
proof -
  let ?d = "load_config_from_env env (set_default_config c0)"
  let ?loop = "option_loop subscriber_optstring subscriber_long_options subscriber_option ([], args) ?d"
  have d: "wf_config ?d" "transport ?d \<noteq> TRANSPORT_OUT_OF_RANGE"
    using defaults_facts [OF assms(1)] by simp_all
  have loop: "finish_parse ?loop = (code, c)"
    using assms(3) by (simp add: parse_subscriber_args_def split: prod.splits)
  note k = sub.loop_keeps [OF d loop]
  let ?I = "\<lambda>c. message_size c = 1024 \<and> config_message_count c = 1000000"
  have "?I ?d" by (simp add: load_config_from_env_def set_default_config_def split: option.split)
  moreover have "?I c'" if "?I c" "subscriber_option c opt a = Inr c'" for c opt a c'
    using that(1) subscriber_option_Inr [OF that(2)] by (auto simp: set_endpoint_def)
  ultimately have "?I c" using sub.finish_invariant [of ?I, OF _ _ loop] by blast
  moreover have "validate_config (Some c) = ERROR_SUCCESS \<or> validate_config (Some c) = ERROR_INVALID_PARAM"
    by (simp add: validate_config_def)
  ultimately show ?thesis
    using k validate_acceptable [of c] fixed_from_defaults [OF assms(1,2)] by auto
qed

definition blank_config :: config where
  "blank_config = \<lparr>transport = TRANSPORT_OUT_OF_RANGE, channel = replicate 256 CHR ''x'',
    custom_endpoint = replicate 64 CHR ''x'', aeron_dir = replicate 256 CHR ''x'', stream_id = 0,
    message_size = 0, config_message_count = 0, target_message_count = 0, fragment_limit = 0\<rparr>"

lemma wf_blank_config: "wf_config blank_config"
  by (simp add: wf_config_def blank_config_def)

theorem parse_subscriber_args_accepts_witness:
  "\<exists>c. parse_subscriber_args None [] (Some blank_config) = (ERROR_SUCCESS, Some c) \<and> acceptable c \<and>
     c_str (aeron_dir c) = ''/dev/shm/aeron''"
proof -
  obtain code c where p: "parse_subscriber_args None [] (Some blank_config) = (code, Some c)"
    and "code = ERROR_SUCCESS"
    by (simp add: parse_subscriber_args_def sub.loop_end finish_parse_def validate_config_def
        load_config_from_env_def set_default_config_def)
  then show ?thesis
    using parse_subscriber_args_accepts [OF wf_blank_config _ p] by auto
qed

section \<open>Ways to write an option\<close>

lemma publisher_table:
  "list_all (\<lambda>(name, has, opt). has = required_argument \<longrightarrow>
     long_lookup publisher_long_options name = Some (name, required_argument, opt) \<and>
     CHR ''='' \<notin> set name \<and> name \<noteq> [] \<and> opt \<noteq> CHR ''-'' \<and>
     short_lookup publisher_optstring opt = Some required_argument) publisher_long_options"
  by code_simp

lemma publisher_long_lookup:
  assumes "(name, required_argument, opt) \<in> set publisher_long_options"
  shows "long_lookup publisher_long_options name = Some (name, required_argument, opt) \<and>
    CHR ''='' \<notin> set name \<and> name \<noteq> [] \<and> opt \<noteq> CHR ''-'' \<and>
    short_lookup publisher_optstring opt = Some required_argument"
  using publisher_table assms by (fastforce simp: list_all_iff)

lemma parse_publisher_cong:
  "(\<And>c. option_loop publisher_optstring publisher_long_options publisher_option ([], a1) c
       = option_loop publisher_optstring publisher_long_options publisher_option ([], a2) c) \<Longrightarrow>
   parse_publisher_args env a1 p = parse_publisher_args env a2 p"
  by (simp add: parse_publisher_args_def split: option.split)

text \<open>
  Each of the publisher's options that takes a value may be written in four ways with the same
  result: letter and value as two words or as one, long name and value as two words or joined by an
  equals sign; and words that are not options are ignored.
\<close>

theorem publisher_option_spellings:
  assumes "(name, required_argument, opt) \<in> set publisher_long_options" and "value \<noteq> []"
    and "take 1 stray \<noteq> ''-''"
  shows "parse_publisher_args env ((CHR ''-'' # opt # value) # args) p
       = parse_publisher_args env ([CHR ''-'', opt] # value # args) p \<and>
     parse_publisher_args env ((''--'' @ name) # value # args) p
       = parse_publisher_args env ([CHR ''-'', opt] # value # args) p \<and>
     parse_publisher_args env ((''--'' @ name @ ''='' @ value) # args) p
       = parse_publisher_args env ([CHR ''-'', opt] # value # args) p \<and>
     parse_publisher_args env (stray # args) p = parse_publisher_args env args p"
proof -
  note l = publisher_long_lookup [OF assms(1)]
  show ?thesis
    using pub.loop_long [of name name opt] l pub.loop_joined assms(2) pub.loop_skip [OF assms(3)]
    by (intro conjI parse_publisher_cong) blast+
qed

theorem publisher_option_spellings_witness:
  "parse_publisher_args None [''--ip=10.0.0.7'', ''x''] (Some blank_config)
     = parse_publisher_args None [''-i'', ''10.0.0.7'', ''x''] (Some blank_config)"
proof -
  have m: "(''ip'', required_argument, CHR ''i'') \<in> set publisher_long_options"
    by (simp add: publisher_long_options_def)
  have "''10.0.0.7'' \<noteq> []" "take 1 ''x'' \<noteq> ''-''" by simp_all
  from publisher_option_spellings [OF m this, of None "[''x'']" "Some blank_config"]
  show ?thesis by simp
qed

section \<open>The channel\<close>

lemma channel_text:
  "is_c_string ''aeron:udp?endpoint=localhost:20121''" "is_c_string ''aeron:ipc?term-length=1048576''"
  "is_c_string ''aeron:udp?endpoint=''" "is_c_string '':20121''"
  by (simp_all add: is_c_string_def)

text \<open>
  C25. The channel string of a parsed configuration is complete: into a buffer of 512 characters,
  as both programs pass, no part of it is cut off, and it names the configured endpoint with the
  fixed port, the local host without one, or the shared memory transport; a null argument or an
  empty buffer gives the null pointer.
\<close>

theorem effective_channel_complete:
  assumes "wf_config c" and "length buf = 512"
  shows "(\<exists>out. get_effective_channel (Some c) (Some buf) 512 = Some out \<and> length out = 512 \<and>
      c_str out =
        (case transport c of
           TRANSPORT_IPC \<Rightarrow> ''aeron:ipc?term-length=1048576''
         | TRANSPORT_OUT_OF_RANGE \<Rightarrow> ''aeron:udp?endpoint=localhost:20121''
         | _ \<Rightarrow> if c_str (custom_endpoint c) = [] then ''aeron:udp?endpoint=localhost:20121''
                else ''aeron:udp?endpoint='' @ c_str (custom_endpoint c) @ '':20121'')) \<and>
    get_effective_channel None (Some buf) 512 = None \<and> get_effective_channel (Some c) None 512 = None \<and>
    get_effective_channel (Some c) (Some buf) 0 = None"
proof -
  have e: "endpoint_set c \<longleftrightarrow> c_str (custom_endpoint c) \<noteq> []"
    using assms(1) first_char_c_str [of "custom_endpoint c"] by (simp add: endpoint_set_def wf_config_def)
  have len: "length (c_str (custom_endpoint c)) \<le> 64"
    using assms(1) length_takeWhile_le [of _ "custom_endpoint c"]
    by (simp add: wf_config_def c_str_def)
  have out: "c_str (snprintf buf 512 s) = s" "length (snprintf buf 512 s) = 512"
    if "is_c_string s" "length s < 512" for s
    using that assms(2) by (simp_all add: c_str_snprintf length_snprintf)
  let ?ep = "''aeron:udp?endpoint='' @ c_str (custom_endpoint c) @ '':20121''"
  have "is_c_string ?ep" "length ?ep < 512" using len channel_text by simp_all
  note o = out [OF this] out [OF channel_text(1)] out [OF channel_text(2)]
  show ?thesis
    using o by (auto simp: get_effective_channel_def e split: transport_type.split)
qed

theorem effective_channel_complete_witness:
  "\<exists>out. get_effective_channel (Some (set_endpoint (blank_config\<lparr>transport := TRANSPORT_UDP\<rparr>) ''10.0.0.7''))
       (Some (replicate 512 CHR ''x'')) 512 = Some out \<and>
     c_str out = ''aeron:udp?endpoint=10.0.0.7:20121''"
proof -
  let ?c = "set_endpoint (blank_config\<lparr>transport := TRANSPORT_UDP\<rparr>) ''10.0.0.7''"
  have wf: "wf_config ?c" and tr: "transport ?c = TRANSPORT_UDP"
    by (simp_all add: wf_config_def set_endpoint_def blank_config_def)
  have "c_str (custom_endpoint ?c) = ''10.0.0.7''"
    by (simp add: set_endpoint_def c_str_copy_string blank_config_def is_c_string_def)
  moreover have len: "length (replicate 512 CHR ''x'') = 512" by (rule length_replicate)
  ultimately show ?thesis
    using effective_channel_complete [OF wf len, THEN conjunct1]
    unfolding tr by auto
qed

section \<open>Two surprises of the command line\<close>

text \<open>
  The usage text and the README write long options with one dash. \<open>getopt_long\<close> reads them as a
  letter with the rest of the word as its value.
\<close>

lemma pub_loop_bind:
  "take 1 ip \<noteq> ''-'' \<Longrightarrow>
   option_loop publisher_optstring publisher_long_options publisher_option ([], [''-bind'', ip]) c
     = Inr (set_endpoint c ''ind'')"
  using pub.loop_joined [of "CHR ''b''" "''ind''" "[ip]" c]
  by (simp add: publisher_letters pub.loop_separate publisher_option_def pub.loop_skip pub.loop_end
      del: One_nat_def)

lemma sub_loop_connect:
  "take 1 ip \<noteq> ''-'' \<Longrightarrow>
   option_loop subscriber_optstring subscriber_long_options subscriber_option ([], [''-connect'', ip]) c
     = Inr (c\<lparr>target_message_count := 0\<rparr>)"
proof -
  assume "take 1 ip \<noteq> ''-''"
  moreover have "atoll ''onnect'' = 0"
    by (simp add: atoll_def strtoll_def is_space_def digit_value_def)
  ultimately show ?thesis
    using sub.loop_joined [of "CHR ''c''" "''onnect''" "[ip]" c]
    by (simp add: subscriber_letters sub.loop_separate subscriber_option_def sub.loop_skip sub.loop_end
        del: One_nat_def)
qed

text \<open>
  The documented spellings with one dash do not do what they say: \<open>-bind IP\<close> makes the
  publisher's endpoint the text \<open>ind\<close> and ignores the address, and \<open>-connect IP\<close> is read by
  the subscriber as the message count \<open>onnect\<close>, that is zero, and refused.
\<close>

theorem single_dash_long_options:
  assumes "wf_config c0" and "take 1 ip \<noteq> ''-''"
  shows "(\<exists>c. parse_publisher_args env [''-bind'', ip] (Some c0) = (ERROR_SUCCESS, Some c) \<and>
           c_str (custom_endpoint c) = ''ind'') \<and>
         fst (parse_subscriber_args env [''-connect'', ip] (Some c0)) = ERROR_INVALID_PARAM"
proof -
  let ?d = "load_config_from_env env (set_default_config c0)"
  have d: "message_size ?d = 1024" "config_message_count ?d = 1000000"
    "target_message_count ?d = 20000000" "transport ?d = TRANSPORT_UDP" "length (custom_endpoint ?d) = 64"
    using assms(1) by (simp_all add: load_config_from_env_def set_default_config_def wf_config_def
        split: option.split)
  have ok: "validate_config (Some (set_endpoint ?d ''ind'')) = ERROR_SUCCESS"
    using d by (simp add: validate_config_def set_endpoint_def)
  have "c_str (custom_endpoint (set_endpoint ?d ''ind'')) = ''ind''"
    using d by (simp add: set_endpoint_def c_str_copy_string is_c_string_def)
  then have "\<exists>c. parse_publisher_args env [''-bind'', ip] (Some c0) = (ERROR_SUCCESS, Some c) \<and>
           c_str (custom_endpoint c) = ''ind''"
    unfolding parse_publisher_args_def option.case Let_def pub_loop_bind [OF assms(2)] finish_parse_def
      sum.case ok prod.case by blast
  moreover have "fst (parse_subscriber_args env [''-connect'', ip] (Some c0)) = ERROR_INVALID_PARAM"
    unfolding parse_subscriber_args_def option.case Let_def sub_loop_connect [OF assms(2)] finish_parse_def
      sum.case prod.case using d by (simp add: validate_config_def)
  ultimately show ?thesis by blast
qed

theorem single_dash_long_options_witness:
  "fst (parse_subscriber_args None [''-connect'', ''192.168.0.106''] (Some blank_config)) = ERROR_INVALID_PARAM"
proof -
  have "take 1 ''192.168.0.106'' \<noteq> ''-''" by simp
  from single_dash_long_options [OF wf_blank_config this, of None] show ?thesis by blast
qed

lemma atoi_range: "- (2 ^ 31) \<le> atoi v" "atoi v < 2 ^ 31"
  using sint_greater_eq [of "word_of_int (strtoll v) :: u32"] sint_lt [of "word_of_int (strtoll v) :: u32"]
  by (simp_all add: atoi_def)

text \<open>
  A negative message size passes validation: the conversion to the unsigned size makes it a
  number just below 2^64, which the lower bound of eight bytes accepts.
\<close>

theorem negative_size_accepted:
  assumes "atoi v < 0"
  shows "\<exists>c. parse_publisher_args env [''-s'', v] (Some c0) = (ERROR_SUCCESS, Some c) \<and>
           int (unat (message_size c)) = 2 ^ 64 + atoi v"
proof -
  let ?d = "load_config_from_env env (set_default_config c0)"
  let ?c = "?d\<lparr>message_size := word_of_int (atoi v)\<rparr>"
  have "uint (word_of_int (atoi v) :: u64) = atoi v mod 2 ^ 64"
    by (simp add: uint_word_of_int)
  also have "\<dots> = (2 ^ 64 + atoi v) mod 2 ^ 64" by (rule mod_add_self1 [symmetric])
  also have "\<dots> = 2 ^ 64 + atoi v"
    using assms atoi_range [of v] by (intro mod_pos_pos_trivial) simp_all
  finally have u: "uint (word_of_int (atoi v) :: u64) = 2 ^ 64 + atoi v" .
  then have sz: "int (unat (word_of_int (atoi v) :: u64)) = 2 ^ 64 + atoi v" by simp
  have "\<not> (word_of_int (atoi v) :: u64) < 8"
    using u atoi_range [of v] by (simp add: word_less_def)
  then have ok: "validate_config (Some ?c) = ERROR_SUCCESS"
    by (simp add: validate_config_def load_config_from_env_def set_default_config_def split: option.split)
  have "option_loop publisher_optstring publisher_long_options publisher_option ([], [''-s'', v]) ?d = Inr ?c"
    by (simp add: pub.loop_separate publisher_letters publisher_option_def pub.loop_end)
  then show ?thesis
    using sz ok by (simp add: parse_publisher_args_def finish_parse_def)
qed

theorem negative_size_accepted_witness:
  "atoi ''-1'' < 0 \<and>
   (\<exists>c. parse_publisher_args None [''-s'', ''-1''] (Some blank_config) = (ERROR_SUCCESS, Some c) \<and>
      int (unat (message_size c)) = 18446744073709551615)"
proof -
  have v: "atoi ''-1'' = - 1"
    by (simp add: atoi_def strtoll_def is_space_def digit_value_def)
  then have "atoi ''-1'' < 0" by simp
  from negative_size_accepted [OF this, of None blank_config] v show ?thesis by simp
qed

end
