(* ===== verification/Publisher.thy ===== *)
theory Publisher
  imports BinaryMessage ConfigParser
begin

text \<open>
  \<open>src/binary_publisher.c\<close>: its statistics, \<open>publish_message\<close> and the sending loop of
  \<open>run_publisher\<close>. The Aeron client library is not part of the repository's source: what
  \<open>aeron_publication_offer\<close> does to a publication is the parameter \<open>offer\<close>, a function on an
  arbitrary type of publication states. The statistics thread and the signal handler run at any
  time; since the statistics are only used under the mutex, it is enough to say for every pass of
  the loop what happened before it (\<open>pub_iteration\<close>).
\<close>

section \<open>State\<close>

record publisher_stats =
  messages_sent :: u64
  bytes_sent :: u64
  send_errors :: u64
  back_pressure_events :: u64
  pub_start_time :: u64
  pub_last_stats_time :: u64
  last_messages_sent :: u64
  last_bytes_sent :: u64

text \<open>What the statistics functions print, one constructor for each report.\<close>

datatype pub_report =
  Final_report u64 u64 u64 u64 u64 u64 \<comment> \<open>messages, bytes, errors, back pressure, ns, seconds\<close>
| Final_rates u64 u64 \<comment> \<open>messages per second, megabytes per second\<close>
| Interval_report u64 u64 u64 u64 \<comment> \<open>messages, bytes, messages per second, megabytes per second\<close>

record pub_state =
  g_stats :: publisher_stats
  running :: bool
  printed :: "pub_report list"

definition initial_pub_state :: pub_state where
  "initial_pub_state =
     \<lparr>g_stats = \<lparr>messages_sent = 0, bytes_sent = 0, send_errors = 0, back_pressure_events = 0,
        pub_start_time = 0, pub_last_stats_time = 0, last_messages_sent = 0, last_bytes_sent = 0\<rparr>,
      running = True, printed = []\<rparr>"

definition pub_signal_handler :: "pub_state \<Rightarrow> pub_state" where
  "pub_signal_handler st = st\<lparr>running := False\<rparr>"

section \<open>Reports\<close>

definition final_reports :: "u64 \<Rightarrow> publisher_stats \<Rightarrow> pub_report list" where
  "final_reports total_duration s =
     Final_report (messages_sent s) (bytes_sent s) (send_errors s) (back_pressure_events s)
       total_duration (total_duration div 1000000000)
     # (if 0 < total_duration
        then [Final_rates ((messages_sent s * 1000000000) div total_duration)
                ((bytes_sent s * 1000000000) div total_duration div (1024 * 1024))]
        else [])"

definition interval_reports :: "u64 \<Rightarrow> publisher_stats \<Rightarrow> pub_report list" where
  "interval_reports current_time s =
     (let interval_time = current_time - pub_last_stats_time s;
          interval_messages = messages_sent s - last_messages_sent s;
          interval_bytes = bytes_sent s - last_bytes_sent s
      in if 0 < interval_time
         then [Interval_report (messages_sent s) (bytes_sent s)
                 ((interval_messages * 1000000000) div interval_time)
                 ((interval_bytes * 1000000000) div interval_time div (1024 * 1024))]
         else [])"

text \<open>\<open>ts\<close> is the reading of the clock.\<close>

definition print_stats :: "bool \<Rightarrow> timespec \<Rightarrow> pub_state \<Rightarrow> pub_state" where
  "print_stats final ts st =
     (let s = g_stats st;
          current_time = get_timestamp_ns ts;
          total_duration = current_time - pub_start_time s
      in if final then st\<lparr>printed := printed st @ final_reports total_duration s\<rparr>
         else st\<lparr>printed := printed st @ interval_reports current_time s,
                 g_stats := s\<lparr>pub_last_stats_time := current_time,
                              last_messages_sent := messages_sent s,
                              last_bytes_sent := bytes_sent s\<rparr>\<rparr>)"

text \<open>The body of the statistics thread after its \<open>sleep\<close>.\<close>

definition pub_stats_tick :: "timespec \<Rightarrow> pub_state \<Rightarrow> pub_state" where
  "pub_stats_tick ts st = (if running st then print_stats False ts st else st)"

section \<open>Sending one message\<close>

abbreviation (input) AERON_PUBLICATION_NOT_CONNECTED :: int where
  "AERON_PUBLICATION_NOT_CONNECTED \<equiv> - 1"
abbreviation (input) AERON_PUBLICATION_BACK_PRESSURED :: int where
  "AERON_PUBLICATION_BACK_PRESSURED \<equiv> - 2"
abbreviation (input) AERON_PUBLICATION_ADMIN_ACTION :: int where
  "AERON_PUBLICATION_ADMIN_ACTION \<equiv> - 3"
abbreviation (input) AERON_PUBLICATION_CLOSED :: int where
  "AERON_PUBLICATION_CLOSED \<equiv> - 4"

definition offer_failed_handler :: "pub_state \<Rightarrow> pub_state" where
  "offer_failed_handler st = st\<lparr>g_stats := (g_stats st)
     \<lparr>back_pressure_events := back_pressure_events (g_stats st) + 1\<rparr>\<rparr>"

definition count_sent :: "u64 \<Rightarrow> pub_state \<Rightarrow> pub_state" where
  "count_sent msize st = st\<lparr>g_stats := (g_stats st)
     \<lparr>messages_sent := messages_sent (g_stats st) + 1,
      bytes_sent := bytes_sent (g_stats st) + msize\<rparr>\<rparr>"

definition count_error :: "pub_state \<Rightarrow> pub_state" where
  "count_error st = st\<lparr>g_stats := (g_stats st)\<lparr>send_errors := send_errors (g_stats st) + 1\<rparr>\<rparr>"

type_synonym 'p offer_fun = "'p \<Rightarrow> u8 list \<Rightarrow> int \<times> 'p"

text \<open>
  The library reads \<open>msize\<close> bytes of the message; a shorter block is undefined behaviour,
  \<open>None\<close>.
\<close>

definition publish_message ::
  "'p offer_fun \<Rightarrow> 'p \<Rightarrow> u8 list \<Rightarrow> u64 \<Rightarrow> pub_state \<Rightarrow> (int \<times> 'p \<times> pub_state) option" where
  "publish_message offer publication message msize st =
     (case mem_read message 0 (unat msize) of
        None \<Rightarrow> None
      | Some payload \<Rightarrow>
          (case offer publication payload of
             (result, publication') \<Rightarrow>
               Some (if 0 < result then (result, publication', count_sent msize st)
                     else if result = AERON_PUBLICATION_BACK_PRESSURED
                     then (- 1, publication', offer_failed_handler st)
                     else if result = AERON_PUBLICATION_NOT_CONNECTED \<or>
                             result = AERON_PUBLICATION_ADMIN_ACTION \<or>
                             result = AERON_PUBLICATION_CLOSED
                     then (- 2, publication', count_error st)
                     else (result, publication', st))))"

section \<open>The sending loop\<close>

text \<open>
  What happens from one check of the loop's condition to the next outside of the main thread: the
  clock readings of the statistics thread's reports, whether a signal was handled, and the clock
  the main thread reads for the timestamp.
\<close>

record pub_iteration =
  ticks :: "timespec list"
  signalled :: bool
  send_clock :: timespec

definition interfere :: "pub_iteration \<Rightarrow> pub_state \<Rightarrow> pub_state" where
  "interfere it st =
     (let st = fold pub_stats_tick (ticks it) st
      in if signalled it then pub_signal_handler st else st)"

abbreviation (input) MAX_RETRIES :: u64 where "MAX_RETRIES \<equiv> 1000000"

text \<open>How far a pass of the loop is from the retry limit; the largest value wraps to zero.\<close>

definition retries_left :: "u64 \<Rightarrow> nat" where
  "retries_left retry = (if retry = UINT64_MAX then 1000003 else 1000001 - unat retry)"

lemma retries_left_decreases:
  "\<not> MAX_RETRIES < retry + 1 \<Longrightarrow> retries_left (retry + 1) < retries_left retry"
proof (cases "retry = UINT64_MAX")
  case True
  then show ?thesis by (simp add: retries_left_def)
next
  case False
  assume "\<not> MAX_RETRIES < retry + 1"
  then have le: "unat (retry + 1) \<le> 1000000" by (simp add: word_less_nat_alt not_less)
  have "unat retry \<noteq> 2 ^ 64 - 1" using False unat_UINT64_MAX by (metis word_unat_eq_iff)
  then have "unat (retry + 1) = Suc (unat retry)"
    using unat_u64_less [of retry] by (simp add: unat_word_ariths)
  moreover have "retry + 1 \<noteq> UINT64_MAX"
  proof
    assume "retry + 1 = UINT64_MAX"
    with le have "unat UINT64_MAX \<le> 1000000" by (simp only:)
    then show False by simp
  qed
  ultimately show ?thesis using False le by (simp add: retries_left_def)
qed

lemma sends_left_decreases:
  "succ < to_send \<Longrightarrow> unat to_send - unat (succ + 1) < unat to_send - unat (succ :: u64)"
proof -
  assume less: "succ < to_send"
  then have "unat (succ + 1) = Suc (unat succ)"
    using unat_u64_less [of to_send] by (simp add: unat_word_ariths word_less_nat_alt)
  then show ?thesis using less by (simp add: word_less_nat_alt)
qed

text \<open>
  The \<open>while\<close> loop of \<open>run_publisher\<close> from pass \<open>i\<close>: the publication and the program's
  state at its end, the number of successful sends and the buffer; \<open>None\<close> is undefined behaviour.
\<close>

function publisher_loop ::
  "'p offer_fun \<Rightarrow> endian \<Rightarrow> u64 \<Rightarrow> u64 \<Rightarrow> (nat \<Rightarrow> pub_iteration) \<Rightarrow> nat \<Rightarrow> u64 \<Rightarrow> u64 \<Rightarrow> u8 list
   \<Rightarrow> 'p \<Rightarrow> pub_state \<Rightarrow> ('p \<times> pub_state \<times> u64 \<times> u8 list) option" where
  "publisher_loop offer e msize messages_to_send env i successful_sends retries buffer publication st0 =
     (let st = interfere (env i) st0 in
      if running st \<and> successful_sends < messages_to_send
      then case create_binary_message e buffer (unat msize) (get_timestamp_ns (send_clock (env i))) of
             None \<Rightarrow> None
           | Some buffer' \<Rightarrow>
               (case publish_message offer publication buffer' msize st of
                  None \<Rightarrow> None
                | Some (result, publication', st') \<Rightarrow>
                    if 0 < result
                    then (if messages_to_send \<le> successful_sends + 1
                          then Some (publication', st', successful_sends + 1, buffer')
                          else publisher_loop offer e msize messages_to_send env (Suc i)
                                 (successful_sends + 1) 0 buffer' publication' st')
                    else if result = - 1
                    then (if MAX_RETRIES < retries + 1
                          then Some (publication', st', successful_sends, buffer')
                          else publisher_loop offer e msize messages_to_send env (Suc i)
                                 successful_sends (retries + 1) buffer' publication' st')
                    else Some (publication', st', successful_sends, buffer'))
      else Some (publication, st, successful_sends, buffer))"
  by pat_completeness auto
termination
  by (relation "measures [\<lambda>(_, _, _, n, _, _, succ, _). unat n - unat succ,
        \<lambda>(_, _, _, _, _, _, _, retry, _). retries_left retry]")
    (auto simp: sends_left_decreases retries_left_decreases)

declare publisher_loop.simps [simp del]

section \<open>The whole run\<close>

text \<open>The loop that first fills the buffer, from index \<open>i\<close>.\<close>

function init_pattern :: "nat \<Rightarrow> nat \<Rightarrow> u8 list \<Rightarrow> u8 list option" where
  "init_pattern i n buffer =
     (if i < n
      then case mem_store buffer i (word_of_nat (i mod 256)) of
             None \<Rightarrow> None
           | Some buffer' \<Rightarrow> init_pattern (Suc i) n buffer'
      else Some buffer)"
  by pat_completeness auto
termination
  by (relation "measure (\<lambda>(i, n, _). n - i)") auto

declare init_pattern.simps [simp del]

text \<open>
  The surroundings of one run: \<open>malloc\<close>'s answer for a size, whether the statistics thread could
  be created, the clock at the start and at the end, what happens before every pass of the loop, and
  the clock readings of reports the statistics thread still makes before it ends, having checked
  \<open>running\<close> earlier.
\<close>

record pub_env =
  malloc :: "nat \<Rightarrow> u8 list option"
  thread_created :: bool
  start_clock :: timespec
  iterations :: "nat \<Rightarrow> pub_iteration"
  last_ticks :: "timespec list"
  end_clock :: timespec

text \<open>
  The return code, the publication and the program's state. Joining the statistics thread when it
  was not created reads an uninitialised thread identifier: undefined behaviour, \<open>None\<close>.
\<close>

definition run_publisher ::
  "'p offer_fun \<Rightarrow> endian \<Rightarrow> pub_env \<Rightarrow> config \<Rightarrow> 'p \<Rightarrow> pub_state \<Rightarrow> (int \<times> 'p \<times> pub_state) option" where
  "run_publisher offer e env config publication st =
     (case malloc env (unat (message_size config)) of
        None \<Rightarrow> Some (ERROR_MEMORY_ALLOCATION, publication, st)
      | Some block \<Rightarrow>
          (case init_pattern TIMESTAMP_SIZE (unat (message_size config)) block of
             None \<Rightarrow> None
           | Some buffer \<Rightarrow>
               (let start = get_timestamp_ns (start_clock env);
                    st = st\<lparr>g_stats := (g_stats st)\<lparr>pub_start_time := start, pub_last_stats_time := start\<rparr>\<rparr>
                in case publisher_loop offer e (message_size config) (config_message_count config)
                          (iterations env) 0 0 0 buffer publication st of
                     None \<Rightarrow> None
                   | Some (publication', st', _, _) \<Rightarrow>
                       (let st' = st'\<lparr>running := False\<rparr>;
                            st' = fold (print_stats False) (last_ticks env) st'
                        in if thread_created env
                           then Some (ERROR_SUCCESS, publication', print_stats True (end_clock env) st')
                           else None))))"

end
