(* ===== verification/PublisherProperties.thy ===== *)
theory PublisherProperties
  imports Publisher
begin

text \<open>
  Properties of the publisher's sending loop: it always ends, what it counts is what the library
  accepted, every accepted message is a well-formed message with the timestamp of its pass, and how
  it reacts to back pressure and to the library's other answers.
\<close>

section \<open>What the statistics thread and signals leave alone\<close>

text \<open>The counters only the main thread writes.\<close>

definition sent_counts :: "pub_state \<Rightarrow> u64 \<times> u64 \<times> u64 \<times> u64" where
  "sent_counts st = (messages_sent (g_stats st), bytes_sent (g_stats st), send_errors (g_stats st),
     back_pressure_events (g_stats st))"

lemma print_stats_counts [simp]: "sent_counts (print_stats f ts st) = sent_counts st"
  by (simp add: print_stats_def sent_counts_def Let_def)

lemma pub_stats_tick_counts [simp]: "sent_counts (pub_stats_tick ts st) = sent_counts st"
  by (simp add: pub_stats_tick_def)

lemma fold_tick_counts [simp]: "sent_counts (fold pub_stats_tick tss st) = sent_counts st"
  by (induction tss arbitrary: st) simp_all

lemma fold_print_counts [simp]: "sent_counts (fold (print_stats f) tss st) = sent_counts st"
  by (induction tss arbitrary: st) simp_all

lemma interfere_counts [simp]: "sent_counts (interfere it st) = sent_counts st"
proof -
  have "sent_counts (interfere it st) = sent_counts (fold pub_stats_tick (ticks it) st)"
    by (simp add: interfere_def pub_signal_handler_def sent_counts_def Let_def)
  then show ?thesis by simp
qed

lemma print_stats_running [simp]: "running (print_stats f ts st) = running st"
  by (simp add: print_stats_def Let_def)

lemma fold_tick_running [simp]: "running (fold pub_stats_tick tss st) = running st"
  by (induction tss arbitrary: st) (simp_all add: pub_stats_tick_def)

lemma interfere_running [simp]: "running (interfere it st) \<longleftrightarrow> running st \<and> \<not> signalled it"
  by (simp add: interfere_def pub_signal_handler_def Let_def)

section \<open>One pass of the loop\<close>

text \<open>The outcome of offering a message, as the loop sees it.\<close>

definition offer_outcome :: "u64 \<Rightarrow> int \<Rightarrow> pub_state \<Rightarrow> int \<times> pub_state" where
  "offer_outcome msize r st =
     (if 0 < r then (r, count_sent msize st)
      else if r = AERON_PUBLICATION_BACK_PRESSURED then (- 1, offer_failed_handler st)
      else if r = AERON_PUBLICATION_NOT_CONNECTED \<or> r = AERON_PUBLICATION_ADMIN_ACTION \<or>
              r = AERON_PUBLICATION_CLOSED then (- 2, count_error st)
      else (r, st))"

abbreviation pass_message :: "u64 \<Rightarrow> pub_iteration \<Rightarrow> u8 list" where
  "pass_message msize it \<equiv> wire_message (unat msize) (get_timestamp_ns (send_clock it))"

text \<open>In a buffer of the message's size every pass offers the wire format of its timestamp.\<close>

lemma publisher_loop_pass:
  assumes "8 \<le> unat msize" and "length buffer = unat msize"
  shows "publisher_loop offer e msize n env i succ retries buffer p st0 =
    (let st = interfere (env i) st0; m = pass_message msize (env i) in
     if running st \<and> succ < n
     then (let (r, p') = offer p m; (result, st') = offer_outcome msize r st in
           if 0 < result
           then (if n \<le> succ + 1 then Some (p', st', succ + 1, m)
                 else publisher_loop offer e msize n env (Suc i) (succ + 1) 0 m p' st')
           else if result = - 1
           then (if MAX_RETRIES < retries + 1 then Some (p', st', succ, m)
                 else publisher_loop offer e msize n env (Suc i) succ (retries + 1) m p' st')
           else Some (p', st', succ, m))
     else Some (p, st, succ, buffer))"
proof -
  let ?m = "pass_message msize (env i)"
  have c: "create_binary_message e buffer (unat msize) (get_timestamp_ns (send_clock (env i))) = Some ?m"
    using assms by (simp add: create_binary_message_eq)
  have "mem_read ?m 0 (unat msize) = Some ?m" using assms by (simp add: mem_read_def)
  then have pm: "publish_message offer p ?m msize st =
      Some (case offer p ?m of (r, p') \<Rightarrow>
        (fst (offer_outcome msize r st), p', snd (offer_outcome msize r st)))" for st
    by (simp add: publish_message_def offer_outcome_def split: prod.split)
  show ?thesis
    by (subst publisher_loop.simps) (simp only: c pm option.case Let_def prod.case split_beta fst_conv snd_conv)
qed

text \<open>
  What the documentation of \<open>aeron_publication_offer\<close> promises, over what a publication has
  accepted: a positive answer (the new position) means the message was taken, any other that it was
  not.
\<close>

definition offer_appends :: "'p offer_fun \<Rightarrow> ('p \<Rightarrow> u8 list list) \<Rightarrow> bool" where
  "offer_appends offer accepted \<longleftrightarrow>
     (\<forall>p m. accepted (snd (offer p m)) = accepted p @ (if 0 < fst (offer p m) then [m] else []))"

text \<open>Messages accepted from pass \<open>i\<close> on, by the numbers of their passes.\<close>

definition sent_in :: "u64 \<Rightarrow> (nat \<Rightarrow> pub_iteration) \<Rightarrow> nat \<Rightarrow> nat list \<Rightarrow> u8 list list \<Rightarrow> bool" where
  "sent_in msize env i js ms \<longleftrightarrow>
     sorted_wrt (<) js \<and> (\<forall>j \<in> set js. i \<le> j) \<and> ms = map (\<lambda>j. pass_message msize (env j)) js"

lemma sent_in_Nil [simp]: "sent_in msize env i [] []"
  by (simp add: sent_in_def)

lemma sent_in_later: "sent_in msize env (Suc i) js ms \<Longrightarrow> sent_in msize env i js ms"
  by (auto simp: sent_in_def)

lemma sent_in_Cons:
  "sent_in msize env (Suc i) js ms \<Longrightarrow> sent_in msize env i (i # js) (pass_message msize (env i) # ms)"
  by (auto simp: sent_in_def)

text \<open>What a run of the loop does to the counters, in terms of the number of accepted messages.\<close>

definition accounts :: "u64 \<Rightarrow> nat \<Rightarrow> pub_state \<Rightarrow> pub_state \<Rightarrow> bool" where
  "accounts msize k st st' \<longleftrightarrow>
     messages_sent (g_stats st') = messages_sent (g_stats st) + of_nat k \<and>
     bytes_sent (g_stats st') = bytes_sent (g_stats st) + of_nat k * msize"

lemma accounts_refl: "sent_counts st' = sent_counts st \<Longrightarrow> accounts msize 0 st st'"
  by (simp add: accounts_def sent_counts_def)

lemma accounts_outcome:
  assumes "sent_counts st = sent_counts st0" and "offer_outcome msize r st = (result, st1)"
    and "accounts msize k st1 st'"
  shows "accounts msize (if 0 < r then Suc k else k) st0 st'"
  using assms
  by (auto simp: offer_outcome_def accounts_def sent_counts_def count_sent_def count_error_def
      offer_failed_handler_def algebra_simps split: if_splits)

lemma offer_outcome_positive: "offer_outcome msize r st = (result, st1) \<Longrightarrow> 0 < result \<longleftrightarrow> 0 < r"
  by (auto simp: offer_outcome_def split: if_splits)

lemma unat_Suc_send: "succ < n \<Longrightarrow> unat (succ + 1 :: u64) = Suc (unat succ)"
  using unat_u64_less [of n] by (simp add: unat_word_ariths word_less_nat_alt)

text \<open>An upper bound of the passes to come.\<close>

definition passes_left :: "u64 \<Rightarrow> u64 \<Rightarrow> u64 \<Rightarrow> nat" where
  "passes_left n succ retries = (unat n - unat succ) * 1000004 + retries_left retries"

lemma retries_left_bound: "retries_left r \<le> 1000003"
proof -
  have "1000001 - unat r \<le> 1000001" by (rule diff_le_self)
  then show ?thesis by (simp add: retries_left_def del: diff_le_self)
qed

lemma passes_left_send: "succ < n \<Longrightarrow> passes_left n (succ + 1) 0 < passes_left n succ retries"
  using sends_left_decreases [of succ n] retries_left_bound [of 0]
  by (simp add: passes_left_def retries_left_def)

lemma passes_left_retry:
  "\<not> MAX_RETRIES < retries + 1 \<Longrightarrow> passes_left n succ (retries + 1) < passes_left n succ retries"
  using retries_left_decreases by (simp add: passes_left_def)

lemma publisher_loop_accounting:
  assumes "8 \<le> unat msize" and "offer_appends offer accepted"
  shows "length buffer = unat msize \<Longrightarrow> succ \<le> n \<Longrightarrow>
    \<exists>p' st' succ' m js ms.
      publisher_loop offer e msize n env i succ retries buffer p st = Some (p', st', succ', m) \<and>
      accepted p' = accepted p @ ms \<and> sent_in msize env i js ms \<and>
      unat succ' = unat succ + length ms \<and> succ' \<le> n \<and> accounts msize (length ms) st st'"
proof (induction "passes_left n succ retries" arbitrary: i succ retries buffer p st rule: less_induct)
  case less
  define st1 where "st1 = interfere (env i) st"
  define m where "m = pass_message msize (env i)"
  obtain r p1 where o: "offer p m = (r, p1)" by (cases "offer p m")
  obtain result st2 where out: "offer_outcome msize r st1 = (result, st2)"
    by (cases "offer_outcome msize r st1")
  have len: "length m = unat msize" using assms(1) by (simp add: m_def)
  have acc: "accepted p1 = accepted p @ (if 0 < r then [m] else [])"
    using assms(2) [unfolded offer_appends_def, rule_format, of p m] o by simp
  have cnt: "sent_counts st1 = sent_counts st" by (simp add: st1_def)
  note pass = publisher_loop_pass [OF assms(1) less.prems(1), of offer e n env i succ retries p st,
      folded st1_def m_def, unfolded Let_def o prod.case out]
  show ?case
  proof (cases "running st1 \<and> succ < n")
    case False
    then show ?thesis
      using pass less.prems(2) accounts_refl [OF cnt] by (auto intro!: exI [of _ "[]"])
  next
    case True
    then have Suc: "unat (succ + 1) = Suc (unat succ)" by (intro unat_Suc_send) blast
    have le: "succ + 1 \<le> n" using True Suc by (simp add: word_le_nat_alt word_less_nat_alt)
    consider (last) "0 < r" "n \<le> succ + 1" | (sent) "0 < r" "\<not> n \<le> succ + 1"
      | (retry) "\<not> 0 < r" "result = - 1" "\<not> MAX_RETRIES < retries + 1"
      | (stop) "\<not> 0 < r" "result \<noteq> - 1 \<or> MAX_RETRIES < retries + 1"
      by blast
    then show ?thesis
    proof cases
      case last
      have "sent_in msize env i [i] [m]" using sent_in_Cons [OF sent_in_Nil] by (simp add: m_def)
      moreover have "accounts msize 1 st st2"
        using accounts_outcome [OF cnt out accounts_refl [OF refl]] last by simp
      ultimately show ?thesis
        using pass True last offer_outcome_positive [OF out] acc Suc le
        by (auto intro!: exI [of _ "[i]"] exI [of _ "[m]"])
    next
      case sent
      from less.hyps [OF passes_left_send [of succ n retries] len le, of "Suc i" p1 st2] True
      obtain p' st' succ' m' js ms where
        "publisher_loop offer e msize n env (Suc i) (succ + 1) 0 m p1 st2 = Some (p', st', succ', m')"
        "accepted p' = accepted p1 @ ms" "sent_in msize env (Suc i) js ms"
        "unat succ' = unat (succ + 1) + length ms" "succ' \<le> n" "accounts msize (length ms) st2 st'"
        by blast
      moreover have "accounts msize (length (m # ms)) st st'"
        using accounts_outcome [OF cnt out, of "length ms" st'] calculation(6) sent by simp
      moreover have "sent_in msize env i (i # js) (m # ms)"
        using sent_in_Cons [OF calculation(3)] by (simp add: m_def)
      ultimately show ?thesis
        using pass True sent offer_outcome_positive [OF out] acc Suc
        by (auto intro!: exI [of _ "i # js"] exI [of _ "m # ms"])
    next
      case retry
      from less.hyps [OF passes_left_retry [OF retry(3)] len less.prems(2), of "Suc i" p1 st2]
      obtain p' st' succ' m' js ms where
        "publisher_loop offer e msize n env (Suc i) succ (retries + 1) m p1 st2 = Some (p', st', succ', m')"
        "accepted p' = accepted p1 @ ms" "sent_in msize env (Suc i) js ms"
        "unat succ' = unat succ + length ms" "succ' \<le> n" "accounts msize (length ms) st2 st'"
        by blast
      moreover have "accounts msize (length ms) st st'"
        using accounts_outcome [OF cnt out, of "length ms" st'] calculation(6) retry by simp
      ultimately show ?thesis
        using pass True retry offer_outcome_positive [OF out] acc sent_in_later by fastforce
    next
      case stop
      have "accounts msize 0 st st2"
        using accounts_outcome [OF cnt out accounts_refl [OF refl]] stop by simp
      then show ?thesis
        using pass True stop offer_outcome_positive [OF out] acc less.prems(2)
        by (auto intro!: exI [of _ "[]"])
    qed
  qed
qed

section \<open>What ends the loop\<close>

text \<open>
  The offers of an undisturbed run: pass \<open>i\<close> offers its message to the publication as the passes before it
  have left it. Whatever the library is, this determines its answers.
\<close>

fun publication_after :: "'p offer_fun \<Rightarrow> u64 \<Rightarrow> (nat \<Rightarrow> pub_iteration) \<Rightarrow> 'p \<Rightarrow> nat \<Rightarrow> 'p" where
  "publication_after offer msize env p 0 = p"
| "publication_after offer msize env p (Suc i) = snd (offer (publication_after offer msize env p i) (pass_message msize (env i)))"

definition answer :: "'p offer_fun \<Rightarrow> u64 \<Rightarrow> (nat \<Rightarrow> pub_iteration) \<Rightarrow> 'p \<Rightarrow> nat \<Rightarrow> int" where
  "answer offer msize env p i = fst (offer (publication_after offer msize env p i) (pass_message msize (env i)))"

text \<open>
  The loop gives up after offer \<open>k - 1\<close>: its answer was neither a position nor back pressure, or it was
  the last of a million and one answers of back pressure in a row.
\<close>

definition gives_up_at :: "(nat \<Rightarrow> int) \<Rightarrow> nat \<Rightarrow> bool" where
  "gives_up_at a k \<longleftrightarrow> 0 < k \<and>
     (a (k - 1) \<le> 0 \<and> a (k - 1) \<noteq> AERON_PUBLICATION_BACK_PRESSURED \<or>
      1000001 \<le> k \<and> (\<forall>j. k - 1000001 \<le> j \<and> j < k \<longrightarrow> a j = AERON_PUBLICATION_BACK_PRESSURED))"

text \<open>Up to offer \<open>k\<close>, \<open>n\<close> messages are taken, all that were to be sent, or the loop gives up there, and not before.\<close>

definition ends_after :: "(nat \<Rightarrow> int) \<Rightarrow> nat \<Rightarrow> nat \<Rightarrow> bool" where
  "ends_after a goal k \<longleftrightarrow>
     (let taken = (\<lambda>k. length (filter (\<lambda>j. 0 < a j) [0..<k]))
      in (taken k = goal \<or> taken k < goal \<and> gives_up_at a k) \<and> (\<forall>j<k. taken j < goal \<and> \<not> gives_up_at a j))"

lemma accepted_after:
  "offer_appends offer accepted \<Longrightarrow>
   accepted (publication_after offer msize env p k) =
     accepted p @ map (\<lambda>j. pass_message msize (env j)) (filter (\<lambda>j. 0 < answer offer msize env p j) [0..<k])"
  by (induction k) (auto simp: offer_appends_def answer_def)

lemma outcome_running: "running (snd (offer_outcome msize r st)) = running st"
  by (simp add: offer_outcome_def count_sent_def count_error_def offer_failed_handler_def)

text \<open>The offers before pass \<open>i\<close>: \<open>succ\<close> were taken, and since the last of them there were \<open>retries\<close> of back pressure.\<close>

definition loop_history :: "(nat \<Rightarrow> int) \<Rightarrow> nat \<Rightarrow> nat \<Rightarrow> nat \<Rightarrow> nat \<Rightarrow> bool" where
  "loop_history a goal i succ retries \<longleftrightarrow> length (filter (\<lambda>j. 0 < a j) [0..<i]) = succ \<and> retries \<le> i \<and> retries \<le> 1000000 \<and>
     (\<forall>j. i - retries \<le> j \<and> j < i \<longrightarrow> a j = AERON_PUBLICATION_BACK_PRESSURED) \<and>
     (retries < i \<longrightarrow> 0 < a (i - retries - 1)) \<and>
     (\<forall>j<i. length (filter (\<lambda>j. 0 < a j) [0..<j]) < goal \<and> \<not> gives_up_at a j)"

lemma history_quiet:
  assumes "loop_history a goal i succ retries"
  shows "\<not> gives_up_at a i"
proof
  assume g: "gives_up_at a i"
  then have i: "0 < i" by (simp add: gives_up_at_def)
  show False
  proof (cases "retries = 0")
    case True
    then have "0 < a (i - 1)" using assms i by (simp add: loop_history_def)
    moreover from this have "a (i - 1) = AERON_PUBLICATION_BACK_PRESSURED" using g i by (auto simp: gives_up_at_def)
    ultimately show False by simp
  next
    case False
    then have "a (i - 1) = AERON_PUBLICATION_BACK_PRESSURED" using assms i unfolding loop_history_def by (metis diff_le_mono2 diff_less less_one nat_le_linear not_le zero_less_one)
    then have all: "1000001 \<le> i" "\<forall>j. i - 1000001 \<le> j \<and> j < i \<longrightarrow> a j = AERON_PUBLICATION_BACK_PRESSURED" using g by (auto simp: gives_up_at_def)
    have r: "retries \<le> 1000000" "retries < i \<longrightarrow> 0 < a (i - retries - 1)" using assms by (simp_all add: loop_history_def)
    then have "0 < a (i - retries - 1)" "i - 1000001 \<le> i - retries - 1" "i - retries - 1 < i" using all(1) by auto
    then show False using all(2) by force
  qed
qed

lemma history_before:
  assumes "loop_history a goal i succ retries" and "succ < goal"
  shows "\<forall>j<Suc i. length (filter (\<lambda>j. 0 < a j) [0..<j]) < goal \<and> \<not> gives_up_at a j"
  using assms history_quiet [OF assms(1)] by (auto simp: loop_history_def less_Suc_eq)

lemma history_sent:
  assumes "loop_history a goal i succ retries" and "succ < goal" and "0 < a i"
  shows "loop_history a goal (Suc i) (Suc succ) 0"
  using history_before [OF assms(1,2)] assms(1,3) by (simp add: loop_history_def)

lemma history_retry:
  assumes "loop_history a goal i succ retries" and "succ < goal" and "a i = AERON_PUBLICATION_BACK_PRESSURED" and "retries < 1000000"
  shows "loop_history a goal (Suc i) succ (Suc retries)"
  using history_before [OF assms(1,2)] assms(1,3,4) by (auto simp: loop_history_def less_Suc_eq)

lemma publisher_loop_ends:
  fixes offer :: "'p offer_fun" and env :: "nat \<Rightarrow> pub_iteration" and msize :: u64 and p0 :: 'p
  assumes "8 \<le> unat msize" and quiet: "\<And>j. \<not> signalled (env j)"
  defines "a \<equiv> answer offer msize env p0" and "after \<equiv> publication_after offer msize env p0"
  shows "length buffer = unat msize \<Longrightarrow> running st \<Longrightarrow> loop_history a (unat n) i (unat succ) (unat retries) \<Longrightarrow> succ \<le> n \<Longrightarrow>
    \<exists>k st' succ' m. publisher_loop offer e msize n env i succ retries buffer (after i) st = Some (after k, st', succ', m) \<and>
      ends_after a (unat n) k \<and> unat succ' = length (filter (\<lambda>j. 0 < a j) [0..<k])"
proof (induction "passes_left n succ retries" arbitrary: i succ retries buffer st rule: less_induct)
  case less
  define st1 where "st1 = interfere (env i) st"
  define m where "m = pass_message msize (env i)"
  obtain result st2 where out: "offer_outcome msize (a i) st1 = (result, st2)" by (cases "offer_outcome msize (a i) st1")
  have o: "offer (after i) m = (a i, after (Suc i))" by (simp add: a_def after_def m_def answer_def)
  have len: "length m = unat msize" using assms(1) by (simp add: m_def)
  have run: "running st1" using less.prems(2) quiet by (simp add: st1_def)
  then have run2: "running st2" using outcome_running [of msize "a i" st1] out by simp
  note pass = publisher_loop_pass [OF assms(1) less.prems(1), of offer e n env i succ retries "after i" st,
      folded st1_def m_def, unfolded Let_def o prod.case out]
  note hist = less.prems(3)
  have taken: "length (filter (\<lambda>j. 0 < a j) [0..<i]) = unat succ" using hist by (simp add: loop_history_def)
  show ?case
  proof (cases "succ < n")
    case False
    then have "succ = n" using less.prems(4) by simp
    then have "ends_after a (unat n) i" using hist by (simp add: ends_after_def loop_history_def)
    then show ?thesis using pass False taken by (auto intro!: exI [of _ i])
  next
    case more: True
    then have less_n: "unat succ < unat n" by (simp add: word_less_nat_alt)
    have Suc: "unat (succ + 1) = Suc (unat succ)" by (rule unat_Suc_send [OF more])
    have le: "succ + 1 \<le> n" using Suc less_n by (simp add: word_le_nat_alt)
    note before = history_before [OF hist less_n]
    consider (sent) "0 < a i" | (pressed) "a i = AERON_PUBLICATION_BACK_PRESSURED" | (other) "a i \<le> 0" "a i \<noteq> AERON_PUBLICATION_BACK_PRESSURED"
      by linarith
    then show ?thesis
    proof cases
      case sent
      then have res: "0 < result" using offer_outcome_positive [OF out] by simp
      show ?thesis
      proof (cases "n \<le> succ + 1")
        case True
        then have "succ + 1 = n" using le by simp
        then have "ends_after a (unat n) (Suc i)" using before sent taken Suc by (simp add: ends_after_def)
        then show ?thesis using pass run more res True sent taken Suc by (auto intro!: exI [of _ "Suc i"])
      next
        case False
        have "loop_history a (unat n) (Suc i) (unat (succ + 1)) (unat (0 :: u64))" using history_sent [OF hist less_n sent] Suc by simp
        from less.hyps [OF passes_left_send [OF more] len run2 this le] show ?thesis using pass run more res False by simp
      qed
    next
      case pressed
      then have neg: "result = - 1" using out by (simp add: offer_outcome_def)
      have r: "unat retries \<le> 1000000" using hist by (simp add: loop_history_def)
      then have SucR: "unat (retries + 1) = Suc (unat retries)" by (simp add: unat_word_ariths)
      show ?thesis
      proof (cases "MAX_RETRIES < retries + 1")
        case True
        then have "unat retries = 1000000" using r SucR by (simp add: word_less_nat_alt)
        then have "gives_up_at a (Suc i)" using hist pressed by (auto simp: gives_up_at_def loop_history_def less_Suc_eq)
        then have "ends_after a (unat n) (Suc i)" using before pressed taken less_n by (simp add: ends_after_def)
        then show ?thesis using pass run more neg True pressed taken by (auto intro!: exI [of _ "Suc i"])
      next
        case False
        then have "unat retries < 1000000" using SucR by (simp add: word_less_nat_alt)
        from history_retry [OF hist less_n pressed this] SucR
        have "loop_history a (unat n) (Suc i) (unat succ) (unat (retries + 1))" by simp
        from less.hyps [OF passes_left_retry [OF False] len run2 this less.prems(4)] show ?thesis using pass run more neg False by simp
      qed
    next
      case other
      then have neg: "\<not> 0 < result" "result \<noteq> - 1" using out by (auto simp: offer_outcome_def split: if_splits)
      have "gives_up_at a (Suc i)" using other by (simp add: gives_up_at_def)
      then have "ends_after a (unat n) (Suc i)" using before other taken less_n by (simp add: ends_after_def)
      then show ?thesis using pass run more neg other taken by (auto intro!: exI [of _ "Suc i"])
    qed
  qed
qed


section \<open>When none is sent\<close>

lemma publisher_loop_all_refused:
  assumes "8 \<le> unat msize" and bp: "\<And>p m. fst (offer p m) = AERON_PUBLICATION_BACK_PRESSURED"
    and quiet: "\<And>j. \<not> signalled (env j)"
  shows "length buffer = unat msize \<Longrightarrow> succ < n \<Longrightarrow> running st \<Longrightarrow> unat retries \<le> 1000000 \<Longrightarrow>
    \<exists>p' st' m. publisher_loop offer e msize n env i succ retries buffer p st = Some (p', st', succ, m) \<and>
      sent_counts st' = (messages_sent (g_stats st), bytes_sent (g_stats st), send_errors (g_stats st),
        back_pressure_events (g_stats st) + word_of_nat (1000001 - unat retries))"
proof (induction "passes_left n succ retries" arbitrary: i retries buffer p st rule: less_induct)
  case less
  define st1 where "st1 = interfere (env i) st"
  define m where "m = pass_message msize (env i)"
  obtain p1 where o: "offer p m = (- 2, p1)" using bp [of p m] by (cases "offer p m") simp
  have out: "offer_outcome msize (- 2) st1 = (- 1, offer_failed_handler st1)"
    by (simp add: offer_outcome_def)
  have len: "length m = unat msize" using assms(1) by (simp add: m_def)
  have run: "running st1" using less.prems(3) quiet by (simp add: st1_def)
  have cnt: "sent_counts (offer_failed_handler st1) = (messages_sent (g_stats st),
      bytes_sent (g_stats st), send_errors (g_stats st), back_pressure_events (g_stats st) + 1)"
    using interfere_counts [of "env i" st]
    by (simp add: st1_def offer_failed_handler_def sent_counts_def)
  note pass = publisher_loop_pass [OF assms(1) less.prems(1), of offer e n env i succ retries p st,
      folded st1_def m_def, unfolded Let_def o prod.case out]
  have Suc: "unat (retries + 1) = Suc (unat retries)"
    using less.prems(4) by (simp add: unat_word_ariths)
  show ?case
  proof (cases "MAX_RETRIES < retries + 1")
    case True
    then have "unat retries = 1000000" using less.prems(4) Suc by (simp add: word_less_nat_alt)
    then show ?thesis using pass True run less.prems(2) cnt by simp
  next
    case False
    then have le: "unat (retries + 1) \<le> 1000000" by (simp add: word_less_nat_alt)
    have run2: "running (offer_failed_handler st1)" using run by (simp add: offer_failed_handler_def)
    from less.hyps [OF passes_left_retry [OF False] len less.prems(2) run2 le, of "Suc i" p1]
    obtain p' st' m' where
      "publisher_loop offer e msize n env (Suc i) succ (retries + 1) m p1 (offer_failed_handler st1)
         = Some (p', st', succ, m')"
      "sent_counts st' = (messages_sent (g_stats st), bytes_sent (g_stats st),
         send_errors (g_stats st), back_pressure_events (g_stats st) + 1
           + word_of_nat (1000001 - unat (retries + 1)))"
      using cnt by (auto simp: sent_counts_def)
    moreover have "(1 :: u64) + word_of_nat (1000001 - unat (retries + 1))
        = word_of_nat (1000001 - unat retries)"
    proof -
      have "1000001 - unat retries = 1 + (1000001 - unat (retries + 1))"
        using le Suc by simp
      then show ?thesis by (simp only: of_nat_add of_nat_1)
    qed
    ultimately show ?thesis using pass False run less.prems(2) by (simp add: add.assoc)
  qed
qed

section \<open>Whole runs\<close>

lemma init_pattern_length:
  "n \<le> length buf \<Longrightarrow> \<exists>buf'. init_pattern i n buf = Some buf' \<and> length buf' = length buf"
proof (induction i n buf rule: init_pattern.induct)
  case (1 i n buf)
  show ?case
  proof (cases "i < n")
    case True
    then have "mem_store buf i (word_of_nat (i mod 256)) = Some (buf[i := word_of_nat (i mod 256)])"
      using "1.prems" by (simp add: cmem)
    with True 1 show ?thesis by (simp add: init_pattern.simps [of i])
  next
    case False
    then show ?thesis by (simp add: init_pattern.simps [of i])
  qed
qed

text \<open>
  The surroundings of an ordinary run: the memory \<open>malloc\<close> returns has the size asked for and the
  statistics thread is there.
\<close>

definition good_env :: "pub_env \<Rightarrow> config \<Rightarrow> bool" where
  "good_env env config \<longleftrightarrow>
     (\<exists>block. malloc env (unat (message_size config)) = Some block \<and>
        length block = unat (message_size config)) \<and> thread_created env"

text \<open>The statistics structure as the loop finds it.\<close>

definition started :: "pub_env \<Rightarrow> pub_state \<Rightarrow> pub_state" where
  "started env st = st\<lparr>g_stats := (g_stats st)\<lparr>pub_start_time := get_timestamp_ns (start_clock env),
     pub_last_stats_time := get_timestamp_ns (start_clock env)\<rparr>\<rparr>"

definition finished :: "pub_env \<Rightarrow> pub_state \<Rightarrow> pub_state" where
  "finished env st = print_stats True (end_clock env)
     (fold (print_stats False) (last_ticks env) (st\<lparr>running := False\<rparr>))"

lemma started_simps [simp]:
  "sent_counts (started env st) = sent_counts st" "running (started env st) = running st"
  by (simp_all add: started_def sent_counts_def)

lemma fold_print_running [simp]: "running (fold (print_stats f) tss st) = running st"
  by (induction tss arbitrary: st) simp_all

lemma finished_simps [simp]:
  "sent_counts (finished env st) = sent_counts st" "\<not> running (finished env st)"
proof -
  have "sent_counts (st\<lparr>running := False\<rparr>) = sent_counts st" by (simp add: sent_counts_def)
  then show "sent_counts (finished env st) = sent_counts st" by (simp add: finished_def)
qed (simp add: finished_def)

lemma run_publisher_eq:
  assumes "good_env env config"
  shows "\<exists>buffer. length buffer = unat (message_size config) \<and>
    run_publisher offer e env config p st =
      map_option (\<lambda>(p', st', _, _). (ERROR_SUCCESS, p', finished env st'))
        (publisher_loop offer e (message_size config) (config_message_count config) (iterations env)
           0 0 0 buffer p (started env st))"
proof -
  obtain block where b: "malloc env (unat (message_size config)) = Some block"
    "length block = unat (message_size config)" "thread_created env"
    using assms by (auto simp: good_env_def)
  obtain buffer where i: "init_pattern 8 (unat (message_size config)) block = Some buffer"
    "length buffer = length block"
    using init_pattern_length [of "unat (message_size config)" block 8] b by auto
  show ?thesis
    by (rule exI [of _ buffer])
      (use b i in \<open>simp add: run_publisher_def started_def finished_def Let_def split: option.split\<close>)
qed

text \<open>Anything that one pass keeps, the loop keeps.\<close>

lemma publisher_loop_preserves:
  assumes keep: "\<And>it st. P st \<Longrightarrow> P (interfere it st)"
    "\<And>msize st. P st \<Longrightarrow> P (count_sent msize st)" "\<And>st. P st \<Longrightarrow> P (count_error st)"
    "\<And>st. P st \<Longrightarrow> P (offer_failed_handler st)"
  shows "publisher_loop offer e msize n env i succ retries buffer p st = Some (p', st', succ', m) \<Longrightarrow>
    P st \<Longrightarrow> P st'"
proof (induction offer e msize n env i succ retries buffer p st
    arbitrary: p' st' succ' m rule: publisher_loop.induct)
  case (1 offer e msize n env i succ retries buffer p st)
  have send: "P st''" if "publish_message offer p b msize (interfere (env i) st) = Some (r, p'', st'')"
    for b r p'' st''
    using that keep "1.prems"(2)
    by (auto simp: publish_message_def split: option.splits prod.splits if_splits)
  show ?case
    using "1.prems"(1) keep(1) [OF "1.prems"(2)] send "1.IH"
    by (subst (asm) publisher_loop.simps)
      (auto simp: Let_def split: if_splits option.splits prod.splits)
qed

lemma interfere_start_time [simp]:
  "pub_start_time (g_stats (interfere it st)) = pub_start_time (g_stats st)"
proof -
  have "pub_start_time (g_stats (fold pub_stats_tick tss st)) = pub_start_time (g_stats st)" for tss
    by (induction tss arbitrary: st) (simp_all add: pub_stats_tick_def print_stats_def Let_def)
  then show ?thesis by (simp add: interfere_def pub_signal_handler_def Let_def)
qed

lemma publisher_loop_start_time:
  "publisher_loop offer e msize n env i succ retries buffer p st = Some (p', st', succ', m) \<Longrightarrow>
   pub_start_time (g_stats st') = pub_start_time (g_stats st)"
  by (rule publisher_loop_preserves [where P = "\<lambda>s. pub_start_time (g_stats s) = pub_start_time (g_stats st)"])
    (auto simp: count_sent_def count_error_def offer_failed_handler_def)

lemma finished_printed:
  "\<exists>reports. printed (finished env st) = reports @
     final_reports (get_timestamp_ns (end_clock env) - pub_start_time (g_stats st))
       (g_stats (finished env st))"
proof -
  have "pub_start_time (g_stats (fold (print_stats False) tss st)) = pub_start_time (g_stats st)" for tss st
    by (induction tss arbitrary: st) (simp_all add: print_stats_def Let_def)
  then show ?thesis by (simp add: finished_def print_stats_def Let_def)
qed

text \<open>The counters, the accepted messages and the last report of a whole run, for any library.\<close>

lemma run_publisher_books:
  assumes "8 \<le> unat (message_size config)" and "good_env env config"
    and "offer_appends offer accepted"
  shows "\<exists>p' st' js reports.
    run_publisher offer e env config p initial_pub_state = Some (ERROR_SUCCESS, p', st') \<and>
    accepted p' = accepted p @ map (\<lambda>j. wire_message (unat (message_size config))
      (get_timestamp_ns (send_clock (iterations env j)))) js \<and>
    sorted_wrt (<) js \<and> length js \<le> unat (config_message_count config) \<and>
    messages_sent (g_stats st') = word_of_nat (length js) \<and>
    bytes_sent (g_stats st') = word_of_nat (length js) * message_size config \<and> \<not> running st' \<and>
    printed st' = reports @ final_reports
      (get_timestamp_ns (end_clock env) - get_timestamp_ns (start_clock env)) (g_stats st')"
proof -
  obtain buffer where len: "length buffer = unat (message_size config)" and
    run: "run_publisher offer e env config p initial_pub_state =
      map_option (\<lambda>(p', st', _, _). (ERROR_SUCCESS, p', finished env st'))
        (publisher_loop offer e (message_size config) (config_message_count config) (iterations env)
           0 0 0 buffer p (started env initial_pub_state))"
    using run_publisher_eq [OF assms(2), of offer e p initial_pub_state] by blast
  obtain p' st' succ' m js ms where l:
      "publisher_loop offer e (message_size config) (config_message_count config) (iterations env)
         0 0 0 buffer p (started env initial_pub_state) = Some (p', st', succ', m)"
    and acc: "accepted p' = accepted p @ ms" "sent_in (message_size config) (iterations env) 0 js ms"
    and succ: "unat succ' = length ms" "succ' \<le> config_message_count config"
    and cnt: "accounts (message_size config) (length ms) (started env initial_pub_state) st'"
    using publisher_loop_accounting [OF assms(1,3) len, of 0 "config_message_count config" e
        "iterations env" 0 0 p "started env initial_pub_state"] by auto
  have js: "length js = length ms" using acc(2) by (simp add: sent_in_def)
  have "messages_sent (g_stats (finished env st')) = word_of_nat (length js)"
    "bytes_sent (g_stats (finished env st')) = word_of_nat (length js) * message_size config"
    using cnt js started_simps(1) [of env initial_pub_state] finished_simps(1) [of env st']
    by (simp_all add: accounts_def initial_pub_state_def sent_counts_def)
  moreover have "length js \<le> unat (config_message_count config)"
    using succ js by (simp add: word_le_nat_alt)
  moreover obtain reports where "printed (finished env st') = reports @ final_reports
      (get_timestamp_ns (end_clock env) - pub_start_time (g_stats st')) (g_stats (finished env st'))"
    using finished_printed by blast
  moreover have "pub_start_time (g_stats st') = get_timestamp_ns (start_clock env)"
    using publisher_loop_start_time [OF l] by (simp add: started_def)
  ultimately show ?thesis using run l acc by (auto simp: sent_in_def)
qed

text \<open>
  C4. The publisher always comes to an end and its books are right: in surroundings where memory and
  the statistics thread are available, whatever the library answers, whenever signals arrive and
  whatever the statistics thread prints in between, \<open>run_publisher\<close> returns; the library has
  accepted at most the configured number of messages, each the wire format of the timestamp read in
  its own pass, in the order of the passes; \<open>messages_sent\<close> and \<open>bytes_sent\<close> are the number of
  accepted messages and that number times the message size; and the last report printed is the final
  one for these counters and the time from start to end.
\<close>

theorem run_publisher_accounts:
  assumes "8 \<le> unat (message_size config)" and "good_env env config"
    and "offer_appends offer accepted"
  shows "\<exists>p' st' js reports.
    run_publisher offer e env config p initial_pub_state = Some (ERROR_SUCCESS, p', st') \<and>
    accepted p' = accepted p @ map (\<lambda>j. wire_message (unat (message_size config))
      (get_timestamp_ns (send_clock (iterations env j)))) js \<and>
    sorted_wrt (<) js \<and> length js \<le> unat (config_message_count config) \<and>
    messages_sent (g_stats st') = word_of_nat (length js) \<and>
    bytes_sent (g_stats st') = word_of_nat (length js) * message_size config \<and> \<not> running st' \<and>
    printed st' = reports @ final_reports
      (get_timestamp_ns (end_clock env) - get_timestamp_ns (start_clock env)) (g_stats st')"
  using assms by (rule run_publisher_books)

text \<open>
  A publication that answers from a script and accepts everything after it, and a small run on it.
\<close>

fun scripted_offer :: "(u8 list list \<times> int list) offer_fun" where
  "scripted_offer (log, []) m = (1, log @ [m], [])"
| "scripted_offer (log, r # rs) m = (r, if 0 < r then log @ [m] else log, rs)"

definition example_config :: config where
  "example_config =
     \<lparr>transport = TRANSPORT_IPC, channel = replicate 256 NUL, custom_endpoint = replicate 64 NUL,
      aeron_dir = replicate 256 NUL, stream_id = 1001, message_size = 16, config_message_count = 2,
      target_message_count = 2, fragment_limit = 10\<rparr>"

definition example_env :: pub_env where
  "example_env =
     \<lparr>malloc = (\<lambda>n. Some (replicate n 0)), thread_created = True,
      start_clock = \<lparr>tv_sec = 1, tv_nsec = 0\<rparr>,
      iterations = (\<lambda>i. \<lparr>ticks = [\<lparr>tv_sec = 2, tv_nsec = word_of_nat i\<rparr>], signalled = False,
        send_clock = \<lparr>tv_sec = 3, tv_nsec = word_of_nat i\<rparr>\<rparr>),
      last_ticks = [], end_clock = \<lparr>tv_sec = 5, tv_nsec = 0\<rparr>\<rparr>"

lemma scripted_offer_appends: "offer_appends scripted_offer fst"
  unfolding offer_appends_def
proof (intro allI)
  fix p :: "u8 list list \<times> int list" and m
  show "fst (snd (scripted_offer p m)) = fst p @ (if 0 < fst (scripted_offer p m) then [m] else [])"
    by (cases "(p, m)" rule: scripted_offer.cases) simp_all
qed

lemma example_run_setup [simp]:
  "good_env example_env example_config" "8 \<le> unat (message_size example_config)"
  by (simp_all add: good_env_def example_env_def example_config_def)

theorem run_publisher_accounts_witness:
  "\<exists>p' st' js. run_publisher scripted_offer Little example_env example_config ([], [- 2, 64, - 3])
       initial_pub_state = Some (ERROR_SUCCESS, p', st') \<and>
     fst p' = map (\<lambda>j. wire_message 16 (3000000000 + word_of_nat j)) js \<and> length js \<le> 2 \<and>
     messages_sent (g_stats st') = word_of_nat (length js)"
proof -
  have "unat (message_size example_config) = 16" "unat (config_message_count example_config) = 2"
    "get_timestamp_ns (send_clock (iterations example_env j)) = 3000000000 + word_of_nat j" for j
    by (simp_all add: example_config_def example_env_def get_timestamp_ns_def)
  then show ?thesis
    using run_publisher_accounts [OF example_run_setup(2,1) scripted_offer_appends,
        of Little "([], [- 2, 64, - 3])"] by auto
qed

text \<open>
  C11. How far an undisturbed run gets: whatever the library is and however it answers, the publisher
  makes some number \<open>k\<close> of offers, one per pass, and returns. The library has then accepted exactly
  the messages of the passes whose offer was answered by a position, and \<open>messages_sent\<close> counts them.
  The number \<open>k\<close> is the first at which the configured number of messages is sent, or after which the
  loop gives up: because an answer was neither a position nor back pressure (an \<open>ADMIN_ACTION\<close> at
  the end of a term is one), or because a million and one answers in a row were back pressure. So back
  pressure alone, for up to a million offers in a row, never loses a message.
\<close>

theorem run_publisher_delivers_or_stops:
  assumes "8 \<le> unat (message_size config)" and "good_env env config"
    and "offer_appends offer accepted" and "\<And>j. \<not> signalled (iterations env j)"
  shows "\<exists>k st' js.
    run_publisher offer e env config p initial_pub_state =
      Some (ERROR_SUCCESS, publication_after offer (message_size config) (iterations env) p k, st') \<and>
    ends_after (answer offer (message_size config) (iterations env) p) (unat (config_message_count config)) k \<and>
    js = filter (\<lambda>j. 0 < answer offer (message_size config) (iterations env) p j) [0..<k] \<and>
    accepted (publication_after offer (message_size config) (iterations env) p k) = accepted p @
      map (\<lambda>j. wire_message (unat (message_size config)) (get_timestamp_ns (send_clock (iterations env j)))) js \<and>
    messages_sent (g_stats st') = word_of_nat (length js)"
proof -
  let ?st = "started env initial_pub_state" and ?after = "publication_after offer (message_size config) (iterations env) p"
  obtain buffer where len: "length buffer = unat (message_size config)" and
    run: "run_publisher offer e env config p initial_pub_state =
      map_option (\<lambda>(p', st', _, _). (ERROR_SUCCESS, p', finished env st'))
        (publisher_loop offer e (message_size config) (config_message_count config) (iterations env)
           0 0 0 buffer p ?st)"
    using run_publisher_eq [OF assms(2), of offer e p initial_pub_state] by blast
  have start: "running ?st" "0 \<le> config_message_count config"
    "loop_history (answer offer (message_size config) (iterations env) p) (unat (config_message_count config)) 0
       (unat (0 :: u64)) (unat (0 :: u64))"
    by (simp_all add: initial_pub_state_def loop_history_def)
  obtain k st' succ' m where l: "publisher_loop offer e (message_size config) (config_message_count config)
      (iterations env) 0 0 0 buffer p ?st = Some (?after k, st', succ', m)"
    and ends: "ends_after (answer offer (message_size config) (iterations env) p) (unat (config_message_count config)) k"
    using publisher_loop_ends [OF assms(1,4) len start(1,3,2), of e] by auto
  with run have "run_publisher offer e env config p initial_pub_state =
      Some (ERROR_SUCCESS, ?after k, finished env st')" by simp
  moreover from this run_publisher_books [OF assms(1-3), of e p]
  obtain js where "accepted (?after k) = accepted p @ map (\<lambda>j. pass_message (message_size config) (iterations env j)) js"
    "messages_sent (g_stats (finished env st')) = word_of_nat (length js)" by auto
  moreover from this(1) have "length js = length (filter (\<lambda>j. 0 < answer offer (message_size config) (iterations env) p j) [0..<k])"
    using accepted_after [OF assms(3), of "message_size config" "iterations env" p k] by (metis length_map same_append_eq)
  ultimately show ?thesis
    using ends accepted_after [OF assms(3), of "message_size config" "iterations env" p k] by auto
qed

text \<open>A publication that refuses each message once with back pressure: the run gives up nowhere.\<close>

definition stuttering_offer :: "(u8 list list \<times> bool) offer_fun" where
  "stuttering_offer p m = (if snd p then (64, fst p @ [m], False) else (- 2, fst p, True))"

lemma stuttering_after: "snd (publication_after stuttering_offer msize env (ms, False) k) \<longleftrightarrow> odd k"
  by (induction k) (auto simp: stuttering_offer_def)

lemma stuttering_answer: "answer stuttering_offer msize env (ms, False) k = (if odd k then 64 else - 2)"
  using stuttering_after [of msize env ms k] by (auto simp: answer_def stuttering_offer_def)

lemma stuttering_goes_on: "\<not> gives_up_at (answer stuttering_offer msize env (ms, False)) k"
proof
  assume g: "gives_up_at (answer stuttering_offer msize env (ms, False)) k"
  then have k: "1000001 \<le> k" and "\<And>j. k - 1000001 \<le> j \<Longrightarrow> j < k \<Longrightarrow> even j"
    by (auto simp: gives_up_at_def stuttering_answer split: if_splits)
  moreover from k have "k - 1000001 \<le> k - 1" "k - 1 < k" "k - 1000001 \<le> k - 2" "k - 2 < k" by linarith+
  ultimately have "even (k - 1)" "even (k - 2)" by blast+
  then show False using k by presburger
qed

theorem run_publisher_delivers_or_stops_witness:
  "\<exists>p' st'. run_publisher stuttering_offer Big example_env example_config ([], False)
     initial_pub_state = Some (ERROR_SUCCESS, p', st') \<and> length (fst p') = 2 \<and>
     messages_sent (g_stats st') = 2"
proof -
  have "offer_appends stuttering_offer fst" "\<And>j. \<not> signalled (iterations example_env j)"
    "unat (config_message_count example_config) = 2"
    by (simp_all add: offer_appends_def stuttering_offer_def example_env_def example_config_def)
  then show ?thesis
    using run_publisher_delivers_or_stops [OF example_run_setup(2,1), of stuttering_offer fst Big "([], False)"]
      stuttering_goes_on by (fastforce simp: ends_after_def Let_def simp del: split_paired_Ex)
qed

text \<open>
  C26. Giving up: against a library that answers back pressure to every offer, an undisturbed
  publisher stops after one million retries, that is after 1000001 offers, each counted as a back
  pressure event; it has sent nothing, has counted no error and still returns success.
\<close>

theorem run_publisher_gives_up:
  assumes "8 \<le> unat (message_size config)" and "good_env env config"
    and "0 < config_message_count config" and "\<And>j. \<not> signalled (iterations env j)"
    and "\<And>p m. fst (offer p m) = AERON_PUBLICATION_BACK_PRESSURED"
  shows "\<exists>p' st'. run_publisher offer e env config p initial_pub_state = Some (ERROR_SUCCESS, p', st') \<and>
    back_pressure_events (g_stats st') = 1000001 \<and> messages_sent (g_stats st') = 0 \<and>
    bytes_sent (g_stats st') = 0 \<and> send_errors (g_stats st') = 0"
proof -
  let ?st = "started env initial_pub_state"
  obtain buffer where len: "length buffer = unat (message_size config)" and
    run: "run_publisher offer e env config p initial_pub_state =
      map_option (\<lambda>(p', st', _, _). (ERROR_SUCCESS, p', finished env st'))
        (publisher_loop offer e (message_size config) (config_message_count config) (iterations env)
           0 0 0 buffer p ?st)"
    using run_publisher_eq [OF assms(2), of offer e p initial_pub_state] by blast
  have start: "running ?st" "unat (0 :: u64) \<le> 1000000" by (simp_all add: initial_pub_state_def)
  from publisher_loop_all_refused [where env = "iterations env" and offer = offer,
      OF assms(1,5,4) len assms(3) start, of e 0 p]
  obtain p' st' m where l: "publisher_loop offer e (message_size config) (config_message_count config)
      (iterations env) 0 0 0 buffer p ?st = Some (p', st', 0, m)"
    and "sent_counts st' = (0, 0, 0, 1000001)"
    by (auto simp: started_def initial_pub_state_def)
  then have "sent_counts (finished env st') = (0, 0, 0, 1000001)" by simp
  then show ?thesis using run l by (simp add: sent_counts_def)
qed

theorem run_publisher_gives_up_witness:
  "\<exists>p' st'. run_publisher (\<lambda>p m. (- 2, p)) Little example_env example_config ()
     initial_pub_state = Some (ERROR_SUCCESS, p', st') \<and> back_pressure_events (g_stats st') = 1000001"
proof -
  have "0 < config_message_count example_config" "\<not> signalled (iterations example_env j)" for j
    by (simp_all add: example_config_def example_env_def)
  then show ?thesis
    using run_publisher_gives_up [OF example_run_setup(2,1), of "\<lambda>p m. (- 2, p)" Little "()"] by auto
qed

text \<open>
  C34. Any other answer ends the run at once, whichever pass it comes in: after \<open>NOT_CONNECTED\<close>,
  \<open>CLOSED\<close> and also \<open>ADMIN_ACTION\<close> (which the client library documents as one to retry) exactly
  one error is counted, after the remaining answers (zero, maximum position exceeded, error) none,
  and the messages not yet sent stay unsent although the loop's result is not an error.
\<close>

theorem publisher_loop_stops_on_error:
  assumes "8 \<le> unat msize" and "length buffer = unat msize" and "running st"
    and "\<not> signalled (env i)" and "succ < n"
    and "offer p (wire_message (unat msize) (get_timestamp_ns (send_clock (env i)))) = (r, p')"
    and "r \<le> 0" and "r \<noteq> AERON_PUBLICATION_BACK_PRESSURED"
  shows "\<exists>st' m. publisher_loop offer e msize n env i succ retries buffer p st = Some (p', st', succ, m) \<and>
    send_errors (g_stats st') = send_errors (g_stats st) + (if r \<in> {- 1, - 3, - 4} then 1 else 0) \<and>
    messages_sent (g_stats st') = messages_sent (g_stats st) \<and>
    bytes_sent (g_stats st') = bytes_sent (g_stats st)"
proof -
  let ?st = "interfere (env i) st"
  have cnt: "sent_counts ?st = sent_counts st" by simp
  have "publisher_loop offer e msize n env i succ retries buffer p st =
      Some (p', if r \<in> {- 1, - 3, - 4} then count_error ?st else ?st, succ, pass_message msize (env i))"
    using assms(3-8) by (auto simp: publisher_loop_pass [OF assms(1,2)] offer_outcome_def Let_def)
  then show ?thesis using cnt by (auto simp: count_error_def sent_counts_def)
qed

theorem publisher_loop_stops_on_error_witness:
  "\<exists>st' m. publisher_loop scripted_offer Little 16 2 (iterations example_env) 0 1 0 (replicate 16 0)
     ([], [- 3, 64]) initial_pub_state = Some (([], [64]), st', 1, m) \<and> send_errors (g_stats st') = 1"
  using publisher_loop_stops_on_error [of 16 "replicate 16 0" initial_pub_state "iterations example_env"
      0 1 2 scripted_offer "([], [- 3, 64])" "- 3" "([], [64])" Little 0]
  by (auto simp: initial_pub_state_def example_env_def)

text \<open>
  The printed averages are the exact quotients, rounded down, as long as the products fit: below
  18446744073 messages and bytes. Beyond, the product wraps: after sending 18446744074 bytes in one
  second the report says zero megabytes per second instead of 17592.
\<close>

theorem final_rates_bounds:
  assumes "0 < d"
  shows "(unat (messages_sent s) < 18446744073 \<and> unat (bytes_sent s) < 18446744073 \<longrightarrow>
      (\<exists>m b report. final_reports d s = [report, Final_rates m b] \<and>
         unat m = unat (messages_sent s) * 1000000000 div unat d \<and>
         unat b = unat (bytes_sent s) * 1000000000 div unat d div 1048576)) \<and>
    (bytes_sent s = 18446744074 \<and> d = 1000000000 \<longrightarrow>
      (\<exists>m report. final_reports d s = [report, Final_rates m 0]))"
proof -
  have "unat (x * 1000000000 :: u64) = unat x * 1000000000" if "unat x < 18446744073" for x :: u64
    using that by (simp add: unat_word_ariths)
  then show ?thesis using assms by (simp add: final_reports_def unat_div)
qed

theorem final_rates_bounds_witness:
  "\<exists>m b report. final_reports 2000000000
     (g_stats initial_pub_state\<lparr>messages_sent := 3000000, bytes_sent := 6291456000\<rparr>)
       = [report, Final_rates m b] \<and> unat m = 1500000 \<and> unat b = 3000"
  using final_rates_bounds [of 2000000000
      "g_stats initial_pub_state\<lparr>messages_sent := 3000000, bytes_sent := 6291456000\<rparr>"]
  by simp

end
