(* ===== verification/StatsReports.thy ===== *)
theory StatsReports
  imports RecordedRuns ConfigParser
begin

text \<open>
  The printing half of \<open>src/performance_stats.c\<close>: what each report says, one constructor for
  every kind of line. Averages and percentages are computed in \<open>double\<close>: a report carries the
  floating-point expression that is printed, as a term, and where the program branches on such
  values the comparison of the host is the parameter \<open>lt\<close>. Array accesses are checked.
\<close>

datatype dbl = Of_u64 u64 | Lit int | Mul dbl dbl | Quot dbl dbl

section \<open>The latency distribution\<close>

text \<open>The micro sign of the labels is written as the letter u.\<close>

datatype distribution_line = No_latency_data | Bucket_row string u64 dbl

definition range_labels :: "string list" where
  "range_labels =
     [''< 1us'', ''< 5us'', ''< 10us'', ''< 50us'', ''< 100us'', ''< 500us'', ''< 1ms'', ''< 5ms'',
      ''< 10ms'', ''>= 10ms'']"

text \<open>The loop over the buckets from bucket \<open>i\<close>.\<close>

function distribution_rows :: "u64 \<Rightarrow> u64 list \<Rightarrow> nat \<Rightarrow> distribution_line list option" where
  "distribution_rows total_messages buckets i =
     (if i < 10
      then case (arr_get buckets i, arr_get range_labels i) of
             (Some count, Some label) \<Rightarrow>
               map_option (\<lambda>rows. Bucket_row label count
                   (Quot (Mul (Of_u64 count) (Lit 100)) (Of_u64 total_messages)) # rows)
                 (distribution_rows total_messages buckets (Suc i))
           | _ \<Rightarrow> None
      else Some [])"
  by pat_completeness auto
termination
  by (relation "measure (\<lambda>(_, _, i). 10 - i)") auto

declare distribution_rows.simps [simp del]

definition print_latency_distribution :: "performance_stats option \<Rightarrow> distribution_line list option" where
  "print_latency_distribution stats =
     (case stats of
        None \<Rightarrow> Some []
      | Some s \<Rightarrow>
          (let total_messages = message_count (counters s) in
           if total_messages = 0 then Some [No_latency_data]
           else distribution_rows total_messages (latency_buckets s) 0))"

section \<open>The summary\<close>

datatype latency_grade = Ultra_low | Excellent | Good | Needs_work
datatype throughput_grade = Over_five_million | Over_one_million | Over_half_million | Slow

datatype summary_line =
  Report_title string
| Total_messages u64
| Message_bytes u64
| Test_seconds dbl
| Messages_per_second dbl
| Megabytes_per_second dbl
| Average_latency dbl
| Minimum_latency dbl u64
| Maximum_latency dbl
| Above_limit u64 u64 dbl
| Up_to_limit u64 u64 dbl
| Back_pressure_total u64
| Retry_total u64
| Retries_per_message dbl
| Back_pressure_rate dbl
| Latency_grade latency_grade
| Throughput_grade throughput_grade
| Test_completed

text \<open>The row of bucket \<open>i\<close>; the last one is labelled with the limit before it.\<close>

definition summary_row :: "u64 \<Rightarrow> u64 list \<Rightarrow> u64 list \<Rightarrow> nat \<Rightarrow> summary_line option" where
  "summary_row final_count limits buckets i =
     (case (arr_get buckets i, arr_get limits (if i = 9 then 8 else i)) of
        (Some count, Some limit) \<Rightarrow>
          (let percentage = Quot (Mul (Of_u64 count) (Lit 100)) (Of_u64 final_count)
           in Some (if i = 9 then Above_limit limit count percentage
                    else Up_to_limit limit count percentage))
      | _ \<Rightarrow> None)"

function summary_rows :: "u64 \<Rightarrow> u64 list \<Rightarrow> u64 list \<Rightarrow> nat \<Rightarrow> summary_line list option" where
  "summary_rows final_count limits buckets i =
     (if i < 10
      then case summary_row final_count limits buckets i of
             None \<Rightarrow> None
           | Some row \<Rightarrow> map_option ((#) row) (summary_rows final_count limits buckets (Suc i))
      else Some [])"
  by pat_completeness auto
termination
  by (relation "measure (\<lambda>(_, _, _, i). 10 - i)") auto

declare summary_rows.simps [simp del]

definition grade_latency :: "(dbl \<Rightarrow> dbl \<Rightarrow> bool) \<Rightarrow> dbl \<Rightarrow> latency_grade" where
  "grade_latency lt avg_latency_us =
     (if lt avg_latency_us (Lit 1) then Ultra_low
      else if lt avg_latency_us (Lit 5) then Excellent
      else if lt avg_latency_us (Lit 20) then Good
      else Needs_work)"

definition grade_throughput :: "(dbl \<Rightarrow> dbl \<Rightarrow> bool) \<Rightarrow> dbl \<Rightarrow> throughput_grade" where
  "grade_throughput lt messages_per_sec =
     (if lt (Lit 5000000) messages_per_sec then Over_five_million
      else if lt (Lit 1000000) messages_per_sec then Over_one_million
      else if lt (Lit 500000) messages_per_sec then Over_half_million
      else Slow)"

definition print_performance_summary ::
  "(dbl \<Rightarrow> dbl \<Rightarrow> bool) \<Rightarrow> performance_stats option \<Rightarrow> config option \<Rightarrow> string option
   \<Rightarrow> summary_line list option" where
  "print_performance_summary lt stats config role =
     (case (stats, config, role) of
        (Some s, Some c, Some role) \<Rightarrow>
          (let final_count = message_count (counters s);
               time_span_ns = last_message_time s - first_message_time s;
               time_span_sec = Quot (Of_u64 time_span_ns) (Lit 1000000000);
               messages_per_sec = Quot (Of_u64 final_count) time_span_sec;
               avg_latency_us =
                 Quot (Quot (Of_u64 (total_latency (counters s))) (Of_u64 final_count)) (Lit 1000);
               min_latency_us = Quot (Of_u64 (min_latency (counters s))) (Lit 1000);
               max_latency_us = Quot (Of_u64 (max_latency (counters s))) (Lit 1000);
               throughput_mbps =
                 Quot (Mul messages_per_sec (Of_u64 (message_size c))) (Lit (1024 * 1024));
               retries = retry_count (counters s);
               back_pressures = back_pressure_count (counters s);
               head = [Report_title role, Total_messages final_count, Message_bytes (message_size c),
                       Test_seconds time_span_sec, Messages_per_second messages_per_sec,
                       Megabytes_per_second throughput_mbps];
               details =
                 (if role = ''Subscriber''
                  then map_option (\<lambda>rows.
                         [Average_latency avg_latency_us,
                          Minimum_latency min_latency_us (min_latency_message_index s),
                          Maximum_latency max_latency_us] @ rows)
                         (summary_rows final_count (latency_bucket_limits s) (latency_buckets s) 0)
                  else Some ([Back_pressure_total back_pressures, Retry_total retries] @
                         (if 0 < final_count
                          then [Retries_per_message (Quot (Of_u64 retries) (Of_u64 final_count)),
                                Back_pressure_rate
                                  (Quot (Mul (Of_u64 back_pressures) (Lit 100)) (Of_u64 final_count))]
                          else [])));
               grades =
                 (if role = ''Subscriber'' then [Latency_grade (grade_latency lt avg_latency_us)] else [])
                 @ [Throughput_grade (grade_throughput lt messages_per_sec), Test_completed]
           in map_option (\<lambda>lines. head @ lines @ grades) details)
      | _ \<Rightarrow> Some [])"

section \<open>The detailed records\<close>

datatype record_line =
  Records_title u64
| Record_row nat u64 u64 dbl
| Records_more u64

text \<open>The loop over the records from record \<open>i\<close>.\<close>

function record_rows :: "detailed_records \<Rightarrow> nat \<Rightarrow> record_line list option" where
  "record_rows r i =
     (if i < unat (recorded_count r) \<and> i < 20
      then case (arr_get (latencies r) i, arr_get (send_times r) i, arr_get (receive_times r) i) of
             (Some latency, Some sent, Some received) \<Rightarrow>
               map_option ((#) (Record_row (i + 1) sent received (Quot (Of_u64 latency) (Lit 1000))))
                 (record_rows r (Suc i))
           | _ \<Rightarrow> None
      else Some [])"
  by pat_completeness auto
termination
  by (relation "measure (\<lambda>(_, i). 20 - i)") auto

declare record_rows.simps [simp del]

definition print_detailed_records :: "performance_stats option \<Rightarrow> record_line list option" where
  "print_detailed_records stats =
     (case stats of
        None \<Rightarrow> Some []
      | Some s \<Rightarrow>
          (let r = records s in
           if recorded_count r = 0 then Some []
           else map_option (\<lambda>rows. Records_title (recorded_count r) # rows @
                    (if 20 < recorded_count r then [Records_more (recorded_count r)] else []))
                  (record_rows r 0)))"

section \<open>Lemmas\<close>

lemma length_range_labels [simp]: "length range_labels = 10"
  by (simp add: range_labels_def)

definition bucket_row :: "u64 \<Rightarrow> u64 list \<Rightarrow> nat \<Rightarrow> distribution_line" where
  "bucket_row tot buckets i = Bucket_row (range_labels ! i) (buckets ! i)
     (Quot (Mul (Of_u64 (buckets ! i)) (Lit 100)) (Of_u64 tot))"

lemma distribution_rows_eq:
  "length buckets = 10 \<Longrightarrow> i \<le> 10 \<Longrightarrow>
   distribution_rows tot buckets i = Some (map (bucket_row tot buckets) [i..<10])"
proof (induction tot buckets i rule: distribution_rows.induct)
  case (1 tot buckets i)
  then show ?case
    by (cases "i < 10") (simp_all add: distribution_rows.simps [of tot buckets i]
        distribution_rows.simps [of tot buckets 10] cmem bucket_row_def upt_conv_Cons)
qed

lemma print_latency_distribution_eq:
  "length (latency_buckets s) = 10 \<Longrightarrow> message_count (counters s) \<noteq> 0 \<Longrightarrow>
   print_latency_distribution (Some s) =
     Some (map (bucket_row (message_count (counters s)) (latency_buckets s)) [0..<10])"
  by (simp add: print_latency_distribution_def distribution_rows_eq)

lemma print_latency_distribution_Some:
  "length (latency_buckets s) = 10 \<Longrightarrow> \<exists>rows. print_latency_distribution (Some s) = Some rows"
  by (auto simp: print_latency_distribution_def distribution_rows_eq Let_def)

lemma record_rows_eq:
  assumes "length (latencies r) = 1000" "length (send_times r) = 1000" "length (receive_times r) = 1000"
  shows "record_rows r i = Some (map (\<lambda>j. Record_row (j + 1) (send_times r ! j) (receive_times r ! j)
      (Quot (Of_u64 (latencies r ! j)) (Lit 1000))) [i..<min 20 (unat (recorded_count r))])"
  using assms
proof (induction r i rule: record_rows.induct)
  case (1 r i)
  show ?case
  proof (cases "i < unat (recorded_count r) \<and> i < 20")
    case True
    then have "[i..<min 20 (unat (recorded_count r))] = i # [Suc i..<min 20 (unat (recorded_count r))]"
      by (simp add: upt_conv_Cons)
    then show ?thesis using True 1 by (simp add: record_rows.simps [of r i] cmem)
  qed (auto simp: record_rows.simps [of r i])
qed

text \<open>Every array access of the summary is in range.\<close>

lemma summary_rows_Some:
  "length limits = 10 \<Longrightarrow> length buckets = 10 \<Longrightarrow> i \<le> 10 \<Longrightarrow>
   \<exists>rows. summary_rows n limits buckets i = Some rows \<and> length rows = 10 - i"
proof (induction n limits buckets i rule: summary_rows.induct)
  case (1 n limits buckets i)
  show ?case
  proof (cases "i < 10")
    case True
    have "i = 9 \<or> i < 9" using True by auto
    then obtain row where row: "summary_row n limits buckets i = Some row"
      using True 1 by (auto simp: summary_row_def cmem Let_def)
    from "1.IH" [OF True row] "1.prems" True
    obtain rows where "summary_rows n limits buckets (Suc i) = Some rows" "length rows = 10 - Suc i"
      by auto
    then show ?thesis using True row by (simp add: summary_rows.simps [of n limits buckets i])
  qed (use "1.prems" in \<open>simp add: summary_rows.simps [of n limits buckets 10]\<close>)
qed

section \<open>What the reports say after a run\<close>

text \<open>
  After recording messages with \<open>record_message_latency\<close>, the detailed report lists the first twenty
  at most, in order, each with its number, times and latency in microseconds; it announces how many
  records there are (at most a thousand), remarks when it does not show them all, and prints nothing
  when there is none.
\<close>

theorem print_detailed_records_correct:
  assumes "length es < 2 ^ 64"
    and "run_opt record_message (snd (init_performance_stats (Some s0))) es = Some (Some s)"
  shows "print_detailed_records (Some s) = Some
    (if es = [] then []
     else Records_title (word_of_nat (min (length es) 1000))
       # map (\<lambda>j. Record_row (j + 1) (fst (es ! j)) (snd (es ! j))
           (Quot (Of_u64 (snd (es ! j) - fst (es ! j))) (Lit 1000))) [0..<min 20 (length es)]
       @ (if 20 < length es then [Records_more (word_of_nat (min (length es) 1000))] else []))"
proof -
  have run: "run_opt record_pair initialised_stats es = Some s"
    using assms(2) by (simp add: init_performance_stats_Some run_record_message)
  have d: "message_details es s" using run_message_details [OF run assms(1)] .
  let ?r = "records s"
  have cnt: "unat (recorded_count ?r) = min (length es) 1000"
    using d by (simp add: message_details_def DETAILED_RECORD_COUNT_def)
  then have word: "recorded_count ?r = word_of_nat (min (length es) 1000)"
    by (simp flip: cnt)
  have n: "min 20 (unat (recorded_count ?r)) = min 20 (length es)" by (simp add: cnt)
  have arr: "padded 1000 (map g es) ! j = g (es ! j)" if "j < min 20 (length es)" for j and g :: "u64 \<times> u64 \<Rightarrow> u64"
    using that by (simp add: padded_def nth_append)
  have "record_rows ?r 0 = Some (map (\<lambda>j. Record_row (j + 1) (fst (es ! j)) (snd (es ! j))
      (Quot (Of_u64 (snd (es ! j) - fst (es ! j))) (Lit 1000))) [0..<min 20 (length es)])"
  proof -
    have f: "send_times ?r = padded 1000 (map fst es)" "receive_times ?r = padded 1000 (map snd es)"
      "latencies ?r = padded 1000 (map (\<lambda>e. snd e - fst e) es)"
      using d by (simp_all add: message_details_def DETAILED_RECORD_COUNT_def)
    have "record_rows ?r 0 = Some (map (\<lambda>j. Record_row (j + 1) (send_times ?r ! j) (receive_times ?r ! j)
        (Quot (Of_u64 (latencies ?r ! j)) (Lit 1000))) [0..<min 20 (length es)])"
      using record_rows_eq [of ?r 0] f by (simp only: n length_padded refl simp_thms)
    then show ?thesis by (simp add: f arr)
  qed
  moreover have "recorded_count ?r = 0 \<longleftrightarrow> es = []"
    using cnt by (auto simp add: unat_eq_0 [symmetric] min_def split: if_splits)
  moreover have "20 < recorded_count ?r \<longleftrightarrow> 20 < length es"
    using cnt by (simp add: word_less_nat_alt)
  ultimately show ?thesis by (simp add: print_detailed_records_def Let_def word)
qed

theorem print_detailed_records_correct_witness:
  "\<exists>s. run_opt record_message (snd (init_performance_stats (Some zeroed_stats))) [(5, 9), (6, 7)] = Some (Some s) \<and>
     print_detailed_records (Some s) = Some [Records_title 2,
       Record_row 1 5 9 (Quot (Of_u64 4) (Lit 1000)), Record_row 2 6 7 (Quot (Of_u64 1) (Lit 1000))]"
proof -
  obtain s where run: "run_opt record_message (snd (init_performance_stats (Some zeroed_stats)))
      [(5, 9), (6, 7)] = Some (Some s)"
    using rml.run_total [of initialised_stats "[(5, 9), (6, 7)]"]
    by (auto simp: init_performance_stats_Some run_record_message simp del: run_opt.simps)
  have len: "length [(5 :: u64, 9 :: u64), (6, 7)] < 2 ^ 64" by simp
  have "[0..<min 20 (length [(5 :: u64, 9 :: u64), (6, 7)])] = [0, 1]" by (simp add: upt_conv_Cons)
  then show ?thesis using run print_detailed_records_correct [OF len run] by simp
qed

end
