(* ===== verification/Subscriber.thy ===== *)
theory Subscriber
  imports BinaryMessage StatsReports
begin

text \<open>
  \<open>src/binary_subscriber.c\<close>: its statistics, the fragment handler and \<open>run_subscriber\<close>. What
  \<open>aeron_subscription_poll\<close> delivers is the parameter \<open>poll\<close>, a function on an arbitrary type
  of subscription states. Signals and the statistics thread may come in at the check of the loop's
  condition and before every fragment. A loop that receives nothing and is never told to stop does
  not end: \<open>None\<close> of the loop; undefined behaviour is the inner \<open>None\<close>.
\<close>

section \<open>State\<close>

record subscriber_stats =
  messages_received :: u64
  bytes_received :: u64
  fragments_received :: u64
  polling_iterations :: u64
  sub_start_time :: u64
  end_time :: u64
  sub_last_stats_time :: u64
  last_messages_received :: u64
  last_bytes_received :: u64
  latency_stats :: "performance_stats option"
  sub_min_latency :: u64
  sub_max_latency :: u64
  sub_total_latency :: u64

datatype sub_report =
  Realtime_report u64 u64 u64 u64 u64 \<comment> \<open>messages, target, bytes, messages and megabytes per second\<close>
| Received_report u64 u64 u64 u64 u64 u64 \<comment> \<open>messages, bytes, fragments, polls, ns, seconds\<close>
| Received_rates u64 u64 \<comment> \<open>messages and megabytes per second\<close>
| Latency_report u64 u64 u64 u64 u64 u64 \<comment> \<open>minimum, maximum, average, each in ns and us\<close>
| Distribution "distribution_line list"

record sub_state =
  sub_stats :: subscriber_stats
  g_target_messages :: u64
  sub_running :: bool
  sub_printed :: "sub_report list"

definition initial_sub_state :: sub_state where
  "initial_sub_state =
     \<lparr>sub_stats = \<lparr>messages_received = 0, bytes_received = 0, fragments_received = 0,
        polling_iterations = 0, sub_start_time = 0, end_time = 0, sub_last_stats_time = 0,
        last_messages_received = 0, last_bytes_received = 0, latency_stats = None,
        sub_min_latency = 0, sub_max_latency = 0, sub_total_latency = 0\<rparr>,
      g_target_messages = 0, sub_running = True, sub_printed = []\<rparr>"

definition sub_signal_handler :: "sub_state \<Rightarrow> sub_state" where
  "sub_signal_handler st = st\<lparr>sub_running := False\<rparr>"

section \<open>Set-up and reports\<close>

definition init_subscriber_stats :: "bool \<Rightarrow> timespec \<Rightarrow> sub_state \<Rightarrow> int \<times> sub_state" where
  "init_subscriber_stats alloc_ok ts st =
     (let s = (sub_stats st)\<lparr>latency_stats := create_performance_stats alloc_ok\<rparr> in
      if latency_stats s = None then (ERROR_MEMORY_ALLOCATION, st\<lparr>sub_stats := s\<rparr>)
      else (ERROR_SUCCESS,
            st\<lparr>sub_stats := s\<lparr>sub_min_latency := UINT64_MAX, sub_max_latency := 0,
                 sub_start_time := get_timestamp_ns ts, sub_last_stats_time := get_timestamp_ns ts\<rparr>\<rparr>))"

definition cleanup_subscriber_stats :: "sub_state \<Rightarrow> sub_state" where
  "cleanup_subscriber_stats st =
     (if latency_stats (sub_stats st) \<noteq> None
      then st\<lparr>sub_stats := (sub_stats st)\<lparr>latency_stats := None\<rparr>\<rparr> else st)"

definition print_realtime_stats :: "timespec \<Rightarrow> sub_state \<Rightarrow> sub_state" where
  "print_realtime_stats ts st =
     (let s = sub_stats st;
          current_time = get_timestamp_ns ts;
          interval_time = current_time - sub_last_stats_time s;
          interval_messages = messages_received s - last_messages_received s;
          interval_bytes = bytes_received s - last_bytes_received s;
          line = (if 0 < interval_time
                  then [Realtime_report (messages_received s) (g_target_messages st) (bytes_received s)
                          ((interval_messages * 1000000000) div interval_time)
                          ((interval_bytes * 1000000000) div interval_time div (1024 * 1024))]
                  else [])
      in st\<lparr>sub_printed := sub_printed st @ line,
            sub_stats := s\<lparr>sub_last_stats_time := current_time,
              last_messages_received := messages_received s,
              last_bytes_received := bytes_received s\<rparr>\<rparr>)"

definition final_sub_reports :: "subscriber_stats \<Rightarrow> sub_report list option" where
  "final_sub_reports s =
     (let total_duration = end_time s - sub_start_time s;
          counts = Received_report (messages_received s) (bytes_received s) (fragments_received s)
            (polling_iterations s) total_duration (total_duration div 1000000000);
          rates = (if 0 < total_duration
                   then [Received_rates ((messages_received s * 1000000000) div total_duration)
                          ((bytes_received s * 1000000000) div total_duration div (1024 * 1024))]
                   else [])
      in if 0 < messages_received s
         then (let avg_latency = sub_total_latency s div messages_received s;
                   lat = Latency_report (sub_min_latency s) (sub_min_latency s div 1000)
                     (sub_max_latency s) (sub_max_latency s div 1000) avg_latency (avg_latency div 1000)
               in case latency_stats s of
                    None \<Rightarrow> Some (counts # rates @ [lat])
                  | Some ls \<Rightarrow>
                      map_option (\<lambda>rows. counts # rates @ [lat, Distribution rows])
                        (print_latency_distribution (Some ls)))
         else Some (counts # rates))"

definition print_final_stats :: "sub_state \<Rightarrow> sub_state option" where
  "print_final_stats st =
     map_option (\<lambda>lines. st\<lparr>sub_printed := sub_printed st @ lines\<rparr>) (final_sub_reports (sub_stats st))"

text \<open>The body of the statistics thread after its \<open>sleep\<close>.\<close>

definition sub_stats_tick :: "timespec \<Rightarrow> sub_state \<Rightarrow> sub_state" where
  "sub_stats_tick ts st = (if sub_running st then print_realtime_stats ts st else st)"

section \<open>The fragment handler\<close>

text \<open>
  What one message changes in the statistics, under the mutex; the recorder's array accesses are
  checked.
\<close>

definition count_message :: "u64 \<Rightarrow> u64 \<Rightarrow> subscriber_stats \<Rightarrow> subscriber_stats option" where
  "count_message len latency s =
     (let s = s\<lparr>messages_received := messages_received s + 1,
                bytes_received := bytes_received s + len,
                fragments_received := fragments_received s + 1\<rparr>;
          s = (if latency < sub_min_latency s then s\<lparr>sub_min_latency := latency\<rparr> else s);
          s = (if sub_max_latency s < latency then s\<lparr>sub_max_latency := latency\<rparr> else s);
          s = s\<lparr>sub_total_latency := sub_total_latency s + latency\<rparr>
      in if latency_stats s \<noteq> None
         then map_option (\<lambda>ls. s\<lparr>latency_stats := ls\<rparr>) (record_latency (latency_stats s) latency)
         else Some s)"

text \<open>The library passes a fragment as its bytes; \<open>ts\<close> is the clock reading.\<close>

definition process_message_fragment ::
  "endian \<Rightarrow> u8 list \<Rightarrow> u64 \<Rightarrow> timespec \<Rightarrow> sub_state \<Rightarrow> sub_state option" where
  "process_message_fragment e buffer len ts st =
     (if unat len < TIMESTAMP_SIZE then Some st
      else case parse_binary_message_timestamp e buffer of
             None \<Rightarrow> None
           | Some send_timestamp \<Rightarrow>
               (let receive_timestamp = get_timestamp_ns ts;
                    latency = receive_timestamp - send_timestamp
                in case count_message len latency (sub_stats st) of
                     None \<Rightarrow> None
                   | Some s \<Rightarrow>
                       Some (if g_target_messages st \<le> messages_received s
                             then st\<lparr>sub_stats := s\<lparr>end_time := receive_timestamp\<rparr>,
                                     sub_running := False\<rparr>
                             else st\<lparr>sub_stats := s\<rparr>)))"

section \<open>The receiving loop\<close>

text \<open>
  What happens at one point of the main thread: the clock readings of the statistics thread's
  reports since the last point and whether a signal was handled; for a fragment also the clock the
  handler reads.
\<close>

record sub_moment =
  sub_ticks :: "timespec list"
  sub_signalled :: bool
  receive_clock :: timespec

definition sub_interfere :: "sub_moment \<Rightarrow> sub_state \<Rightarrow> sub_state" where
  "sub_interfere mo st =
     (let st = fold sub_stats_tick (sub_ticks mo) st
      in if sub_signalled mo then sub_signal_handler st else st)"

text \<open>The moments of one pass: at the loop's condition, and before the k-th fragment.\<close>

record sub_iteration =
  at_check :: sub_moment
  at_fragment :: "nat \<Rightarrow> sub_moment"

text \<open>The calls of the handler in one poll.\<close>

fun deliver ::
  "endian \<Rightarrow> (nat \<Rightarrow> sub_moment) \<Rightarrow> nat \<Rightarrow> u8 list list \<Rightarrow> sub_state \<Rightarrow> sub_state option" where
  "deliver e moments k [] st = Some st"
| "deliver e moments k (f # fs) st =
     (case process_message_fragment e f (word_of_nat (length f)) (receive_clock (moments k))
             (sub_interfere (moments k) st) of
        None \<Rightarrow> None
      | Some st' \<Rightarrow> deliver e moments (Suc k) fs st')"

text \<open>
  \<open>poll subscription limit\<close>: the fragments handed to the handler, the result of the call and the
  subscription afterwards.
\<close>

type_synonym 's poll_fun = "'s \<Rightarrow> int \<Rightarrow> u8 list list \<times> int \<times> 's"

text \<open>The loop from pass \<open>i\<close>.\<close>

partial_function (option) subscriber_loop ::
  "'s poll_fun \<Rightarrow> endian \<Rightarrow> int \<Rightarrow> (nat \<Rightarrow> sub_iteration) \<Rightarrow> nat \<Rightarrow> 's \<Rightarrow> sub_state
   \<Rightarrow> ('s \<times> sub_state) option option" where
  "subscriber_loop poll e frag_limit env i subscription st0 =
     (let st = sub_interfere (at_check (env i)) st0 in
      if sub_running st \<and> messages_received (sub_stats st) < g_target_messages st
      then (let st = st\<lparr>sub_stats := (sub_stats st)
                       \<lparr>polling_iterations := polling_iterations (sub_stats st) + 1\<rparr>\<rparr>;
                (fragments, result, subscription') = poll subscription frag_limit
            in case deliver e (at_fragment (env i)) 0 fragments st of
                 None \<Rightarrow> Some None
               | Some st' \<Rightarrow>
                   if result < 0 then Some (Some (subscription', st'))
                   else subscriber_loop poll e frag_limit env (Suc i) subscription' st')
      else Some (Some (subscription, st)))"

text \<open>
  The surroundings of one run: whether \<open>calloc\<close> returned memory, the clock of the set-up, whether
  the statistics thread could be created, what happens in every pass, the clock read after the loop,
  and the reports the statistics thread still makes before it ends.
\<close>

record sub_env =
  calloc_ok :: bool
  init_clock :: timespec
  sub_thread_created :: bool
  sub_iterations :: "nat \<Rightarrow> sub_iteration"
  loop_end_clock :: timespec
  sub_last_ticks :: "timespec list"

definition finish_subscriber :: "sub_env \<Rightarrow> sub_state \<Rightarrow> sub_state option" where
  "finish_subscriber env st =
     (let st = (if end_time (sub_stats st) = 0
                then st\<lparr>sub_stats := (sub_stats st)\<lparr>end_time := get_timestamp_ns (loop_end_clock env)\<rparr>\<rparr>
                else st);
          st = st\<lparr>sub_running := False\<rparr>;
          st = fold print_realtime_stats (sub_last_ticks env) st
      in if sub_thread_created env then map_option cleanup_subscriber_stats (print_final_stats st)
         else None)"

definition run_subscriber ::
  "'s poll_fun \<Rightarrow> endian \<Rightarrow> sub_env \<Rightarrow> config \<Rightarrow> 's \<Rightarrow> sub_state \<Rightarrow> (int \<times> 's \<times> sub_state) option option" where
  "run_subscriber poll e env config subscription st =
     (let st = st\<lparr>g_target_messages := target_message_count config\<rparr>;
          (code, st) = init_subscriber_stats (calloc_ok env) (init_clock env) st
      in if code \<noteq> ERROR_SUCCESS then Some (Some (ERROR_MEMORY_ALLOCATION, subscription, st))
         else map_option
           (\<lambda>r. case r of
                  None \<Rightarrow> None
                | Some (subscription', st') \<Rightarrow>
                    map_option (\<lambda>st''. (ERROR_SUCCESS, subscription', st'')) (finish_subscriber env st'))
           (subscriber_loop poll e (fragment_limit config) (sub_iterations env) 0 subscription st))"

end
