(* ===== verification/SubscriberProperties.thy ===== *)
theory SubscriberProperties
  imports Subscriber
begin

text \<open>
  Properties of the subscriber: what its statistics hold after any sequence of polls, when it stops,
  what the final report says, and what happens to messages that arrive in several fragments.
\<close>

section \<open>What the statistics thread and signals leave alone\<close>

definition sub_core where
  "sub_core st = (let s = sub_stats st in
     ((messages_received s, bytes_received s, fragments_received s, polling_iterations s),
      (sub_start_time s, end_time s, latency_stats s),
      (sub_min_latency s, sub_max_latency s, sub_total_latency s), g_target_messages st))"

lemma print_realtime_core [simp]: "sub_core (print_realtime_stats ts st) = sub_core st"
  by (simp add: print_realtime_stats_def sub_core_def Let_def)

lemma print_realtime_running [simp]: "sub_running (print_realtime_stats ts st) = sub_running st"
  by (simp add: print_realtime_stats_def Let_def)

lemma fold_realtime_core [simp]: "sub_core (fold print_realtime_stats tss st) = sub_core st"
  by (induction tss arbitrary: st) simp_all

lemma fold_sub_tick [simp]:
  "sub_core (fold sub_stats_tick tss st) = sub_core st"
  "sub_running (fold sub_stats_tick tss st) = sub_running st"
  by (induction tss arbitrary: st) (simp_all add: sub_stats_tick_def)

lemma sub_interfere_core [simp]: "sub_core (sub_interfere mo st) = sub_core st"
proof -
  have "sub_core (sub_interfere mo st) = sub_core (fold sub_stats_tick (sub_ticks mo) st)"
    by (simp add: sub_interfere_def sub_signal_handler_def sub_core_def Let_def)
  then show ?thesis by simp
qed

lemma sub_interfere_running [simp]:
  "sub_running (sub_interfere mo st) \<longleftrightarrow> sub_running st \<and> \<not> sub_signalled mo"
  by (simp add: sub_interfere_def sub_signal_handler_def Let_def)

section \<open>The books\<close>

text \<open>The least and the greatest of some latencies; the initial values for none.\<close>

definition least_of :: "u64 list \<Rightarrow> u64" where
  "least_of ls = Min (insert UINT64_MAX (set ls))"

definition greatest_of :: "u64 list \<Rightarrow> u64" where
  "greatest_of ls = Max (insert 0 (set ls))"

lemma least_of_snoc: "least_of (ls @ [l]) = min l (least_of ls)"
  using summary_of_snoc [of "(<)" create_bucket_limits ls l]
  by (simp add: summary_of_def least_of_def)

lemma greatest_of_snoc: "greatest_of (ls @ [l]) = max l (greatest_of ls)"
  using summary_of_snoc [of "(<)" create_bucket_limits ls l]
  by (simp add: summary_of_def greatest_of_def)

text \<open>
  What the statistics should hold when messages with the given latencies and byte total have been
  received since the set-up.
\<close>

definition books :: "sub_state \<Rightarrow> u64 list \<Rightarrow> u64 \<Rightarrow> bool" where
  "books st ls nbytes \<longleftrightarrow> (let s = sub_stats st in
     messages_received s = word_of_nat (length ls) \<and> fragments_received s = word_of_nat (length ls) \<and>
     bytes_received s = nbytes \<and>
     (\<exists>p. latency_stats s = Some p \<and> wf_stats p \<and> latency_bucket_limits p = create_bucket_limits \<and>
        abs_summary p = summary_of (<) create_bucket_limits ls) \<and>
     sub_min_latency s = least_of ls \<and> sub_max_latency s = greatest_of ls \<and>
     sub_total_latency s = sum_list ls)"

lemma books_core: "sub_core st = sub_core st' \<Longrightarrow> books st ls n \<longleftrightarrow> books st' ls n"
  by (simp add: books_def sub_core_def Let_def)

lemma books_interfere [simp]: "books (sub_interfere mo st) ls n \<longleftrightarrow> books st ls n"
  by (rule books_core) simp

lemma count_message_eq:
  "count_message len l s =
     (let s' = s\<lparr>messages_received := messages_received s + 1, bytes_received := bytes_received s + len,
        fragments_received := fragments_received s + 1, sub_min_latency := min l (sub_min_latency s),
        sub_max_latency := max l (sub_max_latency s), sub_total_latency := sub_total_latency s + l\<rparr>
      in if latency_stats s = None then Some s'
         else map_option (\<lambda>ls. s'\<lparr>latency_stats := ls\<rparr>) (record_latency (latency_stats s) l))"
proof -
  have "min l m = (if l < m then l else m)" "max l m = (if m < l then l else m)" for m
    by (auto simp: min_def max_def)
  then show ?thesis
    by (cases "l < sub_min_latency s"; cases "sub_max_latency s < l";
        simp add: count_message_def Let_def)
qed

lemma count_message_books:
  assumes "books st ls n"
  shows "\<exists>s. count_message len l (sub_stats st) = Some s \<and>
    books (st\<lparr>sub_stats := s\<rparr>) (ls @ [l]) (n + len) \<and>
    polling_iterations s = polling_iterations (sub_stats st) \<and>
    sub_start_time s = sub_start_time (sub_stats st) \<and> end_time s = end_time (sub_stats st)"
proof -
  obtain p where p: "latency_stats (sub_stats st) = Some p" "wf_stats p"
    "latency_bucket_limits p = create_bucket_limits"
    "abs_summary p = summary_of (<) create_bucket_limits ls"
    using assms by (auto simp: books_def Let_def)
  obtain p' where p': "record_latency_body p l = Some p'" using rl.total [OF p(2)] by blast
  have wf: "wf_stats p'" "latency_bucket_limits p' = create_bucket_limits"
    using rl.keeps_wf [OF p(2) p'] rl.keeps_limits [OF p(2) p'] p(3) by simp_all
  have "abs_summary p' = summary_of (<) create_bucket_limits (ls @ [l])"
    using rl.step [OF p(2) p'] p(3,4) by (simp add: summary_of_snoc)
  then show ?thesis
    using assms p(1) p' wf
    by (simp add: count_message_eq record_latency_def books_def Let_def least_of_snoc greatest_of_snoc
        add.commute)
qed

text \<open>The timestamp at the start of a fragment and the latency the handler computes.\<close>

definition stamp_of :: "u8 list \<Rightarrow> u64" where
  "stamp_of f = le_decode (rev (take 8 f))"

definition whole_stamp :: "u8 list \<Rightarrow> bool" where
  "whole_stamp f \<longleftrightarrow> 8 \<le> length f"

abbreviation latency_at :: "sub_moment \<Rightarrow> u8 list \<Rightarrow> u64" where
  "latency_at mo f \<equiv> get_timestamp_ns (receive_clock mo) - stamp_of f"

lemma parse_stamp_of: "whole_stamp f \<Longrightarrow> parse_binary_message_timestamp e f = Some (stamp_of f)"
  by (simp add: parse_binary_message_timestamp_def mem_read_def stamp_of_def whole_stamp_def
      be64toh_u64_of_bytes)

text \<open>The library's fragments are far below the size a \<open>size_t\<close> can hold.\<close>

definition short_fragments :: "u8 list list \<Rightarrow> bool" where
  "short_fragments fs \<longleftrightarrow> (\<forall>f \<in> set fs. length f < 2 ^ 31)"

lemma short_fragments_Cons [simp]:
  "short_fragments (f # fs) \<longleftrightarrow> length f < 2 ^ 31 \<and> short_fragments fs"
  "short_fragments []"
  by (auto simp: short_fragments_def)

lemma short_length: "length f < 2 ^ 31 \<Longrightarrow> unat (word_of_nat (length f) :: u64) = length f"
  by (simp add: unat_of_nat_u64)

text \<open>
  Facts besides the books: the polls and the start time are untouched, the target is the same, and
  the program goes on running unless a signal came or the target was reached.
\<close>

definition on_course :: "sub_state \<Rightarrow> u64 list \<Rightarrow> bool" where
  "on_course st ls \<longleftrightarrow> sub_running st \<or> unat (g_target_messages st) \<le> length ls"

lemma target_reached:
  assumes "books st ls n" and "g_target_messages st \<le> messages_received (sub_stats st)"
  shows "unat (g_target_messages st) \<le> length ls"
proof -
  have "unat (g_target_messages st) \<le> unat (word_of_nat (length ls) :: u64)"
    using assms by (simp add: books_def Let_def word_le_nat_alt)
  also have "\<dots> \<le> length ls" by (simp add: unsigned_of_nat)
  finally show ?thesis .
qed

lemma process_fragment_books:
  assumes "books st ls n" and "length f < 2 ^ 31"
  shows "\<exists>st'. process_message_fragment e f (word_of_nat (length f)) ts st = Some st' \<and>
    books st' (ls @ (if whole_stamp f then [get_timestamp_ns ts - stamp_of f] else []))
      (n + (if whole_stamp f then word_of_nat (length f) else 0)) \<and>
    polling_iterations (sub_stats st') = polling_iterations (sub_stats st) \<and>
    sub_start_time (sub_stats st') = sub_start_time (sub_stats st) \<and>
    g_target_messages st' = g_target_messages st \<and>
    (on_course st ls \<longrightarrow>
      on_course st' (ls @ (if whole_stamp f then [get_timestamp_ns ts - stamp_of f] else [])))"
proof (cases "whole_stamp f")
  case False
  then show ?thesis
    using assms by (simp add: process_message_fragment_def short_length whole_stamp_def)
next
  case True
  let ?l = "get_timestamp_ns ts - stamp_of f"
  obtain s where s: "count_message (word_of_nat (length f)) ?l (sub_stats st) = Some s"
    "books (st\<lparr>sub_stats := s\<rparr>) (ls @ [?l]) (n + word_of_nat (length f))"
    "polling_iterations s = polling_iterations (sub_stats st)"
    "sub_start_time s = sub_start_time (sub_stats st)"
    using count_message_books [OF assms(1)] by blast
  have "\<not> length f < 8" using True by (simp add: whole_stamp_def)
  moreover have "books (st\<lparr>sub_stats := s\<lparr>end_time := t\<rparr>, sub_running := b\<rparr>)
      (ls @ [?l]) (n + word_of_nat (length f))" for t b
    using s(2) by (simp add: books_def Let_def)
  moreover have "g_target_messages st \<le> messages_received s \<Longrightarrow>
      unat (g_target_messages st) \<le> length (ls @ [?l])"
    using target_reached [OF s(2)] by simp
  ultimately show ?thesis
    using True s assms(2)
    by (auto simp: process_message_fragment_def parse_stamp_of short_length Let_def on_course_def)
qed

fun observed :: "(nat \<Rightarrow> sub_moment) \<Rightarrow> nat \<Rightarrow> u8 list list \<Rightarrow> u64 list" where
  "observed moments k [] = []"
| "observed moments k (f # fs) =
     (if whole_stamp f then [latency_at (moments k) f] else []) @ observed moments (Suc k) fs"

abbreviation byte_total :: "u8 list list \<Rightarrow> u64" where
  "byte_total fs \<equiv> word_of_nat (sum_list (map length (filter whole_stamp fs)))"

lemma length_observed: "length (observed moments k fs) = length (filter whole_stamp fs)"
  by (induction fs arbitrary: k) simp_all

lemma deliver_books:
  assumes "books st ls n" and "short_fragments fs"
  shows "\<exists>st'. deliver e moments k fs st = Some st' \<and>
    books st' (ls @ observed moments k fs) (n + byte_total fs) \<and>
    polling_iterations (sub_stats st') = polling_iterations (sub_stats st) \<and>
    sub_start_time (sub_stats st') = sub_start_time (sub_stats st) \<and>
    g_target_messages st' = g_target_messages st \<and>
    (on_course st ls \<and> (\<forall>j. \<not> sub_signalled (moments j)) \<longrightarrow>
      on_course st' (ls @ observed moments k fs))"
  using assms
proof (induction fs arbitrary: k st ls n)
  case Nil
  then show ?case by simp
next
  case (Cons f fs)
  let ?st = "sub_interfere (moments k) st"
  have core: "polling_iterations (sub_stats ?st) = polling_iterations (sub_stats st)"
    "sub_start_time (sub_stats ?st) = sub_start_time (sub_stats st)"
    "g_target_messages ?st = g_target_messages st"
    using sub_interfere_core [of "moments k" st] by (simp_all add: sub_core_def Let_def)
  have "books ?st ls n" "length f < 2 ^ 31" using Cons.prems by simp_all
  from process_fragment_books [OF this, of e "receive_clock (moments k)"]
  obtain st1 where st1: "process_message_fragment e f (word_of_nat (length f))
      (receive_clock (moments k)) ?st = Some st1"
    "books st1 (ls @ (if whole_stamp f then [latency_at (moments k) f] else []))
      (n + (if whole_stamp f then word_of_nat (length f) else 0))"
    "polling_iterations (sub_stats st1) = polling_iterations (sub_stats st)"
    "sub_start_time (sub_stats st1) = sub_start_time (sub_stats st)"
    "g_target_messages st1 = g_target_messages st"
    "on_course ?st ls \<longrightarrow> on_course st1 (ls @ (if whole_stamp f then [latency_at (moments k) f] else []))"
    using core by auto
  moreover have "on_course ?st ls" if "on_course st ls" "\<not> sub_signalled (moments k)"
    using that core(3) by (auto simp: on_course_def)
  ultimately show ?case using Cons.IH [OF st1(2), of "Suc k"] Cons.prems(2) by (auto simp: algebra_simps)
qed

section \<open>The receiving loop\<close>

text \<open>
  What the documentation of \<open>aeron_subscription_poll\<close> promises: at most \<open>limit\<close> fragments are
  handed over, and the result is their number or negative for an error.
\<close>

definition poll_ok :: "'s poll_fun \<Rightarrow> int \<Rightarrow> bool" where
  "poll_ok poll limit \<longleftrightarrow>
     (\<forall>s. case poll s limit of (fs, r, _) \<Rightarrow>
        short_fragments fs \<and> length fs \<le> nat limit \<and> (r < 0 \<or> r = int (length fs)))"

text \<open>The fragments of the first \<open>n\<close> polls, poll by poll, and the latencies the handler computes.\<close>

fun polls :: "'s poll_fun \<Rightarrow> int \<Rightarrow> nat \<Rightarrow> 's \<Rightarrow> u8 list list list" where
  "polls poll limit 0 s = []"
| "polls poll limit (Suc n) s = (case poll s limit of (fs, _, s') \<Rightarrow> fs # polls poll limit n s')"

fun latencies_of :: "(nat \<Rightarrow> sub_iteration) \<Rightarrow> nat \<Rightarrow> u8 list list list \<Rightarrow> u64 list" where
  "latencies_of env i [] = []"
| "latencies_of env i (fs # fss) = observed (at_fragment (env i)) 0 fs @ latencies_of env (Suc i) fss"

lemma length_latencies_of:
  "length (latencies_of env i fss) = length (filter whole_stamp (concat fss))"
  by (induction fss arbitrary: i) (simp_all add: length_observed)

text \<open>
  One pass of the loop, in terms of the books, for any continuation \<open>k\<close>.
\<close>

abbreviation loop_pass where
  "loop_pass poll e limit env i s st0 k \<equiv>
     (let st = sub_interfere (at_check (env i)) st0 in
      if sub_running st \<and> messages_received (sub_stats st) < g_target_messages st
      then (let st = st\<lparr>sub_stats := (sub_stats st)
                       \<lparr>polling_iterations := polling_iterations (sub_stats st) + 1\<rparr>\<rparr>;
                (fragments, result, subscription') = poll s limit
            in case deliver e (at_fragment (env i)) 0 fragments st of
                 None \<Rightarrow> Some None
               | Some st' \<Rightarrow>
                   if result < 0 then Some (Some (subscription', st'))
                   else k (Suc i) subscription' st')
      else Some (Some (s, st)))"

lemma loop_pass_books:
  assumes "poll_ok poll limit" and "books st ls b" and "poll s limit = (fs, r, s')"
  shows "\<exists>st1 st2. sub_core st1 = sub_core st \<and>
    (sub_running st1 \<longleftrightarrow> sub_running st \<and> \<not> sub_signalled (at_check (env i))) \<and>
    books st2 (ls @ observed (at_fragment (env i)) 0 fs) (b + byte_total fs) \<and>
    polling_iterations (sub_stats st2) = polling_iterations (sub_stats st) + 1 \<and>
    sub_start_time (sub_stats st2) = sub_start_time (sub_stats st) \<and>
    g_target_messages st2 = g_target_messages st \<and>
    (on_course st1 ls \<and> (\<forall>j. \<not> sub_signalled (at_fragment (env i) j)) \<longrightarrow>
      on_course st2 (ls @ observed (at_fragment (env i)) 0 fs)) \<and>
    loop_pass poll e limit env i s st k =
      (if sub_running st1 \<and> messages_received (sub_stats st) < g_target_messages st
       then if r < 0 then Some (Some (s', st2)) else k (Suc i) s' st2
       else Some (Some (s, st1)))"
proof -
  define st1 where "st1 = sub_interfere (at_check (env i)) st"
  define stp where "stp = st1\<lparr>sub_stats := (sub_stats st1)
    \<lparr>polling_iterations := polling_iterations (sub_stats st1) + 1\<rparr>\<rparr>"
  have core: "sub_core st1 = sub_core st" by (simp add: st1_def)
  have f: "messages_received (sub_stats st1) = messages_received (sub_stats st)"
    "polling_iterations (sub_stats st1) = polling_iterations (sub_stats st)"
    "sub_start_time (sub_stats st1) = sub_start_time (sub_stats st)"
    "g_target_messages st1 = g_target_messages st"
    using core by (simp_all add: sub_core_def Let_def)
  have "books st1 ls b" using assms(2) by (simp add: st1_def)
  then have "books stp ls b" by (simp add: stp_def books_def Let_def)
  moreover have "short_fragments fs"
    using assms(1) [unfolded poll_ok_def, rule_format, of s] assms(3) by simp
  ultimately obtain st2 where st2: "deliver e (at_fragment (env i)) 0 fs stp = Some st2"
    "books st2 (ls @ observed (at_fragment (env i)) 0 fs) (b + byte_total fs)"
    "polling_iterations (sub_stats st2) = polling_iterations (sub_stats stp)"
    "sub_start_time (sub_stats st2) = sub_start_time (sub_stats stp)"
    "g_target_messages st2 = g_target_messages stp"
    "on_course stp ls \<and> (\<forall>j. \<not> sub_signalled (at_fragment (env i) j)) \<longrightarrow>
      on_course st2 (ls @ observed (at_fragment (env i)) 0 fs)"
    using deliver_books by blast
  show ?thesis
  proof (intro exI conjI)
    show "sub_core st1 = sub_core st" by (fact core)
    show "sub_running st1 \<longleftrightarrow> sub_running st \<and> \<not> sub_signalled (at_check (env i))"
      by (simp add: st1_def)
    show "books st2 (ls @ observed (at_fragment (env i)) 0 fs) (b + byte_total fs)" by (fact st2(2))
    show "polling_iterations (sub_stats st2) = polling_iterations (sub_stats st) + 1"
      "sub_start_time (sub_stats st2) = sub_start_time (sub_stats st)"
      "g_target_messages st2 = g_target_messages st"
      using st2(3-5) f by (simp_all add: stp_def)
    show "on_course st1 ls \<and> (\<forall>j. \<not> sub_signalled (at_fragment (env i) j)) \<longrightarrow>
        on_course st2 (ls @ observed (at_fragment (env i)) 0 fs)"
      using st2(6) by (simp add: stp_def on_course_def)
    show "loop_pass poll e limit env i s st k =
      (if sub_running st1 \<and> messages_received (sub_stats st) < g_target_messages st
       then if r < 0 then Some (Some (s', st2)) else k (Suc i) s' st2
       else Some (Some (s, st1)))"
      unfolding st1_def [symmetric] assms(3) Let_def stp_def [symmetric] prod.case
        st2(1) option.case f(1,4) ..
  qed
qed

text \<open>
  A batch that starts below the target overshoots it by less than the fragment limit.
\<close>

definition bounded :: "u64 \<Rightarrow> int \<Rightarrow> u64 list \<Rightarrow> bool" where
  "bounded target limit ls \<longleftrightarrow>
     length ls < unat target + nat limit \<and> unat target + nat limit \<le> 2 ^ 64"

lemma bounded_count:
  assumes "bounded (g_target_messages st) limit ls" and "books st ls b"
  shows "unat (messages_received (sub_stats st)) = length ls"
  using assms by (simp add: books_def Let_def bounded_def unat_of_nat_u64)

lemma bounded_pass:
  assumes "bounded (g_target_messages st) limit ls" and "books st ls b" and "poll_ok poll limit"
    and "poll s limit = (fs, r, s')" and "messages_received (sub_stats st) < g_target_messages st"
  shows "bounded (g_target_messages st) limit (ls @ observed moments 0 fs)"
proof -
  have "length (filter whole_stamp fs) \<le> length fs" by (rule length_filter_le)
  also have "\<dots> \<le> nat limit"
    using assms(3) [unfolded poll_ok_def, rule_format, of s] assms(4) by simp
  finally have "length (observed moments 0 fs) \<le> nat limit" by (simp add: length_observed)
  moreover have "length ls < unat (g_target_messages st)"
    using assms(5) bounded_count [OF assms(1,2)] by (simp add: word_less_nat_alt)
  ultimately show ?thesis using assms(1) by (simp add: bounded_def)
qed

text \<open>
  What a stretch of \<open>n\<close> polls does: the books cover exactly what these polls delivered.
\<close>

definition covers ::
  "'s poll_fun \<Rightarrow> int \<Rightarrow> (nat \<Rightarrow> sub_iteration) \<Rightarrow> nat \<Rightarrow> 's \<Rightarrow> u64 list \<Rightarrow> u64 \<Rightarrow> sub_state \<Rightarrow> nat \<Rightarrow> sub_state \<Rightarrow> bool" where
  "covers poll limit env i s ls b st n st' \<longleftrightarrow>
     books st' (ls @ latencies_of env i (polls poll limit n s))
       (b + byte_total (concat (polls poll limit n s))) \<and>
     polling_iterations (sub_stats st') = polling_iterations (sub_stats st) + word_of_nat n \<and>
     sub_start_time (sub_stats st') = sub_start_time (sub_stats st) \<and>
     g_target_messages st' = g_target_messages st \<and>
     (bounded (g_target_messages st) limit ls \<longrightarrow>
      bounded (g_target_messages st) limit (ls @ latencies_of env i (polls poll limit n s)))"

lemma covers_none: "sub_core st' = sub_core st \<Longrightarrow> books st ls b \<Longrightarrow> covers poll limit env i s ls b st 0 st'"
  using books_core [of st' st ls b] by (simp add: covers_def) (simp add: sub_core_def Let_def)

lemma covers_Suc:
  assumes "poll s limit = (fs, r, s1)" and "poll_ok poll limit" and "books st ls b"
    and "messages_received (sub_stats st) < g_target_messages st"
    and "polling_iterations (sub_stats st1) = polling_iterations (sub_stats st) + 1"
    and "sub_start_time (sub_stats st1) = sub_start_time (sub_stats st)"
    and "g_target_messages st1 = g_target_messages st"
    and "covers poll limit env (Suc i) s1 (ls @ observed (at_fragment (env i)) 0 fs) (b + byte_total fs) st1 n st'"
  shows "covers poll limit env i s ls b st (Suc n) st'"
  using assms bounded_pass [OF _ assms(3,2,1,4), of "at_fragment (env i)"]
  by (simp add: covers_def algebra_simps)

text \<open>No signal arrives and no poll fails.\<close>

definition undisturbed :: "'s poll_fun \<Rightarrow> int \<Rightarrow> (nat \<Rightarrow> sub_iteration) \<Rightarrow> bool" where
  "undisturbed poll limit env \<longleftrightarrow>
     (\<forall>i. \<not> sub_signalled (at_check (env i)) \<and> (\<forall>k. \<not> sub_signalled (at_fragment (env i) k))) \<and>
     (\<forall>s. 0 \<le> fst (snd (poll s limit)))"

text \<open>
  Whenever the loop ends, it ends without undefined behaviour after some number of polls; undisturbed
  it only ends with the target reached.
\<close>

definition ends_well where
  "ends_well poll limit env i s ls b st res \<longleftrightarrow>
     (\<exists>n s' st'. res = Some (s', st') \<and> covers poll limit env i s ls b st n st' \<and>
        (undisturbed poll limit env \<and> on_course st ls \<and> bounded (g_target_messages st) limit ls \<longrightarrow>
         unat (g_target_messages st) \<le> length (ls @ latencies_of env i (polls poll limit n s))))"

lemma ends_well_stop:
  assumes "books st ls b" and "sub_core st1 = sub_core st"
    and "sub_running st1 \<longleftrightarrow> sub_running st \<and> \<not> sub_signalled (at_check (env i))"
    and "\<not> (sub_running st1 \<and> messages_received (sub_stats st) < g_target_messages st)"
  shows "ends_well poll limit env i s ls b st (Some (s, st1))"
proof -
  have "unat (g_target_messages st) \<le> length ls"
    if "undisturbed poll limit env" "on_course st ls" "bounded (g_target_messages st) limit ls"
    using that assms(3,4) bounded_count [OF that(3) assms(1)]
    by (auto simp: on_course_def undisturbed_def word_less_nat_alt)
  then show ?thesis
    unfolding ends_well_def using covers_none [OF assms(2,1), of poll limit env i s]
    by (intro exI [of _ 0]) simp
qed

lemmas subscriber_loop_induct = subscriber_loop.raw_induct [rotated, consumes 1, case_names loop]

lemma subscriber_loop_ends_well:
  "subscriber_loop poll e limit env i s st = Some res \<Longrightarrow>
   poll_ok poll limit \<longrightarrow> (\<forall>ls b. books st ls b \<longrightarrow> ends_well poll limit env i s ls b st res)"
proof (induction poll e limit env i s st res rule: subscriber_loop_induct)
  case (loop k poll e limit env i s st res)
  show ?case
  proof (intro impI allI)
    fix ls b
    assume ok: "poll_ok poll limit" and books: "books st ls b"
    obtain fs r s1 where p: "poll s limit = (fs, r, s1)" by (cases "poll s limit")
    let ?ls = "ls @ observed (at_fragment (env i)) 0 fs"
    from loop_pass_books [where k = "\<lambda>i s st. k poll e limit env i s st", OF ok books p, of env i e,
        unfolded loop(2)]
    obtain st1 st2 where core: "sub_core st1 = sub_core st"
      and run: "sub_running st1 \<longleftrightarrow> sub_running st \<and> \<not> sub_signalled (at_check (env i))"
      and st2: "books st2 ?ls (b + byte_total fs)"
        "polling_iterations (sub_stats st2) = polling_iterations (sub_stats st) + 1"
        "sub_start_time (sub_stats st2) = sub_start_time (sub_stats st)"
        "g_target_messages st2 = g_target_messages st"
      and course: "on_course st1 ls \<and> (\<forall>j. \<not> sub_signalled (at_fragment (env i) j)) \<longrightarrow> on_course st2 ?ls"
      and res: "Some res = (if sub_running st1 \<and> messages_received (sub_stats st) < g_target_messages st
       then if r < 0 then Some (Some (s1, st2)) else k poll e limit env (Suc i) s1 st2
       else Some (Some (s, st1)))"
      by blast
    show "ends_well poll limit env i s ls b st res"
    proof (cases "sub_running st1 \<and> messages_received (sub_stats st) < g_target_messages st")
      case False
      then have "res = Some (s, st1)" using res by (auto split: if_splits)
      then show ?thesis
        using ends_well_stop [where env = env and i = i, OF books core run False] by simp
    next
      case True
      note step = covers_Suc [where poll = poll and limit = limit and s = s,
          OF p ok books conjunct2 [OF True] st2(2-4)]
      show ?thesis
      proof (cases "r < 0")
        case True
        then have "\<not> undisturbed poll limit env" using p unfolding undisturbed_def
          by (metis fst_conv snd_conv not_le)
        moreover have "covers poll limit env i s ls b st (Suc 0) st2"
          by (rule step) (rule covers_none [OF refl st2(1)])
        ultimately show ?thesis
          using res \<open>sub_running st1 \<and> _\<close> True unfolding ends_well_def by auto
      next
        case False
        then have "k poll e limit env (Suc i) s1 st2 = Some res"
          using res \<open>sub_running st1 \<and> _\<close> by simp
        from loop(1) [OF this] ok st2(1)
        have "ends_well poll limit env (Suc i) s1 ?ls (b + byte_total fs) st2 res" by blast
        then obtain n s' st' where r: "res = Some (s', st')"
          and c: "covers poll limit env (Suc i) s1 ?ls (b + byte_total fs) st2 n st'"
          and t: "undisturbed poll limit env \<and> on_course st2 ?ls \<and>
            bounded (g_target_messages st2) limit ?ls \<longrightarrow>
            unat (g_target_messages st2) \<le> length (?ls @ latencies_of env (Suc i) (polls poll limit n s1))"
          unfolding ends_well_def by blast
        have "unat (g_target_messages st) \<le> length (ls @ latencies_of env i (polls poll limit (Suc n) s))"
          if "undisturbed poll limit env" "bounded (g_target_messages st) limit ls"
          using that t course \<open>sub_running st1 \<and> _\<close> p st2(4)
            bounded_pass [OF that(2) books ok p, of "at_fragment (env i)"]
          by (auto simp: undisturbed_def on_course_def)
        then show ?thesis unfolding ends_well_def using r step [OF c] by blast
      qed
    qed
  qed
qed

section \<open>When the loop ends\<close>

lemma subscriber_loop_step:
  assumes "poll_ok poll limit" and "books st ls b" and "poll s limit = (fs, r, s')"
  shows "\<exists>st1 st2. (sub_running st1 \<longleftrightarrow> sub_running st \<and> \<not> sub_signalled (at_check (env i))) \<and>
    books st2 (ls @ observed (at_fragment (env i)) 0 fs) (b + byte_total fs) \<and>
    g_target_messages st2 = g_target_messages st \<and>
    subscriber_loop poll e limit env i s st =
      (if sub_running st1 \<and> messages_received (sub_stats st) < g_target_messages st
       then if r < 0 then Some (Some (s', st2)) else subscriber_loop poll e limit env (Suc i) s' st2
       else Some (Some (s, st1)))"
  using loop_pass_books [where e = e and env = env and i = i and k = "subscriber_loop poll e limit env",
      OF assms]
  unfolding subscriber_loop.simps [of poll e limit env i s st] by blast

lemma subscriber_loop_signalled:
  assumes "poll_ok poll limit" and "sub_signalled (at_check (env j))"
  shows "i \<le> j \<Longrightarrow> books st ls b \<Longrightarrow> \<exists>res. subscriber_loop poll e limit env i s st = Some res"
proof (induction "j - i" arbitrary: i st ls b s)
  case 0
  then have "i = j" by simp
  obtain fs r s' where "poll s limit = (fs, r, s')" by (cases "poll s limit")
  from subscriber_loop_step [OF assms(1) "0.prems"(2) this, of env i e] show ?case
    using assms(2) \<open>i = j\<close> by auto
next
  case (Suc d)
  obtain fs r s' where p: "poll s limit = (fs, r, s')" by (cases "poll s limit")
  have "d = j - Suc i" "Suc i \<le> j" using Suc.hyps(2) by simp_all
  from Suc.hyps(1) [OF this]
  show ?case using subscriber_loop_step [OF assms(1) Suc.prems(2) p, of env i e] by auto
qed

lemma subscriber_loop_satisfied:
  assumes "poll_ok poll limit"
  shows "books st ls b \<Longrightarrow> bounded (g_target_messages st) limit ls \<Longrightarrow>
    unat (g_target_messages st) \<le> length ls + length (filter whole_stamp (concat (polls poll limit n s))) \<Longrightarrow>
    \<exists>res. subscriber_loop poll e limit env i s st = Some res"
proof (induction n arbitrary: i st ls b s)
  case 0
  then have "\<not> messages_received (sub_stats st) < g_target_messages st"
    using bounded_count [OF "0.prems"(2,1)] by (simp add: word_less_nat_alt)
  obtain fs r s' where "poll s limit = (fs, r, s')" by (cases "poll s limit")
  from subscriber_loop_step [OF assms(1) "0.prems"(1) this, of env i e] show ?case
    using \<open>\<not> messages_received (sub_stats st) < g_target_messages st\<close> by auto
next
  case (Suc n)
  obtain fs r s' where p: "poll s limit = (fs, r, s')" by (cases "poll s limit")
  from subscriber_loop_step [OF assms(1) Suc.prems(1) p, of env i e]
  obtain st1 st2 where st2: "books st2 (ls @ observed (at_fragment (env i)) 0 fs) (b + byte_total fs)"
    "g_target_messages st2 = g_target_messages st"
    and l: "subscriber_loop poll e limit env i s st =
      (if sub_running st1 \<and> messages_received (sub_stats st) < g_target_messages st
       then if r < 0 then Some (Some (s', st2)) else subscriber_loop poll e limit env (Suc i) s' st2
       else Some (Some (s, st1)))"
    by blast
  show ?case
  proof (cases "messages_received (sub_stats st) < g_target_messages st")
    case True
    then have "\<exists>res. subscriber_loop poll e limit env (Suc i) s' st2 = Some res"
      using Suc.IH [OF st2(1), of s' "Suc i"] Suc.prems(3) p st2(2)
        bounded_pass [OF Suc.prems(2,1) assms p True, of "at_fragment (env i)"]
      by (simp add: length_observed)
    then show ?thesis using l by auto
  qed (use l in auto)
qed

section \<open>Whole runs\<close>

definition prepared :: "sub_env \<Rightarrow> config \<Rightarrow> sub_state" where
  "prepared env config = snd (init_subscriber_stats True (init_clock env)
     (initial_sub_state\<lparr>g_target_messages := target_message_count config\<rparr>))"

lemma books_prepared: "books (prepared env config) [] 0"
  by (simp add: prepared_def books_def init_subscriber_stats_def initial_sub_state_def Let_def
      create_performance_stats_True least_of_def greatest_of_def)

lemma prepared_simps [simp]:
  "g_target_messages (prepared env config) = target_message_count config"
  "sub_running (prepared env config)" "polling_iterations (sub_stats (prepared env config)) = 0"
  "sub_start_time (sub_stats (prepared env config)) = get_timestamp_ns (init_clock env)"
  by (simp_all add: prepared_def init_subscriber_stats_def initial_sub_state_def Let_def
      create_performance_stats_True)

lemma run_subscriber_eq:
  assumes "calloc_ok env"
  shows "run_subscriber poll e env config s initial_sub_state =
    map_option (\<lambda>r. case r of
        None \<Rightarrow> None
      | Some (s', st') \<Rightarrow> map_option (\<lambda>st''. (ERROR_SUCCESS, s', st'')) (finish_subscriber env st'))
     (subscriber_loop poll e (fragment_limit config) (sub_iterations env) 0 s (prepared env config))"
proof -
  have "init_subscriber_stats (calloc_ok env) (init_clock env)
      (initial_sub_state\<lparr>g_target_messages := target_message_count config\<rparr>) =
      (ERROR_SUCCESS, prepared env config)"
    using assms
    by (simp add: prepared_def init_subscriber_stats_def Let_def create_performance_stats_True)
  then show ?thesis by (simp add: run_subscriber_def)
qed

text \<open>The final report for the given latencies, bytes, polls and duration.\<close>

definition report_of :: "u64 list \<Rightarrow> u64 \<Rightarrow> nat \<Rightarrow> u64 \<Rightarrow> sub_report list" where
  "report_of ls nbytes n duration =
     (let count = word_of_nat (length ls); average = sum_list ls div count in
      Received_report count nbytes count (word_of_nat n) duration (duration div 1000000000)
      # (if 0 < duration
         then [Received_rates ((count * 1000000000) div duration)
                 ((nbytes * 1000000000) div duration div 1048576)]
         else [])
      @ (if 0 < count
         then [Latency_report (least_of ls) (least_of ls div 1000) (greatest_of ls)
                 (greatest_of ls div 1000) average (average div 1000),
               Distribution (map (bucket_row count
                 (sum_hist (summary_of (<) create_bucket_limits ls))) [0..<10])]
         else []))"

lemma final_sub_reports_books:
  assumes "books st ls b" and "polling_iterations (sub_stats st) = word_of_nat n"
  shows "final_sub_reports (sub_stats st) =
    Some (report_of ls b n (end_time (sub_stats st) - sub_start_time (sub_stats st)))"
proof -
  obtain p where p: "latency_stats (sub_stats st) = Some p" "wf_stats p"
    "abs_summary p = summary_of (<) create_bucket_limits ls"
    using assms by (auto simp: books_def Let_def)
  then have f: "message_count (counters p) = word_of_nat (length ls)"
    "latency_buckets p = sum_hist (summary_of (<) create_bucket_limits ls)"
    by (simp_all add: abs_summary_def summary_of_def)
  have "message_count (counters p) \<noteq> 0 \<Longrightarrow> print_latency_distribution (Some p) =
      Some (map (bucket_row (message_count (counters p)) (latency_buckets p)) [0..<10])"
    using p(2) by (simp add: print_latency_distribution_eq wf_stats_lengths)
  then have "word_of_nat (length ls) \<noteq> (0 :: u64) \<Longrightarrow> print_latency_distribution (Some p) =
      Some (map (bucket_row (word_of_nat (length ls))
        (sum_hist (summary_of (<) create_bucket_limits ls))) [0..<10])"
    by (simp only: f not_False_eq_True)
  then show ?thesis
    using assms p by (simp add: final_sub_reports_def report_of_def books_def Let_def word_gt_0)
qed

lemma finish_subscriber_books:
  assumes "books st ls b" and "polling_iterations (sub_stats st) = word_of_nat n" and "sub_thread_created env"
  shows "\<exists>st' reports. finish_subscriber env st = Some st' \<and> \<not> sub_running st' \<and>
    latency_stats (sub_stats st') = None \<and>
    sub_printed st' = reports @ report_of ls b n (end_time (sub_stats st') - sub_start_time (sub_stats st))"
proof -
  define st1 where "st1 = (if end_time (sub_stats st) = 0
    then st\<lparr>sub_stats := (sub_stats st)\<lparr>end_time := get_timestamp_ns (loop_end_clock env)\<rparr>\<rparr> else st)\<lparr>sub_running := False\<rparr>"
  define st2 where "st2 = fold print_realtime_stats (sub_last_ticks env) st1"
  have core: "sub_core st2 = sub_core st1" by (simp add: st2_def)
  have "books st1 ls b" using assms(1) by (simp add: st1_def books_def Let_def)
  then have "books st2 ls b" using books_core [OF core] by simp
  moreover have "polling_iterations (sub_stats st2) = word_of_nat n"
    "sub_start_time (sub_stats st2) = sub_start_time (sub_stats st)"
    using core assms(2) by (simp_all add: st1_def sub_core_def Let_def)
  ultimately have "final_sub_reports (sub_stats st2) =
      Some (report_of ls b n (end_time (sub_stats st2) - sub_start_time (sub_stats st)))"
    using final_sub_reports_books by simp
  moreover have "\<not> sub_running (fold print_realtime_stats tss st1)" for tss
  proof (induction tss rule: rev_induct)
    case Nil
    then show ?case by (simp add: st1_def)
  qed simp
  moreover have "finish_subscriber env st = map_option cleanup_subscriber_stats (print_final_stats st2)"
    using assms(3) by (simp add: finish_subscriber_def st1_def st2_def Let_def)
  ultimately show ?thesis
    by (simp add: print_final_stats_def cleanup_subscriber_stats_def st2_def)
qed

lemma run_subscriber_returns:
  assumes "calloc_ok env" and "sub_thread_created env" and "poll_ok poll (fragment_limit config)"
    and "0 < fragment_limit config"
    and "unat (target_message_count config) + nat (fragment_limit config) \<le> 2 ^ 64"
    and "sub_signalled (at_check (sub_iterations env j)) \<or>
      unat (target_message_count config) \<le>
        length (filter (\<lambda>f. 8 \<le> length f) (concat (polls poll (fragment_limit config) n s)))"
  shows "\<exists>s' st'. run_subscriber poll e env config s initial_sub_state = Some (Some (ERROR_SUCCESS, s', st'))"
proof -
  have "bounded (g_target_messages (prepared env config)) (fragment_limit config) []"
    using assms(4,5) by (simp add: bounded_def)
  then have "\<exists>res. subscriber_loop poll e (fragment_limit config) (sub_iterations env) 0 s
      (prepared env config) = Some res"
    using assms(6) subscriber_loop_signalled [OF assms(3), of "sub_iterations env" j 0, OF _ _ books_prepared]
      subscriber_loop_satisfied [OF assms(3) books_prepared, of env config n s]
    by (auto simp: whole_stamp_def [abs_def])
  then obtain res where l: "subscriber_loop poll e (fragment_limit config) (sub_iterations env) 0 s
      (prepared env config) = Some res" by blast
  obtain n s' st1 where res: "res = Some (s', st1)"
    and c: "covers poll (fragment_limit config) (sub_iterations env) 0 s [] 0 (prepared env config) n st1"
    using subscriber_loop_ends_well [OF l] assms(3) books_prepared unfolding ends_well_def by blast
  have "\<exists>st'. finish_subscriber env st1 = Some st'"
    using finish_subscriber_books [OF _ _ assms(2), of st1] c unfolding covers_def by fastforce
  then show ?thesis using l res by (auto simp: run_subscriber_eq [OF assms(1)])
qed

text \<open>
  A subscription that delivers from a script, in fragments of at most 1024 bytes, and the
  surroundings of a small run on it.
\<close>

fun scripted_poll :: "u8 list list list poll_fun" where
  "scripted_poll [] limit = ([], 0, [])"
| "scripted_poll (fs # fss) limit =
     (let fs' = take (nat limit) (map (take 1024) fs) in (fs', int (length fs'), fss))"

lemma scripted_poll_ok: "poll_ok scripted_poll limit"
  unfolding poll_ok_def
proof (intro allI)
  fix fss
  show "case scripted_poll fss limit of (fs, r, _) \<Rightarrow>
     short_fragments fs \<and> length fs \<le> nat limit \<and> (r < 0 \<or> r = int (length fs))"
    by (cases "(fss, limit)" rule: scripted_poll.cases)
      (auto simp: short_fragments_def Let_def dest!: in_set_takeD)
qed

definition quiet_moment :: sub_moment where
  "quiet_moment = \<lparr>sub_ticks = [\<lparr>tv_sec = 6, tv_nsec = 0\<rparr>], sub_signalled = False,
     receive_clock = \<lparr>tv_sec = 7, tv_nsec = 500\<rparr>\<rparr>"

definition example_sub_env :: sub_env where
  "example_sub_env =
     \<lparr>calloc_ok = True, init_clock = \<lparr>tv_sec = 1, tv_nsec = 0\<rparr>, sub_thread_created = True,
      sub_iterations = (\<lambda>i. \<lparr>at_check = quiet_moment, at_fragment = (\<lambda>k. quiet_moment)\<rparr>),
      loop_end_clock = \<lparr>tv_sec = 8, tv_nsec = 0\<rparr>, sub_last_ticks = []\<rparr>"

definition example_sub_config :: config where
  "example_sub_config =
     \<lparr>transport = TRANSPORT_IPC, channel = replicate 256 NUL, custom_endpoint = replicate 64 NUL,
      aeron_dir = replicate 256 NUL, stream_id = 1001, message_size = 16, config_message_count = 2,
      target_message_count = 2, fragment_limit = 10\<rparr>"

text \<open>Two messages, sent at 7 s + 100 ns and 7 s + 200 ns, and a fragment that is too short.\<close>

definition example_fragments :: "u8 list list list" where
  "example_fragments = [[wire_message 16 7000000100], [[1, 2, 3], wire_message 16 7000000200]]"

lemma example_sub_setup:
  "calloc_ok example_sub_env" "sub_thread_created example_sub_env"
  "poll_ok scripted_poll (fragment_limit example_sub_config)" "0 < fragment_limit example_sub_config"
  "unat (target_message_count example_sub_config) + nat (fragment_limit example_sub_config) \<le> 2 ^ 64"
  by (simp_all add: example_sub_env_def example_sub_config_def scripted_poll_ok)

lemma example_polls:
  "polls scripted_poll (fragment_limit example_sub_config) 2 example_fragments = example_fragments"
  by (simp add: example_fragments_def example_sub_config_def numeral_2_eq_2 Let_def)

lemma example_enough:
  "unat (target_message_count example_sub_config) \<le> length (filter (\<lambda>f. 8 \<le> length f)
     (concat (polls scripted_poll (fragment_limit example_sub_config) 2 example_fragments)))"
  by (simp only: example_polls) (simp add: example_fragments_def example_sub_config_def)

text \<open>
  C5. What the subscriber reports is what it received: whenever \<open>run_subscriber\<close> returns, with memory and
  the statistics thread available and whatever the library delivered, signals and reports in
  between, it has not accessed memory out of range, it has made some number \<open>n\<close> of polls, and the
  last thing it printed is the report of exactly the messages of these polls: their number, bytes,
  least, greatest and average latency and the histogram, each latency being the handler's clock minus
  the timestamp in the message. It overshoots its target by less than the fragment limit.
\<close>

theorem run_subscriber_reports:
  assumes "calloc_ok env" and "sub_thread_created env" and "poll_ok poll (fragment_limit config)"
    and "0 < fragment_limit config"
    and "unat (target_message_count config) + nat (fragment_limit config) \<le> 2 ^ 64"
    and "run_subscriber poll e env config s initial_sub_state = Some r"
  shows "\<exists>n s' st' reports ls. r = Some (ERROR_SUCCESS, s', st') \<and>
    ls = latencies_of (sub_iterations env) 0 (polls poll (fragment_limit config) n s) \<and>
    sub_printed st' = reports @ report_of ls (byte_total (concat (polls poll (fragment_limit config) n s))) n
      (end_time (sub_stats st') - get_timestamp_ns (init_clock env)) \<and>
    length ls < unat (target_message_count config) + nat (fragment_limit config) \<and>
    \<not> sub_running st' \<and> latency_stats (sub_stats st') = None"
proof -
  let ?limit = "fragment_limit config" and ?st = "prepared env config"
  obtain res where l: "subscriber_loop poll e ?limit (sub_iterations env) 0 s ?st = Some res"
    and r: "r = (case res of None \<Rightarrow> None
      | Some (s', st') \<Rightarrow> map_option (\<lambda>st''. (ERROR_SUCCESS, s', st'')) (finish_subscriber env st'))"
    using assms(6) by (auto simp: run_subscriber_eq [OF assms(1)])
  obtain n s' st1 where res: "res = Some (s', st1)"
    and c: "covers poll ?limit (sub_iterations env) 0 s [] 0 ?st n st1"
    using subscriber_loop_ends_well [OF l] assms(3) books_prepared unfolding ends_well_def by blast
  have "bounded (target_message_count config) ?limit []"
    using assms(4,5) by (simp add: bounded_def)
  then have len: "length (latencies_of (sub_iterations env) 0 (polls poll ?limit n s)) <
      unat (target_message_count config) + nat ?limit"
    using c by (simp add: covers_def bounded_def)
  have b: "books st1 (latencies_of (sub_iterations env) 0 (polls poll ?limit n s))
      (byte_total (concat (polls poll ?limit n s)))"
    and n: "polling_iterations (sub_stats st1) = word_of_nat n"
    and start: "sub_start_time (sub_stats st1) = get_timestamp_ns (init_clock env)"
    using c by (simp_all add: covers_def)
  from finish_subscriber_books [OF b n assms(2)] show ?thesis
    using r res len start by auto
qed

theorem run_subscriber_reports_witness:
  "\<exists>n s' st' reports ls.
    run_subscriber scripted_poll Little example_sub_env example_sub_config example_fragments
      initial_sub_state = Some (Some (ERROR_SUCCESS, s', st')) \<and>
    ls = latencies_of (sub_iterations example_sub_env) 0 (polls scripted_poll 10 n example_fragments) \<and>
    sub_printed st' = reports @ report_of ls (byte_total (concat (polls scripted_poll 10 n example_fragments))) n
      (end_time (sub_stats st') - 1000000000) \<and> length ls < 12"
proof -
  obtain s1 st1 where run: "run_subscriber scripted_poll Little example_sub_env example_sub_config
      example_fragments initial_sub_state = Some (Some (ERROR_SUCCESS, s1, st1))"
    using run_subscriber_returns [OF example_sub_setup disjI2 [OF example_enough]] by blast
  have "get_timestamp_ns (init_clock example_sub_env) = 1000000000"
    "fragment_limit example_sub_config = 10" "unat (target_message_count example_sub_config) = 2"
    by (simp_all add: example_sub_env_def example_sub_config_def get_timestamp_ns_def)
  then show ?thesis using run_subscriber_reports [OF example_sub_setup run] run by auto
qed

text \<open>
  C19. The subscriber does end: when a signal arrives at any pass, or when the polls bring enough
  messages for the target.
\<close>

theorem run_subscriber_terminates:
  assumes "calloc_ok env" and "sub_thread_created env" and "poll_ok poll (fragment_limit config)"
    and "0 < fragment_limit config"
    and "unat (target_message_count config) + nat (fragment_limit config) \<le> 2 ^ 64"
    and "sub_signalled (at_check (sub_iterations env j)) \<or>
      unat (target_message_count config) \<le>
        length (filter (\<lambda>f. 8 \<le> length f) (concat (polls poll (fragment_limit config) n s)))"
  shows "\<exists>s' st'. run_subscriber poll e env config s initial_sub_state = Some (Some (ERROR_SUCCESS, s', st'))"
  using assms by (rule run_subscriber_returns)

theorem run_subscriber_terminates_witness:
  "\<exists>s' st'. run_subscriber scripted_poll Big example_sub_env example_sub_config example_fragments
     initial_sub_state = Some (Some (ERROR_SUCCESS, s', st'))"
  using run_subscriber_terminates [OF example_sub_setup disjI2 [OF example_enough]] .

lemma run_subscriber_complete:
  assumes "calloc_ok env" and "sub_thread_created env" and "poll_ok poll (fragment_limit config)"
    and "0 < fragment_limit config"
    and "unat (target_message_count config) + nat (fragment_limit config) \<le> 2 ^ 64"
    and "undisturbed poll (fragment_limit config) (sub_iterations env)"
    and "unat (target_message_count config) \<le>
        length (filter (\<lambda>f. 8 \<le> length f) (concat (polls poll (fragment_limit config) m s)))"
  shows "\<exists>n s' st' reports ls.
    run_subscriber poll e env config s initial_sub_state = Some (Some (ERROR_SUCCESS, s', st')) \<and>
    ls = latencies_of (sub_iterations env) 0 (polls poll (fragment_limit config) n s) \<and>
    sub_printed st' = reports @ report_of ls (byte_total (concat (polls poll (fragment_limit config) n s))) n
      (end_time (sub_stats st') - get_timestamp_ns (init_clock env)) \<and>
    unat (target_message_count config) \<le> length ls \<and>
    length ls < unat (target_message_count config) + nat (fragment_limit config)"
proof -
  let ?limit = "fragment_limit config" and ?st = "prepared env config"
  have bound: "bounded (g_target_messages ?st) ?limit []"
    using assms(4,5) by (simp add: bounded_def)
  obtain res where l: "subscriber_loop poll e ?limit (sub_iterations env) 0 s ?st = Some res"
    using subscriber_loop_satisfied [OF assms(3) books_prepared bound, of m s e "sub_iterations env" 0]
      assms(7) by (auto simp: whole_stamp_def [abs_def])
  have "ends_well poll ?limit (sub_iterations env) 0 s [] 0 ?st res"
    using subscriber_loop_ends_well [OF l] assms(3) books_prepared by blast
  then obtain n s' st1 where res: "res = Some (s', st1)"
    and c: "covers poll ?limit (sub_iterations env) 0 s [] 0 ?st n st1"
    and reach: "undisturbed poll ?limit (sub_iterations env) \<and> on_course ?st [] \<and>
      bounded (g_target_messages ?st) ?limit [] \<longrightarrow> unat (g_target_messages ?st) \<le>
        length ([] @ latencies_of (sub_iterations env) 0 (polls poll ?limit n s))"
    unfolding ends_well_def by blast
  have t: "unat (target_message_count config) \<le>
      length (latencies_of (sub_iterations env) 0 (polls poll ?limit n s))"
    using reach assms(6) bound by (simp add: on_course_def)
  have b: "books st1 (latencies_of (sub_iterations env) 0 (polls poll ?limit n s))
      (byte_total (concat (polls poll ?limit n s)))"
    and n: "polling_iterations (sub_stats st1) = word_of_nat n"
    and start: "sub_start_time (sub_stats st1) = get_timestamp_ns (init_clock env)"
    and len: "length (latencies_of (sub_iterations env) 0 (polls poll ?limit n s)) <
      unat (target_message_count config) + nat ?limit"
    using c bound by (simp_all add: covers_def bounded_def)
  from finish_subscriber_books [OF b n assms(2)] show ?thesis
    using l res len t start by (auto simp: run_subscriber_eq [OF assms(1)])
qed

text \<open>
  C10. Undisturbed by signals and poll errors, and given enough messages, the subscriber returns, and
  the last report covers at least the target number of messages and fewer than the target plus the
  fragment limit.
\<close>

theorem run_subscriber_reaches_target:
  assumes "calloc_ok env" and "sub_thread_created env" and "poll_ok poll (fragment_limit config)"
    and "0 < fragment_limit config"
    and "unat (target_message_count config) + nat (fragment_limit config) \<le> 2 ^ 64"
    and "undisturbed poll (fragment_limit config) (sub_iterations env)"
    and "unat (target_message_count config) \<le>
        length (filter (\<lambda>f. 8 \<le> length f) (concat (polls poll (fragment_limit config) m s)))"
  shows "\<exists>n s' st' reports ls.
    run_subscriber poll e env config s initial_sub_state = Some (Some (ERROR_SUCCESS, s', st')) \<and>
    ls = latencies_of (sub_iterations env) 0 (polls poll (fragment_limit config) n s) \<and>
    sub_printed st' = reports @ report_of ls (byte_total (concat (polls poll (fragment_limit config) n s))) n
      (end_time (sub_stats st') - get_timestamp_ns (init_clock env)) \<and>
    unat (target_message_count config) \<le> length ls \<and>
    length ls < unat (target_message_count config) + nat (fragment_limit config)"
  using assms by (rule run_subscriber_complete)

theorem run_subscriber_reaches_target_witness:
  "\<exists>n s' st' reports ls.
    run_subscriber scripted_poll Big example_sub_env example_sub_config example_fragments
      initial_sub_state = Some (Some (ERROR_SUCCESS, s', st')) \<and>
    ls = latencies_of (sub_iterations example_sub_env) 0 (polls scripted_poll 10 n example_fragments) \<and>
    sub_printed st' = reports @ report_of ls (byte_total (concat (polls scripted_poll 10 n example_fragments))) n
      (end_time (sub_stats st') - 1000000000) \<and> 2 \<le> length ls"
proof -
  have "0 \<le> fst (snd (scripted_poll s limit))" for s limit
    by (cases "(s, limit)" rule: scripted_poll.cases) (simp_all add: Let_def)
  then have u: "undisturbed scripted_poll (fragment_limit example_sub_config) (sub_iterations example_sub_env)"
    by (simp add: undisturbed_def example_sub_env_def quiet_moment_def)
  have v: "get_timestamp_ns (init_clock example_sub_env) = 1000000000"
    "fragment_limit example_sub_config = 10" "unat (target_message_count example_sub_config) = 2"
    by (simp_all add: example_sub_env_def example_sub_config_def get_timestamp_ns_def)
  show ?thesis
    using run_subscriber_reaches_target [OF example_sub_setup u example_enough, of Big, unfolded v]
    by blast
qed

section \<open>Messages in several fragments\<close>

text \<open>The timestamp a continuation that starts at offset \<open>off\<close> of a message seems to have.\<close>

definition filler_stamp :: "nat \<Rightarrow> u64" where
  "filler_stamp off = le_decode (rev (map (\<lambda>k. word_of_nat ((off - 8 + k) mod 256)) [0..<8]))"

lemma stamp_of_wire: "8 \<le> n \<Longrightarrow> stamp_of (wire_message n t @ rest) = t"
  by (simp add: stamp_of_def wire_message_def)

lemma stamp_of_continuation:
  assumes "8 \<le> off" and "off + 8 \<le> n"
  shows "stamp_of (drop off (wire_message n t)) = filler_stamp off"
proof -
  have "take 8 (drop off (wire_message n t)) = map (\<lambda>k. word_of_nat ((off - 8 + k) mod 256)) [0..<8]"
    using assms by (intro nth_equalityI) (auto simp: wire_message_def nth_append)
  then show ?thesis by (simp add: stamp_of_def filler_stamp_def)
qed

text \<open>
  C35. The subscriber has no reassembly: a message that the library splits at an offset, as it does with
  messages above its maximum transmission unit, is counted as two messages, and the latency added for
  the second is computed from eight filler bytes, the same whatever the message's timestamp was.
\<close>

theorem continuation_counted_as_message:
  assumes "books st ls b" and "8 \<le> off" and "off + 8 \<le> n" and "n < 2 ^ 31"
  shows "\<exists>st'. deliver e moments 0 [take off (wire_message n t), drop off (wire_message n t)] st = Some st' \<and>
    messages_received (sub_stats st') = messages_received (sub_stats st) + 2 \<and>
    sub_total_latency (sub_stats st') = sub_total_latency (sub_stats st)
      + (get_timestamp_ns (receive_clock (moments 0)) - t)
      + (get_timestamp_ns (receive_clock (moments 1)) - filler_stamp off)"
proof -
  let ?f = "take off (wire_message n t)" and ?g = "drop off (wire_message n t)"
  have "stamp_of ?f = stamp_of (wire_message n t @ [])"
    using assms by (simp add: stamp_of_def min_def)
  then have stamps: "stamp_of ?f = t" "stamp_of ?g = filler_stamp off"
    using assms stamp_of_wire [of n t "[]"] stamp_of_continuation by simp_all
  have whole: "whole_stamp ?f" "whole_stamp ?g" using assms by (simp_all add: whole_stamp_def)
  have "short_fragments [?f, ?g]" using assms by simp
  from deliver_books [OF assms(1) this, of e moments 0]
  obtain st' where d: "deliver e moments 0 [?f, ?g] st = Some st'"
    and books: "books st' (ls @ observed moments 0 [?f, ?g]) (b + byte_total [?f, ?g])"
    by blast
  have obs: "observed moments 0 [?f, ?g] = [get_timestamp_ns (receive_clock (moments 0)) - t,
      get_timestamp_ns (receive_clock (moments 1)) - filler_stamp off]"
    using whole stamps by simp
  have "messages_received (sub_stats st') = messages_received (sub_stats st) + 2"
    "sub_total_latency (sub_stats st') = sub_total_latency (sub_stats st)
      + (get_timestamp_ns (receive_clock (moments 0)) - t)
      + (get_timestamp_ns (receive_clock (moments 1)) - filler_stamp off)"
    using books [unfolded obs] assms(1) by (simp_all add: books_def Let_def add.assoc)
  with d show ?thesis by blast
qed

theorem continuation_counted_as_message_witness:
  "\<exists>st'. deliver Little (\<lambda>k. quiet_moment) 0 [take 1376 (wire_message 2000 5), drop 1376 (wire_message 2000 5)]
      (prepared example_sub_env example_sub_config) = Some st' \<and>
    messages_received (sub_stats st') = messages_received (sub_stats (prepared example_sub_env example_sub_config)) + 2"
  using continuation_counted_as_message [OF books_prepared, of 1376 2000] by fastforce

end
