(* ===== verification/Programs.thy ===== *)
theory Programs
  imports PublisherProperties SubscriberProperties ConfigProperties
begin

text \<open>
  The \<open>main\<close> functions of \<open>src/binary_publisher.c\<close> and \<open>src/binary_subscriber.c\<close>: parsing,
  the set-up of the Aeron client, waiting for the publication or subscription and for its peer, the
  run, and the clean-up. The client library's answers are the record \<open>api_env\<close>; a program's
  behaviour is its exit code and the calls it makes, in order. \<open>None\<close> is a program that waits
  forever; undefined behaviour of the run is the inner \<open>None\<close>.
\<close>

section \<open>Calls of the client library\<close>

datatype resource = Context | Client | Channel

datatype api_call =
  Opened resource
| Closed resource
| Set_dir string
| Start
| Add string int
| Run

text \<open>
  The library's answers: the results of the set-up calls; the k-th answer of the call that asks
  whether the publication or subscription is ready, with what it stored through its first argument;
  whether the program had been interrupted after that; whether a peer is connected at the k-th time
  of asking; and the readings of \<open>time\<close>.
\<close>

record 'r api_env =
  context_init_result :: int
  set_dir_result :: int
  aeron_init_result :: int
  aeron_start_result :: int
  add_result :: int
  ready_poll :: "nat \<Rightarrow> int \<times> 'r option"
  interrupted :: "nat \<Rightarrow> bool"
  connected :: "nat \<Rightarrow> bool"
  time :: "nat \<Rightarrow> int"

section \<open>Waiting\<close>

text \<open>The loop of \<open>wait_for_connection\<close> at its k-th check.\<close>

partial_function (option) wait_loop :: "(nat \<Rightarrow> bool) \<Rightarrow> (nat \<Rightarrow> int) \<Rightarrow> int \<Rightarrow> int \<Rightarrow> nat \<Rightarrow> int option" where
  "wait_loop is_connected clock start_time timeout_seconds k =
     (if \<not> is_connected k
      then if timeout_seconds < clock (Suc k) - start_time then Some ERROR_TIMEOUT
           else wait_loop is_connected clock start_time timeout_seconds (Suc k)
      else Some ERROR_SUCCESS)"

definition wait_for_connection :: "(nat \<Rightarrow> bool) \<Rightarrow> (nat \<Rightarrow> int) \<Rightarrow> int \<Rightarrow> int option" where
  "wait_for_connection is_connected clock timeout_seconds =
     wait_loop is_connected clock (clock 0) timeout_seconds 0"

text \<open>
  The loop that waits until the publication or subscription is ready: \<open>Inl ()\<close> when it was
  interrupted, otherwise what the library stored, nothing being the null pointer.
\<close>

partial_function (option) await_ready :: "(nat \<Rightarrow> int \<times> 'r option) \<Rightarrow> (nat \<Rightarrow> bool) \<Rightarrow> nat \<Rightarrow> (unit + 'r option) option" where
  "await_ready answers stopped k =
     (case answers k of (result, stored) \<Rightarrow>
        if result = 0
        then if stopped k then Some (Inl ()) else await_ready answers stopped (Suc k)
        else Some (Inr stored))"

section \<open>The two programs\<close>

datatype summary_item = Transport string | Channel_uri string | Stream int | Size u64

definition print_config_summary :: "char list \<Rightarrow> config option \<Rightarrow> summary_item list" where
  "print_config_summary channel_buffer config =
     (case config of
        None \<Rightarrow> []
      | Some c \<Rightarrow>
          [Transport (transport_type_to_string (transport c)),
           Channel_uri (case get_effective_channel (Some c) (Some channel_buffer) 512 of
                          None \<Rightarrow> ''(null)'' | Some out \<Rightarrow> c_str out),
           Stream (stream_id c), Size (message_size c)])"

text \<open>
  Both programs between the parsed configuration and the end: \<open>run\<close> is \<open>run_publisher\<close> or
  \<open>run_subscriber\<close> on what the library stored. The result is the exit code, the calls and what the
  run left.
\<close>

definition aeron_session ::
  "'r api_env \<Rightarrow> char list \<Rightarrow> config \<Rightarrow> ('r \<Rightarrow> (int \<times> 'x) option option)
   \<Rightarrow> (int \<times> api_call list \<times> 'x option) option option" where
  "aeron_session env channel_buffer config run =
     (if context_init_result env < 0 then Some (Some (1, [], None))
      else if set_dir_result env < 0
      then Some (Some (1, [Opened Context, Set_dir (c_str (aeron_dir config)), Closed Context], None))
      else if aeron_init_result env < 0
      then Some (Some (1, [Opened Context, Set_dir (c_str (aeron_dir config)), Closed Context], None))
      else (let setup = [Opened Context, Set_dir (c_str (aeron_dir config)), Opened Client] in
        if aeron_start_result env < 0
        then Some (Some (1, setup @ [Start, Closed Client, Closed Context], None))
        else (let uri = (case get_effective_channel (Some config) (Some channel_buffer) 512 of
                           None \<Rightarrow> [] | Some out \<Rightarrow> c_str out);
                  added = setup @ [Start, Add uri (stream_id config)] in
          if add_result env < 0
          then Some (Some (1, added @ [Closed Client, Closed Context], None))
          else case await_ready (ready_poll env) (interrupted env) 0 of
                 None \<Rightarrow> None
               | Some (Inl _) \<Rightarrow> Some (Some (1, added @ [Closed Client, Closed Context], None))
               | Some (Inr None) \<Rightarrow> Some (Some (1, added @ [Closed Client, Closed Context], None))
               | Some (Inr (Some r)) \<Rightarrow>
                   (case (if transport config \<noteq> TRANSPORT_IPC
                          then wait_for_connection (connected env) (time env) 30
                          else Some ERROR_SUCCESS) of
                      None \<Rightarrow> None
                    | Some _ \<Rightarrow>
                        map_option (map_option (\<lambda>(code, x).
                            (if code = ERROR_SUCCESS then 0 else 1,
                             added @ [Opened Channel, Run, Closed Channel, Closed Client, Closed Context],
                             Some x)))
                          (run r)))))"

text \<open>The uninitialised configuration and channel buffer of \<open>main\<close> are arguments.\<close>

definition publisher_main ::
  "'p offer_fun \<Rightarrow> endian \<Rightarrow> pub_env \<Rightarrow> 'p api_env \<Rightarrow> string option \<Rightarrow> string list \<Rightarrow> config \<Rightarrow> char list
   \<Rightarrow> pub_state \<Rightarrow> (int \<times> api_call list \<times> ('p \<times> pub_state) option) option option" where
  "publisher_main offer e penv env aeron_dir_var args config0 channel_buffer st =
     (case parse_publisher_args aeron_dir_var args (Some config0) of
        (parse_result, config) \<Rightarrow>
          if parse_result \<noteq> ERROR_SUCCESS
          then Some (Some (if parse_result = 1 then 0 else 1, [], None))
          else case config of
                 None \<Rightarrow> Some None
               | Some c \<Rightarrow>
                   aeron_session env channel_buffer c
                     (\<lambda>publication. Some (map_option (\<lambda>(code, p', st'). (code, (p', st')))
                        (run_publisher offer e penv c publication st))))"

definition subscriber_main ::
  "'s poll_fun \<Rightarrow> endian \<Rightarrow> sub_env \<Rightarrow> 's api_env \<Rightarrow> string option \<Rightarrow> string list \<Rightarrow> config \<Rightarrow> char list
   \<Rightarrow> sub_state \<Rightarrow> (int \<times> api_call list \<times> ('s \<times> sub_state) option) option option" where
  "subscriber_main poll e senv env aeron_dir_var args config0 channel_buffer st =
     (case parse_subscriber_args aeron_dir_var args (Some config0) of
        (parse_result, config) \<Rightarrow>
          if parse_result \<noteq> ERROR_SUCCESS
          then Some (Some (if parse_result = 1 then 0 else 1, [], None))
          else case config of
                 None \<Rightarrow> Some None
               | Some c \<Rightarrow>
                   aeron_session env channel_buffer c
                     (\<lambda>subscription. map_option (map_option (\<lambda>(code, s', st'). (code, (s', st'))))
                        (run_subscriber poll e senv c subscription st)))"

section \<open>Waiting ends\<close>

lemma wait_loop_returns:
  assumes "is_connected j \<or> timeout < clock (Suc j) - start"
  shows "k \<le> j \<Longrightarrow> \<exists>r. wait_loop is_connected clock start timeout k = Some r"
proof (induction "j - k" arbitrary: k)
  case 0
  then have "k = j" by simp
  then show ?case using assms by (subst wait_loop.simps) auto
next
  case (Suc d)
  then have "d = j - Suc k" "Suc k \<le> j" by simp_all
  from Suc.hyps(1) [OF this] show ?case by (subst wait_loop.simps) auto
qed

lemma wait_loop_result:
  "wait_loop is_connected clock start timeout k = Some r \<Longrightarrow>
   (r = ERROR_SUCCESS \<and> (\<exists>j\<ge>k. is_connected j \<and> (\<forall>i\<in>{k..<j}. \<not> is_connected i \<and> clock (Suc i) - start \<le> timeout))) \<or>
   (r = ERROR_TIMEOUT \<and> (\<exists>j\<ge>k. timeout < clock (Suc j) - start \<and> (\<forall>i\<in>{k..j}. \<not> is_connected i)))"
proof (induction is_connected clock start timeout k r rule: wait_loop.raw_induct [rotated, consumes 1, case_names loop])
  case (loop f is_connected clock start timeout k r)
  consider (conn) "is_connected k" | (time) "\<not> is_connected k" "timeout < clock (Suc k) - start"
    | (go) "\<not> is_connected k" "\<not> timeout < clock (Suc k) - start" by blast
  then show ?case
  proof cases
    case conn
    then show ?thesis using loop(2) by (auto intro!: exI [of _ k])
  next
    case time
    then show ?thesis using loop(2) by (auto intro!: exI [of _ k])
  next
    case go
    then have f: "f is_connected clock start timeout (Suc k) = Some r" using loop(2) by simp
    have split: "{k..<j} = insert k {Suc k..<j}" "{k..j} = insert k {Suc k..j}" if "Suc k \<le> j" for j
      using that by auto
    from loop(1) [OF f] show ?thesis
    proof (elim disjE conjE exE)
      fix j assume "r = ERROR_SUCCESS" "Suc k \<le> j" "is_connected j"
        "\<forall>i\<in>{Suc k..<j}. \<not> is_connected i \<and> clock (Suc i) - start \<le> timeout"
      then show ?thesis using go by (intro disjI1) (auto simp: split intro!: exI [of _ j])
    next
      fix j assume "r = ERROR_TIMEOUT" "Suc k \<le> j" "timeout < clock (Suc j) - start"
        "\<forall>i\<in>{Suc k..j}. \<not> is_connected i"
      then show ?thesis using go by (intro disjI2) (auto simp: split intro!: exI [of _ j])
    qed
  qed
qed

lemma await_ready_returns:
  assumes "fst (answers j) \<noteq> 0 \<or> stopped j"
  shows "k \<le> j \<Longrightarrow> \<exists>r. await_ready answers stopped k = Some r"
proof (induction "j - k" arbitrary: k)
  case 0
  then have "k = j" by simp
  then show ?case using assms by (subst await_ready.simps) (auto split: prod.split)
next
  case (Suc d)
  then have "d = j - Suc k" "Suc k \<le> j" by simp_all
  from Suc.hyps(1) [OF this] show ?case by (subst await_ready.simps) (auto split: prod.split)
qed

text \<open>
  C28. Waiting for a peer ends: with a clock that advances by at least a second for every second slept,
  \<open>wait_for_connection\<close> returns, success exactly when a check found the peer before the time was
  over, and otherwise a timeout.
\<close>

theorem wait_for_connection_ends:
  assumes "\<And>k. clock 0 + int k \<le> clock (Suc k)" and "0 \<le> timeout"
  shows "\<exists>r. wait_for_connection is_connected clock timeout = Some r \<and>
    r = (if \<exists>j. is_connected j \<and> (\<forall>i<j. clock (Suc i) - clock 0 \<le> timeout)
         then ERROR_SUCCESS else ERROR_TIMEOUT)"
proof -
  have "timeout < clock (Suc (Suc (nat timeout))) - clock 0"
    using assms(1) [of "Suc (nat timeout)"] assms(2) by simp
  then obtain r where r: "wait_loop is_connected clock (clock 0) timeout 0 = Some r"
    using wait_loop_returns [of is_connected "Suc (nat timeout)" timeout clock "clock 0" 0] by auto
  from wait_loop_result [OF this] show ?thesis
  proof (elim disjE conjE exE)
    fix j assume "r = ERROR_SUCCESS" "is_connected j"
      "\<forall>i\<in>{0..<j}. \<not> is_connected i \<and> clock (Suc i) - clock 0 \<le> timeout"
    then show ?thesis using r by (auto simp: wait_for_connection_def)
  next
    fix j assume j: "r = ERROR_TIMEOUT" "timeout < clock (Suc j) - clock 0"
      "\<forall>i\<in>{0..j}. \<not> is_connected i"
    have "\<not> (\<exists>l. is_connected l \<and> (\<forall>i<l. clock (Suc i) - clock 0 \<le> timeout))"
    proof
      assume "\<exists>l. is_connected l \<and> (\<forall>i<l. clock (Suc i) - clock 0 \<le> timeout)"
      then obtain l where l: "is_connected l" "\<forall>i<l. clock (Suc i) - clock 0 \<le> timeout" by blast
      then have "\<not> l \<le> j" using j(3) by auto
      then have "clock (Suc j) - clock 0 \<le> timeout" using l(2) by simp
      then show False using j(2) by simp
    qed
    then show ?thesis using r j(1) by (simp add: wait_for_connection_def)
  qed
qed

theorem wait_for_connection_ends_witness:
  "\<exists>r. wait_for_connection (\<lambda>k. 40 \<le> k) (\<lambda>k. 1000 + int k) 30 = Some r \<and> r = ERROR_TIMEOUT"
proof -
  have "\<not> (\<exists>j \<ge> 40. \<forall>i<j. 1000 + int (Suc i) - (1000 + int 0) \<le> (30 :: int))"
  proof
    assume "\<exists>j \<ge> 40. \<forall>i<j. 1000 + int (Suc i) - (1000 + int 0) \<le> (30 :: int)"
    then obtain j where "40 \<le> j" "\<forall>i<j. 1000 + int (Suc i) - (1000 + int 0) \<le> (30 :: int)" by blast
    then show False by (auto dest: spec [of _ 35])
  qed
  then show ?thesis
    using wait_for_connection_ends [of "\<lambda>k. 1000 + int k" 30 "\<lambda>k. 40 \<le> k"] by simp
qed

section \<open>Resources\<close>

text \<open>
  The resources held after a sequence of calls, the latest first; \<open>None\<close> when one is closed that
  is not the latest held, or when the program works with a client or channel it does not hold.
\<close>

fun held :: "resource list \<Rightarrow> api_call list \<Rightarrow> resource list option" where
  "held rs [] = Some rs"
| "held rs (Opened r # cs) = (if r \<in> set rs then None else held (r # rs) cs)"
| "held rs (Closed r # cs) = (case rs of [] \<Rightarrow> None | r' # rs' \<Rightarrow> if r' = r then held rs' cs else None)"
| "held rs (Set_dir d # cs) = (if Context \<in> set rs then held rs cs else None)"
| "held rs (Start # cs) = (if Client \<in> set rs then held rs cs else None)"
| "held rs (Add uri stream # cs) = (if Client \<in> set rs then held rs cs else None)"
| "held rs (Run # cs) = (if Channel \<in> set rs then held rs cs else None)"

lemma aeron_session_releases:
  assumes "aeron_session env buf config run = Some (Some (code, calls, x))"
  shows "held [] calls = Some [] \<and>
    (code = 1 \<and> x = None \<or>
     (\<exists>r c y. run r = Some (Some (c, y)) \<and> x = Some y \<and> code = (if c = ERROR_SUCCESS then 0 else 1)))"
  using assms
  by (simp add: aeron_session_def Let_def split: if_splits option.splits sum.splits) fastforce+

lemma parse_publisher_args_config: "\<exists>r c. parse_publisher_args var args (Some config0) = (r, Some c)"
  by (simp add: parse_publisher_args_def Let_def case_prod_beta)

lemma parse_subscriber_args_config: "\<exists>r c. parse_subscriber_args var args (Some config0) = (r, Some c)"
  by (simp add: parse_subscriber_args_def Let_def case_prod_beta)

text \<open>
  C27. The publisher does not leak or misuse the client library: whatever the library answers, when the
  program ends it has used the context, the client and the publication only while it held them, and it
  has closed everything it opened, once and in reverse order. Its exit code is 0 only when it printed
  its usage or when the run returned success, and 1 otherwise.
\<close>

theorem publisher_main_releases:
  assumes "publisher_main offer e penv env var args config0 buf st = Some (Some (code, calls, x))"
  shows "held [] calls = Some [] \<and>
      (code = 0 \<and> calls = [] \<and> fst (parse_publisher_args var args (Some config0)) = 1 \<or>
       code = 1 \<and> x = None \<or>
       (\<exists>config p p' st' c. parse_publisher_args var args (Some config0) = (ERROR_SUCCESS, Some config) \<and>
          run_publisher offer e penv config p st = Some (c, p', st') \<and> x = Some (p', st') \<and>
          code = (if c = ERROR_SUCCESS then 0 else 1)))"
proof -
  obtain r config where p: "parse_publisher_args var args (Some config0) = (r, Some config)"
    using parse_publisher_args_config by blast
  show ?thesis
  proof (cases "r = ERROR_SUCCESS")
    case True
    then have "aeron_session env buf config (\<lambda>publication. Some (map_option (\<lambda>(code, p', st'). (code, (p', st')))
        (run_publisher offer e penv config publication st))) = Some (Some (code, calls, x))"
      using assms p by (simp add: publisher_main_def)
    from aeron_session_releases [OF this] show ?thesis using p True by fastforce
  qed (use assms p in \<open>auto simp: publisher_main_def split: if_splits\<close>)
qed

text \<open>Library answers of an ordinary start.\<close>

definition example_api :: "'r \<Rightarrow> 'r api_env" where
  "example_api r =
     \<lparr>context_init_result = 0, set_dir_result = 0, aeron_init_result = 0, aeron_start_result = 0,
      add_result = 0, ready_poll = (\<lambda>k. if k = 0 then (0, None) else (1, Some r)),
      interrupted = (\<lambda>k. False), connected = (\<lambda>k. True), time = int\<rparr>"

lemma example_session:
  assumes "run r = Some (Some (c, y))"
  shows "\<exists>calls. aeron_session (example_api r) buf config run =
    Some (Some (if c = ERROR_SUCCESS then 0 else 1, calls, Some y))"
proof -
  have "await_ready (ready_poll (example_api r)) (interrupted (example_api r)) 0 = Some (Inr (Some r))"
    by (simp add: example_api_def await_ready.simps [of _ _ 0] await_ready.simps [of _ _ "Suc 0"])
  moreover have "wait_for_connection (connected (example_api r)) (time (example_api r)) 30 = Some ERROR_SUCCESS"
    by (simp add: example_api_def wait_for_connection_def wait_loop.simps [of _ _ _ _ 0])
  moreover have "context_init_result (example_api r) = 0" "set_dir_result (example_api r) = 0"
    "aeron_init_result (example_api r) = 0" "aeron_start_result (example_api r) = 0"
    "add_result (example_api r) = 0"
    by (simp_all add: example_api_def)
  ultimately show ?thesis using assms by (simp add: aeron_session_def Let_def)
qed

theorem publisher_main_releases_witness:
  "\<exists>code calls x. publisher_main stuttering_offer Little example_env (example_api ([], False)) None []
     blank_config (replicate 512 NUL) initial_pub_state = Some (Some (code, calls, x)) \<and>
     code = 0 \<and> held [] calls = Some []"
proof -
  obtain c where p: "parse_publisher_args None [] (Some blank_config) = (ERROR_SUCCESS, Some c)"
    and size: "message_size c = 1024"
    by (simp add: parse_publisher_args_def pub.loop_end finish_parse_def validate_config_def
        load_config_from_env_def set_default_config_def)
  have "good_env example_env c" "8 \<le> unat (message_size c)"
    by (simp_all add: good_env_def example_env_def size)
  moreover have "offer_appends stuttering_offer fst"
    by (simp add: offer_appends_def stuttering_offer_def)
  ultimately obtain p' st' where
    "run_publisher stuttering_offer Little example_env c ([], False) initial_pub_state = Some (ERROR_SUCCESS, p', st')"
    using run_publisher_books [of c example_env stuttering_offer fst Little "([], False)"]
    by auto
  then obtain calls where m: "publisher_main stuttering_offer Little example_env (example_api ([], False)) None []
     blank_config (replicate 512 NUL) initial_pub_state = Some (Some (0, calls, Some (p', st')))"
    using p example_session [where r = "([], False)" and c = ERROR_SUCCESS and y = "(p', st')" and
        run = "\<lambda>publication. Some (map_option (\<lambda>(code, p', st'). (code, (p', st')))
        (run_publisher stuttering_offer Little example_env c publication initial_pub_state))"]
    by (auto simp: publisher_main_def)
  then show ?thesis using publisher_main_releases [OF m] by blast
qed

text \<open>The same for the subscriber, its subscription and its run.\<close>

theorem subscriber_main_releases:
  assumes "subscriber_main poll e senv env var args config0 buf st = Some (Some (code, calls, x))"
  shows "held [] calls = Some [] \<and>
      (code = 0 \<and> calls = [] \<and> fst (parse_subscriber_args var args (Some config0)) = 1 \<or>
       code = 1 \<and> x = None \<or>
       (\<exists>config s s' st' c. parse_subscriber_args var args (Some config0) = (ERROR_SUCCESS, Some config) \<and>
          run_subscriber poll e senv config s st = Some (Some (c, s', st')) \<and> x = Some (s', st') \<and>
          code = (if c = ERROR_SUCCESS then 0 else 1)))"
proof -
  obtain r config where p: "parse_subscriber_args var args (Some config0) = (r, Some config)"
    using parse_subscriber_args_config by blast
  show ?thesis
  proof (cases "r = ERROR_SUCCESS")
    case True
    then have "aeron_session env buf config (\<lambda>subscription. map_option (map_option (\<lambda>(code, s', st'). (code, (s', st'))))
        (run_subscriber poll e senv config subscription st)) = Some (Some (code, calls, x))"
      using assms p by (simp add: subscriber_main_def)
    from aeron_session_releases [OF this] show ?thesis using p True by fastforce
  qed (use assms p in \<open>auto simp: subscriber_main_def split: if_splits\<close>)
qed

theorem subscriber_main_releases_witness:
  "\<exists>code calls x. subscriber_main scripted_poll Little example_sub_env
     ((example_api [])\<lparr>aeron_start_result := - 1\<rparr>) None [] blank_config (replicate 512 NUL)
     initial_sub_state = Some (Some (code, calls, x)) \<and> code = 1 \<and> x = None \<and> Start \<in> set calls \<and>
     held [] calls = Some []"
proof -
  obtain c where p: "parse_subscriber_args None [] (Some blank_config) = (ERROR_SUCCESS, Some c)"
    by (simp add: parse_subscriber_args_def sub.loop_end finish_parse_def validate_config_def
        load_config_from_env_def set_default_config_def)
  then obtain calls where m: "subscriber_main scripted_poll Little example_sub_env
     ((example_api [])\<lparr>aeron_start_result := - 1\<rparr>) None [] blank_config (replicate 512 NUL)
     initial_sub_state = Some (Some (1, calls, None))" "Start \<in> set calls"
    by (simp add: subscriber_main_def aeron_session_def example_api_def Let_def)
  show ?thesis using m subscriber_main_releases [OF m(1)] by blast
qed

end
