(* ===== verification/AeronUtil.thy ===== *)
theory AeronUtil
  imports Prelude
begin

text \<open>
  Inline functions of the Aeron C client headers the collections rest on, under
  \<open>aeron-lib/include/aeron\<close>: \<open>util/aeron_bitutil.h\<close>, \<open>util/aeron_math.h\<close>,
  \<open>collections/aeron_hashing.h\<close>, \<open>collections/aeron_map.h\<close> and the hash of
  \<open>util/aeron_strutil.h\<close>. Where a header has a branch for GNU compilers and a portable one, both
  are modelled. Signed 32 and 64 bit integers are words read with \<open>sint\<close>.
\<close>

type_synonym s32 = "32 word"
type_synonym s64 = "64 word"

section \<open>Bits\<close>

definition AERON_ALIGN :: "u64 \<Rightarrow> u64 \<Rightarrow> u64" where
  "AERON_ALIGN v alignment = (v + (alignment - 1)) AND NOT (alignment - 1)"

definition AERON_IS_POWER_OF_TWO :: "u64 \<Rightarrow> bool" where
  "AERON_IS_POWER_OF_TWO v \<longleftrightarrow> 0 < v \<and> (v AND (NOT v + 1)) = v"

text \<open>On the address of the buffer.\<close>

definition aeron_cache_line_align_buffer :: "u64 \<Rightarrow> u64" where
  "aeron_cache_line_align_buffer buffer =
     (let remainder = buffer mod 64
      in if 0 = remainder then buffer else buffer + (64 - remainder))"

text \<open>The compiler's builtins on a word that is not zero: how many zero bits there are below the lowest, above the highest one.\<close>

definition builtin_ctz :: "'a::len word \<Rightarrow> nat" where
  "builtin_ctz w = length (takeWhile (\<lambda>i. \<not> bit w i) [0..<LENGTH('a)])"

definition builtin_clz :: "'a::len word \<Rightarrow> nat" where
  "builtin_clz w = length (takeWhile (\<lambda>i. \<not> bit w i) (rev [0..<LENGTH('a)]))"

definition aeron_number_of_trailing_zeroes :: "s32 \<Rightarrow> nat" where
  "aeron_number_of_trailing_zeroes v = (if v = 0 then 32 else builtin_ctz v)"

definition ntz_table :: "nat list" where
  "ntz_table =
     [0, 1, 2, 24, 3, 19, 6, 25, 22, 4, 20, 10, 16, 7, 12, 26,
      31, 23, 18, 5, 21, 9, 15, 11, 30, 17, 8, 14, 29, 13, 28, 27]"

definition portable_number_of_trailing_zeroes :: "s32 \<Rightarrow> nat" where
  "portable_number_of_trailing_zeroes v =
     (if v = 0 then 32
      else (let index = (v AND - v) * 0x04D7651F in ntz_table ! unat (drop_bit 27 index)))"

definition aeron_number_of_trailing_zeroes_u64 :: "u64 \<Rightarrow> nat" where
  "aeron_number_of_trailing_zeroes_u64 v = (if v = 0 then 64 else builtin_ctz v)"

definition portable_number_of_trailing_zeroes_u64 :: "u64 \<Rightarrow> nat" where
  "portable_number_of_trailing_zeroes_u64 v =
     (let lower_tzc = portable_number_of_trailing_zeroes (ucast (v AND 0xFFFFFFFF));
          upper_tzc = portable_number_of_trailing_zeroes (ucast (drop_bit 32 v AND 0xFFFFFFFF))
      in if lower_tzc = 32 then upper_tzc + lower_tzc else lower_tzc)"

definition aeron_number_of_leading_zeroes :: "s32 \<Rightarrow> nat" where
  "aeron_number_of_leading_zeroes v = (if v = 0 then 32 else builtin_clz v)"

text \<open>The loop \<open>for (i = 1; i < 32; i = i * 2) value |= (value >> i)\<close> from \<open>i\<close>.\<close>

function smear :: "nat \<Rightarrow> s32 \<Rightarrow> s32" where
  "smear i v = (if 0 < i \<and> i < 32 then smear (i * 2) (v OR signed_drop_bit i v) else v)"
  by pat_completeness auto
termination
  by (relation "measure (\<lambda>(i, _). 32 - i)") auto

declare smear.simps [simp del]

definition aeron_find_next_power_of_two :: "s32 \<Rightarrow> s32" where
  "aeron_find_next_power_of_two v = smear 1 (v - 1) + 1"

text \<open>The capacity the \<open>init\<close> functions of the tables compute from the requested one.\<close>

definition table_capacity :: "u64 \<Rightarrow> nat" where
  "table_capacity initial_capacity = unat (scast (aeron_find_next_power_of_two (ucast initial_capacity)) :: u64)"

section \<open>Arithmetic that wraps\<close>

definition aeron_add_wrap_i32 :: "s32 \<Rightarrow> s32 \<Rightarrow> s32" where
  "aeron_add_wrap_i32 a b =
     (let a_widened = scast a :: s64; b_widened = scast b; sum = a_widened + b_widened
      in ucast (sum AND 0xFFFFFFFF))"

definition aeron_sub_wrap_i32 :: "s32 \<Rightarrow> s32 \<Rightarrow> s32" where
  "aeron_sub_wrap_i32 a b =
     (let a_widened = scast a :: s64; b_widened = scast b; difference = a_widened - b_widened
      in ucast (difference AND 0xFFFFFFFF))"

definition aeron_mul_wrap_i32 :: "s32 \<Rightarrow> s32 \<Rightarrow> s32" where
  "aeron_mul_wrap_i32 a b =
     (let a_widened = scast a :: s64; b_widened = scast b; product = a_widened * b_widened
      in ucast (product AND 0xFFFFFFFF))"

section \<open>Hashes\<close>

definition aeron_hash_code :: "u64 \<Rightarrow> u64" where
  "aeron_hash_code v =
     (let x = v;
          x = (x XOR drop_bit 30 x) * 0xbf58476d1ce4e5b9;
          x = (x XOR drop_bit 27 x) * 0x94d049bb133111eb
      in x XOR drop_bit 31 x)"

text \<open>\<open>(uint32_t)hash ^ (uint32_t)(hash >> 32)\<close>.\<close>

definition fold_hash :: "u64 \<Rightarrow> u32" where
  "fold_hash hash = ucast hash XOR ucast (drop_bit 32 hash)"

definition aeron_hash :: "u64 \<Rightarrow> u64 \<Rightarrow> u64" where
  "aeron_hash v msk =
     (let hash = aeron_hash_code v;
          hash = (if msk \<le> 0xFFFFFFFF then ucast (fold_hash hash) else hash)
      in hash AND msk)"

definition aeron_even_hash :: "u64 \<Rightarrow> u64 \<Rightarrow> u64" where
  "aeron_even_hash v msk =
     (let folded_hash = fold_hash (aeron_hash_code v);
          even_hash = push_bit 1 folded_hash - push_bit 8 folded_hash
      in ucast even_hash AND msk)"

text \<open>The signed \<open>low\<close> is widened to 64 bits before it is combined.\<close>

definition aeron_map_compound_key :: "s32 \<Rightarrow> s32 \<Rightarrow> s64" where
  "aeron_map_compound_key high low = push_bit 32 (scast high) OR scast low"

text \<open>One step of the FNV-1a hash, for GNU compilers and the portable one.\<close>

definition fnv_step :: "u64 \<Rightarrow> u8 \<Rightarrow> u64" where
  "fnv_step hval b =
     (let hval = hval XOR ucast b
      in hval + (push_bit 1 hval + push_bit 4 hval + push_bit 5 hval + push_bit 7 hval + push_bit 8 hval
           + push_bit 40 hval))"

definition portable_fnv_step :: "u64 \<Rightarrow> u8 \<Rightarrow> u64" where
  "portable_fnv_step hval b = (hval XOR ucast b) * 0x100000001b3"

definition aeron_fnv_64a_buf :: "u8 list \<Rightarrow> u64" where
  "aeron_fnv_64a_buf buf = foldl fnv_step 0xcbf29ce484222325 buf"

section \<open>Lemmas\<close>

text \<open>After the shifts up to \<open>m\<close>, a bit is set when one of the \<open>m\<close> from it upwards was.\<close>

definition smeared :: "nat \<Rightarrow> s32 \<Rightarrow> s32 \<Rightarrow> bool" where
  "smeared m x y \<longleftrightarrow> (\<forall>i. bit y i \<longleftrightarrow> (\<exists>d<m. bit x (i + d)))"

lemma smeared_step:
  assumes "smeared m x y" and "\<not> bit x 31" and "m < 32"
  shows "smeared (2 * m) x (y OR signed_drop_bit m y)"
  unfolding smeared_def
proof
  fix i
  have top: "\<not> bit y j" if "31 \<le> j" for j
  proof -
    have "\<not> bit x (j + d)" for d
    proof (cases "j + d = 31")
      case False
      then have "32 \<le> j + d" using that by simp
      then show ?thesis using bit_imp_le_length [of x "j + d"] by auto
    qed (use assms(2) in simp)
    then show ?thesis using assms(1) by (simp add: smeared_def)
  qed
  have "bit (signed_drop_bit m y) i \<longleftrightarrow> bit y (m + i)"
    using top [of 31] top [of "m + i"] by (cases "31 \<le> m + i") (auto simp: bit_signed_drop_bit_iff)
  then have "bit (y OR signed_drop_bit m y) i \<longleftrightarrow> bit y i \<or> bit y (m + i)" by (simp add: bit_or_iff)
  also have "\<dots> \<longleftrightarrow> (\<exists>d<m. bit x (i + d)) \<or> (\<exists>d<m. bit x (m + i + d))"
    using assms(1) by (simp add: smeared_def)
  also have "\<dots> \<longleftrightarrow> (\<exists>d<2 * m. bit x (i + d))"
  proof
    assume "(\<exists>d<m. bit x (i + d)) \<or> (\<exists>d<m. bit x (m + i + d))"
    then show "\<exists>d<2 * m. bit x (i + d)"
    proof
      assume "\<exists>d<m. bit x (i + d)"
      then obtain d where "d < m" "bit x (i + d)" by blast
      then show ?thesis by (intro exI [of _ d]) simp
    next
      assume "\<exists>d<m. bit x (m + i + d)"
      then obtain d where "d < m" "bit x (i + (m + d))" by (auto simp: ac_simps)
      then show ?thesis by (intro exI [of _ "m + d"]) simp
    qed
  next
    assume "\<exists>d<2 * m. bit x (i + d)"
    then obtain d where d: "d < 2 * m" "bit x (i + d)" by blast
    show "(\<exists>d<m. bit x (i + d)) \<or> (\<exists>d<m. bit x (m + i + d))"
    proof (cases "d < m")
      case False
      then have "bit x (m + i + (d - m))" "d - m < m" using d by (simp_all add: ac_simps)
      then show ?thesis by blast
    qed (use d in blast)
  qed
  finally show "bit (y OR signed_drop_bit m y) i \<longleftrightarrow> (\<exists>d<2 * m. bit x (i + d))" .
qed

lemma smear_smeared: "\<not> bit x 31 \<Longrightarrow> smeared 32 x (smear 1 x)"
proof -
  assume x: "\<not> bit x 31"
  define y1 where "y1 = x OR signed_drop_bit 1 x"
  define y2 where "y2 = y1 OR signed_drop_bit 2 y1"
  define y4 where "y4 = y2 OR signed_drop_bit 4 y2"
  define y8 where "y8 = y4 OR signed_drop_bit 8 y4"
  define y16 where "y16 = y8 OR signed_drop_bit 16 y8"
  have "smear 1 x = smear 2 y1" "smear 2 y1 = smear 4 y2" "smear 4 y2 = smear 8 y4"
    "smear 8 y4 = smear 16 y8" "smear 16 y8 = smear 32 y16" "smear 32 y16 = y16"
    by (subst smear.simps, simp add: y1_def y2_def y4_def y8_def y16_def)+
  then have "smear 1 x = y16" by simp
  moreover have "smeared 1 x x" by (simp add: smeared_def)
  then have "smeared 2 x y1" using smeared_step [of 1 x x] x by (simp add: y1_def)
  then have "smeared 4 x y2" using smeared_step [of 2 x y1] x by (simp add: y2_def)
  then have "smeared 8 x y4" using smeared_step [of 4 x y2] x by (simp add: y4_def)
  then have "smeared 16 x y8" using smeared_step [of 8 x y4] x by (simp add: y8_def)
  then have "smeared 32 x y16" using smeared_step [of 16 x y8] x by (simp add: y16_def)
  ultimately show ?thesis by simp
qed

lemma take_bit_self_less: "take_bit k x = x \<longleftrightarrow> unat x < 2 ^ k" if "k < 32" for x :: s32
proof -
  have "take_bit k x = x \<longleftrightarrow> unat x mod 2 ^ k = unat x"
    by (simp add: word_unat_eq_iff unsigned_take_bit_eq flip: take_bit_eq_mod)
  then show ?thesis using mod_less_divisor [of "2 ^ k" "unat x"] by (metis mod_less zero_less_numeral zero_less_power)
qed

lemma unat_power_s32: "k < 32 \<Longrightarrow> unat (2 ^ k :: s32) = 2 ^ k"
proof -
  assume "k < 32"
  then have "unat (word_of_nat (2 ^ k) :: s32) = 2 ^ k"
    by (simp only: unsigned_of_nat take_bit_nat_eq_self_iff) simp
  then show ?thesis by simp
qed

lemma smear_mask:
  assumes "unat x < 2 ^ k" and "\<And>i. i < k \<Longrightarrow> 2 ^ i \<le> unat x" and "k < 32"
  shows "smear 1 x = mask k"
proof (rule bit_word_eqI)
  fix i
  assume "i < LENGTH(32)"
  have low: "take_bit k x = x" using assms(1,3) take_bit_self_less by blast
  have high: "\<not> bit x j" if "k \<le> j" for j
  proof -
    have "\<not> bit (take_bit k x) j" using that by (simp add: bit_take_bit_iff)
    then show ?thesis by (simp add: low)
  qed
  have "smeared 32 x (smear 1 x)" using high [of 31] assms(3) by (intro smear_smeared) simp
  then have "bit (smear 1 x) i \<longleftrightarrow> (\<exists>d<32. bit x (i + d))" by (simp add: smeared_def)
  also have "\<dots> \<longleftrightarrow> i < k"
  proof
    assume "\<exists>d<32. bit x (i + d)"
    then obtain d where "bit x (i + d)" by blast
    then have "\<not> k \<le> i + d" using high by blast
    then show "i < k" by simp
  next
    assume ik: "i < k"
    show "\<exists>d<32. bit x (i + d)"
    proof (rule ccontr)
      assume no: "\<not> (\<exists>d<32. bit x (i + d))"
      have "take_bit i x = x"
      proof (rule bit_word_eqI)
        fix j
        assume j: "j < LENGTH(32)"
        have "\<not> bit x j" if "i \<le> j" using no that j by (auto dest: spec [of _ "j - i"])
        then show "bit (take_bit i x) j = bit x j" by (cases "i \<le> j") (auto simp: bit_take_bit_iff)
      qed
      then have "unat x < 2 ^ i" using ik assms(3) take_bit_self_less [of i x] by simp
      then show False using assms(2) [OF ik] by simp
    qed
  qed
  finally show "bit (smear 1 x) i = bit (mask k :: s32) i"
    using \<open>i < LENGTH(32)\<close> by (simp add: bit_mask_iff)
qed

lemma next_power_of_two:
  assumes "1 \<le> unat v" and "unat v \<le> 2 ^ 30"
  shows "\<exists>k \<le> 30. unat (aeron_find_next_power_of_two v) = 2 ^ k \<and> unat v \<le> 2 ^ k \<and> 2 ^ k < 2 * unat v"
proof -
  have "v \<noteq> 0" using assms(1) by auto
  then have x: "unat (v - 1) = unat v - 1" by (simp add: unat_minus_one)
  define k where "k = (LEAST k. unat (v - 1) < 2 ^ k)"
  have ex: "unat (v - 1) < 2 ^ 30" using assms x by simp
  have k: "unat (v - 1) < 2 ^ k" unfolding k_def using ex by (rule LeastI)
  have k30: "k \<le> 30" unfolding k_def using ex by (rule Least_le)
  have below: "2 ^ i \<le> unat (v - 1)" if "i < k" for i
    using not_less_Least [of i "\<lambda>k. unat (v - 1) < 2 ^ k"] that by (simp add: k_def not_less)
  have "smear 1 (v - 1) = mask k" using k below k30 by (intro smear_mask) simp_all
  then have "aeron_find_next_power_of_two v = 2 ^ k"
    by (simp add: aeron_find_next_power_of_two_def mask_eq_exp_minus_1)
  then have "unat (aeron_find_next_power_of_two v) = 2 ^ k" using k30 by (simp add: unat_power_s32)
  moreover have "unat v \<le> 2 ^ k" using k x by simp
  moreover have "2 ^ k < 2 * unat v"
  proof (cases k)
    case 0
    then show ?thesis using assms(1) by simp
  next
    case (Suc j)
    then have "2 ^ j \<le> unat v - 1" using below [of j] x by simp
    then show ?thesis using Suc assms(1) by simp
  qed
  ultimately show ?thesis using k30 by blast
qed

text \<open>
  The capacity of every table is the least power of two that is not below the requested one, for
  requests from 1 up to 2^30.
\<close>

theorem find_next_power_of_two_correct:
  assumes "1 \<le> unat v" and "unat v \<le> 2 ^ 30"
  shows "\<exists>k \<le> 30. unat (aeron_find_next_power_of_two v) = 2 ^ k \<and> unat v \<le> 2 ^ k \<and> 2 ^ k < 2 * unat v"
  using assms by (rule next_power_of_two)

theorem find_next_power_of_two_correct_witness:
  "\<exists>k \<le> 30. unat (aeron_find_next_power_of_two 100) = 2 ^ k \<and> 100 \<le> (2 :: nat) ^ k \<and> (2 :: nat) ^ k < 200"
  using find_next_power_of_two_correct [of 100] by simp

lemma unat_scast_s32: "unat w < 2 ^ 31 \<Longrightarrow> unat (scast (w :: s32) :: u64) = unat w"
proof -
  assume w: "unat w < 2 ^ 31"
  have "sint w = uint w"
  proof -
    have "uint w < 2 ^ 31" using w by (metis of_nat_less_iff of_nat_numeral of_nat_power uint_nat)
    moreover have "- (2 ^ 31) \<le> uint w" by (rule order_trans [OF _ unsigned_greater_eq]) simp
    ultimately have "signed_take_bit 31 (uint w) = uint w" by (intro signed_take_bit_int_eq_self)
    then show ?thesis by (simp add: sint_uint)
  qed
  then have "(scast w :: u64) = word_of_nat (unat w)" by (metis of_int_of_nat_eq of_int_sint uint_nat)
  moreover have "unat w < 2 ^ 64" using w by simp
  ultimately show ?thesis by (simp only: unat_of_nat_u64)
qed

lemma table_capacity_power:
  assumes "1 \<le> unat c" and "unat c \<le> 2 ^ 30"
  shows "\<exists>j. table_capacity c = 2 ^ j \<and> unat c \<le> 2 ^ j"
proof -
  have u: "unat (ucast c :: s32) = unat c" using assms(2) by (simp add: unsigned_ucast_eq take_bit_nat_eq_self)
  obtain k where k: "k \<le> 30" "unat (aeron_find_next_power_of_two (ucast c)) = 2 ^ k" "unat c \<le> 2 ^ k"
    using next_power_of_two [of "ucast c"] assms u by auto
  have "(2 :: nat) ^ k \<le> 2 ^ 30" using k(1) by (intro power_increasing) simp_all
  then show ?thesis using k unat_scast_s32 [of "aeron_find_next_power_of_two (ucast c)"]
    by (auto simp: table_capacity_def)
qed

section \<open>The mixing function loses nothing\<close>

lemma xor_shift_inject:
  fixes x y :: u64
  assumes "0 < n" and eq: "x XOR drop_bit n x = y XOR drop_bit n y"
  shows "x = y"
proof (rule bit_word_eqI)
  fix i
  assume "i < LENGTH(64)"
  show "bit x i = bit y i"
  proof (induction "64 - i" arbitrary: i rule: less_induct)
    case less
    show ?case
    proof (cases "i < 64")
      case True
      have "bit (x XOR drop_bit n x) i = bit (y XOR drop_bit n y) i" by (simp only: eq)
      then have "(bit x i \<noteq> bit x (n + i)) = (bit y i \<noteq> bit y (n + i))"
        by (simp add: bit_xor_iff bit_drop_bit_eq)
      moreover have "bit x (n + i) = bit y (n + i)" using less.hyps [of "n + i"] True assms(1) by simp
      ultimately show ?thesis by blast
    next
      case False
      then show ?thesis using bit_imp_le_length [of x i] bit_imp_le_length [of y i] by auto
    qed
  qed
qed

lemma mult_inject:
  fixes x y c d :: u64
  assumes "c * d = 1" and "x * c = y * c"
  shows "x = y"
proof -
  have "x * (c * d) = y * (c * d)" using assms(2) by (metis mult.assoc)
  then show ?thesis by (simp add: assms(1))
qed

text \<open>
  \<open>aeron_hash_code\<close> is a permutation of the 64-bit values: different keys never get the same hash
  code, so collisions in a table only come from masking.
\<close>

theorem hash_code_bijective: "bij aeron_hash_code"
proof -
  have "inj aeron_hash_code"
  proof (rule injI)
    fix x y
    assume eq: "aeron_hash_code x = aeron_hash_code y"
    define f where "f z = (z XOR drop_bit 30 z) * 0xbf58476d1ce4e5b9" for z :: u64
    define g where "g z = (z XOR drop_bit 27 z) * 0x94d049bb133111eb" for z :: u64
    have "g (f x) XOR drop_bit 31 (g (f x)) = g (f y) XOR drop_bit 31 (g (f y))"
      using eq by (simp add: aeron_hash_code_def f_def g_def Let_def)
    then have "g (f x) = g (f y)" by (rule xor_shift_inject [rotated]) simp
    then have "f x XOR drop_bit 27 (f x) = f y XOR drop_bit 27 (f y)"
      unfolding g_def by (rule mult_inject [of _ 3573116690164977347, rotated]) simp
    then have "f x = f y" by (rule xor_shift_inject [rotated]) simp
    then have "x XOR drop_bit 30 x = y XOR drop_bit 30 y"
      unfolding f_def by (rule mult_inject [of _ 10871156337175269513, rotated]) simp
    then show "x = y" by (rule xor_shift_inject [rotated]) simp
  qed
  then show ?thesis using finite_UNIV_inj_surj [of aeron_hash_code] by (simp add: bij_def)
qed

section \<open>Hashes are positions\<close>

lemma and_le: "a AND (m :: u64) \<le> m"
  by (simp add: word_and_le1)

lemma aeron_hash_le: "aeron_hash v m \<le> m"
  by (simp add: aeron_hash_def Let_def and_le)

lemma masked_hash_less:
  assumes "0 < n"
  shows "unat (aeron_hash key (word_of_nat (n - 1))) < n"
proof -
  have "unat (aeron_hash key (word_of_nat (n - 1))) \<le> unat (word_of_nat (n - 1) :: u64)"
    using aeron_hash_le by (simp add: word_le_nat_alt)
  also have "\<dots> \<le> n - 1" by (simp add: unsigned_of_nat take_bit_nat_less_eq_self)
  finally show ?thesis using assms by simp
qed

lemma aeron_even_hash_le: "aeron_even_hash v m \<le> m"
  by (simp add: aeron_even_hash_def Let_def and_le)

lemma aeron_even_hash_even: "\<not> bit (aeron_even_hash v m) 0"
proof -
  have "push_bit 1 w - push_bit 8 w = 2 * (w - 128 * w)" for w :: u32
    by (simp add: push_bit_eq_mult algebra_simps)
  then have "\<not> bit (push_bit 1 w - push_bit 8 w) 0" for w :: u32 by (simp only: bit_0) simp
  then show ?thesis unfolding aeron_even_hash_def Let_def bit_and_iff unsigned_ucast_eq bit_unsigned_iff by blast
qed

section \<open>Portable branches\<close>

lemma builtin_ctz_bits:
  assumes "w \<noteq> (0 :: 'a::len word)"
  shows "bit w (builtin_ctz w)" and "i < builtin_ctz w \<Longrightarrow> \<not> bit w i" and "builtin_ctz w < LENGTH('a)"
proof -
  let ?t = "takeWhile (\<lambda>i. \<not> bit w i) [0..<LENGTH('a)]"
  have ex: "\<exists>i<LENGTH('a). bit w i"
  proof (rule ccontr)
    assume "\<not> (\<exists>i<LENGTH('a). bit w i)"
    then have "w = 0" by (intro bit_word_eqI) simp
    then show False using assms by simp
  qed
  then have lt: "length ?t < LENGTH('a)"
    using takeWhile_stops [of _ "[0..<LENGTH('a)]" "\<lambda>i. \<not> bit w i"] by auto
  then show "builtin_ctz w < LENGTH('a)" by (simp add: builtin_ctz_def)
  show "bit w (builtin_ctz w)"
    using nth_length_takeWhile [of "\<lambda>i. \<not> bit w i" "[0..<LENGTH('a)]"] lt by (simp add: builtin_ctz_def)
  assume i: "i < builtin_ctz w"
  then have "?t ! i = i" using takeWhile_nth [of i "\<lambda>i. \<not> bit w i" "[0..<LENGTH('a)]"] lt
    by (simp add: builtin_ctz_def)
  moreover have "?t ! i \<in> set ?t" using i by (intro nth_mem) (simp add: builtin_ctz_def)
  ultimately show "\<not> bit w i" using set_takeWhileD by metis
qed

lemma builtin_ctz_unique:
  fixes w :: "'a::len word"
  assumes "bit w n" and "\<And>i. i < n \<Longrightarrow> \<not> bit w i"
  shows "builtin_ctz w = n"
proof -
  have "w \<noteq> 0" using assms(1) by auto
  from builtin_ctz_bits [OF this] assms show ?thesis by (metis linorder_neqE_nat)
qed

lemma lowest_bit: "w \<noteq> 0 \<Longrightarrow> w AND - w = push_bit (builtin_ctz w) (1 :: s32)"
proof -
  assume w: "w \<noteq> 0"
  let ?n = "builtin_ctz w"
  note b = builtin_ctz_bits [OF w]
  define u where "u = drop_bit ?n w"
  have wu: "w = push_bit ?n u"
  proof (rule bit_word_eqI)
    fix j
    assume "j < LENGTH(32)"
    then show "bit w j = bit (push_bit ?n u) j"
      using b(2) [of j] by (cases "?n \<le> j") (auto simp: u_def bit_simps)
  qed
  have "odd u" using b(1) by (simp add: u_def bit_0 [symmetric] bit_drop_bit_eq del: bit_0)
  then have "2 * (u div 2) + 1 = u"
    using mult_div_mod_eq [of 2 u] by (simp add: odd_iff_mod_2_eq_one)
  then have u1: "u - 1 = 2 * (u div 2)" by (simp add: diff_eq_eq)
  have "u AND - u = u AND NOT (u - 1)" by (simp add: minus_eq_not_minus_1)
  also have "\<dots> = 1"
  proof (rule bit_word_eqI)
    fix i
    assume "i < LENGTH(32)"
    show "bit (u AND NOT (u - 1)) i = bit (1 :: s32) i"
    proof (cases i)
      case 0
      then show ?thesis using \<open>odd u\<close> unfolding u1 bit_and_iff bit_not_iff
        by (simp add: bit_0)
    next
      case (Suc j)
      have "bit (u - 1) (Suc j) = bit u (Suc j)"
        unfolding u1 bit_double_iff using \<open>i < LENGTH(32)\<close> Suc by (simp add: bit_Suc)
      then show ?thesis using Suc by (auto simp: bit_simps)
    qed
  qed
  finally have "push_bit ?n (u AND - u) = push_bit ?n 1" by simp
  moreover have "push_bit ?n (- u) = - push_bit ?n u" by (simp add: push_bit_eq_mult)
  ultimately show ?thesis by (simp add: push_bit_and flip: wu)
qed

lemma ntz_table_lookup:
  assumes "n < 32"
  shows "ntz_table ! unat (drop_bit 27 (push_bit n (1 :: s32) * 0x04D7651F)) = n"
proof -
  have "n \<in> set [0,1,2,3,4,5,6,7,8,9,10,11,12,13,14,15,16,17,18,19,20,21,22,23,24,25,26,27,28,29,30,31]"
    using assms by (simp, presburger)
  then show ?thesis
    unfolding set_simps insert_iff
    by (elim disjE emptyE) (simp_all add: ntz_table_def push_bit_eq_mult drop_bit_eq_div)
qed

lemma portable_ntz: "portable_number_of_trailing_zeroes v = aeron_number_of_trailing_zeroes v"
proof (cases "v = 0")
  case False
  have "builtin_ctz v < 32" using builtin_ctz_bits(3) [OF False] by simp
  then show ?thesis
    using False ntz_table_lookup
    by (simp add: portable_number_of_trailing_zeroes_def aeron_number_of_trailing_zeroes_def lowest_bit)
qed (simp add: portable_number_of_trailing_zeroes_def aeron_number_of_trailing_zeroes_def)

lemma half_words:
  fixes v :: u64
  shows "bit (ucast (v AND 0xFFFFFFFF) :: s32) i \<longleftrightarrow> i < 32 \<and> bit v i"
    and "bit (ucast (drop_bit 32 v AND 0xFFFFFFFF) :: s32) i \<longleftrightarrow> i < 32 \<and> bit v (32 + i)"
proof -
  have m: "(0xFFFFFFFF :: u64) = mask 32" by (simp add: mask_eq_exp_minus_1)
  have "bit (ucast (w AND 0xFFFFFFFF) :: s32) i \<longleftrightarrow> i < 32 \<and> bit w i" for w :: u64
    unfolding m bit_unsigned_iff bit_and_iff bit_mask_iff by auto
  then show "bit (ucast (v AND 0xFFFFFFFF) :: s32) i \<longleftrightarrow> i < 32 \<and> bit v i"
    "bit (ucast (drop_bit 32 v AND 0xFFFFFFFF) :: s32) i \<longleftrightarrow> i < 32 \<and> bit v (32 + i)"
    by (simp_all only: bit_drop_bit_eq comp_def)
qed

lemma portable_ntz_u64: "portable_number_of_trailing_zeroes_u64 v = aeron_number_of_trailing_zeroes_u64 v"
proof (cases "v = 0")
  case True
  then show ?thesis
    by (simp add: portable_number_of_trailing_zeroes_u64_def aeron_number_of_trailing_zeroes_u64_def
        portable_number_of_trailing_zeroes_def)
next
  case False
  let ?l = "ucast (v AND 0xFFFFFFFF) :: s32" and ?u = "ucast (drop_bit 32 v AND 0xFFFFFFFF) :: s32"
  let ?n = "builtin_ctz v"
  note b = builtin_ctz_bits [OF False]
  show ?thesis
  proof (cases "?n < 32")
    case True
    then have l: "builtin_ctz ?l = ?n" using b by (intro builtin_ctz_unique, unfold half_words) auto
    have "bit ?l ?n" unfolding half_words using True b by simp
    then have "?l \<noteq> 0" by auto
    then show ?thesis
      using True l False
      by (simp add: portable_number_of_trailing_zeroes_u64_def aeron_number_of_trailing_zeroes_u64_def
          portable_ntz aeron_number_of_trailing_zeroes_def Let_def)
  next
    case high: False
    have "?l = 0" by (rule bit_word_eqI, unfold half_words) (use b(2) high in auto)
    moreover have u: "builtin_ctz ?u = ?n - 32"
      using b high by (intro builtin_ctz_unique, unfold half_words) (auto simp: bit_drop_bit_eq)
    moreover have "bit ?u (?n - 32)" unfolding half_words using b high by (simp add: bit_drop_bit_eq)
    then have "?u \<noteq> 0" by auto
    ultimately show ?thesis
      using high False
      by (simp add: portable_number_of_trailing_zeroes_u64_def aeron_number_of_trailing_zeroes_u64_def
          portable_ntz aeron_number_of_trailing_zeroes_def Let_def)
  qed
qed

lemma portable_fnv: "portable_fnv_step hval b = fnv_step hval b"
  by (simp add: portable_fnv_step_def fnv_step_def Let_def push_bit_eq_mult algebra_simps)

text \<open>
  The branches for GNU compilers and the portable ones agree on every argument: the number of
  trailing zeroes by multiplication and table or by the builtin, on 32 and, from its halves, on 64
  bits, and the FNV-1a hash by shifts or by multiplication.
\<close>

theorem portable_branches_agree:
  "portable_number_of_trailing_zeroes v = aeron_number_of_trailing_zeroes v \<and>
   portable_number_of_trailing_zeroes_u64 w = aeron_number_of_trailing_zeroes_u64 w \<and>
   foldl portable_fnv_step h buf = foldl fnv_step h buf"
  by (simp add: portable_ntz portable_ntz_u64 portable_fnv [abs_def])

section \<open>Compound keys\<close>

text \<open>
  A compound key determines its halves when the low half is not negative; with a negative low half
  the widened sign bits replace the high half, so all keys with the same negative low half are one key.
\<close>

theorem compound_key_collisions:
  "(0 \<le> sint l1 \<and> 0 \<le> sint l2 \<and> aeron_map_compound_key h1 l1 = aeron_map_compound_key h2 l2 \<longrightarrow>
      h1 = h2 \<and> l1 = l2) \<and>
   (sint low < 0 \<longrightarrow> aeron_map_compound_key h1 low = aeron_map_compound_key h2 low)"
proof -
  have b: "bit (aeron_map_compound_key h l) i \<longleftrightarrow>
      i < 64 \<and> (32 \<le> i \<and> bit h (i - 32) \<or> bit l (if i < 32 then i else 31))" for h l i
  proof -
    have "bit (scast l :: s64) i \<longleftrightarrow> i < 64 \<and> bit l (if i < 32 then i else 31)"
      by (cases "i = 31") (auto simp: bit_signed_iff min_def not_less split: if_splits dest: bit_imp_le_length)
    moreover have "bit (push_bit 32 (scast h :: s64)) i \<longleftrightarrow> i < 64 \<and> 32 \<le> i \<and> bit h (i - 32)"
      by (cases "i = 63") (auto simp: bit_push_bit_iff bit_signed_iff min_def not_less split: if_splits dest: bit_imp_le_length)
    ultimately show ?thesis unfolding aeron_map_compound_key_def bit_or_iff by blast
  qed
  have sign: "bit l 31 \<longleftrightarrow> sint l < 0" for l :: s32
    by (simp add: bit_last_iff [symmetric])
  have "h1 = h2 \<and> l1 = l2" if "\<not> bit l1 31" "\<not> bit l2 31"
    and eq: "aeron_map_compound_key h1 l1 = aeron_map_compound_key h2 l2"
  proof -
    have e: "bit (aeron_map_compound_key h1 l1) i = bit (aeron_map_compound_key h2 l2) i" for i
      by (simp only: eq)
    have "bit l1 i = bit l2 i" if "i < LENGTH(32)" for i using e [of i] that by (simp add: b)
    moreover have "bit h1 i = bit h2 i" if "i < LENGTH(32)" for i
      using e [of "32 + i"] that \<open>\<not> bit l1 31\<close> \<open>\<not> bit l2 31\<close> by (simp add: b)
    ultimately show ?thesis by (auto intro: bit_word_eqI)
  qed
  moreover have "aeron_map_compound_key h1 low = aeron_map_compound_key h2 low" if "bit low 31"
    by (rule bit_word_eqI) (use that in \<open>auto simp: b\<close>)
  ultimately show ?thesis using sign by (auto simp: not_less [symmetric])
qed

theorem compound_key_collisions_witness:
  "aeron_map_compound_key 5 (- 7) = aeron_map_compound_key 6 (- 7) \<and>
   aeron_map_compound_key 5 7 \<noteq> aeron_map_compound_key 6 7"
proof -
  have "sint (- 7 :: s32) < 0" "0 \<le> sint (7 :: s32)" by simp_all
  then show ?thesis
    using compound_key_collisions [of 7 7 5 6 "- 7"] by auto
qed

end
