(* ===== verification/OpenAddressing.thy ===== *)
theory OpenAddressing
  imports Prelude
begin

text \<open>
  Open addressing with linear probing and backward-shift deletion, the scheme the hash maps under
  \<open>aeron-lib/include/aeron/collections\<close> share. The two loops of the scheme are the generic
  functions \<open>probe\<close> and \<open>compact_loop\<close>; each map's operations are defined with them in its own
  theory. The locale \<open>open_addressing\<close> is what the scheme needs of a map's layout, and its lemmas
  are the correctness of the scheme; every map is an interpretation.
\<close>

section \<open>The loops\<close>

text \<open>
  \<open>while (slot (index) is occupied) { if (same key) break; index = (index + stride) & mask; }\<close>.
  A full table without the key is a loop that does not end.
\<close>

partial_function (option) probe ::
  "(nat \<Rightarrow> ('k \<times> 'v) option) \<Rightarrow> ('k \<Rightarrow> bool) \<Rightarrow> (nat \<Rightarrow> nat) \<Rightarrow> nat \<Rightarrow> nat option" where
  "probe slot same step index =
     (case slot index of
        None \<Rightarrow> Some index
      | Some (k, v) \<Rightarrow> if same k then Some index else probe slot same step (step index))"

text \<open>
  The loop of the \<open>compact_chain\<close> functions after a slot was emptied: entries of the chain that
  may move into the hole do, and the hole moves on.
\<close>

partial_function (option) compact_loop ::
  "('t \<Rightarrow> nat \<Rightarrow> ('k \<times> 'v) option) \<Rightarrow> ('t \<Rightarrow> nat \<Rightarrow> nat \<Rightarrow> 't) \<Rightarrow> ('k \<Rightarrow> nat) \<Rightarrow> (nat \<Rightarrow> nat)
   \<Rightarrow> nat \<Rightarrow> nat \<Rightarrow> 't \<Rightarrow> 't option" where
  "compact_loop slot move hash_key step delete_index index0 t =
     (let index = step index0 in
      case slot t index of
        None \<Rightarrow> Some t
      | Some (k, v) \<Rightarrow>
          (let hash = hash_key k in
           if (index < hash \<and> (hash \<le> delete_index \<or> delete_index \<le> index)) \<or>
              (hash \<le> delete_index \<and> delete_index \<le> index)
           then compact_loop slot move hash_key step index index (move t delete_index index)
           else compact_loop slot move hash_key step delete_index index t))"

text \<open>
  The loop of the \<open>rehash\<close> functions over the old table's slots: every entry goes to the first
  slot of its probe in the new table that is free.
\<close>

fun rehash_loop ::
  "('t \<Rightarrow> nat \<Rightarrow> ('k \<times> 'v) option) \<Rightarrow> ('t \<Rightarrow> nat \<Rightarrow> 'k \<Rightarrow> 'v \<Rightarrow> 't) \<Rightarrow> ('k \<Rightarrow> nat) \<Rightarrow> (nat \<Rightarrow> nat)
   \<Rightarrow> ('k \<times> 'v) option list \<Rightarrow> 't \<Rightarrow> 't option" where
  "rehash_loop slot store hash_key step [] tmp = Some tmp"
| "rehash_loop slot store hash_key step (None # cells) tmp = rehash_loop slot store hash_key step cells tmp"
| "rehash_loop slot store hash_key step (Some (k, v) # cells) tmp =
     (case probe (slot tmp) (\<lambda>k'. False) step (hash_key k) of
        None \<Rightarrow> None
      | Some new_hash \<Rightarrow> rehash_loop slot store hash_key step cells (store tmp new_hash k v))"

text \<open>The entries among some slots.\<close>

fun cell_entries :: "('k \<times> 'v) option list \<Rightarrow> ('k \<times> 'v) list" where
  "cell_entries [] = []"
| "cell_entries (None # cells) = cell_entries cells"
| "cell_entries (Some e # cells) = e # cell_entries cells"

text \<open>
  The loop of the \<open>remove_if\<close> functions; the callback works on the client's state. After a removal
  the same position is looked at again, since compaction may have brought another entry there.
\<close>

definition remove_if_visit ::
  "('t \<Rightarrow> nat \<Rightarrow> ('k \<times> 'v) option) \<Rightarrow> ('t \<Rightarrow> 'k \<Rightarrow> ('t \<times> 'v option) option)
   \<Rightarrow> ('c \<Rightarrow> 'k \<Rightarrow> 'v \<Rightarrow> bool \<times> 'c) \<Rightarrow> nat \<Rightarrow> 't \<times> 'c \<Rightarrow> (bool \<times> 't \<times> 'c) option" where
  "remove_if_visit slot remove func i = (\<lambda>(t, clientd).
     case slot t i of
       None \<Rightarrow> Some (False, t, clientd)
     | Some (k, v) \<Rightarrow>
         (case func clientd k v of (hit, clientd) \<Rightarrow>
            if hit
            then (case remove t k of
                    None \<Rightarrow> None
                  | Some (t, removed) \<Rightarrow> Some (removed \<noteq> None, t, clientd))
            else Some (False, t, clientd)))"

partial_function (option) remove_if_loop ::
  "('t \<Rightarrow> nat) \<Rightarrow> (nat \<Rightarrow> 't \<times> 'c \<Rightarrow> (bool \<times> 't \<times> 'c) option) \<Rightarrow> nat \<Rightarrow> nat \<Rightarrow> nat \<Rightarrow> 't \<times> 'c \<Rightarrow> ('t \<times> 'c) option"
where
  "remove_if_loop limit visit stride i remaining tc =
     (if i < limit (fst tc) \<and> 0 < remaining
      then (case visit i tc of
              None \<Rightarrow> None
            | Some (is_removed, tc) \<Rightarrow>
                if is_removed then remove_if_loop limit visit stride i (remaining - 1) tc
                else remove_if_loop limit visit stride (i + stride) remaining tc)
      else Some tc)"

text \<open>A map without the entries a predicate holds of.\<close>

definition map_without :: "('k \<Rightarrow> 'v \<Rightarrow> bool) \<Rightarrow> ('k \<Rightarrow> 'v option) \<Rightarrow> 'k \<Rightarrow> 'v option" where
  "map_without P m k = (case m k of None \<Rightarrow> None | Some v \<Rightarrow> if P k v then None else Some v)"

lemma map_without_delete: "m k = Some v \<Longrightarrow> P k v \<Longrightarrow> map_without P (m(k := None)) = map_without P m"
  by (rule ext) (simp add: map_without_def)

lemma map_without_idle: "(\<And>k v. m k = Some v \<Longrightarrow> \<not> P k v) \<Longrightarrow> map_without P m = m"
  by (rule ext) (auto simp: map_without_def split: option.split)

section \<open>Positions on a ring\<close>

text \<open>
  \<open>n\<close> positions at distance \<open>s\<close>; \<open>rot e p\<close> is how far \<open>p\<close> lies behind \<open>e\<close>.
\<close>

definition position :: "nat \<Rightarrow> nat \<Rightarrow> nat \<Rightarrow> bool" where
  "position s n p \<longleftrightarrow> (\<exists>q<n. p = s * q)"

definition rot :: "nat \<Rightarrow> nat \<Rightarrow> nat \<Rightarrow> nat" where
  "rot N e p = (if e \<le> p then p - e else p + N - e)"

definition next_position :: "nat \<Rightarrow> nat \<Rightarrow> nat \<Rightarrow> nat" where
  "next_position s n p = (p + s) mod (s * n)"

text \<open>The code steps with a mask; capacities are powers of two.\<close>

definition next_index :: "nat \<Rightarrow> nat \<Rightarrow> nat \<Rightarrow> nat" where
  "next_index stride msk i = (i + stride) AND msk"

lemma next_index_position: "s * n = 2 ^ j \<Longrightarrow> next_index s (s * n - 1) = next_position s n"
  by (rule ext)
    (simp only: next_index_def next_position_def take_bit_eq_mod [symmetric] take_bit_eq_mask mask_eq_exp_minus_1)

lemma position_1 [simp]: "position (Suc 0) n p \<longleftrightarrow> p < n"
  by (simp add: position_def)

lemma position_less: "0 < s \<Longrightarrow> position s n p \<Longrightarrow> p < s * n"
  by (auto simp: position_def)

lemma next_position_eq:
  assumes "0 < s" and "q < n"
  shows "next_position s n (s * q) = (if Suc q = n then 0 else s * Suc q)"
proof -
  have "next_position s n (s * q) = s * (Suc q mod n)"
    unfolding next_position_def by (metis mult_Suc_right add.commute mod_mult_mult1)
  then show ?thesis using assms by auto
qed

lemma position_next: "0 < s \<Longrightarrow> position s n p \<Longrightarrow> position s n (next_position s n p)"
  by (auto simp: position_def next_position_eq intro: exI [of _ "Suc _"] simp del: mult_Suc_right)

lemma rot_less: "p < N \<Longrightarrow> e < N \<Longrightarrow> rot N e p < N"
  by (auto simp: rot_def)

lemma rot_eq_0: "p < N \<Longrightarrow> e < N \<Longrightarrow> rot N e p = 0 \<longleftrightarrow> p = e"
  by (auto simp: rot_def)

lemma rot_inject: "p < N \<Longrightarrow> q < N \<Longrightarrow> e < N \<Longrightarrow> rot N e p = rot N e q \<longleftrightarrow> p = q"
  by (auto simp: rot_def split: if_splits)

lemma rot_next:
  assumes "0 < s" and "position s n p" and "position s n e" and "next_position s n p \<noteq> e"
  shows "rot (s * n) e (next_position s n p) = rot (s * n) e p + s"
proof -
  obtain a b where ab: "a < n" "p = s * a" "b < n" "e = s * b" using assms(2,3) by (auto simp: position_def)
  note nx = next_position_eq [OF assms(1) ab(1)]
  show ?thesis
  proof (cases "Suc a = n")
    case True
    then have "n = Suc a" by simp
    moreover have "b \<noteq> 0" using assms(4) nx ab True by auto
    moreover have "s * b \<le> s * a" using ab True by simp
    ultimately show ?thesis using nx ab assms(1) by (auto simp: rot_def)
  next
    case False
    have le: "s * b \<le> s * a \<longleftrightarrow> b \<le> a" "s * b \<le> s * Suc a \<longleftrightarrow> b \<le> Suc a"
      using assms(1) by (simp_all del: mult_Suc_right)
    have "b \<le> a \<longleftrightarrow> b \<le> Suc a" using assms(4) nx ab False by (auto simp: le_Suc_eq)
    moreover have "s + s * a + s * n - s * b = s * a + s * n - s * b + s"
    proof -
      have "s * b \<le> s * n" using ab by (intro mult_le_mono2) simp
      then show ?thesis by arith
    qed
    ultimately show ?thesis
      unfolding ab nx rot_def using False le
      by (cases "b \<le> a") simp_all
  qed
qed

lemma rot_last:
  assumes "0 < s" and "position s n p" and "next_position s n p = e"
  shows "rot (s * n) e p + s = s * n"
proof -
  obtain a where a: "a < n" "p = s * a" using assms(2) by (auto simp: position_def)
  note nx = next_position_eq [OF assms(1) a(1)]
  show ?thesis
  proof (cases "Suc a = n")
    case True
    then have "s * n = s * a + s" by auto
    then show ?thesis using assms(3) nx a True by (simp add: rot_def)
  next
    case False
    have e: "e = s * a + s" using assms(3) nx a False by simp
    have "s * Suc a \<le> s * n" using a by (intro mult_le_mono2) simp
    then show ?thesis using assms(1) by (simp add: e a rot_def)
  qed
qed

text \<open>Different distances differ by at least the stride.\<close>

lemma rot_gap:
  assumes "0 < s" and "position s n p" and "position s n q" and "position s n e"
    and "rot (s * n) e p < rot (s * n) e q"
  shows "rot (s * n) e p + s \<le> rot (s * n) e q"
proof -
  obtain a b c where pq: "a < n" "p = s * a" "b < n" "q = s * b" "c < n" "e = s * c"
    using assms(2-4) by (auto simp: position_def)
  have r: "rot (s * n) (s * c) (s * x) = s * (if c \<le> x then x - c else x + n - c)" if "x < n" for x
    using that pq(5) assms(1) by (auto simp: rot_def diff_mult_distrib2 add_mult_distrib2)
  have "s * u + s \<le> s * v" if "s * u < s * v" for u v
  proof -
    have "Suc u \<le> v" using that by simp
    then have "s * Suc u \<le> s * v" by (rule mult_le_mono2)
    then show ?thesis by simp
  qed
  then show ?thesis using assms(5) unfolding pq r [OF pq(1)] r [OF pq(3)] by blast
qed

text \<open>
  \<open>x\<close> lies on the way from \<open>a\<close> to \<open>b\<close>, \<open>b\<close> excluded. Seen from a position that is not on the
  way, it is an interval.
\<close>

abbreviation on_way :: "nat \<Rightarrow> nat \<Rightarrow> nat \<Rightarrow> nat \<Rightarrow> bool" where
  "on_way N a x b \<equiv> rot N a x < rot N a b"

lemma on_way_interval:
  assumes "a < N" "b < N" "e < N" "x < N" "\<not> on_way N a e b" "e \<noteq> b"
  shows "on_way N a x b \<longleftrightarrow> rot N e a \<le> rot N e x \<and> rot N e x < rot N e b"
  using assms by (auto simp: rot_def split: if_splits)

lemma on_way_condition:
  assumes "h < N" "d < N" "i < N" "d \<noteq> i"
  shows "((i < h \<and> (h \<le> d \<or> d \<le> i)) \<or> (h \<le> d \<and> d \<le> i)) \<longleftrightarrow> on_way N h d i"
  using assms by (auto simp: rot_def split: if_splits)

section \<open>Probes that see the same\<close>

lemma probe_cong:
  assumes "\<And>i k v. slot i = Some (k, v) \<Longrightarrow> same k = same' k"
  shows "probe slot same step i = probe slot same' step i"
proof -
  have "probe sl f st i = Some j \<Longrightarrow> sl = slot \<Longrightarrow> st = step \<Longrightarrow> (\<And>i k v. slot i = Some (k, v) \<Longrightarrow> f k = g k) \<Longrightarrow>
      probe slot g step i = Some j" for sl f g st i j
  proof (induction sl f st i j rule: probe.raw_induct [rotated, consumes 1, case_names loop])
    case (loop h sl f st i j)
    from loop(2) show ?case
      using loop(1) [of sl f st "st i" j] loop.prems
      by (subst probe.simps) (auto split: option.splits if_splits)
  qed
  from this [of slot same step i _ same'] this [of slot same' step i _ same] show ?thesis
    using assms by (cases "probe slot same step i"; cases "probe slot same' step i") auto
qed

text \<open>It is enough to agree where the probe can get.\<close>

lemma probe_restrict:
  assumes "\<And>i. P i \<Longrightarrow> P (step i)" and "P i" and "\<And>i. P i \<Longrightarrow> slot i = slot' i"
  shows "probe slot same step i = probe slot' same step i"
proof -
  have "probe sl f st i = Some j \<Longrightarrow> (\<And>i. P i \<Longrightarrow> sl i = sl' i) \<Longrightarrow> st = step \<Longrightarrow> P i \<Longrightarrow>
      probe sl' f step i = Some j" for sl sl' f st i j
  proof (induction sl f st i j rule: probe.raw_induct [rotated, consumes 1, case_names loop])
    case (loop h sl f st i j)
    from loop(2) show ?case
      using loop(1) [of sl f st "st i" j] loop.prems assms(1)
      by (subst probe.simps) (auto split: option.splits if_splits)
  qed
  from this [of slot same step i _ slot'] this [of slot' same step i _ slot] show ?thesis
    using assms(2,3) by (cases "probe slot same step i"; cases "probe slot' same step i") auto
qed

lemma probe_stays:
  "probe slot same step i = Some j \<Longrightarrow> P i \<Longrightarrow> (\<And>i. P i \<Longrightarrow> P (step i)) \<Longrightarrow> P j"
proof (induction slot same step i j rule: probe.raw_induct [rotated, consumes 1, case_names loop])
  case (loop f slot same step i j)
  from loop(2) show ?case
    using loop(1) [of slot same step "step i" j] loop.prems by (auto split: option.splits if_splits)
qed

section \<open>The scheme\<close>

text \<open>
  What the scheme needs of a layout: \<open>slot\<close> reads a position, \<open>store\<close>, \<open>clear\<close> and
  \<open>move\<close> write one, on tables for which the layout's sizes are right (\<open>ok\<close>); \<open>hash\<close> gives a
  position of a table of the given number of slots; \<open>storable\<close> are the keys and values a slot can hold, told
  from an empty slot.
\<close>

locale open_addressing =
  fixes slot :: "'t \<Rightarrow> nat \<Rightarrow> ('k \<times> 'v) option"
    and store :: "'t \<Rightarrow> nat \<Rightarrow> 'k \<Rightarrow> 'v \<Rightarrow> 't"
    and clear :: "'t \<Rightarrow> nat \<Rightarrow> 't"
    and move :: "'t \<Rightarrow> nat \<Rightarrow> nat \<Rightarrow> 't"
    and hash :: "nat \<Rightarrow> 'k \<Rightarrow> nat"
    and slots :: "'t \<Rightarrow> nat"
    and s :: nat
    and ok :: "'t \<Rightarrow> bool"
    and storable :: "'t \<Rightarrow> 'k \<Rightarrow> 'v \<Rightarrow> bool"
  assumes stride: "0 < s"
    and hash_position: "ok t \<Longrightarrow> position s (slots t) (hash (slots t) k)"
    and store: "ok t \<Longrightarrow> position s (slots t) p \<Longrightarrow> storable t k v \<Longrightarrow>
      ok (store t p k v) \<and> slots (store t p k v) = slots t \<and>
      (\<forall>q. position s (slots t) q \<longrightarrow> slot (store t p k v) q = (if q = p then Some (k, v) else slot t q))"
    and storable_store: "storable (store t p k v) k' w \<longleftrightarrow> storable t k' w"
    and clear: "ok t \<Longrightarrow> position s (slots t) p \<Longrightarrow>
      ok (clear t p) \<and> slots (clear t p) = slots t \<and>
      (\<forall>q. position s (slots t) q \<longrightarrow> slot (clear t p) q = (if q = p then None else slot t q))"
    and move: "ok t \<Longrightarrow> position s (slots t) d \<Longrightarrow> position s (slots t) i \<Longrightarrow> d \<noteq> i \<Longrightarrow>
      ok (move t d i) \<and> slots (move t d i) = slots t \<and>
      (\<forall>q. position s (slots t) q \<longrightarrow>
         slot (move t d i) q = (if q = i then None else if q = d then slot t i else slot t q))"
begin

abbreviation pos :: "'t \<Rightarrow> nat \<Rightarrow> bool" where
  "pos t p \<equiv> position s (slots t) p"

abbreviation ring :: "'t \<Rightarrow> nat" where
  "ring t \<equiv> s * slots t"

text \<open>The table holds value \<open>v\<close> for key \<open>k\<close>.\<close>

definition holds :: "'t \<Rightarrow> 'k \<Rightarrow> 'v \<Rightarrow> bool" where
  "holds t k v \<longleftrightarrow> (\<exists>p. pos t p \<and> slot t p = Some (k, v))"

text \<open>
  The invariant: a key is in one slot only, and no empty slot lies on the way from where a key
  belongs to where it is.
\<close>

definition chained :: "'t \<Rightarrow> bool" where
  "chained t \<longleftrightarrow>
     (\<forall>p k v x. pos t p \<and> slot t p = Some (k, v) \<and> pos t x \<and> on_way (ring t) (hash (slots t) k) x p \<longrightarrow>
        slot t x \<noteq> None)"

definition one_slot :: "'t \<Rightarrow> bool" where
  "one_slot t \<longleftrightarrow>
     (\<forall>p q k v w. pos t p \<and> pos t q \<and> slot t p = Some (k, v) \<and> slot t q = Some (k, w) \<longrightarrow> p = q)"

definition inv :: "'t \<Rightarrow> bool" where
  "inv t \<longleftrightarrow> ok t \<and> chained t \<and> one_slot t"

definition spare :: "'t \<Rightarrow> bool" where
  "spare t \<longleftrightarrow> (\<exists>e. pos t e \<and> slot t e = None)"

definition used :: "'t \<Rightarrow> nat set" where
  "used t = {p. pos t p \<and> slot t p \<noteq> None}"

lemma pos_less: "pos t p \<Longrightarrow> p < ring t"
  by (rule position_less [OF stride])

lemma hash_pos: "ok t \<Longrightarrow> pos t (hash (slots t) k)"
  by (rule hash_position)

lemma holds_unique: "one_slot t \<Longrightarrow> holds t k v \<Longrightarrow> holds t k w \<Longrightarrow> v = w"
  unfolding holds_def one_slot_def by (metis option.inject prod.inject)

lemma finite_used [simp]: "finite (used t)"
proof -
  have "used t \<subseteq> (\<lambda>q. s * q) ` {..<slots t}" by (auto simp: used_def position_def)
  then show ?thesis by (rule finite_subset) simp
qed

lemma spare_iff: "spare t \<longleftrightarrow> card (used t) < slots t"
proof -
  let ?P = "(\<lambda>q. s * q) ` {..<slots t}"
  have card: "card ?P = slots t" using stride by (subst card_image) (auto simp: inj_on_def)
  have P: "?P = {p. pos t p}" by (auto simp: position_def)
  have sub: "used t \<subseteq> ?P" by (auto simp: used_def P)
  show ?thesis
  proof
    assume "spare t"
    then obtain e where "e \<in> ?P" "e \<notin> used t" by (auto simp: spare_def used_def P)
    then have "used t \<subset> ?P" using sub by blast
    then show "card (used t) < slots t" using psubset_card_mono [of ?P "used t"] card by simp
  next
    assume "card (used t) < slots t"
    then have "used t \<noteq> ?P" using card by auto
    then obtain e where "e \<in> ?P" "e \<notin> used t" using sub by blast
    then have "pos t e \<and> slot t e = None" unfolding used_def P by (simp del: not_None_eq)
    then show "spare t" unfolding spare_def by blast
  qed
qed

section \<open>Probing\<close>

text \<open>The probe loop from any position reached so far without meeting the key or an empty slot.\<close>

lemma probe_from:
  assumes inv: "inv t" and e: "pos t e" "slot t e = None"
  shows "pos t i \<Longrightarrow>
    (\<forall>x. pos t x \<and> on_way (ring t) (hash (slots t) k) x i \<longrightarrow>
       slot t x \<noteq> None \<and> (\<forall>k' v. slot t x = Some (k', v) \<longrightarrow> k' \<noteq> k)) \<Longrightarrow>
    \<exists>j. probe (slot t) (\<lambda>k'. k' = k) (next_position s (slots t)) i = Some j \<and> pos t j \<and>
      (slot t j = None \<or> (\<exists>v. slot t j = Some (k, v))) \<and>
      (\<forall>x. pos t x \<and> on_way (ring t) (hash (slots t) k) x j \<longrightarrow>
         slot t x \<noteq> None \<and> (\<forall>k' v. slot t x = Some (k', v) \<longrightarrow> k' \<noteq> k))"
proof (induction "if i = e then 0 else ring t - rot (ring t) e i" arbitrary: i rule: less_induct)
  case less
  let ?h = "hash (slots t) k" and ?n = "next_position s (slots t) i"
  show ?case
  proof (cases "\<exists>k' v. slot t i = Some (k', v) \<and> k' \<noteq> k")
    case False
    then have "probe (slot t) (\<lambda>k'. k' = k) (next_position s (slots t)) i = Some i"
      by (subst probe.simps) (auto split: option.split)
    then show ?thesis using False less.prems by (cases "slot t i") auto
  next
    case True
    then obtain k' v where kv: "slot t i = Some (k', v)" "k' \<noteq> k" by blast
    then have step: "probe (slot t) (\<lambda>k'. k' = k) (next_position s (slots t)) i =
        probe (slot t) (\<lambda>k'. k' = k) (next_position s (slots t)) ?n"
      by (subst probe.simps) simp
    have ne: "i \<noteq> e" using kv e by auto
    have posn: "pos t ?n" using less.prems(1) stride by (rule position_next [rotated])
    have "rot (ring t) e i < ring t" using pos_less less.prems(1) e(1) by (intro rot_less) auto
    then have dec: "(if ?n = e then 0 else ring t - rot (ring t) e ?n) < (if i = e then 0 else ring t - rot (ring t) e i)"
      using ne rot_next [OF stride less.prems(1) e(1)] stride rot_less [OF pos_less [OF posn] pos_less [OF e(1)]] by auto
    have h: "pos t ?h" using inv hash_pos by (simp add: inv_def)
    have "slot t x \<noteq> None \<and> (\<forall>k' v. slot t x = Some (k', v) \<longrightarrow> k' \<noteq> k)"
      if x: "pos t x" "on_way (ring t) ?h x ?n" for x
    proof (cases "?n = ?h")
      case True
      then have "rot (ring t) ?h ?n = 0" using rot_eq_0 pos_less posn h by simp
      then show ?thesis using x by simp
    next
      case False
      have "x = i \<or> on_way (ring t) ?h x i"
        using rot_next [OF stride less.prems(1) h False] rot_gap [OF stride less.prems(1) x(1) h] x(2)
          rot_inject [of x "ring t" i ?h] pos_less x(1) less.prems(1) h by force
      then show ?thesis using less.prems(2) x(1) kv by auto
    qed
    then have "\<forall>x. pos t x \<and> on_way (ring t) ?h x ?n \<longrightarrow>
        slot t x \<noteq> None \<and> (\<forall>k' v. slot t x = Some (k', v) \<longrightarrow> k' \<noteq> k)"
      by blast
    from less.hyps [OF dec posn this] show ?thesis unfolding step .
  qed
qed

text \<open>The loop ends, at the key's slot or, when it is not there, at the first empty one.\<close>

lemma probe_finds:
  assumes "inv t" and "spare t"
  shows "\<exists>j. probe (slot t) (\<lambda>k'. k' = k) (next_position s (slots t)) (hash (slots t) k) = Some j \<and> pos t j \<and>
    (case slot t j of None \<Rightarrow> \<nexists>v. holds t k v | Some (k', v) \<Rightarrow> k' = k \<and> holds t k v) \<and>
    (\<forall>x. pos t x \<and> on_way (ring t) (hash (slots t) k) x j \<longrightarrow> slot t x \<noteq> None)"
proof -
  let ?h = "hash (slots t) k"
  have h: "pos t ?h" using assms(1) hash_pos by (simp add: inv_def)
  have "rot (ring t) ?h ?h = 0" by (simp add: rot_def)
  then obtain j where j: "probe (slot t) (\<lambda>k'. k' = k) (next_position s (slots t)) ?h = Some j" "pos t j"
    "slot t j = None \<or> (\<exists>v. slot t j = Some (k, v))"
    and way: "\<And>x. pos t x \<Longrightarrow> on_way (ring t) ?h x j \<Longrightarrow>
         slot t x \<noteq> None \<and> (\<forall>k' v. slot t x = Some (k', v) \<longrightarrow> k' \<noteq> k)"
    using probe_from [OF assms(1) _ _ h] assms(2) unfolding spare_def by (metis not_less_zero)
  have "\<nexists>v. holds t k v" if "slot t j = None"
  proof
    assume "\<exists>v. holds t k v"
    then obtain v p where p: "pos t p" "slot t p = Some (k, v)" by (auto simp: holds_def)
    then have "\<not> on_way (ring t) ?h j p"
      using assms(1) that j(2) unfolding inv_def chained_def by blast
    moreover have "\<not> on_way (ring t) ?h p j" using way p by blast
    ultimately have "p = j" using rot_inject [of p "ring t" j ?h] pos_less p(1) j(2) h by force
    then show False using p that by simp
  qed
  then show ?thesis using j way by (auto simp: holds_def split: option.split)
qed

text \<open>In a full table the search for a key that is not there does not end.\<close>

lemma probe_full:
  assumes "ok t" and "\<And>p. pos t p \<Longrightarrow> slot t p \<noteq> None" and "\<nexists>v. holds t k v"
  shows "probe (slot t) (\<lambda>k'. k' = k) (next_position s (slots t)) (hash (slots t) k) = None"
proof -
  have "probe sl same step i = Some j \<Longrightarrow> sl = slot t \<Longrightarrow> same = (\<lambda>k'. k' = k) \<Longrightarrow>
      step = next_position s (slots t) \<Longrightarrow> pos t i \<Longrightarrow> False" for sl same step i j
  proof (induction sl same step i j rule: probe.raw_induct [rotated, consumes 1, case_names loop])
    case (loop f sl same step i j)
    obtain k' v where kv: "slot t i = Some (k', v)" using assms(2) [OF loop.prems(4)] by (cases "slot t i") auto
    then have "k' \<noteq> k" using assms(3) loop.prems(4) unfolding holds_def by blast
    then have "f sl same step (step i) = Some j" using loop(2) kv loop.prems(1,2) by simp
    then show ?case using loop(1) loop.prems position_next [OF stride loop.prems(4)] by blast
  qed
  then show ?thesis using hash_pos [OF assms(1), of k] by (metis option.exhaust)
qed

section \<open>Storing\<close>

text \<open>Storing a key in its own slot or, when the table does not hold it, in the empty slot of the probe.\<close>

definition store_here :: "'t \<Rightarrow> nat \<Rightarrow> 'k \<Rightarrow> bool" where
  "store_here t j k \<longleftrightarrow> pos t j \<and>
     (case slot t j of None \<Rightarrow> \<nexists>v. holds t k v | Some (k', v) \<Rightarrow> k' = k) \<and>
     (\<forall>x. pos t x \<and> on_way (ring t) (hash (slots t) k) x j \<longrightarrow> slot t x \<noteq> None)"

lemma store_here_only:
  assumes "one_slot t" and "store_here t j k" and x: "pos t x" "slot t x = Some (k, u)"
  shows "x = j"
proof (cases "slot t j")
  case None
  then have "\<nexists>v. holds t k v" using assms(2) by (simp add: store_here_def)
  moreover have "holds t k u" using x unfolding holds_def by blast
  ultimately show ?thesis by blast
next
  case (Some kv)
  then obtain v where "slot t j = Some (k, v)" "pos t j"
    using assms(2) by (cases kv) (simp add: store_here_def)
  then show ?thesis using assms(1) x unfolding one_slot_def by blast
qed

lemma store_inv:
  assumes "inv t" and here: "store_here t j k" and v: "storable t k v"
  shows "inv (store t j k v)"
proof -
  have j: "pos t j" using here by (simp add: store_here_def)
  note st = store [OF _ j v]
  have ok: "ok t" and ch: "chained t" and one: "one_slot t" using assms(1) by (auto simp: inv_def)
  have sl: "slots (store t j k v) = slots t" using st ok by blast
  have at: "slot (store t j k v) q = (if q = j then Some (k, v) else slot t q)" if "pos t q" for q
    using st ok that by blast
  have "chained (store t j k v)"
    unfolding chained_def sl
  proof (intro allI impI)
    fix p k' v' x
    assume a: "pos t p \<and> slot (store t j k v) p = Some (k', v') \<and> pos t x \<and>
      on_way (ring t) (hash (slots t) k') x p"
    show "slot (store t j k v) x \<noteq> None"
    proof (cases "p = j")
      case True
      then have "k' = k" using a at [of p] j by simp
      then have "slot t x \<noteq> None" using a here True by (simp add: store_here_def)
      then show ?thesis using a at [of x] by simp
    next
      case False
      then have "slot t p = Some (k', v')" using a at [of p] by simp
      then have "slot t x \<noteq> None" using a ch unfolding chained_def by blast
      then show ?thesis using a at [of x] by simp
    qed
  qed
  moreover have "one_slot (store t j k v)"
    unfolding one_slot_def sl
  proof (intro allI impI)
    fix p q k' v' w
    assume a: "pos t p \<and> pos t q \<and> slot (store t j k v) p = Some (k', v') \<and> slot (store t j k v) q = Some (k', w)"
    have own: "x = j" if "pos t x" "slot (store t j k v) x = Some (k, u)" for x u
    proof (rule ccontr)
      assume "x \<noteq> j"
      then have "slot t x = Some (k, u)" using that at [of x] by simp
      then show False using store_here_only [OF one here that(1)] \<open>x \<noteq> j\<close> by blast
    qed
    show "p = q"
    proof (cases "k' = k")
      case True
      then show ?thesis using a own by blast
    next
      case False
      then have "slot t p = Some (k', v')" "slot t q = Some (k', w)"
        using a at [of p] at [of q] by (auto split: if_splits)
      then show ?thesis using a one unfolding one_slot_def by blast
    qed
  qed
  ultimately show ?thesis using st ok by (simp add: inv_def)
qed

lemma holds_store:
  assumes "inv t" and here: "store_here t j k" and v: "storable t k v"
  shows "holds (store t j k v) k' w \<longleftrightarrow> (if k' = k then w = v else holds t k' w)"
proof -
  have j: "pos t j" using here by (simp add: store_here_def)
  have ok: "ok t" and one: "one_slot t" using assms(1) by (auto simp: inv_def)
  note st = store [OF ok j v]
  have at: "slot (store t j k v) q = (if q = j then Some (k, v) else slot t q)" if "pos t q" for q
    using st that by blast
  note other = store_here_only [OF one here]
  have here': "k'' = k" if "slot t j = Some (k'', u)" for k'' u
    using that here by (simp add: store_here_def)
  have "holds (store t j k v) k' w \<longleftrightarrow> (\<exists>p. pos t p \<and> (if p = j then Some (k, v) else slot t p) = Some (k', w))"
    using st at by (simp add: holds_def cong: conj_cong)
  also have "\<dots> \<longleftrightarrow> (if k' = k then w = v else holds t k' w)"
  proof (cases "k' = k")
    case True
    moreover have "(\<exists>p. pos t p \<and> (if p = j then Some (k, v) else slot t p) = Some (k, w)) \<longleftrightarrow> w = v"
    proof
      assume "\<exists>p. pos t p \<and> (if p = j then Some (k, v) else slot t p) = Some (k, w)"
      then obtain p where p: "pos t p" "(if p = j then Some (k, v) else slot t p) = Some (k, w)" by blast
      then have "p = j" using other by (metis (full_types))
      then show "w = v" using p(2) by simp
    qed (use j in auto)
    ultimately show ?thesis by simp
  next
    case False
    have "p \<noteq> j" if "slot t p = Some (k', w)" for p using that here' False by auto
    then have "(if p = j then Some (k, v) else slot t p) = Some (k', w) \<longleftrightarrow> slot t p = Some (k', w)" for p
      using False by auto
    then show ?thesis using False by (simp add: holds_def)
  qed
  finally show ?thesis .
qed

lemma used_store:
  assumes "ok t" and j: "pos t j" and v: "storable t k v"
  shows "used (store t j k v) = insert j (used t)"
  using store [OF assms] j by (auto simp: used_def)

section \<open>Deleting\<close>

text \<open>
  While the chain behind a deleted slot is compacted, the hole \<open>d\<close> may lie on the way of entries
  behind the scanned position \<open>i\<close> only; \<open>e\<close> is an empty slot elsewhere.
\<close>

definition compacting :: "nat \<Rightarrow> nat \<Rightarrow> nat \<Rightarrow> 't \<Rightarrow> bool" where
  "compacting e d i t \<longleftrightarrow> ok t \<and> one_slot t \<and> pos t e \<and> pos t d \<and> pos t i \<and> slot t e = None \<and>
     slot t d = None \<and> d \<noteq> e \<and> rot (ring t) e d \<le> rot (ring t) e i \<and>
     (\<forall>p k v x. pos t p \<and> slot t p = Some (k, v) \<and> pos t x \<and> on_way (ring t) (hash (slots t) k) x p \<longrightarrow>
        slot t x \<noteq> None \<or> x = d \<and> rot (ring t) e i < rot (ring t) e p)"

lemma compacting_next:
  assumes c: "compacting e d i t"
  defines "i' \<equiv> next_position s (slots t) i"
  shows "pos t i'" and "i' \<noteq> d" and "i' \<noteq> e \<Longrightarrow> rot (ring t) e i' = rot (ring t) e i + s"
    and "i' \<noteq> e \<Longrightarrow> rot (ring t) e d < rot (ring t) e i'"
proof -
  have p: "pos t i" "pos t d" "pos t e" "d \<noteq> e" and le: "rot (ring t) e d \<le> rot (ring t) e i"
    using c by (auto simp: compacting_def)
  show i': "pos t i'" unfolding i'_def by (rule position_next [OF stride p(1)])
  show r: "rot (ring t) e i' = rot (ring t) e i + s" if "i' \<noteq> e"
    using rot_next [OF stride p(1,3)] that by (simp add: i'_def)
  then show "rot (ring t) e d < rot (ring t) e i'" if "i' \<noteq> e" using that le stride by simp
  then show "i' \<noteq> d" using p(4) by auto
qed

text \<open>On the way of an entry, seen from the empty slot \<open>e\<close>, is an interval.\<close>

lemma compacting_interval:
  assumes c: "compacting e d i t" and p: "pos t p" "slot t p = Some (k, v)" and x: "pos t x"
  shows "on_way (ring t) (hash (slots t) k) x p \<longleftrightarrow>
    rot (ring t) e (hash (slots t) k) \<le> rot (ring t) e x \<and> rot (ring t) e x < rot (ring t) e p"
proof (rule on_way_interval)
  have e: "ok t" "pos t e" "slot t e = None" "d \<noteq> e" using c by (auto simp: compacting_def)
  show "hash (slots t) k < ring t" "p < ring t" "e < ring t" "x < ring t"
    using pos_less hash_pos e p x by auto
  show "\<not> on_way (ring t) (hash (slots t) k) e p"
    using c p e unfolding compacting_def by blast
  show "e \<noteq> p" using p e by auto
qed

lemma compacting_done:
  assumes c: "compacting e d i t" and none: "slot t (next_position s (slots t) i) = None"
  shows "inv t"
proof -
  let ?i = "next_position s (slots t) i" and ?r = "rot (ring t) e"
  have ok: "ok t" "one_slot t" "pos t e" "pos t i" using c by (auto simp: compacting_def)
  note nx = compacting_next [OF c]
  have "chained t"
    unfolding chained_def
  proof (intro allI impI, elim conjE)
    fix p k v x
    assume p: "pos t p" "slot t p = Some (k, v)" and x: "pos t x"
      and way: "on_way (ring t) (hash (slots t) k) x p"
    have "slot t x \<noteq> None \<or> x = d \<and> ?r i < ?r p" using c p x way unfolding compacting_def by blast
    moreover have False if d: "x = d" "?r i < ?r p"
    proof -
      have int: "?r (hash (slots t) k) \<le> ?r d" "?r d < ?r p"
        using compacting_interval [OF c p x] way d(1) by auto
      have gap: "?r i + s \<le> ?r p" by (rule rot_gap [OF stride ok(4) p(1) ok(3) d(2)])
      show False
      proof (cases "?i = e")
        case True
        then have "?r i + s = ring t" by (rule rot_last [OF stride ok(4)])
        moreover have "?r p < ring t" using rot_less pos_less p(1) ok(3) by auto
        ultimately show False using gap by simp
      next
        case False
        have "?r ?i \<noteq> ?r p" using rot_inject [of ?i "ring t" p e] pos_less nx(1) p ok(3) none by auto
        then have lt: "?r ?i < ?r p" using nx(3) [OF False] gap by simp
        then have "on_way (ring t) (hash (slots t) k) ?i p"
          using compacting_interval [OF c p nx(1)] int(1) nx(4) [OF False] by simp
        then have "slot t ?i \<noteq> None \<or> ?i = d" using c p nx(1) unfolding compacting_def by blast
        then show False using none nx(2) by blast
      qed
    qed
    ultimately show "slot t x \<noteq> None" by blast
  qed
  then show ?thesis using ok by (simp add: inv_def)
qed

lemma compacting_stay:
  assumes c: "compacting e d i t" and kv: "slot t (next_position s (slots t) i) = Some (k, v)"
    and off: "\<not> on_way (ring t) (hash (slots t) k) d (next_position s (slots t) i)"
  shows "compacting e d (next_position s (slots t) i) t"
proof -
  let ?i = "next_position s (slots t) i" and ?r = "rot (ring t) e"
  have p: "pos t e" "pos t i" "slot t e = None" using c by (auto simp: compacting_def)
  note nx = compacting_next [OF c]
  have ie: "?i \<noteq> e" using kv p by auto
  have "slot t x \<noteq> None \<or> x = d \<and> ?r ?i < ?r q"
    if q: "pos t q" "slot t q = Some (k', v')" and x: "pos t x" and way: "on_way (ring t) (hash (slots t) k') x q"
    for q k' v' x
  proof -
    have "slot t x \<noteq> None \<or> x = d \<and> ?r i < ?r q" using c q x way unfolding compacting_def by blast
    moreover have "?r ?i < ?r q" if d: "x = d" "?r i < ?r q"
    proof -
      have "q \<noteq> ?i" using off way d(1) q kv by auto
      then have "?r ?i \<noteq> ?r q" using rot_inject [of ?i "ring t" q e] pos_less nx(1) q p(1) by auto
      moreover have "?r i + s \<le> ?r q" by (rule rot_gap [OF stride p(2) q(1) p(1) d(2)])
      ultimately show ?thesis using nx(3) [OF ie] by simp
    qed
    ultimately show ?thesis by blast
  qed
  moreover have "?r d \<le> ?r ?i" using nx(4) [OF ie] by simp
  ultimately show ?thesis using c nx(1) unfolding compacting_def by blast
qed

lemma compacting_move:
  assumes c: "compacting e d i t" and kv: "slot t (next_position s (slots t) i) = Some (k, v)"
    and on: "on_way (ring t) (hash (slots t) k) d (next_position s (slots t) i)"
  defines "i' \<equiv> next_position s (slots t) i"
  shows "compacting e i' i' (move t d i')" and "slots (move t d i') = slots t"
    and "holds (move t d i') k' w \<longleftrightarrow> holds t k' w" and "card (used (move t d i')) = card (used t)"
proof -
  let ?t = "move t d i'" and ?r = "rot (ring t) e"
  have p: "ok t" "one_slot t" "pos t e" "pos t d" "slot t e = None" "slot t d = None" "d \<noteq> e"
    using c by (auto simp: compacting_def)
  have i': "pos t i'" "i' \<noteq> d" using compacting_next [OF c] by (simp_all add: i'_def)
  have kv': "slot t i' = Some (k, v)" using kv by (simp add: i'_def)
  have ie: "i' \<noteq> e" using kv' p by auto
  have mv: "ok ?t" "slots ?t = slots t" using move [OF p(1,4) i'(1)] i'(2) by auto
  have at: "slot ?t q = (if q = i' then None else if q = d then Some (k, v) else slot t q)" if "pos t q" for q
    using move [OF p(1,4) i'(1)] i'(2) kv' that by auto
  show "slots ?t = slots t" by (fact mv)
  show "holds ?t k' w \<longleftrightarrow> holds t k' w"
  proof
    assume "holds ?t k' w"
    then obtain q where q: "pos t q" "slot ?t q = Some (k', w)" unfolding holds_def mv by blast
    show "holds t k' w"
    proof (cases "q = d")
      case True
      then have "slot t i' = Some (k', w)" using q at [OF q(1)] i'(2) kv' by auto
      then show ?thesis using i'(1) unfolding holds_def by blast
    next
      case False
      then have "slot t q = Some (k', w)" using q at [OF q(1)] by (auto split: if_splits)
      then show ?thesis using q(1) unfolding holds_def by blast
    qed
  next
    assume "holds t k' w"
    then obtain q where q: "pos t q" "slot t q = Some (k', w)" unfolding holds_def by blast
    have "q \<noteq> d" using q p(6) by auto
    show "holds ?t k' w"
    proof (cases "q = i'")
      case True
      then have "slot ?t d = Some (k', w)" using q kv' at [OF p(4)] i'(2) by auto
      then show ?thesis using p(4) mv unfolding holds_def by auto
    next
      case False
      then have "slot ?t q = Some (k', w)" using q at [OF q(1)] \<open>q \<noteq> d\<close> by simp
      then show ?thesis using q(1) mv unfolding holds_def by auto
    qed
  qed
  have "used ?t = insert d (used t - {i'})"
    using at p(4) i'(2) by (auto simp: used_def mv split: if_splits)
  moreover have "d \<notin> used t" "i' \<in> used t" using p(6) i'(1) kv' by (auto simp: used_def)
  ultimately show "card (used ?t) = card (used t)" using card_Suc_Diff1 [OF finite_used] by simp
  have one: "one_slot ?t"
    unfolding one_slot_def mv
  proof (intro allI impI, elim conjE)
    fix a b k1 v1 v2
    assume ab: "pos t a" "pos t b" "slot ?t a = Some (k1, v1)" "slot ?t b = Some (k1, v2)"
    define f where "f x = (if x = d then i' else x)" for x
    have f: "slot t (f x) = Some (k1, u)" "pos t (f x)" "x \<noteq> i'" if "pos t x" "slot ?t x = Some (k1, u)" for x u
      using that at [OF that(1)] i' kv' by (auto simp: f_def split: if_splits)
    have "f a = f b" using p(2) f [OF ab(1,3)] f [OF ab(2,4)] unfolding one_slot_def by blast
    moreover have "a \<noteq> i'" "b \<noteq> i'" using f(3) [OF ab(1,3)] f(3) [OF ab(2,4)] by simp_all
    ultimately show "a = b" by (auto simp: f_def split: if_splits)
  qed
  have "slot ?t x \<noteq> None \<or> x = i' \<and> ?r i' < ?r q"
    if q: "pos t q" "slot ?t q = Some (k', w)" and x: "pos t x" and way: "on_way (ring t) (hash (slots t) k') x q"
    for q k' w x
  proof (cases "q = d")
    case True
    then have k': "k' = k" using q at [OF p(4)] i'(2) by simp
    have lt: "rot (ring t) (hash (slots t) k) d < rot (ring t) (hash (slots t) k) i'" using on by (simp add: i'_def)
    then have "on_way (ring t) (hash (slots t) k) x i'" "x \<noteq> d" "x \<noteq> i'"
      using way True k' by auto
    then have "slot t x \<noteq> None" using c i'(1) kv' x unfolding compacting_def by blast
    then show ?thesis using at [OF x] \<open>x \<noteq> d\<close> \<open>x \<noteq> i'\<close> by simp
  next
    case False
    then have q': "slot t q = Some (k', w)" using q at [OF q(1)] by (auto split: if_splits)
    show ?thesis
    proof (cases "x = i'")
      case True
      then show ?thesis using compacting_interval [OF c q(1) q' x] way by simp
    next
      case xi: False
      have "slot t x \<noteq> None \<or> x = d" using c q(1) q' x way unfolding compacting_def by blast
      then show ?thesis using at [OF x] xi by auto
    qed
  qed
  moreover have "slot ?t e = None" "slot ?t i' = None" using at [OF p(3)] at [OF i'(1)] p ie by auto
  ultimately show "compacting e i' i' ?t"
    using mv one p(3) i'(1) ie unfolding compacting_def by auto
qed

lemma compact_correct:
  "compacting e d i t \<Longrightarrow>
   \<exists>t'. compact_loop slot move (hash (slots t)) (next_position s (slots t)) d i t = Some t' \<and> inv t' \<and>
     slots t' = slots t \<and> (\<forall>k v. holds t' k v \<longleftrightarrow> holds t k v) \<and> card (used t') = card (used t)"
proof (induction "ring t - rot (ring t) e i" arbitrary: d i t rule: less_induct)
  case less
  let ?i = "next_position s (slots t) i" and ?h = "hash (slots t)"
  have p: "ok t" "pos t e" "pos t d" "pos t i" "slot t e = None" using less.prems by (auto simp: compacting_def)
  note nx = compacting_next [OF less.prems]
  show ?case
  proof (cases "slot t ?i")
    case None
    then have "compact_loop slot move ?h (next_position s (slots t)) d i t = Some t"
      by (subst compact_loop.simps) (simp add: Let_def)
    then show ?thesis using compacting_done [OF less.prems None] by blast
  next
    case (Some kv)
    obtain k v where kv: "slot t ?i = Some (k, v)" using Some by (cases kv) simp
    have ie: "?i \<noteq> e" using kv p(5) by auto
    have "rot (ring t) e ?i < ring t" using rot_less pos_less nx(1) p(2) by auto
    then have dec: "ring t - rot (ring t) e ?i < ring t - rot (ring t) e i"
      using nx(3) [OF ie] stride by simp
    have cond: "((?i < ?h k \<and> (?h k \<le> d \<or> d \<le> ?i)) \<or> (?h k \<le> d \<and> d \<le> ?i)) \<longleftrightarrow> on_way (ring t) (?h k) d ?i"
      using on_way_condition [of "?h k" "ring t" d ?i] pos_less hash_pos [OF p(1)] p(3) nx(1,2) by auto
    have step: "compact_loop slot move ?h (next_position s (slots t)) d i t =
        (if on_way (ring t) (?h k) d ?i
         then compact_loop slot move ?h (next_position s (slots t)) ?i ?i (move t d ?i)
         else compact_loop slot move ?h (next_position s (slots t)) d ?i t)"
      unfolding cond [symmetric] by (subst compact_loop.simps) (simp add: Let_def kv)
    show ?thesis
    proof (cases "on_way (ring t) (?h k) d ?i")
      case True
      note m = compacting_move [OF less.prems kv True]
      have "ring (move t d ?i) - rot (ring (move t d ?i)) e ?i < ring t - rot (ring t) e i"
        using dec m(2) by simp
      from less.hyps [OF this m(1)] show ?thesis using step True m(2-4) by simp
    next
      case False
      from less.hyps [OF dec compacting_stay [OF less.prems kv False]] show ?thesis
        using step False by simp
    qed
  qed
qed

text \<open>Emptying a slot starts a compaction.\<close>

lemma clear_compacting:
  assumes "inv t" and e: "pos t e" "slot t e = None" and j: "pos t j" "slot t j = Some (k, v)"
  shows "compacting e j j (clear t j)"
proof -
  let ?t = "clear t j"
  have ok: "ok t" "one_slot t" "chained t" using assms(1) by (auto simp: inv_def)
  have cl: "ok ?t" "slots ?t = slots t" using clear [OF ok(1) j(1)] by auto
  have at: "slot ?t q = (if q = j then None else slot t q)" if "pos t q" for q
    using clear [OF ok(1) j(1)] that by blast
  have je: "j \<noteq> e" using j e by auto
  have "slot ?t x \<noteq> None \<or> x = j \<and> rot (ring t) e j < rot (ring t) e p"
    if p: "pos t p" "slot ?t p = Some (k', w)" and x: "pos t x" and way: "on_way (ring t) (hash (slots t) k') x p"
    for p k' w x
  proof -
    have p': "slot t p = Some (k', w)" "p \<noteq> j" using p at [OF p(1)] by (auto split: if_splits)
    have ne: "slot t y \<noteq> None" if "pos t y" "on_way (ring t) (hash (slots t) k') y p" for y
      using ok(3) p(1) p' that unfolding chained_def by blast
    have "\<not> on_way (ring t) (hash (slots t) k') e p" using ne [OF e(1)] e(2) by blast
    then have "on_way (ring t) (hash (slots t) k') x p \<longleftrightarrow>
        rot (ring t) e (hash (slots t) k') \<le> rot (ring t) e x \<and> rot (ring t) e x < rot (ring t) e p"
      using pos_less hash_pos ok(1) p(1) p' e x by (intro on_way_interval) auto
    then show ?thesis using way ne [OF x] at [OF x] by auto
  qed
  moreover have "one_slot ?t"
    unfolding one_slot_def cl
  proof (intro allI impI, elim conjE)
    fix a b k1 v1 v2
    assume ab: "pos t a" "pos t b" "slot ?t a = Some (k1, v1)" "slot ?t b = Some (k1, v2)"
    then have "slot t a = Some (k1, v1)" "slot t b = Some (k1, v2)"
      using at [OF ab(1)] at [OF ab(2)] by (auto split: if_splits)
    then show "a = b" using ab ok(2) unfolding one_slot_def by blast
  qed
  ultimately show ?thesis
    using cl e je j at [OF e(1)] at [OF j(1)] unfolding compacting_def by auto
qed

text \<open>Emptying a slot and compacting behind it takes the key out and nothing else.\<close>

lemma delete_correct:
  assumes "inv t" and "spare t" and j: "pos t j" "slot t j = Some (k, v)"
  shows "\<exists>t'. compact_loop slot move (hash (slots t)) (next_position s (slots t)) j j (clear t j) = Some t' \<and>
    inv t' \<and> slots t' = slots t \<and> (\<forall>k' w. holds t' k' w \<longleftrightarrow> k' \<noteq> k \<and> holds t k' w) \<and>
    Suc (card (used t')) = card (used t)"
proof -
  let ?t = "clear t j"
  have ok: "ok t" "one_slot t" using assms(1) by (auto simp: inv_def)
  have cl: "slots ?t = slots t" using clear [OF ok(1) j(1)] by auto
  have at: "slot ?t q = (if q = j then None else slot t q)" if "pos t q" for q
    using clear [OF ok(1) j(1)] that by blast
  obtain e where e: "pos t e" "slot t e = None" using assms(2) by (auto simp: spare_def)
  have "compacting e j j ?t" by (rule clear_compacting [OF assms(1) e j])
  from compact_correct [OF this] obtain t' where t':
    "compact_loop slot move (hash (slots t)) (next_position s (slots t)) j j ?t = Some t'" "inv t'"
    "slots t' = slots t" "\<And>k v. holds t' k v \<longleftrightarrow> holds ?t k v" "card (used t') = card (used ?t)"
    using cl by auto
  have "holds ?t k' w \<longleftrightarrow> k' \<noteq> k \<and> holds t k' w" for k' w
  proof
    assume "holds ?t k' w"
    then obtain q where q: "pos t q" "slot ?t q = Some (k', w)" unfolding holds_def cl by blast
    then have q': "slot t q = Some (k', w)" "q \<noteq> j" using at [OF q(1)] by (auto split: if_splits)
    then have "k' \<noteq> k" using q(1) j ok(2) unfolding one_slot_def by blast
    then show "k' \<noteq> k \<and> holds t k' w" using q(1) q' unfolding holds_def by blast
  next
    assume a: "k' \<noteq> k \<and> holds t k' w"
    then obtain q where q: "pos t q" "slot t q = Some (k', w)" unfolding holds_def by blast
    then have "q \<noteq> j" using a j by auto
    then have "slot ?t q = Some (k', w)" using q at [OF q(1)] by simp
    then show "holds ?t k' w" using q(1) cl unfolding holds_def by auto
  qed
  moreover have "used ?t = used t - {j}" "j \<in> used t"
    using at j by (auto simp: used_def cl split: if_splits)
  ultimately show ?thesis using t' card_Suc_Diff1 [OF finite_used] by auto
qed

section \<open>Rehashing\<close>

text \<open>Probing without looking at the keys ends in the same slot when the key is not there.\<close>

lemma probe_absent:
  "probe sl same step i = Some j \<Longrightarrow> sl = slot t \<Longrightarrow> same = (\<lambda>k'. k' = k) \<Longrightarrow> step = next_position s (slots t) \<Longrightarrow>
   \<nexists>v. holds t k v \<Longrightarrow> pos t i \<Longrightarrow> probe (slot t) (\<lambda>k'. False) (next_position s (slots t)) i = Some j"
proof (induction sl same step i j rule: probe.raw_induct [rotated, consumes 1, case_names loop])
  case (loop f sl same step i j)
  show ?case
  proof (cases "slot t i")
    case None
    then show ?thesis using loop(2) loop.prems(1) by (subst probe.simps) simp
  next
    case (Some kv)
    obtain k' v where kv: "slot t i = Some (k', v)" using Some by (cases kv) simp
    then have "k' \<noteq> k" using loop.prems(4,5) unfolding holds_def by blast
    then have "f sl same step (step i) = Some j"
      using loop(2) kv loop.prems(1,2) by simp
    from loop(1) [OF this loop.prems(1-4)] show ?thesis
      using kv loop.prems(3,5) position_next [OF stride] by (subst probe.simps) simp
  qed
qed

definition empty :: "'t \<Rightarrow> bool" where
  "empty t \<longleftrightarrow> ok t \<and> (\<forall>p. pos t p \<longrightarrow> slot t p = None)"

lemma empty_inv: "empty t \<Longrightarrow> inv t \<and> used t = {} \<and> (\<nexists>k v. holds t k v)"
  by (auto simp: empty_def inv_def chained_def one_slot_def used_def holds_def)

lemma rehash_loop_correct:
  assumes "inv tmp" and "card (used tmp) + length (cell_entries cells) \<le> slots tmp"
    and "distinct (map fst (cell_entries cells))"
    and "\<And>k v. (k, v) \<in> set (cell_entries cells) \<Longrightarrow> storable tmp k v \<and> (\<nexists>w. holds tmp k w)"
  shows "\<exists>t'. rehash_loop slot store (hash (slots tmp)) (next_position s (slots tmp)) cells tmp = Some t' \<and>
    inv t' \<and> slots t' = slots tmp \<and>
    (\<forall>k v. holds t' k v \<longleftrightarrow> holds tmp k v \<or> (k, v) \<in> set (cell_entries cells)) \<and>
    card (used t') = card (used tmp) + length (cell_entries cells)"
  using assms
proof (induction cells arbitrary: tmp)
  case Nil
  then show ?case by simp
next
  case (Cons c cells)
  show ?case
  proof (cases c)
    case None
    then show ?thesis using Cons by simp
  next
    case (Some kv)
    obtain k v where kv: "kv = (k, v)" by (cases kv)
    have entries: "cell_entries (c # cells) = (k, v) # cell_entries cells"
      by (simp add: Some kv)
    have st: "storable tmp k v" "\<nexists>w. holds tmp k w" using Cons.prems(4) [of k v] entries by auto
    have "spare tmp" using Cons.prems(2) entries by (simp add: spare_iff)
    from probe_finds [OF Cons.prems(1) this, of k] obtain j where
      j: "probe (slot tmp) (\<lambda>k'. k' = k) (next_position s (slots tmp)) (hash (slots tmp) k) = Some j" "pos tmp j"
      "case slot tmp j of None \<Rightarrow> \<nexists>v. holds tmp k v | Some (k', v) \<Rightarrow> k' = k \<and> holds tmp k v"
      "\<forall>x. pos tmp x \<and> on_way (ring tmp) (hash (slots tmp) k) x j \<longrightarrow> slot tmp x \<noteq> None"
      by blast
    have free: "slot tmp j = None" using j(3) st(2) by (auto split: option.splits)
    have ok: "ok tmp" using Cons.prems(1) by (simp add: inv_def)
    have here: "store_here tmp j k" using j free st(2) by (simp add: store_here_def)
    let ?t = "store tmp j k v"
    have sl: "slots ?t = slots tmp" using store [OF ok j(2) st(1)] by blast
    have probe: "probe (slot tmp) (\<lambda>k'. False) (next_position s (slots tmp)) (hash (slots tmp) k) = Some j"
      by (rule probe_absent [OF j(1) refl refl refl st(2) hash_pos [OF ok]])
    have "j \<notin> used tmp" using free by (simp add: used_def)
    then have card: "card (used ?t) = Suc (card (used tmp))" using used_store [OF ok j(2) st(1)] by simp
    have holds: "holds ?t k' w \<longleftrightarrow> (if k' = k then w = v else holds tmp k' w)" for k' w
      by (rule holds_store [OF Cons.prems(1) here st(1)])
    have "\<exists>t'. rehash_loop slot store (hash (slots ?t)) (next_position s (slots ?t)) cells ?t = Some t' \<and>
        inv t' \<and> slots t' = slots ?t \<and>
        (\<forall>k v. holds t' k v \<longleftrightarrow> holds ?t k v \<or> (k, v) \<in> set (cell_entries cells)) \<and>
        card (used t') = card (used ?t) + length (cell_entries cells)"
    proof (rule Cons.IH)
      show "inv ?t" by (rule store_inv [OF Cons.prems(1) here st(1)])
      show "card (used ?t) + length (cell_entries cells) \<le> slots ?t"
        using Cons.prems(2) entries card sl by simp
      show "distinct (map fst (cell_entries cells))" using Cons.prems(3) entries by simp
      fix k' v'
      assume m: "(k', v') \<in> set (cell_entries cells)"
      have "k' \<noteq> k" using Cons.prems(3) entries m by force
      then show "storable ?t k' v' \<and> (\<nexists>w. holds ?t k' w)"
        using Cons.prems(4) [of k' v'] entries m holds storable_store by simp
    qed
    then obtain t' where t': "rehash_loop slot store (hash (slots tmp)) (next_position s (slots tmp)) cells ?t = Some t'"
      "inv t'" "slots t' = slots tmp" "\<And>k v. holds t' k v \<longleftrightarrow> holds ?t k v \<or> (k, v) \<in> set (cell_entries cells)"
      "card (used t') = card (used ?t) + length (cell_entries cells)"
      using sl by auto
    have "holds t' k' w \<longleftrightarrow> holds tmp k' w \<or> (k', w) \<in> set (cell_entries (c # cells))" for k' w
      using t'(4) [of k' w] holds [of k' w] st(2) entries by auto
    then show ?thesis using t' probe Some kv card entries by simp
  qed
qed

text \<open>The slots of a table in order, as the loop visits them.\<close>

definition cells :: "'t \<Rightarrow> ('k \<times> 'v) option list" where
  "cells t = map (\<lambda>q. slot t (s * q)) [0..<slots t]"

lemma cells_entries:
  assumes "one_slot t"
  shows "(k, v) \<in> set (cell_entries (cells t)) \<longleftrightarrow> holds t k v"
    and "distinct (map fst (cell_entries (cells t)))"
    and "length (cell_entries (cells t)) = card (used t)"
proof -
  have eq: "cell_entries (map f xs) = map (the \<circ> f) (filter (\<lambda>q. f q \<noteq> None) xs)" for f :: "nat \<Rightarrow> ('k \<times> 'v) option" and xs
  proof (induction xs)
    case (Cons x xs)
    then show ?case by (cases "f x") (simp_all del: not_None_eq)
  qed simp
  let ?f = "\<lambda>q. slot t (s * q)" and ?qs = "filter (\<lambda>q. slot t (s * q) \<noteq> None) [0..<slots t]"
  have entries: "cell_entries (cells t) = map (the \<circ> ?f) ?qs" unfolding cells_def by (rule eq)
  have posq: "pos t (s * q)" if "q < slots t" for q using that by (auto simp: position_def)
  show "(k, v) \<in> set (cell_entries (cells t)) \<longleftrightarrow> holds t k v"
    unfolding entries holds_def position_def by force
  have "inj_on (fst \<circ> (the \<circ> ?f)) (set ?qs)"
  proof (rule inj_onI)
    fix a b
    assume ab: "a \<in> set ?qs" "b \<in> set ?qs" "(fst \<circ> (the \<circ> ?f)) a = (fst \<circ> (the \<circ> ?f)) b"
    then obtain k v w where "slot t (s * a) = Some (k, v)" "slot t (s * b) = Some (k, w)" by auto
    moreover have "pos t (s * a)" "pos t (s * b)" using ab posq by simp_all
    ultimately have "s * a = s * b" using assms unfolding one_slot_def by blast
    then show "a = b" using stride by simp
  qed
  then show "distinct (map fst (cell_entries (cells t)))" unfolding entries by (simp add: distinct_map)
  have "used t = (\<lambda>q. s * q) ` set ?qs" by (auto simp: used_def position_def)
  then have "card (used t) = card (set ?qs)" using stride by (simp add: card_image inj_on_def)
  then show "length (cell_entries (cells t)) = card (used t)"
    using distinct_card [of ?qs] by (simp add: entries)
qed

section \<open>The table as a map\<close>

definition contents :: "'t \<Rightarrow> 'k \<Rightarrow> 'v option" where
  "contents t = map_of (cell_entries (cells t))"

lemma contents_holds: "one_slot t \<Longrightarrow> contents t k = Some v \<longleftrightarrow> holds t k v"
  using cells_entries(1,2) [of t] by (simp add: contents_def)

lemma contents_eqI:
  assumes "one_slot t" and "\<And>k v. holds t k v \<longleftrightarrow> m k = Some v"
  shows "contents t = m"
proof
  fix k
  show "contents t k = m k"
    using contents_holds [OF assms(1), of k] assms(2) [of k] by (cases "m k"; cases "contents t k") auto
qed

lemma contents_None: "one_slot t \<Longrightarrow> contents t k = None \<longleftrightarrow> (\<nexists>v. holds t k v)"
  using contents_holds [of t k] by (cases "contents t k") auto

text \<open>Fields the layout does not read make no difference.\<close>

lemma same_table:
  assumes "slot a = slot b" and "slots a = slots b" and "ok a = ok b"
  shows "inv a = inv b" and "used a = used b" and "contents a = contents b" and "spare a = spare b"
    and "empty a = empty b"
  using assms
  by (simp_all add: inv_def chained_def one_slot_def used_def contents_def cells_def spare_def empty_def)

lemma empty_contents: "empty t \<Longrightarrow> contents t = Map.empty"
  by (rule contents_eqI) (use empty_inv in \<open>auto simp: inv_def\<close>)

abbreviation find_slot :: "'t \<Rightarrow> 'k \<Rightarrow> nat option" where
  "find_slot t k \<equiv> probe (slot t) (\<lambda>k'. k' = k) (next_position s (slots t)) (hash (slots t) k)"

lemma lookup_correct:
  assumes "inv t" and "spare t"
  obtains j where "find_slot t k = Some j" and "pos t j" and "map_option snd (slot t j) = contents t k"
    and "store_here t j k"
    and "\<And>k' v. slot t j = Some (k', v) \<Longrightarrow> k' = k"
proof -
  obtain j where j: "find_slot t k = Some j" "pos t j"
    "case slot t j of None \<Rightarrow> \<nexists>v. holds t k v | Some (k', v) \<Rightarrow> k' = k \<and> holds t k v"
    "\<forall>x. pos t x \<and> on_way (ring t) (hash (slots t) k) x j \<longrightarrow> slot t x \<noteq> None"
    using probe_finds [OF assms, of k] by blast
  have one: "one_slot t" using assms(1) by (simp add: inv_def)
  have "map_option snd (slot t j) = contents t k"
  proof (cases "slot t j")
    case None
    then show ?thesis using j(3) contents_None [OF one, of k] by simp
  next
    case (Some kv)
    then show ?thesis using j(3) contents_holds [OF one, of k "snd kv"] by (cases kv) simp
  qed
  moreover have "store_here t j k" using j by (auto simp: store_here_def split: option.splits)
  moreover have "k' = k" if "slot t j = Some (k', v)" for k' v using j(3) that by simp
  ultimately show ?thesis using that j(1,2) by blast
qed

lemma insert_correct:
  assumes "inv t" and "store_here t j k" and "storable t k v"
  shows "inv (store t j k v)" and "contents (store t j k v) = (contents t)(k \<mapsto> v)"
    and "slots (store t j k v) = slots t"
    and "card (used (store t j k v)) = (if slot t j = None then Suc (card (used t)) else card (used t))"
proof -
  have pj: "pos t j" and ok: "ok t" and one: "one_slot t"
    using assms(1,2) by (auto simp: store_here_def inv_def)
  show i: "inv (store t j k v)" by (rule store_inv [OF assms])
  show "contents (store t j k v) = (contents t)(k \<mapsto> v)"
    by (rule contents_eqI)
      (use i holds_store [OF assms] contents_holds [OF one] in \<open>auto simp: inv_def\<close>)
  show "slots (store t j k v) = slots t" using store [OF ok pj assms(3)] by blast
  show "card (used (store t j k v)) = (if slot t j = None then Suc (card (used t)) else card (used t))"
  proof -
    have "j \<in> used t \<longleftrightarrow> slot t j \<noteq> None" using pj unfolding used_def by blast
    then show ?thesis using used_store [OF ok pj assms(3)] by (simp add: card_insert_if)
  qed
qed

text \<open>Where the entries were before the chain was compacted.\<close>

lemma compact_moves:
  "compacting e d i t \<Longrightarrow>
   compact_loop slot move (hash (slots t)) (next_position s (slots t)) d i t = Some t' \<Longrightarrow> pos t p \<Longrightarrow>
   slot t' p = Some x \<Longrightarrow>
   \<exists>q. pos t q \<and> slot t q = Some x \<and>
     (q = p \<or> rot (ring t) e d \<le> rot (ring t) e p \<and> rot (ring t) e p \<le> rot (ring t) e q)"
proof (induction "ring t - rot (ring t) e i" arbitrary: d i t rule: less_induct)
  case less
  let ?i = "next_position s (slots t) i" and ?h = "hash (slots t)" and ?r = "rot (ring t) e"
  have p: "ok t" "pos t e" "pos t d" "pos t i" "slot t e = None" using less.prems(1) by (auto simp: compacting_def)
  note nx = compacting_next [OF less.prems(1)]
  show ?case
  proof (cases "slot t ?i")
    case None
    then have "t' = t" using less.prems(2) by (subst (asm) compact_loop.simps) (simp add: Let_def)
    then show ?thesis using less.prems(3,4) by blast
  next
    case (Some kv)
    obtain k v where kv: "slot t ?i = Some (k, v)" using Some by (cases kv) simp
    have ie: "?i \<noteq> e" using kv p(5) by auto
    have "?r ?i < ring t" using rot_less pos_less nx(1) p(2) by auto
    then have dec: "ring t - ?r ?i < ring t - ?r i" using nx(3) [OF ie] stride by simp
    have cond: "((?i < ?h k \<and> (?h k \<le> d \<or> d \<le> ?i)) \<or> (?h k \<le> d \<and> d \<le> ?i)) \<longleftrightarrow> on_way (ring t) (?h k) d ?i"
      using on_way_condition [of "?h k" "ring t" d ?i] pos_less hash_pos [OF p(1)] p(3) nx(1,2) by auto
    have step: "compact_loop slot move ?h (next_position s (slots t)) d i t =
        (if on_way (ring t) (?h k) d ?i
         then compact_loop slot move ?h (next_position s (slots t)) ?i ?i (move t d ?i)
         else compact_loop slot move ?h (next_position s (slots t)) d ?i t)"
      unfolding cond [symmetric] by (subst compact_loop.simps) (simp add: Let_def kv)
    show ?thesis
    proof (cases "on_way (ring t) (?h k) d ?i")
      case True
      let ?t = "move t d ?i"
      note m = compacting_move [OF less.prems(1) kv True]
      have at: "slot ?t q = (if q = ?i then None else if q = d then Some (k, v) else slot t q)" if "pos t q" for q
        using move [OF p(1,3) nx(1)] nx(2) kv that by auto
      have "ring ?t - rot (ring ?t) e ?i < ring t - ?r i" using dec m(2) by simp
      moreover have "compact_loop slot move (hash (slots ?t)) (next_position s (slots ?t)) ?i ?i ?t = Some t'"
        using less.prems(2) step True m(2) by simp
      ultimately have "\<exists>q. pos ?t q \<and> slot ?t q = Some x \<and>
          (q = p \<or> rot (ring ?t) e ?i \<le> rot (ring ?t) e p \<and> rot (ring ?t) e p \<le> rot (ring ?t) e q)"
        using less.prems(3,4) m(2) by (intro less.hyps [OF _ m(1)]) simp_all
      then obtain q where q: "pos t q" "slot ?t q = Some x" "q = p \<or> ?r ?i \<le> ?r p \<and> ?r p \<le> ?r q"
        unfolding m(2) by blast
      have lt: "?r d < ?r ?i" by (rule nx(4) [OF ie])
      show ?thesis
      proof (cases "q = d")
        case True
        then have "p = d" "slot t ?i = Some x" using q at [OF q(1)] kv lt nx(2) by auto
        then show ?thesis using nx(1) lt by (intro exI [of _ ?i]) simp
      next
        case False
        then have "slot t q = Some x" using q at [OF q(1)] by (auto split: if_splits)
        then show ?thesis using q lt by (intro exI [of _ q]) auto
      qed
    next
      case False
      then show ?thesis
        using less.hyps [OF dec compacting_stay [OF less.prems(1) kv False]] less.prems(2-4) step by simp
    qed
  qed
qed

lemma erase_correct:
  assumes "inv t" and "spare t" and j: "pos t j" "slot t j = Some (k, v)"
  obtains t' where "compact_loop slot move (hash (slots t)) (next_position s (slots t)) j j (clear t j) = Some t'"
    and "inv t'" and "slots t' = slots t" and "contents t' = (contents t)(k := None)"
    and "Suc (card (used t')) = card (used t)"
    and "\<And>p x. pos t p \<Longrightarrow> p < j \<Longrightarrow> slot t' p = Some x \<Longrightarrow> \<exists>q<j. pos t q \<and> slot t q = Some x"
proof -
  let ?t = "clear t j" and ?r = "\<lambda>e. rot (ring t) e"
  have ok: "ok t" "one_slot t" using assms(1) by (auto simp: inv_def)
  have cl: "slots ?t = slots t" using clear [OF ok(1) j(1)] by auto
  have at: "slot ?t q = (if q = j then None else slot t q)" if "pos t q" for q
    using clear [OF ok(1) j(1)] that by blast
  obtain t' where t': "compact_loop slot move (hash (slots t)) (next_position s (slots t)) j j ?t = Some t'"
    "inv t'" "slots t' = slots t" "\<And>k' w. holds t' k' w \<longleftrightarrow> k' \<noteq> k \<and> holds t k' w"
    "Suc (card (used t')) = card (used t)"
    using delete_correct [OF assms] by auto
  obtain e where e: "pos t e" "slot t e = None" using assms(2) by (auto simp: spare_def)
  have "\<exists>q<j. pos t q \<and> slot t q = Some x" if p: "pos t p" "p < j" "slot t' p = Some x" for p x
  proof -
    have "\<exists>q. pos t q \<and> slot ?t q = Some x \<and> (q = p \<or> ?r e j \<le> ?r e p \<and> ?r e p \<le> ?r e q)"
      using compact_moves [OF clear_compacting [OF assms(1) e j]] t'(1) p cl by simp
    then obtain q where q: "pos t q" "slot ?t q = Some x" "q = p \<or> ?r e j \<le> ?r e p \<and> ?r e p \<le> ?r e q"
      by blast
    have "q < j" using q(3) p(2) pos_less [OF q(1)] pos_less [OF p(1)] pos_less [OF e(1)] pos_less [OF j(1)]
      by (auto simp: rot_def split: if_splits)
    moreover have "slot t q = Some x" using q(2) at [OF q(1)] by (auto split: if_splits)
    ultimately show ?thesis using q(1) by blast
  qed
  moreover have "contents t' = (contents t)(k := None)"
    by (rule contents_eqI) (use t'(2,4) contents_holds [OF ok(2)] in \<open>auto simp: inv_def\<close>)
  ultimately show ?thesis using that t' by blast
qed

lemma rehash_correct:
  assumes "inv t" and "empty tmp" and "card (used t) \<le> slots tmp"
    and "\<And>k v. contents t k = Some v \<Longrightarrow> storable tmp k v"
  obtains t' where
    "rehash_loop slot store (hash (slots tmp)) (next_position s (slots tmp)) (cells t) tmp = Some t'"
    and "inv t'" and "slots t' = slots tmp" and "contents t' = contents t" and "card (used t') = card (used t)"
proof -
  have one: "one_slot t" using assms(1) by (simp add: inv_def)
  note ce = cells_entries [OF one]
  note em = empty_inv [OF assms(2)]
  have "\<exists>t'. rehash_loop slot store (hash (slots tmp)) (next_position s (slots tmp)) (cells t) tmp = Some t' \<and>
      inv t' \<and> slots t' = slots tmp \<and>
      (\<forall>k v. holds t' k v \<longleftrightarrow> holds tmp k v \<or> (k, v) \<in> set (cell_entries (cells t))) \<and>
      card (used t') = card (used tmp) + length (cell_entries (cells t))"
    by (rule rehash_loop_correct) (use em ce assms(3,4) contents_holds [OF one] in auto)
  then obtain t' where t': "inv t'" "slots t' = slots tmp" "\<And>k v. holds t' k v \<longleftrightarrow> holds t k v"
    "card (used t') = card (used t)"
    "rehash_loop slot store (hash (slots tmp)) (next_position s (slots tmp)) (cells t) tmp = Some t'"
    using em ce by auto
  have "contents t' = contents t"
    by (rule contents_eqI) (use t' contents_holds [OF one] in \<open>auto simp: inv_def\<close>)
  then show ?thesis using that t' by blast
qed

text \<open>
  What the \<open>remove_if\<close> loop needs of the map's own remove operation, for an invariant \<open>I\<close> of the
  map: it takes the entry out and brings nothing new before the position.
\<close>

definition removes_at :: "('t \<Rightarrow> bool) \<Rightarrow> ('t \<Rightarrow> 'k \<Rightarrow> ('t \<times> 'v option) option) \<Rightarrow> bool" where
  "removes_at I remove \<longleftrightarrow> (\<forall>t p k v. I t \<and> pos t p \<and> slot t p = Some (k, v) \<longrightarrow>
     (\<exists>t'. remove t k = Some (t', Some v) \<and> I t' \<and> slots t' = slots t \<and> contents t' = (contents t)(k := None) \<and>
        Suc (card (used t')) = card (used t) \<and>
        (\<forall>q x. pos t q \<and> q < p \<and> slot t' q = Some x \<longrightarrow> (\<exists>q'<p. pos t q' \<and> slot t q' = Some x))))"

lemma remove_if_loop_correct:
  assumes rem: "removes_at I remove" and I: "\<And>t. I t \<Longrightarrow> inv t \<and> limit t = ring t"
    and func: "\<And>c k v. fst (func c k v) = P k v"
  shows "I t \<Longrightarrow> i = s * q \<Longrightarrow> remaining = card (used t) \<Longrightarrow>
    (\<And>p k v. pos t p \<Longrightarrow> p < i \<Longrightarrow> slot t p = Some (k, v) \<Longrightarrow> \<not> P k v) \<Longrightarrow>
    \<exists>t' c'. remove_if_loop limit (remove_if_visit slot remove func) s i remaining (t, c) = Some (t', c') \<and> I t' \<and>
      slots t' = slots t \<and> contents t' = map_without P (contents t)"
proof (induction "ring t - i + remaining" arbitrary: t i q remaining c rule: less_induct)
  case less
  let ?visit = "remove_if_visit slot remove func"
  have inv: "inv t" and lim: "limit t = ring t" and one: "one_slot t"
    using I [OF less.prems(1)] by (auto simp: inv_def)
  show ?case
  proof (cases "i < limit t \<and> 0 < remaining")
    case False
    have "\<not> P k v" if "contents t k = Some v" for k v
    proof -
      have "holds t k v" using that contents_holds [OF one] by simp
      then obtain p where p: "pos t p" "slot t p = Some (k, v)" unfolding holds_def by blast
      then have "p \<in> used t" by (simp add: used_def)
      then have "0 < remaining" using less.prems(3) card_gt_0_iff [of "used t"] by auto
      then have "p < i" using False lim pos_less [OF p(1)] by simp
      then show ?thesis using less.prems(4) p by blast
    qed
    then have "map_without P (contents t) = contents t" by (rule map_without_idle)
    then show ?thesis using False less.prems(1) by (subst remove_if_loop.simps) auto
  next
    case True
    have q: "q < slots t" using True less.prems(2) lim stride by simp
    have pos: "pos t i" using q less.prems(2) by (auto simp: position_def)
    have before: "p < i \<or> p = i" if p: "pos t p" "p < i + s" for p
    proof -
      obtain a where a: "p = s * a" using p(1) by (auto simp: position_def)
      have "s * a < s * Suc q" using p(2) a less.prems(2) by simp
      then have "a < Suc q" using stride by (metis mult_less_cancel1)
      then have "a < q \<or> a = q" by auto
      then show ?thesis using a less.prems(2) stride by auto
    qed
    have on: "\<exists>t' c'. remove_if_loop limit ?visit s (i + s) remaining (t, c) = Some (t', c') \<and> I t' \<and>
        slots t' = slots t \<and> contents t' = map_without P (contents t)"
      if "\<And>k v. slot t i = Some (k, v) \<Longrightarrow> \<not> P k v" for c
    proof (rule less.hyps)
      show "ring t - (i + s) + remaining < ring t - i + remaining" using True lim stride by auto
      show "i + s = s * Suc q" using less.prems(2) by simp
    qed (use less.prems before that in blast)+
    show ?thesis
    proof (cases "slot t i")
      case None
      then show ?thesis using on [of c] True by (subst remove_if_loop.simps) (auto simp: remove_if_visit_def)
    next
      case (Some kv)
      obtain k v where kv: "slot t i = Some (k, v)" using Some by (cases kv) simp
      obtain hit c1 where fc: "func c k v = (hit, c1)" by (cases "func c k v")
      then have hit: "hit = P k v" using func [of c k v] by simp
      show ?thesis
      proof (cases "P k v")
        case False
        then show ?thesis using on [of c1] True kv fc hit by (subst remove_if_loop.simps) (auto simp: remove_if_visit_def)
      next
        case P: True
        obtain t1 where t1: "remove t k = Some (t1, Some v)" "I t1" "slots t1 = slots t"
          "contents t1 = (contents t)(k := None)" "Suc (card (used t1)) = card (used t)"
          "\<And>q x. pos t q \<Longrightarrow> q < i \<Longrightarrow> slot t1 q = Some x \<Longrightarrow> \<exists>q'<i. pos t q' \<and> slot t q' = Some x"
          using rem less.prems(1) pos kv unfolding removes_at_def by metis
        have "\<exists>t' c'. remove_if_loop limit ?visit s i (remaining - 1) (t1, c1) = Some (t', c') \<and> I t' \<and>
            slots t' = slots t1 \<and> contents t' = map_without P (contents t1)"
        proof (rule less.hyps)
          show "ring t1 - i + (remaining - 1) < ring t - i + remaining" using True t1(3) by simp
          show "remaining - 1 = card (used t1)" using t1(5) less.prems(3) by simp
          show "\<not> P k' v'" if "pos t1 p" "p < i" "slot t1 p = Some (k', v')" for p k' v'
            using t1(6) [of p "(k', v')"] that t1(3) less.prems(4) by auto
          show "I t1" and "i = s * q" by (fact t1(2), fact less.prems(2))
        qed
        moreover have "map_without P (contents t1) = map_without P (contents t)"
        proof -
          have "contents t k = Some v" using kv pos contents_holds [OF one] unfolding holds_def by blast
          then show ?thesis using P unfolding t1(4) by (rule map_without_delete)
        qed
        ultimately show ?thesis using True kv fc hit P t1(1,3)
          by (subst remove_if_loop.simps) (auto simp: remove_if_visit_def)
      qed
    qed
  qed
qed

end

end
