(* ===== verification/CountedTable.thy ===== *)
theory CountedTable
  imports OpenAddressing
begin

text \<open>
  Hash tables that count their entries and grow before they are full. The locale \<open>counted_table\<close>
  adds to \<open>open_addressing\<close> the entry count and the fields that only growing changes, such as the
  threshold; its lemmas are the steps of the maps' operations, on tables that satisfy \<open>wf\<close>.
\<close>

section \<open>What the loops leave alone\<close>

lemma compact_loop_preserves:
  "compact_loop slot mv hash_key step d i t = Some t' \<Longrightarrow> (\<And>t d i. f (mv t d i) = f t) \<Longrightarrow> f t' = f t"
proof (induction slot mv hash_key step d i t t' rule: compact_loop.raw_induct [rotated, consumes 1, case_names loop])
  case (loop g slot mv hash_key step d i t t')
  have ih: "f t' = f u" if "g slot mv hash_key step d' i' u = Some t'" for d' i' u
    by (rule loop(1) [OF that loop.prems])
  from loop(2) show ?case
    by (auto simp: Let_def loop.prems split: option.splits if_splits dest!: ih)
qed

lemma rehash_loop_preserves:
  "rehash_loop slot store hash_key step cells t = Some t' \<Longrightarrow> (\<And>t p k v. f (store t p k v) = f t) \<Longrightarrow> f t' = f t"
  by (induction slot store hash_key step cells t rule: rehash_loop.induct) (auto split: option.splits)

section \<open>The steps of the operations\<close>

locale counted_table = open_addressing slot store clear move hash slots s ok storable
  for slot :: "'t \<Rightarrow> nat \<Rightarrow> ('k \<times> 'v) option"
    and store :: "'t \<Rightarrow> nat \<Rightarrow> 'k \<Rightarrow> 'v \<Rightarrow> 't"
    and clear :: "'t \<Rightarrow> nat \<Rightarrow> 't"
    and move :: "'t \<Rightarrow> nat \<Rightarrow> nat \<Rightarrow> 't"
    and hash :: "nat \<Rightarrow> 'k \<Rightarrow> nat"
    and slots :: "'t \<Rightarrow> nat"
    and s :: nat
    and ok :: "'t \<Rightarrow> bool"
    and storable :: "'t \<Rightarrow> 'k \<Rightarrow> 'v \<Rightarrow> bool" +
  fixes count :: "'t \<Rightarrow> nat"
    and extra :: "'t \<Rightarrow> 'r"
    and limit :: "'r \<Rightarrow> nat"
    and fine :: "'r \<Rightarrow> nat \<Rightarrow> bool"
  assumes count_store: "count (store t p k v) = count t"
    and count_move: "count (move t d i) = count t"
    and count_clear: "count (clear t p) = count t - 1"
    and extra_store: "extra (store t p k v) = extra t"
    and extra_move: "extra (move t d i) = extra t"
    and extra_clear: "extra (clear t p) = extra t"
    and limit_less: "fine r n \<Longrightarrow> limit r < n"
begin

definition wf :: "'t \<Rightarrow> bool" where
  "wf t \<longleftrightarrow> inv t \<and> count t = card (used t) \<and> count t \<le> limit (extra t) \<and> fine (extra t) (slots t)"

lemma wf_spare: "wf t \<Longrightarrow> inv t \<and> spare t"
  using limit_less [of "extra t" "slots t"] by (auto simp: wf_def spare_iff)

lemma empty_wf:
  "empty t \<Longrightarrow> count t = 0 \<Longrightarrow> fine (extra t) (slots t) \<Longrightarrow> wf t \<and> contents t = Map.empty"
  using empty_inv [of t] empty_contents [of t] by (simp add: wf_def)

text \<open>Two tables with the same slots and the same fields.\<close>

definition same_layout :: "'t \<Rightarrow> 't \<Rightarrow> bool" where
  "same_layout a b \<longleftrightarrow> slot a = slot b \<and> slots a = slots b \<and> ok a = ok b"

lemma same_layoutD:
  assumes "same_layout a b"
  shows "inv a = inv b" and "used a = used b" and "contents a = contents b" and "spare a = spare b"
    and "empty a = empty b"
  using assms same_table [of a b] by (auto simp: same_layout_def)

text \<open>Looking a key up.\<close>

lemma get_step:
  assumes "wf t"
  obtains j where "find_slot t k = Some j" and "pos t j" and "map_option snd (slot t j) = contents t k"
    and "\<And>k' w. slot t j = Some (k', w) \<Longrightarrow> k' = k"
  using lookup_correct [of t k] wf_spare [OF assms] by metis

text \<open>Storing at the slot the lookup found, before the threshold is looked at.\<close>

lemma put_step:
  assumes "wf t" and "storable t k v" and find: "find_slot t k = Some j"
    and same: "same_layout t1 (store t j k v)" and extra: "extra t1 = extra t"
    and count: "count t1 = (if slot t j = None then Suc (count t) else count t)"
  shows "inv t1" and "contents t1 = (contents t)(k \<mapsto> v)" and "count t1 = card (used t1)"
    and "count t1 \<le> Suc (limit (extra t))" and "count t1 \<le> limit (extra t) \<Longrightarrow> wf t1"
proof -
  have inv: "inv t" and sp: "spare t" using wf_spare [OF assms(1)] by simp_all
  have here: "store_here t j k" using lookup_correct [OF inv sp, of k] find by (metis option.inject)
  note ins = insert_correct [OF inv here assms(2)] and same' = same_layoutD [OF same]
  have "slots t1 = slots t" using same ins(3) by (simp add: same_layout_def)
  show "inv t1" and "contents t1 = (contents t)(k \<mapsto> v)" and c: "count t1 = card (used t1)"
    using ins same' count assms(1) by (simp_all add: wf_def)
  show "count t1 \<le> Suc (limit (extra t))" using count assms(1) by (simp add: wf_def)
  show "wf t1" if "count t1 \<le> limit (extra t)"
    using that \<open>inv t1\<close> c extra assms(1) \<open>slots t1 = slots t\<close> by (simp add: wf_def)
qed

text \<open>Growing: the loop over the old slots fills the new table.\<close>

lemma grow_step:
  assumes "inv t" and "count t = card (used t)" and "empty tmp" and "count tmp = count t"
    and "count t \<le> limit (extra tmp)" and "fine (extra tmp) (slots tmp)"
    and "\<And>k v. contents t k = Some v \<Longrightarrow> storable tmp k v"
  obtains t' where
    "rehash_loop slot store (hash (slots tmp)) (next_position s (slots tmp)) (cells t) tmp = Some t'"
    and "wf t'" and "contents t' = contents t" and "extra t' = extra tmp" and "slots t' = slots tmp"
proof -
  have "card (used t) \<le> slots tmp" using assms(2,5) limit_less [OF assms(6)] by simp
  then obtain t' where t': "rehash_loop slot store (hash (slots tmp)) (next_position s (slots tmp)) (cells t) tmp = Some t'"
    "inv t'" "slots t' = slots tmp" "contents t' = contents t" "card (used t') = card (used t)"
    using rehash_correct [OF assms(1,3)] assms(7) by metis
  have "count t' = count tmp" "extra t' = extra tmp"
    using rehash_loop_preserves [OF t'(1), of count] rehash_loop_preserves [OF t'(1), of extra]
    by (simp_all add: count_store extra_store)
  then have "wf t'" using t' assms by (simp add: wf_def)
  then show ?thesis using that t' \<open>extra t' = extra tmp\<close> by blast
qed

text \<open>Removing the entry the lookup found.\<close>

lemma remove_step:
  assumes "wf t" and j: "pos t j" "slot t j = Some (k, v)"
  obtains t' where "compact_loop slot move (hash (slots t)) (next_position s (slots t)) j j (clear t j) = Some t'"
    and "wf t'" and "slots t' = slots t" and "contents t' = (contents t)(k := None)"
    and "extra t' = extra t" and "Suc (card (used t')) = card (used t)"
    and "\<And>p x. pos t p \<Longrightarrow> p < j \<Longrightarrow> slot t' p = Some x \<Longrightarrow> \<exists>q<j. pos t q \<and> slot t q = Some x"
proof -
  obtain t' where t': "compact_loop slot move (hash (slots t)) (next_position s (slots t)) j j (clear t j) = Some t'"
    "inv t'" "slots t' = slots t" "contents t' = (contents t)(k := None)" "Suc (card (used t')) = card (used t)"
    "\<And>p x. pos t p \<Longrightarrow> p < j \<Longrightarrow> slot t' p = Some x \<Longrightarrow> \<exists>q<j. pos t q \<and> slot t q = Some x"
    using erase_correct [OF _ _ j] wf_spare [OF assms(1)] by metis
  have c: "count t' = count t - 1" "extra t' = extra t"
    using compact_loop_preserves [OF t'(1), of count] compact_loop_preserves [OF t'(1), of extra]
    by (simp_all add: count_clear extra_clear count_move extra_move)
  then have "wf t'" using t'(2,3,5) assms(1) unfolding wf_def by auto
  then show ?thesis using that t' c(2) by blast
qed

text \<open>A remove operation made of the lookup and the step satisfies what \<open>remove_if\<close> relies on.\<close>

lemma removes_atI:
  assumes remove: "\<And>t k j v t'. wf t \<Longrightarrow> find_slot t k = Some j \<Longrightarrow> slot t j = Some (k, v) \<Longrightarrow>
    compact_loop slot move (hash (slots t)) (next_position s (slots t)) j j (clear t j) = Some t' \<Longrightarrow>
    remove t k = Some (t', Some v)"
  shows "removes_at wf remove"
  unfolding removes_at_def
proof (intro allI impI, elim conjE)
  fix t p k v
  assume wf: "wf t" and p: "pos t p" "slot t p = Some (k, v)"
  have one: "one_slot t" using wf by (simp add: wf_def inv_def)
  have "holds t k v" using p unfolding holds_def by blast
  then have c: "contents t k = Some v" using contents_holds [OF one] by simp
  obtain j where j: "find_slot t k = Some j" "pos t j" "map_option snd (slot t j) = contents t k"
    "\<And>k' w. slot t j = Some (k', w) \<Longrightarrow> k' = k"
    using get_step [OF wf] by metis
  obtain k' w where "slot t j = Some (k', w)" using j(3) c by auto
  then have kv: "slot t j = Some (k, v)" using j(3,4) c by auto
  then have "j = p" using one p j(2) unfolding one_slot_def by blast
  obtain t' where t': "compact_loop slot move (hash (slots t)) (next_position s (slots t)) j j (clear t j) = Some t'"
    "wf t'" "slots t' = slots t" "contents t' = (contents t)(k := None)" "Suc (card (used t')) = card (used t)"
    "\<And>p x. pos t p \<Longrightarrow> p < j \<Longrightarrow> slot t' p = Some x \<Longrightarrow> \<exists>q<j. pos t q \<and> slot t q = Some x"
    using remove_step [OF wf j(2) kv] by metis
  have "remove t k = Some (t', Some v)" by (rule remove [OF wf j(1) kv t'(1)])
  then show "\<exists>t'. remove t k = Some (t', Some v) \<and> wf t' \<and> slots t' = slots t \<and>
      contents t' = (contents t)(k := None) \<and> Suc (card (used t')) = card (used t) \<and>
      (\<forall>q x. pos t q \<and> q < p \<and> slot t' q = Some x \<longrightarrow> (\<exists>q'<p. pos t q' \<and> slot t q' = Some x))"
    using t' \<open>j = p\<close> by blast
qed

text \<open>The entries in the order of their slots are the map.\<close>

lemma entries_correct:
  assumes "wf t"
  shows "map_of (cell_entries (cells t)) = contents t" and "distinct (map fst (cell_entries (cells t)))"
    and "length (cell_entries (cells t)) = count t"
  using assms cells_entries [of t] by (auto simp: contents_def wf_def inv_def)

end

end
