(* ===== verification/MapContract.thy ===== *)
theory MapContract
  imports Complex_Main Prelude
begin

text \<open>
  What the hash maps of the Aeron client promise to their users, apart from how they are laid out.
  A map implements a partial function; the locale \<open>map_implementation\<close> states this for single
  operations and extends it to runs of operations of any length. The theories of the maps interpret it.
\<close>

section \<open>Load factors\<close>

text \<open>
  \<open>(size_t) (load_factor * (float) capacity)\<close>. Capacities are powers of two, so the conversion to
  \<open>float\<close> and the product are exact and only the conversion to \<open>size_t\<close> rounds, downwards.
\<close>

definition threshold_of :: "rat \<Rightarrow> nat \<Rightarrow> nat" where
  "threshold_of load_factor capacity = nat \<lfloor>load_factor * of_nat capacity\<rfloor>"

text \<open>\<open>0.65f\<close>, the binary fraction nearest to it.\<close>

definition AERON_MAP_DEFAULT_LOAD_FACTOR :: rat where
  "AERON_MAP_DEFAULT_LOAD_FACTOR = 10905190 / 16777216"

lemma threshold_default: "threshold_of AERON_MAP_DEFAULT_LOAD_FACTOR n = 10905190 * n div 16777216"
proof -
  have "AERON_MAP_DEFAULT_LOAD_FACTOR * of_nat n = of_nat (10905190 * n) / of_nat 16777216"
    by (simp add: AERON_MAP_DEFAULT_LOAD_FACTOR_def)
  then show ?thesis by (simp only: threshold_of_def floor_divide_of_nat_eq nat_int)
qed

lemma default_load_fits:
  "AERON_MAP_DEFAULT_LOAD_FACTOR < 1" "1 \<le> AERON_MAP_DEFAULT_LOAD_FACTOR * 2"
  by (simp_all add: AERON_MAP_DEFAULT_LOAD_FACTOR_def)

lemma threshold_less: "0 \<le> lf \<Longrightarrow> lf < 1 \<Longrightarrow> 0 < n \<Longrightarrow> threshold_of lf n < n"
proof -
  assume lf: "0 \<le> lf" "lf < 1" and n: "0 < n"
  have "lf * of_nat n < of_nat n" using lf n by simp
  then have "\<lfloor>lf * of_nat n\<rfloor> < int n" by (simp add: floor_less_iff)
  then show ?thesis using n unfolding threshold_of_def by linarith
qed

lemma threshold_grows: "1 \<le> lf * of_nat n \<Longrightarrow> threshold_of lf n < threshold_of lf (2 * n)"
proof -
  assume x: "1 \<le> lf * of_nat n"
  have "of_int \<lfloor>lf * of_nat n\<rfloor> + 1 \<le> lf * of_nat n + lf * of_nat n"
    using of_int_floor_le [of "lf * of_nat n"] x by linarith
  then have "\<lfloor>lf * of_nat n\<rfloor> + 1 \<le> \<lfloor>lf * of_nat (2 * n)\<rfloor>"
    by (simp add: le_floor_iff algebra_simps)
  moreover have "0 \<le> \<lfloor>lf * of_nat n\<rfloor>" using x by simp
  ultimately show ?thesis unfolding threshold_of_def by linarith
qed

text \<open>The load factors and capacities the maps work with: there is always room, and growing makes some.\<close>

definition fitting :: "rat \<Rightarrow> nat \<Rightarrow> bool" where
  "fitting lf n \<longleftrightarrow> lf < 1 \<and> 1 \<le> lf * of_nat n"

lemma fitting_mono:
  assumes "lf < 1" and "1 \<le> lf * of_nat c" and "c \<le> n"
  shows "fitting lf n"
proof -
  have "0 < lf"
  proof (rule ccontr)
    assume "\<not> 0 < lf"
    then have "lf * of_nat c \<le> 0" by (simp add: mult_nonpos_nonneg)
    then show False using assms(2) by simp
  qed
  then have "lf * of_nat c \<le> lf * of_nat n" using assms(3) by (intro mult_left_mono) simp_all
  then show ?thesis using assms by (simp add: fitting_def)
qed

lemma fitting_threshold:
  assumes "fitting lf n"
  shows "threshold_of lf n < n" and "threshold_of lf n < threshold_of lf (2 * n)" and "fitting lf (2 * n)"
    and "0 < n"
proof -
  have n: "n \<noteq> 0"
  proof
    assume "n = 0"
    then show False using assms by (simp add: fitting_def)
  qed
  then show "0 < n" by simp
  have lf: "0 \<le> lf"
  proof (rule ccontr)
    assume "\<not> 0 \<le> lf"
    then have "lf * of_nat n \<le> 0" by (simp add: mult_nonpos_nonneg)
    then show False using assms by (simp add: fitting_def)
  qed
  show "threshold_of lf n < n" using threshold_less [OF lf] assms n by (simp add: fitting_def)
  show "threshold_of lf n < threshold_of lf (2 * n)" using threshold_grows assms by (simp add: fitting_def)
  show "fitting lf (2 * n)" using assms lf by (simp add: fitting_def algebra_simps)
qed

text \<open>A load factor with the threshold it gives for a capacity.\<close>

definition load_ok :: "rat \<times> nat \<Rightarrow> nat \<Rightarrow> bool" where
  "load_ok r n \<longleftrightarrow> snd r = threshold_of (fst r) n \<and> fitting (fst r) n"

lemma load_ok_less: "load_ok r n \<Longrightarrow> snd r < n"
  by (simp add: load_ok_def fitting_threshold)

section \<open>Runs of operations\<close>

datatype ('k, 'v) map_op = Put 'k 'v | Get 'k | Remove 'k

text \<open>What a client sees of the operations; a \<open>put\<close> answers nothing.\<close>

fun map_spec :: "('k \<Rightarrow> 'v option) \<Rightarrow> ('k, 'v) map_op list \<Rightarrow> ('k \<Rightarrow> 'v option) \<times> 'v option list" where
  "map_spec m [] = (m, [])"
| "map_spec m (Put k v # ops) = map_spec (m(k \<mapsto> v)) ops"
| "map_spec m (Get k # ops) = (case map_spec m ops of (m', answers) \<Rightarrow> (m', m k # answers))"
| "map_spec m (Remove k # ops) = (case map_spec (m(k := None)) ops of (m', answers) \<Rightarrow> (m', m k # answers))"

text \<open>
  The same on an implementation. An operation that does not return, or a \<open>put\<close> that reports an
  error, is \<open>None\<close>.
\<close>

fun map_run ::
  "('m \<Rightarrow> 'k \<Rightarrow> 'v \<Rightarrow> ('m \<times> int) option) \<Rightarrow> ('m \<Rightarrow> 'k \<Rightarrow> 'v option option) \<Rightarrow> ('m \<Rightarrow> 'k \<Rightarrow> ('m \<times> 'v option) option)
   \<Rightarrow> 'm \<Rightarrow> ('k, 'v) map_op list \<Rightarrow> ('m \<times> 'v option list) option" where
  "map_run put get remove m [] = Some (m, [])"
| "map_run put get remove m (Put k v # ops) =
     (case put m k v of
        Some (m', rc) \<Rightarrow> if rc = 0 then map_run put get remove m' ops else None
      | None \<Rightarrow> None)"
| "map_run put get remove m (Get k # ops) =
     (case get m k of
        None \<Rightarrow> None
      | Some a \<Rightarrow> map_option (\<lambda>(m', answers). (m', a # answers)) (map_run put get remove m ops))"
| "map_run put get remove m (Remove k # ops) =
     (case remove m k of
        None \<Rightarrow> None
      | Some (m', a) \<Rightarrow>
          map_option (\<lambda>(m'', answers). (m'', a # answers)) (map_run put get remove m' ops))"

text \<open>Operations on renamed keys; \<open>Q\<close> are the keys that are used.\<close>

lemma map_run_rename:
  "map_run put get remove m (map (map_map_op f id) ops) =
   map_run (\<lambda>m x. put m (f x)) (\<lambda>m x. get m (f x)) (\<lambda>m x. remove m (f x)) m ops"
proof (induction ops arbitrary: m)
  case (Cons op ops)
  then show ?case by (cases op) (auto split: option.split)
qed simp

definition op_key :: "('k, 'v) map_op \<Rightarrow> 'k" where
  "op_key op = (case op of Put k v \<Rightarrow> k | Get k \<Rightarrow> k | Remove k \<Rightarrow> k)"

lemma op_key_map: "op_key (map_map_op f g op) = f (op_key op)"
  by (cases op) (simp_all add: op_key_def)

lemma map_spec_rename:
  assumes "\<And>x. Q x \<Longrightarrow> g (f x) = x"
  shows "(\<And>x. Q x \<Longrightarrow> m' (f x) = m x) \<Longrightarrow> (\<And>op. op \<in> set ops \<Longrightarrow> Q (op_key op)) \<Longrightarrow>
    snd (map_spec m' (map (map_map_op f id) ops)) = snd (map_spec m ops) \<and>
    (\<forall>x. Q x \<longrightarrow> fst (map_spec m' (map (map_map_op f id) ops)) (f x) = fst (map_spec m ops) x)"
proof (induction ops arbitrary: m m')
  case (Cons op ops)
  have inj: "f x = f y \<longleftrightarrow> x = y" if "Q x" "Q y" for x y using that assms by metis
  have Q: "Q (op_key op)" using Cons.prems(2) by simp
  have rest: "Q (op_key op')" if "op' \<in> set ops" for op' using Cons.prems(2) that by simp
  show ?case
  proof (cases op)
    case (Put k v)
    have "(m'(f k \<mapsto> v)) (f x) = (m(k \<mapsto> v)) x" if "Q x" for x
      using Cons.prems(1) inj that Q Put by (simp add: op_key_def)
    then show ?thesis using Cons.IH [of "m'(f k \<mapsto> v)" "m(k \<mapsto> v)"] rest Put by (simp del: fun_upd_apply)
  next
    case (Get k)
    then show ?thesis using Cons.IH [of m' m] Cons.prems(1) rest Q by (simp add: op_key_def split_beta)
  next
    case (Remove k)
    have "(m'(f k := None)) (f x) = (m(k := None)) x" if "Q x" for x
      using Cons.prems(1) inj that Q Remove by (simp add: op_key_def)
    then show ?thesis using Cons.IH [of "m'(f k := None)" "m(k := None)"] rest Remove Cons.prems(1) Q
      by (simp add: op_key_def split_beta del: fun_upd_apply)
  qed
qed simp

lemma map_spec_keys:
  "m x = None \<Longrightarrow> (\<And>op. op \<in> set ops \<Longrightarrow> op_key op \<noteq> x) \<Longrightarrow> fst (map_spec m ops) x = None"
proof (induction ops arbitrary: m)
  case (Cons op ops)
  have "op_key op \<noteq> x" using Cons.prems(2) by simp
  then show ?case using Cons.IH Cons.prems by (cases op) (simp_all add: op_key_def split_beta)
qed simp

section \<open>The contract\<close>

locale map_implementation =
  fixes wf :: "'m \<Rightarrow> bool"
    and abs :: "'m \<Rightarrow> 'k \<Rightarrow> 'v option"
    and put :: "'m \<Rightarrow> 'k \<Rightarrow> 'v \<Rightarrow> ('m \<times> int) option"
    and get :: "'m \<Rightarrow> 'k \<Rightarrow> 'v option option"
    and remove :: "'m \<Rightarrow> 'k \<Rightarrow> ('m \<times> 'v option) option"
    and valid :: "'m \<Rightarrow> 'k \<Rightarrow> 'v \<Rightarrow> bool"
    and valid_key :: "'k \<Rightarrow> bool"
  assumes put: "wf m \<Longrightarrow> valid m k v \<Longrightarrow>
      \<exists>m'. put m k v = Some (m', 0) \<and> wf m' \<and> abs m' = (abs m)(k \<mapsto> v) \<and> valid m' = valid m"
    and get: "wf m \<Longrightarrow> valid_key k \<Longrightarrow> get m k = Some (abs m k)"
    and remove: "wf m \<Longrightarrow> valid_key k \<Longrightarrow>
      \<exists>m'. remove m k = Some (m', abs m k) \<and> wf m' \<and> abs m' = (abs m)(k := None) \<and> valid m' = valid m"
begin

definition valid_op :: "'m \<Rightarrow> ('k, 'v) map_op \<Rightarrow> bool" where
  "valid_op m op = (case op of Put k v \<Rightarrow> valid m k v | Get k \<Rightarrow> valid_key k | Remove k \<Rightarrow> valid_key k)"

theorem run_refines:
  "wf m \<Longrightarrow> list_all (valid_op m) ops \<Longrightarrow>
   \<exists>m'. map_run put get remove m ops = Some (m', snd (map_spec (abs m) ops)) \<and> wf m' \<and>
     abs m' = fst (map_spec (abs m) ops)"
proof (induction ops arbitrary: m)
  case Nil
  then show ?case by simp
next
  case (Cons op ops)
  have rest: "list_all (valid_op m) ops" using Cons.prems(2) by simp
  show ?case
  proof (cases op)
    case (Put k v)
    then obtain m' where m': "put m k v = Some (m', 0)" "wf m'" "abs m' = (abs m)(k \<mapsto> v)" "valid m' = valid m"
      using put [OF Cons.prems(1), of k v] Cons.prems(2) by (auto simp: valid_op_def)
    have "list_all (valid_op m') ops" using rest m'(4) by (simp add: valid_op_def [abs_def])
    from Cons.IH [OF m'(2) this] show ?thesis using Put m' by (simp del: fun_upd_apply)
  next
    case (Get k)
    then have "valid_key k" using Cons.prems(2) by (simp add: valid_op_def)
    then have "get m k = Some (abs m k)" by (rule get [OF Cons.prems(1)])
    from Cons.IH [OF Cons.prems(1) rest] show ?thesis
      using Get \<open>get m k = Some (abs m k)\<close> by (auto split: prod.splits)
  next
    case (Remove k)
    then have "valid_key k" using Cons.prems(2) by (simp add: valid_op_def)
    then obtain m' where m': "remove m k = Some (m', abs m k)" "wf m'" "abs m' = (abs m)(k := None)" "valid m' = valid m"
      using remove [OF Cons.prems(1)] by blast
    have "list_all (valid_op m') ops" using rest m'(4) by (simp add: valid_op_def [abs_def])
    from Cons.IH [OF m'(2) this] show ?thesis using Remove m' by (auto simp del: fun_upd_apply split: prod.splits)
  qed
qed

end

end
