(* ===== verification/CellMap.thy ===== *)
theory CellMap
  imports AeronUtil CountedTable MapContract
begin

text \<open>
  The code the pointer-valued hash maps of \<open>aeron-lib/include/aeron/collections\<close> have in common:
  \<open>aeron_int64_to_ptr_hash_map.h\<close>, \<open>aeron_int64_to_tagged_ptr_hash_map.h\<close>,
  \<open>aeron_array_to_ptr_hash_map.h\<close> and \<open>aeron_str_to_ptr_hash_map.h\<close> repeat the same functions
  over an array of keys and an array of cells, and differ in the type of the keys, how they are hashed
  and compared, and in what a cell is. The differences are a \<open>map_scheme\<close>, an argument of the
  functions here; the theories of the maps fill it in.

  What \<open>aeron_alloc\<close> answers is an argument too: \<open>alloc_keys n\<close> and \<open>alloc_cells n\<close> are the
  contents of a new array of \<open>n\<close> elements, or \<open>None\<close> when there is no memory. An array without
  elements stands for an array pointer that is NULL. A loop that does not end is \<open>None\<close>.
\<close>

section \<open>The functions\<close>

text \<open>
  \<open>same_key\<close> compares a stored key with the one looked for; a cell that is in use holds a value, and
  \<open>absent_cell\<close> is what is written into one that is not.
\<close>

record ('k, 'c, 'v) map_scheme =
  same_key :: "'k \<Rightarrow> 'k \<Rightarrow> bool"
  hash_key :: "'k \<Rightarrow> nat \<Rightarrow> nat"
  cell_value :: "'c \<Rightarrow> 'v option"
  value_cell :: "'v \<Rightarrow> 'c"
  absent_cell :: 'c

record ('k, 'c) cell_map =
  map_keys :: "'k list"
  map_cells :: "'c list"
  map_load_factor :: rat
  map_capacity :: nat
  map_size :: nat
  map_resize_threshold :: nat

definition map_init ::
  "(nat \<Rightarrow> 'k list option) \<Rightarrow> (nat \<Rightarrow> 'c list option) \<Rightarrow> u64 \<Rightarrow> rat \<Rightarrow> ('k, 'c) cell_map \<times> int" where
  "map_init alloc_keys alloc_cells initial_capacity load_factor =
     (let capacity = table_capacity initial_capacity;
          m = \<lparr>map_keys = [], map_cells = [], map_load_factor = load_factor, map_capacity = capacity,
               map_size = 0, map_resize_threshold = threshold_of load_factor capacity\<rparr>
      in case alloc_keys capacity of
           None \<Rightarrow> (m, - 1)
         | Some ks \<Rightarrow>
             (case alloc_cells capacity of
                None \<Rightarrow> (m\<lparr>map_keys := ks\<rparr>, - 1)
              | Some cs \<Rightarrow> (m\<lparr>map_keys := ks, map_cells := cs\<rparr>, 0)))"

text \<open>The arrays \<open>delete\<close> frees: of keys, of cells.\<close>

definition map_delete :: "('k, 'c) cell_map \<Rightarrow> 'k list list \<times> 'c list list" where
  "map_delete m =
     ((if map_keys m \<noteq> [] then [map_keys m] else []), (if map_cells m \<noteq> [] then [map_cells m] else []))"

text \<open>
  Reading and writing a slot: \<open>map_store\<close> is the assignment in the loop of \<open>rehash\<close>,
  \<open>map_clear\<close> the part of \<open>remove\<close> that empties a slot, and \<open>map_move\<close> the assignments of
  \<open>compact_chain\<close>.
\<close>

definition map_slot :: "('k, 'c, 'v) map_scheme \<Rightarrow> ('k, 'c) cell_map \<Rightarrow> nat \<Rightarrow> ('k \<times> 'v) option" where
  "map_slot S m i = map_option (Pair (map_keys m ! i)) (cell_value S (map_cells m ! i))"

definition map_store :: "('k, 'c, 'v) map_scheme \<Rightarrow> ('k, 'c) cell_map \<Rightarrow> nat \<Rightarrow> 'k \<Rightarrow> 'v \<Rightarrow> ('k, 'c) cell_map" where
  "map_store S m i key v = m\<lparr>map_keys := (map_keys m)[i := key], map_cells := (map_cells m)[i := value_cell S v]\<rparr>"

definition map_clear :: "('k, 'c, 'v) map_scheme \<Rightarrow> ('k, 'c) cell_map \<Rightarrow> nat \<Rightarrow> ('k, 'c) cell_map" where
  "map_clear S m i = m\<lparr>map_cells := (map_cells m)[i := absent_cell S], map_size := map_size m - 1\<rparr>"

definition map_move :: "('k, 'c, 'v) map_scheme \<Rightarrow> ('k, 'c) cell_map \<Rightarrow> nat \<Rightarrow> nat \<Rightarrow> ('k, 'c) cell_map" where
  "map_move S m delete_index index =
     m\<lparr>map_keys := (map_keys m)[delete_index := map_keys m ! index],
       map_cells := (map_cells m)[delete_index := map_cells m ! index, index := absent_cell S]\<rparr>"

text \<open>The slots in order.\<close>

definition map_slots :: "('k, 'c, 'v) map_scheme \<Rightarrow> ('k, 'c) cell_map \<Rightarrow> ('k \<times> 'v) option list" where
  "map_slots S m = map (map_slot S m) [0..<map_capacity m]"

definition map_rehash ::
  "('k, 'c, 'v) map_scheme \<Rightarrow> (nat \<Rightarrow> 'k list option) \<Rightarrow> (nat \<Rightarrow> 'c list option) \<Rightarrow> ('k, 'c) cell_map \<Rightarrow> nat
   \<Rightarrow> (('k, 'c) cell_map \<times> int) option" where
  "map_rehash S alloc_keys alloc_cells m new_capacity =
     (let msk = new_capacity - 1;
          m = m\<lparr>map_resize_threshold := threshold_of (map_load_factor m) new_capacity\<rparr>
      in case alloc_keys new_capacity of
           None \<Rightarrow> Some (m, - 1)
         | Some tmp_keys \<Rightarrow>
             (case alloc_cells new_capacity of
                None \<Rightarrow> Some (m, - 1)
              | Some tmp_cells \<Rightarrow>
                  (case rehash_loop (map_slot S) (map_store S) (\<lambda>key. hash_key S key msk) (next_index 1 msk)
                          (map_slots S m)
                          (m\<lparr>map_keys := tmp_keys, map_cells := tmp_cells, map_capacity := new_capacity\<rparr>) of
                     None \<Rightarrow> None
                   | Some m \<Rightarrow> Some (m, 0))))"

text \<open>The loop the operations start with, from the key's hash.\<close>

definition map_probe :: "('k, 'c, 'v) map_scheme \<Rightarrow> ('k, 'c) cell_map \<Rightarrow> 'k \<Rightarrow> nat option" where
  "map_probe S m key =
     (let msk = map_capacity m - 1
      in probe (map_slot S m) (\<lambda>k. same_key S k key) (next_index 1 msk) (hash_key S key msk))"

text \<open>Writing at the index the loop found.\<close>

definition map_insert ::
  "('k, 'c, 'v) map_scheme \<Rightarrow> ('k, 'c) cell_map \<Rightarrow> nat \<Rightarrow> 'k \<Rightarrow> 'v \<Rightarrow> ('k, 'c) cell_map" where
  "map_insert S m index key value =
     (let old_value = cell_value S (map_cells m ! index);
          m = (if old_value = None
               then m\<lparr>map_size := map_size m + 1, map_keys := (map_keys m)[index := key]\<rparr> else m)
      in m\<lparr>map_cells := (map_cells m)[index := value_cell S value]\<rparr>)"

definition map_put ::
  "('k, 'c, 'v) map_scheme \<Rightarrow> (nat \<Rightarrow> 'k list option) \<Rightarrow> (nat \<Rightarrow> 'c list option) \<Rightarrow> ('k, 'c) cell_map \<Rightarrow> 'k \<Rightarrow> 'v
   \<Rightarrow> (('k, 'c) cell_map \<times> int) option" where
  "map_put S alloc_keys alloc_cells m key value =
     (case map_probe S m key of
        None \<Rightarrow> None
      | Some index \<Rightarrow>
          (let m = map_insert S m index key value
           in if map_resize_threshold m < map_size m
              then map_rehash S alloc_keys alloc_cells m (map_capacity m * 2)
              else Some (m, 0)))"

definition map_get :: "('k, 'c, 'v) map_scheme \<Rightarrow> ('k, 'c) cell_map \<Rightarrow> 'k \<Rightarrow> 'v option option" where
  "map_get S m key = map_option (\<lambda>index. cell_value S (map_cells m ! index)) (map_probe S m key)"

definition map_compact_chain ::
  "('k, 'c, 'v) map_scheme \<Rightarrow> ('k, 'c) cell_map \<Rightarrow> nat \<Rightarrow> ('k, 'c) cell_map option" where
  "map_compact_chain S m delete_index =
     (let msk = map_capacity m - 1
      in compact_loop (map_slot S) (map_move S) (\<lambda>key. hash_key S key msk) (next_index 1 msk)
           delete_index delete_index m)"

definition map_remove ::
  "('k, 'c, 'v) map_scheme \<Rightarrow> ('k, 'c) cell_map \<Rightarrow> 'k \<Rightarrow> (('k, 'c) cell_map \<times> 'v option) option" where
  "map_remove S m key =
     (case map_probe S m key of
        None \<Rightarrow> None
      | Some index \<Rightarrow>
          (let value = cell_value S (map_cells m ! index)
           in if value = None then Some (m, None)
              else map_option (\<lambda>m. (m, value)) (map_compact_chain S (map_clear S m index) index)))"

definition map_for_each :: "('k, 'c, 'v) map_scheme \<Rightarrow> ('k, 'c) cell_map \<Rightarrow> ('d \<Rightarrow> 'k \<Rightarrow> 'v \<Rightarrow> 'd) \<Rightarrow> 'd \<Rightarrow> 'd" where
  "map_for_each S m func clientd =
     foldl (\<lambda>c (key, value). func c key value) clientd (cell_entries (map_slots S m))"

definition map_remove_if ::
  "('k, 'c, 'v) map_scheme \<Rightarrow> ('k, 'c) cell_map \<Rightarrow> ('d \<Rightarrow> 'k \<Rightarrow> 'v \<Rightarrow> bool \<times> 'd) \<Rightarrow> 'd \<Rightarrow> (('k, 'c) cell_map \<times> 'd) option"
where
  "map_remove_if S m func clientd =
     remove_if_loop map_capacity (remove_if_visit (map_slot S) (map_remove S) func) 1 0 (map_size m) (m, clientd)"

text \<open>The entries, listed with \<open>for_each\<close>.\<close>

definition map_listing :: "('k, 'c, 'v) map_scheme \<Rightarrow> ('k, 'c) cell_map \<Rightarrow> ('k \<times> 'v) list" where
  "map_listing S m = map_for_each S m (\<lambda>c k v. c @ [(k, v)]) []"

text \<open>
  An allocator that has memory: \<open>aeron_alloc\<close> clears what it hands out, so that no cell of a new
  array is in use.
\<close>

definition clearing :: "('k, 'c, 'v) map_scheme \<Rightarrow> (nat \<Rightarrow> 'k list option) \<Rightarrow> (nat \<Rightarrow> 'c list option) \<Rightarrow> bool" where
  "clearing S alloc_keys alloc_cells \<longleftrightarrow>
     (\<forall>n. \<exists>ks cs. alloc_keys n = Some ks \<and> length ks = n \<and> alloc_cells n = Some cs \<and> length cs = n \<and>
        (\<forall>c \<in> set cs. cell_value S c = None))"

section \<open>The layout is one for open addressing\<close>

text \<open>
  What a scheme has to satisfy. \<open>valid\<close> are the keys the code is used with, those on which the
  comparison is equality.
\<close>

locale sound_scheme =
  fixes S :: "('k, 'c, 'v) map_scheme"
    and valid :: "'k \<Rightarrow> bool"
  assumes same: "valid k \<Longrightarrow> valid k' \<Longrightarrow> same_key S k k' \<longleftrightarrow> k = k'"
    and hash: "0 < n \<Longrightarrow> hash_key S k (n - 1) < n"
    and present: "cell_value S (value_cell S v) = Some v"
    and absent: "cell_value S (absent_cell S) = None"
begin

definition ok :: "('k, 'c) cell_map \<Rightarrow> bool" where
  "ok m \<longleftrightarrow> (\<exists>j. map_capacity m = 2 ^ j) \<and> length (map_keys m) = map_capacity m \<and>
     length (map_cells m) = map_capacity m \<and>
     (\<forall>i<map_capacity m. cell_value S (map_cells m ! i) \<noteq> None \<longrightarrow> valid (map_keys m ! i))"

definition position_of :: "nat \<Rightarrow> 'k \<Rightarrow> nat" where
  "position_of n key = hash_key S key (n - Suc 0)"

definition load :: "('k, 'c) cell_map \<Rightarrow> rat \<times> nat" where
  "load m = (map_load_factor m, map_resize_threshold m)"

lemmas layout = ok_def map_slot_def map_store_def map_clear_def map_move_def load_def

end

sublocale sound_scheme \<subseteq> table: counted_table "map_slot S" "map_store S" "map_clear S" "map_move S" position_of
  map_capacity "Suc 0" ok "\<lambda>_ k _. valid k" map_size load snd load_ok
proof
  show "position (Suc 0) (map_capacity m) (position_of (map_capacity m) key)" if "ok m" for m key
    using that hash [of "map_capacity m" key] by (auto simp: ok_def position_of_def)
qed (auto simp: layout nth_list_update load_ok_less present absent)

section \<open>The functions are the operations of a map\<close>

lemma foldl_collect_key: "foldl (\<lambda>c (k, v). c @ [(f k, v)]) acc xs = acc @ map (\<lambda>(k, v). (f k, v)) xs"
  by (induction xs arbitrary: acc) auto

lemma foldl_collect: "foldl (\<lambda>c (k, v). c @ [(k, v)]) acc xs = acc @ xs"
  using foldl_collect_key [of id acc xs] by simp

context sound_scheme
begin

abbreviation wf :: "('k, 'c) cell_map \<Rightarrow> bool" where
  "wf \<equiv> table.wf"

abbreviation contents :: "('k, 'c) cell_map \<Rightarrow> 'k \<Rightarrow> 'v option" where
  "contents \<equiv> table.contents"

lemma slots_eq: "map_slots S m = table.cells m"
  by (simp add: map_slots_def table.cells_def)

lemma position_eq: "(\<lambda>key. hash_key S key (n - Suc 0)) = position_of n"
  by (simp add: position_of_def fun_eq_iff)

lemma next_index_eq:
  assumes "ok m"
  shows "next_index (Suc 0) (map_capacity m - Suc 0) = next_position (Suc 0) (map_capacity m)"
  using assms next_index_position [of "Suc 0" "map_capacity m"] by (auto simp: ok_def)

lemma cell_slot: "cell_value S (map_cells m ! j) = map_option snd (map_slot S m j)"
  by (cases "cell_value S (map_cells m ! j)") (simp_all add: map_slot_def)

lemma wf_ok [simp]: "wf m \<Longrightarrow> ok m"
  by (simp add: table.wf_def table.inv_def)

text \<open>On positions, the comparison of the code is equality.\<close>

lemma probe_eq:
  assumes "ok m" and "valid key"
  shows "map_probe S m key = table.find_slot m key"
proof -
  let ?n = "map_capacity m"
  let ?slot = "\<lambda>i. if i < ?n then map_slot S m i else None"
  have step: "next_position (Suc 0) ?n i < ?n" if "i < ?n" for i
    using that position_next [of "Suc 0" ?n i] by simp
  have h: "position_of ?n key < ?n" using table.hash_pos [OF assms(1), of key] by simp
  have restrict: "probe (map_slot S m) f (next_position (Suc 0) ?n) (position_of ?n key) =
      probe ?slot f (next_position (Suc 0) ?n) (position_of ?n key)" for f
    by (rule probe_restrict [where P = "\<lambda>i. i < ?n"]) (use step h in auto)
  have "probe ?slot (\<lambda>k. same_key S k key) (next_position (Suc 0) ?n) (position_of ?n key) =
      probe ?slot (\<lambda>k. k = key) (next_position (Suc 0) ?n) (position_of ?n key)"
  proof (rule probe_cong)
    fix i k v
    assume "?slot i = Some (k, v)"
    then have "valid k" using assms(1) by (auto simp: ok_def map_slot_def split: if_splits)
    then show "same_key S k key = (k = key)" using same assms(2) by blast
  qed
  then show ?thesis
    using assms(1) by (simp add: map_probe_def next_index_eq Let_def restrict flip: position_of_def)
qed

lemma get_correct:
  assumes "wf m" and "valid key"
  shows "map_get S m key = Some (contents m key)"
proof -
  obtain j where "table.find_slot m key = Some j" "map_option snd (map_slot S m j) = contents m key"
    using table.get_step [OF assms(1)] by metis
  then show ?thesis using assms by (simp add: map_get_def probe_eq cell_slot)
qed

lemma remove_found:
  assumes "wf m" and "valid key" and "table.find_slot m key = Some j" and "map_slot S m j = Some (key, v)"
    and "compact_loop (map_slot S) (map_move S) (position_of (map_capacity m))
      (next_position (Suc 0) (map_capacity m)) j j (map_clear S m j) = Some m'"
  shows "map_remove S m key = Some (m', Some v)"
  using assms next_index_eq [of m]
  by (simp add: map_remove_def probe_eq cell_slot Let_def map_compact_chain_def map_clear_def position_eq)

lemma remove_correct:
  assumes wf: "wf m" and key: "valid key"
  shows "\<exists>m'. map_remove S m key = Some (m', contents m key) \<and> wf m' \<and> contents m' = (contents m)(key := None)"
proof -
  obtain j where j: "table.find_slot m key = Some j" "table.pos m j"
    "map_option snd (map_slot S m j) = contents m key" "\<And>k' w. map_slot S m j = Some (k', w) \<Longrightarrow> k' = key"
    using table.get_step [OF wf] by metis
  show ?thesis
  proof (cases "map_slot S m j")
    case None
    then have "map_remove S m key = Some (m, None)" "contents m key = None"
      using j(1,3) wf key by (simp_all add: map_remove_def probe_eq cell_slot)
    then show ?thesis using wf by (simp add: fun_upd_idem)
  next
    case (Some kv)
    then obtain v where kv: "map_slot S m j = Some (key, v)" using j(4) by (cases kv) auto
    obtain m' where m': "compact_loop (map_slot S) (map_move S) (position_of (map_capacity m))
        (next_position (Suc 0) (map_capacity m)) j j (map_clear S m j) = Some m'"
      "wf m'" "contents m' = (contents m)(key := None)"
      by (rule table.remove_step [OF wf j(2) kv])
    then show ?thesis using remove_found [OF wf key j(1) kv m'(1)] j(3) kv by simp
  qed
qed

lemma stored_valid: "ok m \<Longrightarrow> table.pos m i \<Longrightarrow> map_slot S m i = Some (k, v) \<Longrightarrow> valid k"
  by (auto simp: ok_def map_slot_def)

lemma contents_valid: "table.inv m \<Longrightarrow> contents m k = Some v \<Longrightarrow> valid k"
  using table.contents_holds [of m k v] stored_valid [of m] by (auto simp: table.inv_def table.holds_def)

lemma rehash_grows:
  assumes alloc: "clearing S alloc_keys alloc_cells" and m: "table.inv m" "map_size m = card (table.used m)"
    and size: "map_size m \<le> Suc (threshold_of (map_load_factor m) (map_capacity m))"
    and lf: "fitting (map_load_factor m) (map_capacity m)"
  shows "\<exists>m'. map_rehash S alloc_keys alloc_cells m (map_capacity m * 2) = Some (m', 0) \<and> wf m' \<and>
    contents m' = contents m"
proof -
  let ?n = "map_capacity m * 2" and ?lf = "map_load_factor m"
  obtain ks cs where a: "alloc_keys ?n = Some ks" "length ks = ?n" "alloc_cells ?n = Some cs" "length cs = ?n"
    "\<forall>c \<in> set cs. cell_value S c = None"
    using alloc unfolding clearing_def by blast
  let ?m = "m\<lparr>map_resize_threshold := threshold_of ?lf ?n\<rparr>"
  let ?tmp = "?m\<lparr>map_keys := ks, map_cells := cs, map_capacity := ?n\<rparr>"
  have ok: "ok m" using m(1) by (simp add: table.inv_def)
  then obtain j where "map_capacity m = 2 ^ j" by (auto simp: ok_def)
  then have ok': "ok ?tmp" using a by (auto simp: ok_def intro: exI [of _ "Suc j"])
  have same: "table.same_layout ?m m" by (auto simp: table.same_layout_def map_slot_def ok_def)
  note same' = table.same_layoutD [OF same]
  have grow: "map_size m \<le> threshold_of ?lf ?n" "fitting ?lf ?n"
    using size fitting_threshold [OF lf] by (simp_all add: mult.commute)
  have empty: "table.empty ?tmp" using ok' a by (simp add: table.empty_def map_slot_def)
  have valid: "valid k" if "contents ?m k = Some v" for k v
    using contents_valid [OF m(1)] that same'(3) by simp
  obtain m' where m': "rehash_loop (map_slot S) (map_store S) (position_of ?n)
      (next_position (Suc 0) ?n) (table.cells ?m) ?tmp = Some m'" "wf m'" "contents m' = contents ?m"
    by (rule table.grow_step [of ?m ?tmp]) (use m same' empty grow valid in \<open>simp_all add: load_def load_ok_def\<close>)
  have "next_index (Suc 0) (?n - Suc 0) = next_position (Suc 0) ?n" using next_index_eq [OF ok'] by simp
  then have "map_rehash S alloc_keys alloc_cells m ?n = Some (m', 0)"
    using a m'(1) by (simp add: map_rehash_def Let_def slots_eq position_eq)
  then show ?thesis using m'(2,3) same'(3) by simp
qed

lemma insert_layout:
  assumes "\<And>k' w. map_slot S m j = Some (k', w) \<Longrightarrow> k' = key"
  shows "table.same_layout (map_insert S m j key v) (map_store S m j key v)"
    and "load (map_insert S m j key v) = load m"
    and "map_size (map_insert S m j key v) = (if map_slot S m j = None then Suc (map_size m) else map_size m)"
    and "map_capacity (map_insert S m j key v) = map_capacity m"
proof -
  have "(map_keys m)[j := key] = map_keys m" if "cell_value S (map_cells m ! j) \<noteq> None"
    using that assms by (auto simp: map_slot_def)
  then show "table.same_layout (map_insert S m j key v) (map_store S m j key v)"
    by (auto simp: table.same_layout_def layout map_insert_def Let_def fun_eq_iff)
qed (simp_all add: map_insert_def layout Let_def)

lemma put_correct:
  assumes alloc: "clearing S alloc_keys alloc_cells" and wf: "wf m" and key: "valid key"
  shows "\<exists>m'. map_put S alloc_keys alloc_cells m key v = Some (m', 0) \<and> wf m' \<and>
    contents m' = (contents m)(key \<mapsto> v)"
proof -
  obtain j where j: "table.find_slot m key = Some j" "\<And>k' w. map_slot S m j = Some (k', w) \<Longrightarrow> k' = key"
    using table.get_step [OF wf] by metis
  have lf: "fitting (map_load_factor m) (map_capacity m)"
    "map_resize_threshold m = threshold_of (map_load_factor m) (map_capacity m)"
    using wf by (auto simp: table.wf_def load_def load_ok_def)
  let ?m = "map_insert S m j key v"
  note at = insert_layout [of m j key v, OF j(2)]
  note m1 = table.put_step [OF wf key j(1) at(1,2,3)]
  have put: "map_put S alloc_keys alloc_cells m key v =
      (if map_resize_threshold m < map_size ?m
       then map_rehash S alloc_keys alloc_cells ?m (map_capacity ?m * 2) else Some (?m, 0))"
    using j(1) at(2) wf key by (simp add: map_put_def probe_eq Let_def load_def)
  show ?thesis
  proof (cases "map_resize_threshold m < map_size ?m")
    case True
    have "map_size ?m \<le> Suc (threshold_of (map_load_factor ?m) (map_capacity ?m))"
      "fitting (map_load_factor ?m) (map_capacity ?m)"
      using m1(4) at(2,4) lf by (simp_all add: load_def)
    from rehash_grows [OF alloc m1(1,3) this] show ?thesis using put True m1(2) by auto
  next
    case False
    then show ?thesis using put m1(2,5) by (auto simp: load_def)
  qed
qed

lemma init_correct:
  assumes alloc: "clearing S alloc_keys alloc_cells" and "1 \<le> unat c" and "unat c \<le> 2 ^ 30" and "lf < 1"
    and "1 \<le> lf * of_nat (unat c)"
  shows "\<exists>m. map_init alloc_keys alloc_cells c lf = (m, 0) \<and> wf m \<and> contents m = Map.empty"
proof -
  let ?n = "table_capacity c"
  obtain j where j: "?n = 2 ^ j" "unat c \<le> ?n" using table_capacity_power [OF assms(2,3)] by auto
  obtain ks cs where a: "alloc_keys ?n = Some ks" "length ks = ?n" "alloc_cells ?n = Some cs" "length cs = ?n"
    "\<forall>c \<in> set cs. cell_value S c = None"
    using alloc unfolding clearing_def by blast
  let ?m = "\<lparr>map_keys = ks, map_cells = cs, map_load_factor = lf, map_capacity = ?n, map_size = 0,
    map_resize_threshold = threshold_of lf ?n\<rparr>"
  have "fitting lf ?n" by (rule fitting_mono [OF assms(4,5) j(2)])
  moreover have "table.empty ?m" using j a by (auto simp: table.empty_def layout)
  ultimately have "wf ?m \<and> contents ?m = Map.empty"
    by (intro table.empty_wf) (simp_all add: load_def load_ok_def)
  moreover have "map_init alloc_keys alloc_cells c lf = (?m, 0)" using a by (simp add: map_init_def Let_def)
  ultimately show ?thesis by blast
qed

lemma implements:
  assumes "clearing S alloc_keys alloc_cells"
  shows "map_implementation wf contents (map_put S alloc_keys alloc_cells) (map_get S) (map_remove S)
    (\<lambda>_ k _. valid k) valid"
  by unfold_locales (use put_correct [OF assms] get_correct remove_correct in auto)

lemma listing_correct:
  assumes "wf m"
  shows "map_of (map_listing S m) = contents m" and "distinct (map fst (map_listing S m))"
    and "length (map_listing S m) = map_size m"
proof -
  have "map_listing S m = cell_entries (table.cells m)"
    by (simp add: map_listing_def map_for_each_def slots_eq foldl_collect)
  then show "map_of (map_listing S m) = contents m" and "distinct (map fst (map_listing S m))"
    and "length (map_listing S m) = map_size m"
    using table.entries_correct [OF assms] by simp_all
qed

lemma removes_at: "table.removes_at wf (map_remove S)"
proof (rule table.removes_atI)
  fix m k j v m'
  assume "wf m" and j: "table.find_slot m k = Some j" "map_slot S m j = Some (k, v)"
    and c: "compact_loop (map_slot S) (map_move S) (position_of (map_capacity m))
      (next_position (Suc 0) (map_capacity m)) j j (map_clear S m j) = Some m'"
  have "table.pos m j" using table.get_step [OF \<open>wf m\<close>, of k] j(1) by (metis option.inject)
  then have "valid k" using stored_valid wf_ok [OF \<open>wf m\<close>] j(2) by blast
  then show "map_remove S m k = Some (m', Some v)" by (rule remove_found [OF \<open>wf m\<close> _ j c])
qed

lemma remove_if_correct:
  assumes "wf m" and "\<And>c k v. fst (func c k v) = P k v"
  shows "\<exists>m' c'. map_remove_if S m func c = Some (m', c') \<and> wf m' \<and> contents m' = map_without P (contents m)"
proof -
  have "map_size m = card (table.used m)" using assms(1) by (simp add: table.wf_def)
  then show ?thesis
    using table.remove_if_loop_correct [OF removes_at, of map_capacity func P m 0 0 "map_size m" c] assms
    by (auto simp: map_remove_if_def table.wf_def)
qed

text \<open>The keys of operations.\<close>

definition valid_ops :: "('k, 'v) map_op list \<Rightarrow> bool" where
  "valid_ops ops \<longleftrightarrow> (\<forall>op \<in> set ops. valid (op_key op))"

lemma run_correct:
  assumes "clearing S alloc_keys alloc_cells" and "wf m" and "valid_ops ops"
  shows "\<exists>m'. map_run (map_put S alloc_keys alloc_cells) (map_get S) (map_remove S) m ops =
      Some (m', snd (map_spec (contents m) ops)) \<and> wf m' \<and> contents m' = fst (map_spec (contents m) ops)"
proof -
  note impl = implements [OF assms(1)]
  have "list_all (map_implementation.valid_op (\<lambda>_ k _. valid k) valid m) ops"
    using assms(3) map_implementation.valid_op_def [OF impl]
    by (fastforce simp: list_all_iff valid_ops_def op_key_def split: map_op.splits)
  then show ?thesis by (rule map_implementation.run_refines [OF impl assms(2)])
qed

text \<open>A new map and a run of operations on it.\<close>

lemma refines:
  assumes alloc: "clearing S alloc_keys alloc_cells" and "1 \<le> unat c" and "unat c \<le> 2 ^ 30" and "lf < 1"
    and "1 \<le> lf * of_nat (unat c)" and "valid_ops ops"
  shows "\<exists>m m'. map_init alloc_keys alloc_cells c lf = (m, 0) \<and>
    map_run (map_put S alloc_keys alloc_cells) (map_get S) (map_remove S) m ops =
      Some (m', snd (map_spec Map.empty ops)) \<and>
    map_of (map_listing S m') = fst (map_spec Map.empty ops) \<and> distinct (map fst (map_listing S m')) \<and>
    map_size m' = length (map_listing S m')"
proof -
  obtain m where m: "map_init alloc_keys alloc_cells c lf = (m, 0)" "wf m" "contents m = Map.empty"
    using init_correct [OF assms(1-5)] by blast
  from run_correct [OF alloc m(2) assms(6)] show ?thesis
    using m(1,3) listing_correct by metis
qed

lemma removes:
  assumes alloc: "clearing S alloc_keys alloc_cells" and "1 \<le> unat c" and "unat c \<le> 2 ^ 30" and "lf < 1"
    and "1 \<le> lf * of_nat (unat c)" and "valid_ops ops" and func: "\<And>d k v. fst (func d k v) = P k v"
    and run: "map_run (map_put S alloc_keys alloc_cells) (map_get S) (map_remove S)
      (fst (map_init alloc_keys alloc_cells c lf)) ops = Some (m, answers)"
  shows "\<exists>m' d'. map_remove_if S m func d = Some (m', d') \<and>
    map_of (map_listing S m') = map_without P (map_of (map_listing S m)) \<and>
    distinct (map fst (map_listing S m')) \<and> map_size m' = length (map_listing S m')"
proof -
  obtain m0 where m0: "map_init alloc_keys alloc_cells c lf = (m0, 0)" "wf m0"
    using init_correct [OF assms(1-5)] by blast
  from run_correct [OF alloc m0(2) assms(6)] have wf: "wf m" using run m0(1) by auto
  obtain m' d' where "map_remove_if S m func d = Some (m', d')" "wf m'" "contents m' = map_without P (contents m)"
    using remove_if_correct [of m func P d] wf func by blast
  then show ?thesis using listing_correct wf by metis
qed

text \<open>The same for a map whose users name the keys by values of another type.\<close>

lemma refines_renamed:
  assumes alloc: "clearing S alloc_keys alloc_cells" and "1 \<le> unat c" and "unat c \<le> 2 ^ 30" and "lf < 1"
    and "1 \<le> lf * of_nat (unat c)" and f: "\<And>x. Q x \<Longrightarrow> valid (f x) \<and> g (f x) = x"
    and g: "\<And>k. valid k \<Longrightarrow> Q (g k) \<and> f (g k) = k" and ops: "\<forall>op \<in> set ops. Q (op_key op)"
  shows "\<exists>m m'. map_init alloc_keys alloc_cells c lf = (m, 0) \<and>
    map_run (\<lambda>m x. map_put S alloc_keys alloc_cells m (f x)) (\<lambda>m x. map_get S m (f x)) (\<lambda>m x. map_remove S m (f x)) m
      ops = Some (m', snd (map_spec Map.empty ops)) \<and>
    map_of (map (\<lambda>(k, v). (g k, v)) (map_listing S m')) = fst (map_spec Map.empty ops) \<and>
    distinct (map (\<lambda>(k, v). g k) (map_listing S m')) \<and> map_size m' = length (map_listing S m')"
proof -
  let ?ops = "map (map_map_op f id) ops"
  have "valid_ops ?ops" using ops f by (simp add: valid_ops_def op_key_map)
  obtain m where m: "map_init alloc_keys alloc_cells c lf = (m, 0)" "wf m" "contents m = Map.empty"
    using init_correct [OF assms(1-5)] by blast
  obtain m' where m': "map_run (map_put S alloc_keys alloc_cells) (map_get S) (map_remove S) m ?ops =
      Some (m', snd (map_spec Map.empty ?ops))" "wf m'" "contents m' = fst (map_spec Map.empty ?ops)"
    using run_correct [OF alloc m(2) \<open>valid_ops ?ops\<close>] m(3) by auto
  have spec: "snd (map_spec Map.empty ?ops) = snd (map_spec Map.empty ops) \<and>
      (\<forall>x. Q x \<longrightarrow> fst (map_spec Map.empty ?ops) (f x) = fst (map_spec Map.empty ops) x)"
    using map_spec_rename [of Q g f Map.empty Map.empty ops] f ops by auto
  note l = listing_correct [OF m'(2)]
  have vk: "valid k" if "(k, v) \<in> set (map_listing S m')" for k v
  proof -
    have "map_of (map_listing S m') k = Some v" using that l(2) by simp
    then show ?thesis using contents_valid [of m' k v] m'(2) l(1) by (simp add: table.wf_def)
  qed
  have inj: "g k = g k' \<longleftrightarrow> k = k'" if "valid k" "valid k'" for k k' using g that by metis
  have "distinct (map (\<lambda>(k, v). g k) (map_listing S m'))"
  proof -
    have "map (\<lambda>(k, v). g k) (map_listing S m') = map g (map fst (map_listing S m'))" by (simp add: split_beta)
    moreover have "inj_on g (set (map fst (map_listing S m')))" using inj vk by (auto simp: inj_on_def)
    ultimately show ?thesis using l(2) by (simp only: distinct_map [of g])
  qed
  moreover have "map_of (map (\<lambda>(k, v). (g k, v)) (map_listing S m')) x = fst (map_spec Map.empty ops) x" for x
  proof (cases "Q x")
    case True
    have eq: "(x = g k) = (f x = k)" if "valid k" for k using f [OF True] g [OF that] by metis
    have "map_of (map (\<lambda>(k, v). (g k, v)) L) x = map_of L (f x)" if "\<And>k v. (k, v) \<in> set L \<Longrightarrow> valid k"
      for L :: "('k \<times> 'v) list"
      using that
    proof (induction L)
      case (Cons kv L)
      have "valid (fst kv)" using Cons.prems [of "fst kv" "snd kv"] by simp
      then have "(x = g (fst kv)) = (f x = fst kv)" by (rule eq)
      then show ?case using Cons by (auto simp: split_beta)
    qed simp
    then have "map_of (map (\<lambda>(k, v). (g k, v)) (map_listing S m')) x = map_of (map_listing S m') (f x)" using vk by blast
    then show ?thesis using l(1) m'(3) spec True by simp
  next
    case False
    then have "fst (map_spec Map.empty ops) x = None" using ops by (intro map_spec_keys) auto
    moreover have "map_of (map (\<lambda>(k, v). (g k, v)) (map_listing S m')) x = None"
      using False vk g by (auto simp: map_of_eq_None_iff)
    ultimately show ?thesis by simp
  qed
  ultimately show ?thesis using m(1) m'(1) spec l(3) unfolding map_run_rename by auto
qed

text \<open>In a full map, looking for a key that is not there does not end.\<close>

lemma full_map_hangs:
  assumes "ok m" and "\<And>i. i < map_capacity m \<Longrightarrow> cell_value S (map_cells m ! i) \<noteq> None"
    and "key \<notin> set (map_keys m)" and "valid key"
  shows "map_get S m key = None" and "map_remove S m key = None" and "map_put S alloc_keys alloc_cells m key v = None"
proof -
  have "table.find_slot m key = None"
  proof (rule table.probe_full)
    show "map_slot S m p \<noteq> None" if "table.pos m p" for p using assms(2) that by (simp add: map_slot_def)
    show "\<nexists>v. table.holds m key v"
      using assms(1,3) by (auto simp: table.holds_def map_slot_def ok_def)
  qed (fact assms(1))
  then have "map_probe S m key = None" using assms by (simp add: probe_eq)
  then show "map_get S m key = None" and "map_remove S m key = None" and "map_put S alloc_keys alloc_cells m key v = None"
    by (simp_all add: map_get_def map_remove_def map_put_def)
qed

end

end
