(* ===== verification/Int64ToPtrHashMap.thy ===== *)
theory Int64ToPtrHashMap
  imports CellMap
begin

text \<open>
  \<open>aeron_int64_to_ptr_hash_map.h\<close>: the map from 64-bit keys to pointers. A pointer is a value of any
  type, NULL is \<open>None\<close>; a cell is in use when its pointer is not NULL.
\<close>

section \<open>The map\<close>

type_synonym 'v int64_to_ptr_hash_map = "(s64, 'v option) cell_map"

definition int64_to_ptr_hash_map_hash_key :: "s64 \<Rightarrow> nat \<Rightarrow> nat" where
  "int64_to_ptr_hash_map_hash_key key msk = unat (aeron_hash key (word_of_nat msk))"

definition int64_scheme :: "(s64, 'v option, 'v) map_scheme" where
  "int64_scheme = \<lparr>same_key = (=), hash_key = int64_to_ptr_hash_map_hash_key, cell_value = (\<lambda>c. c),
     value_cell = Some, absent_cell = None\<rparr>"

definition int64_to_ptr_hash_map_init ::
  "(nat \<Rightarrow> s64 list option) \<Rightarrow> (nat \<Rightarrow> 'v option list option) \<Rightarrow> u64 \<Rightarrow> rat \<Rightarrow> 'v int64_to_ptr_hash_map \<times> int" where
  "int64_to_ptr_hash_map_init = map_init"

definition int64_to_ptr_hash_map_delete :: "'v int64_to_ptr_hash_map \<Rightarrow> s64 list list \<times> 'v option list list" where
  "int64_to_ptr_hash_map_delete = map_delete"

definition int64_to_ptr_hash_map_rehash ::
  "(nat \<Rightarrow> s64 list option) \<Rightarrow> (nat \<Rightarrow> 'v option list option) \<Rightarrow> 'v int64_to_ptr_hash_map \<Rightarrow> nat
   \<Rightarrow> ('v int64_to_ptr_hash_map \<times> int) option" where
  "int64_to_ptr_hash_map_rehash = map_rehash int64_scheme"

text \<open>NULL is refused (\<open>EINVAL\<close>).\<close>

definition int64_to_ptr_hash_map_put ::
  "(nat \<Rightarrow> s64 list option) \<Rightarrow> (nat \<Rightarrow> 'v option list option) \<Rightarrow> 'v int64_to_ptr_hash_map \<Rightarrow> s64 \<Rightarrow> 'v option
   \<Rightarrow> ('v int64_to_ptr_hash_map \<times> int) option" where
  "int64_to_ptr_hash_map_put alloc_keys alloc_values m key value =
     (case value of
        None \<Rightarrow> Some (m, - 1)
      | Some v \<Rightarrow> map_put int64_scheme alloc_keys alloc_values m key v)"

definition int64_to_ptr_hash_map_get :: "'v int64_to_ptr_hash_map \<Rightarrow> s64 \<Rightarrow> 'v option option" where
  "int64_to_ptr_hash_map_get = map_get int64_scheme"

definition int64_to_ptr_hash_map_compact_chain ::
  "'v int64_to_ptr_hash_map \<Rightarrow> nat \<Rightarrow> 'v int64_to_ptr_hash_map option" where
  "int64_to_ptr_hash_map_compact_chain = map_compact_chain int64_scheme"

definition int64_to_ptr_hash_map_remove ::
  "'v int64_to_ptr_hash_map \<Rightarrow> s64 \<Rightarrow> ('v int64_to_ptr_hash_map \<times> 'v option) option" where
  "int64_to_ptr_hash_map_remove = map_remove int64_scheme"

definition int64_to_ptr_hash_map_for_each ::
  "'v int64_to_ptr_hash_map \<Rightarrow> ('d \<Rightarrow> s64 \<Rightarrow> 'v \<Rightarrow> 'd) \<Rightarrow> 'd \<Rightarrow> 'd" where
  "int64_to_ptr_hash_map_for_each = map_for_each int64_scheme"

definition int64_to_ptr_hash_map_remove_if ::
  "'v int64_to_ptr_hash_map \<Rightarrow> ('d \<Rightarrow> s64 \<Rightarrow> 'v \<Rightarrow> bool \<times> 'd) \<Rightarrow> 'd \<Rightarrow> ('v int64_to_ptr_hash_map \<times> 'd) option" where
  "int64_to_ptr_hash_map_remove_if = map_remove_if int64_scheme"

lemmas int64_map_defs = int64_to_ptr_hash_map_init_def int64_to_ptr_hash_map_rehash_def
  int64_to_ptr_hash_map_get_def int64_to_ptr_hash_map_remove_def int64_to_ptr_hash_map_remove_if_def

section \<open>Correctness\<close>

interpretation int64_map: sound_scheme int64_scheme "\<lambda>_. True"
proof
  show "hash_key int64_scheme k (n - 1) < n" if "0 < n" for n k
    using that unfolding int64_scheme_def map_scheme.simps int64_to_ptr_hash_map_hash_key_def
    by (rule masked_hash_less)
qed (simp_all add: int64_scheme_def)

text \<open>Allocators that have memory.\<close>

definition fresh_keys :: "nat \<Rightarrow> s64 list option" where
  "fresh_keys n = Some (replicate n 0)"

definition fresh_values :: "nat \<Rightarrow> 'v option list option" where
  "fresh_values n = Some (replicate n None)"

lemma fresh_clearing: "clearing int64_scheme fresh_keys fresh_values"
  by (simp add: clearing_def fresh_keys_def fresh_values_def int64_scheme_def)

interpretation int64_fresh: map_implementation "int64_map.wf :: 'v int64_to_ptr_hash_map \<Rightarrow> bool" int64_map.contents
  "map_put int64_scheme fresh_keys fresh_values" "map_get int64_scheme" "map_remove int64_scheme" "\<lambda>_ _ _. True"
  "\<lambda>_. True"
  by (rule int64_map.implements [OF fresh_clearing])

lemma int64_put_value:
  "(\<lambda>m k v. int64_to_ptr_hash_map_put alloc_keys alloc_values m k (Some v)) =
   map_put int64_scheme alloc_keys alloc_values"
  by (simp add: int64_to_ptr_hash_map_put_def fun_eq_iff)

lemma int64_valid_ops [simp]: "int64_map.valid_ops ops"
  by (simp add: int64_map.valid_ops_def)

text \<open>
  C16. A map made by \<open>aeron_int64_to_ptr_hash_map_init\<close> behaves as a partial function from keys to
  pointers under every sequence of \<open>put\<close>, \<open>get\<close> and \<open>remove\<close>, growing as needed, as long as there
  is memory: every operation returns, every answer is the one of the partial function, and
  \<open>for_each\<close> visits each entry of the result once.
\<close>

theorem int64_map_refines:
  assumes "clearing int64_scheme alloc_keys alloc_values" and "1 \<le> unat c" and "unat c \<le> 2 ^ 30" and "lf < 1"
    and "1 \<le> lf * of_nat (unat c)"
  shows "\<exists>m m'. int64_to_ptr_hash_map_init alloc_keys alloc_values c lf = (m, 0) \<and>
    map_run (\<lambda>m k v. int64_to_ptr_hash_map_put alloc_keys alloc_values m k (Some v)) int64_to_ptr_hash_map_get
      int64_to_ptr_hash_map_remove m ops = Some (m', snd (map_spec Map.empty ops)) \<and>
    map_of (int64_to_ptr_hash_map_for_each m' (\<lambda>es k v. es @ [(k, v)]) []) = fst (map_spec Map.empty ops) \<and>
    distinct (map fst (int64_to_ptr_hash_map_for_each m' (\<lambda>es k v. es @ [(k, v)]) [])) \<and>
    map_size m' = length (int64_to_ptr_hash_map_for_each m' (\<lambda>es k v. es @ [(k, v)]) [])"
  using int64_map.refines [OF assms int64_valid_ops]
  unfolding int64_put_value int64_to_ptr_hash_map_for_each_def map_listing_def int64_map_defs .

theorem int64_map_refines_witness:
  "\<exists>m m'. int64_to_ptr_hash_map_init fresh_keys fresh_values 2 AERON_MAP_DEFAULT_LOAD_FACTOR = (m, 0) \<and>
    map_run (\<lambda>m k v. int64_to_ptr_hash_map_put fresh_keys fresh_values m k (Some v)) int64_to_ptr_hash_map_get
      int64_to_ptr_hash_map_remove m
      [Put 5 ''a'', Put 6 ''b'', Put 7 ''c'', Put 5 ''d'', Remove 6, Get 5, Get 6, Get 7, Remove 9]
      = Some (m', [Some ''b'', Some ''d'', None, Some ''c'', None]) \<and>
    map_size m' = length (int64_to_ptr_hash_map_for_each m' (\<lambda>es k v. es @ [(k, v)]) [])"
proof -
  let ?ops = "[Put 5 ''a'', Put 6 ''b'', Put 7 ''c'', Put (5 :: s64) ''d'', Remove 6, Get 5, Get 6, Get 7, Remove 9]"
  have "snd (map_spec Map.empty ?ops) = [Some ''b'', Some ''d'', None, Some ''c'', None]" by simp
  then show ?thesis
    using int64_map_refines [OF fresh_clearing, of 2 AERON_MAP_DEFAULT_LOAD_FACTOR ?ops]
    by (auto simp: default_load_fits simp del: map_spec.simps)
qed

text \<open>
  On every map so reached, \<open>remove_if\<close> returns and leaves exactly the entries its predicate does not
  hold of, although removing an entry moves others.
\<close>

theorem int64_map_remove_if:
  assumes "clearing int64_scheme alloc_keys alloc_values" and "1 \<le> unat c" and "unat c \<le> 2 ^ 30" and "lf < 1"
    and "1 \<le> lf * of_nat (unat c)" and "\<And>d k v. fst (func d k v) = P k v"
    and "map_run (\<lambda>m k v. int64_to_ptr_hash_map_put alloc_keys alloc_values m k (Some v)) int64_to_ptr_hash_map_get
      int64_to_ptr_hash_map_remove (fst (int64_to_ptr_hash_map_init alloc_keys alloc_values c lf)) ops = Some (m, answers)"
  shows "\<exists>m' d'. int64_to_ptr_hash_map_remove_if m func d = Some (m', d') \<and>
    map_of (map_listing int64_scheme m') = map_without P (map_of (map_listing int64_scheme m)) \<and>
    distinct (map fst (map_listing int64_scheme m')) \<and> map_size m' = length (map_listing int64_scheme m')"
  using int64_map.removes [OF assms(1-5) int64_valid_ops, of func P ops m answers d] assms(6,7)
  unfolding int64_put_value int64_map_defs by blast

theorem int64_map_remove_if_witness:
  "\<exists>m. map_run (\<lambda>m k v. int64_to_ptr_hash_map_put fresh_keys fresh_values m k (Some v)) int64_to_ptr_hash_map_get
      int64_to_ptr_hash_map_remove
      (fst (int64_to_ptr_hash_map_init fresh_keys fresh_values 2 AERON_MAP_DEFAULT_LOAD_FACTOR))
      [Put 5 (1 :: nat), Put 6 2, Put 7 3] = Some (m, []) \<and>
    (\<exists>m' d'. int64_to_ptr_hash_map_remove_if m (\<lambda>d k v. (odd v, d + v)) (0 :: nat) = Some (m', d') \<and>
      map_of (map_listing int64_scheme m') = map_without (\<lambda>k. odd) (map_of (map_listing int64_scheme m)))"
proof -
  let ?lf = AERON_MAP_DEFAULT_LOAD_FACTOR
  have f: "1 \<le> unat (2 :: u64)" "unat (2 :: u64) \<le> 2 ^ 30" "?lf < 1" "1 \<le> ?lf * of_nat (unat (2 :: u64))"
    by (simp_all add: default_load_fits)
  obtain m where m: "map_run (\<lambda>m k v. int64_to_ptr_hash_map_put fresh_keys fresh_values m k (Some v))
      int64_to_ptr_hash_map_get int64_to_ptr_hash_map_remove
      (fst (int64_to_ptr_hash_map_init fresh_keys fresh_values 2 ?lf)) [Put 5 (1 :: nat), Put 6 2, Put 7 3] = Some (m, [])"
    using int64_map.refines [OF fresh_clearing f, of "[Put 5 (1 :: nat), Put 6 2, Put 7 3]"]
    unfolding int64_put_value int64_map_defs by auto
  then show ?thesis
    using int64_map_remove_if [OF fresh_clearing f _ m, of "\<lambda>d k v. (odd v, d + v)" "\<lambda>k. odd" 0] by auto
qed

section \<open>When there is no memory to grow\<close>

text \<open>
  C37. A \<open>put\<close> whose growth fails reports the error but has stored the entry, and it has already raised
  the threshold to that of the capacity it did not get. The table can then fill up, and looking up or
  removing a key it does not hold never returns: in a map of two slots, after the second \<open>put\<close>.
\<close>

theorem failed_growth_hangs:
  fixes a b :: 'v
  shows "\<exists>m0 m1 m2. int64_to_ptr_hash_map_init fresh_keys fresh_values 2 AERON_MAP_DEFAULT_LOAD_FACTOR = (m0, 0) \<and>
    int64_to_ptr_hash_map_put fresh_keys fresh_values m0 1 (Some a) = Some (m1, 0) \<and>
    int64_to_ptr_hash_map_put (\<lambda>n. None) (\<lambda>n. None) m1 2 (Some b) = Some (m2, - 1) \<and>
    int64_to_ptr_hash_map_get m2 1 = Some (Some a) \<and> int64_to_ptr_hash_map_get m2 2 = Some (Some b) \<and>
    int64_to_ptr_hash_map_get m2 3 = None \<and> int64_to_ptr_hash_map_remove m2 3 = None"
proof -
  let ?lf = AERON_MAP_DEFAULT_LOAD_FACTOR
  let ?m0 = "\<lparr>map_keys = [0, 0], map_cells = [None, None], map_load_factor = ?lf, map_capacity = 2,
    map_size = 0, map_resize_threshold = 1\<rparr> :: 'v int64_to_ptr_hash_map"
  let ?m1 = "?m0\<lparr>map_keys := [1, 0], map_cells := [Some a, None], map_size := 1\<rparr>"
  let ?m2 = "?m0\<lparr>map_keys := [1, 2], map_cells := [Some a, Some b], map_size := 2, map_resize_threshold := 2\<rparr>"
  have cap: "table_capacity 2 = 2"
    by (simp add: table_capacity_def aeron_find_next_power_of_two_def smear.simps)
  have t: "threshold_of ?lf 2 = 1" "threshold_of ?lf 4 = 2" by (simp_all add: threshold_default)
  have h: "int64_to_ptr_hash_map_hash_key 1 (Suc 0) = 0" "int64_to_ptr_hash_map_hash_key 2 (Suc 0) = 1"
    by (simp_all add: int64_to_ptr_hash_map_hash_key_def aeron_hash_def aeron_hash_code_def fold_hash_def)
  note sch = int64_scheme_def map_slot_def
  have p: "map_probe int64_scheme ?m0 1 = Some 0" "map_probe int64_scheme ?m1 2 = Some 1"
    "map_probe int64_scheme ?m2 1 = Some 0" "map_probe int64_scheme ?m2 2 = Some 1"
    by (simp_all add: map_probe_def h probe.simps [of _ _ _ 0] probe.simps [of _ _ _ "Suc 0"] sch)
  have "int64_map.ok ?m2" by (auto simp: int64_map.ok_def intro: exI [of _ 1])
  then have "int64_to_ptr_hash_map_get ?m2 3 = None" "int64_to_ptr_hash_map_remove ?m2 3 = None"
    unfolding int64_map_defs by (rule int64_map.full_map_hangs; auto simp: int64_scheme_def less_2_cases_iff)+
  moreover have "int64_to_ptr_hash_map_init fresh_keys fresh_values 2 ?lf = (?m0, 0)"
    using cap t(1) by (simp add: int64_map_defs map_init_def fresh_keys_def fresh_values_def Let_def numeral_2_eq_2)
  moreover have "int64_to_ptr_hash_map_put fresh_keys fresh_values ?m0 1 (Some a) = Some (?m1, 0)"
    using p(1) by (simp add: int64_to_ptr_hash_map_put_def map_put_def map_insert_def sch)
  moreover have "int64_to_ptr_hash_map_put (\<lambda>n. None) (\<lambda>n. None) ?m1 2 (Some b) = Some (?m2, - 1)"
    using p(2) t(2) by (simp add: int64_to_ptr_hash_map_put_def map_put_def map_insert_def map_rehash_def sch)
  moreover have "int64_to_ptr_hash_map_get ?m2 1 = Some (Some a)" "int64_to_ptr_hash_map_get ?m2 2 = Some (Some b)"
    using p(3,4) by (simp_all add: int64_map_defs map_get_def sch)
  ultimately show ?thesis by blast
qed

end
