(* ===== verification/Int64ToTaggedPtrHashMap.thy ===== *)
theory Int64ToTaggedPtrHashMap
  imports CellMap
begin

text \<open>
  \<open>aeron_int64_to_tagged_ptr_hash_map.h\<close>: the map from 64-bit keys to pointers with a tag. A cell is
  in use when its flag says so, and NULL is a value like any other. The answers of \<open>get\<close> and
  \<open>remove\<close>, a truth value and what is written through the \<open>tag\<close> and \<open>value\<close> pointers when it is
  true, are one optional pair.
\<close>

section \<open>The map\<close>

record 'p tagged_ptr_entry =
  entry_value :: "'p option"
  internal_flags :: u32
  entry_tag :: u32

definition AERON_INT64_TO_TAGGED_PTR_VALUE_PRESENT :: u32 where
  "AERON_INT64_TO_TAGGED_PTR_VALUE_PRESENT = 1"

definition AERON_INT64_TO_TAGGED_PTR_VALUE_ABSENT :: u32 where
  "AERON_INT64_TO_TAGGED_PTR_VALUE_ABSENT = 0"

type_synonym 'p int64_to_tagged_ptr_hash_map = "(s64, 'p tagged_ptr_entry) cell_map"

definition int64_to_tagged_ptr_hash_map_hash_key :: "s64 \<Rightarrow> nat \<Rightarrow> nat" where
  "int64_to_tagged_ptr_hash_map_hash_key key msk = unat (aeron_hash key (word_of_nat msk))"

definition tagged_scheme :: "(s64, 'p tagged_ptr_entry, u32 \<times> 'p option) map_scheme" where
  "tagged_scheme = \<lparr>same_key = (=), hash_key = int64_to_tagged_ptr_hash_map_hash_key,
     cell_value = (\<lambda>entry. if internal_flags entry = AERON_INT64_TO_TAGGED_PTR_VALUE_PRESENT
       then Some (entry_tag entry, entry_value entry) else None),
     value_cell = (\<lambda>(tag, value). \<lparr>entry_value = value, internal_flags = AERON_INT64_TO_TAGGED_PTR_VALUE_PRESENT,
       entry_tag = tag\<rparr>),
     absent_cell = \<lparr>entry_value = None, internal_flags = AERON_INT64_TO_TAGGED_PTR_VALUE_ABSENT, entry_tag = 0\<rparr>\<rparr>"

definition int64_to_tagged_ptr_hash_map_init ::
  "(nat \<Rightarrow> s64 list option) \<Rightarrow> (nat \<Rightarrow> 'p tagged_ptr_entry list option) \<Rightarrow> u64 \<Rightarrow> rat
   \<Rightarrow> 'p int64_to_tagged_ptr_hash_map \<times> int" where
  "int64_to_tagged_ptr_hash_map_init = map_init"

definition int64_to_tagged_ptr_hash_map_delete ::
  "'p int64_to_tagged_ptr_hash_map \<Rightarrow> s64 list list \<times> 'p tagged_ptr_entry list list" where
  "int64_to_tagged_ptr_hash_map_delete = map_delete"

definition int64_to_tagged_ptr_hash_map_rehash ::
  "(nat \<Rightarrow> s64 list option) \<Rightarrow> (nat \<Rightarrow> 'p tagged_ptr_entry list option) \<Rightarrow> 'p int64_to_tagged_ptr_hash_map \<Rightarrow> nat
   \<Rightarrow> ('p int64_to_tagged_ptr_hash_map \<times> int) option" where
  "int64_to_tagged_ptr_hash_map_rehash = map_rehash tagged_scheme"

definition int64_to_tagged_ptr_hash_map_put ::
  "(nat \<Rightarrow> s64 list option) \<Rightarrow> (nat \<Rightarrow> 'p tagged_ptr_entry list option) \<Rightarrow> 'p int64_to_tagged_ptr_hash_map \<Rightarrow> s64
   \<Rightarrow> s32 \<Rightarrow> 'p option \<Rightarrow> ('p int64_to_tagged_ptr_hash_map \<times> int) option" where
  "int64_to_tagged_ptr_hash_map_put alloc_keys alloc_entries m key tag value =
     map_put tagged_scheme alloc_keys alloc_entries m key (tag, value)"

definition int64_to_tagged_ptr_hash_map_get ::
  "'p int64_to_tagged_ptr_hash_map \<Rightarrow> s64 \<Rightarrow> (u32 \<times> 'p option) option option" where
  "int64_to_tagged_ptr_hash_map_get = map_get tagged_scheme"

definition int64_to_tagged_ptr_hash_map_compact_chain ::
  "'p int64_to_tagged_ptr_hash_map \<Rightarrow> nat \<Rightarrow> 'p int64_to_tagged_ptr_hash_map option" where
  "int64_to_tagged_ptr_hash_map_compact_chain = map_compact_chain tagged_scheme"

definition int64_to_tagged_ptr_hash_map_remove ::
  "'p int64_to_tagged_ptr_hash_map \<Rightarrow> s64 \<Rightarrow> ('p int64_to_tagged_ptr_hash_map \<times> (u32 \<times> 'p option) option) option" where
  "int64_to_tagged_ptr_hash_map_remove = map_remove tagged_scheme"

definition int64_to_tagged_ptr_hash_map_for_each ::
  "'p int64_to_tagged_ptr_hash_map \<Rightarrow> ('d \<Rightarrow> s64 \<Rightarrow> u32 \<Rightarrow> 'p option \<Rightarrow> 'd) \<Rightarrow> 'd \<Rightarrow> 'd" where
  "int64_to_tagged_ptr_hash_map_for_each m func = map_for_each tagged_scheme m (\<lambda>c key (tag, value). func c key tag value)"

definition int64_to_tagged_ptr_hash_map_remove_if ::
  "'p int64_to_tagged_ptr_hash_map \<Rightarrow> ('d \<Rightarrow> s64 \<Rightarrow> u32 \<Rightarrow> 'p option \<Rightarrow> bool \<times> 'd) \<Rightarrow> 'd
   \<Rightarrow> ('p int64_to_tagged_ptr_hash_map \<times> 'd) option" where
  "int64_to_tagged_ptr_hash_map_remove_if m func =
     map_remove_if tagged_scheme m (\<lambda>c key (tag, value). func c key tag value)"

lemmas tagged_map_defs = int64_to_tagged_ptr_hash_map_init_def int64_to_tagged_ptr_hash_map_get_def
  int64_to_tagged_ptr_hash_map_remove_def int64_to_tagged_ptr_hash_map_put_def
  int64_to_tagged_ptr_hash_map_remove_if_def

section \<open>Correctness\<close>

interpretation tagged_map: sound_scheme tagged_scheme "\<lambda>_. True"
proof
  show "hash_key tagged_scheme k (n - 1) < n" if "0 < n" for n k
    using that unfolding tagged_scheme_def map_scheme.simps int64_to_tagged_ptr_hash_map_hash_key_def
    by (rule masked_hash_less)
qed (auto simp: tagged_scheme_def AERON_INT64_TO_TAGGED_PTR_VALUE_PRESENT_def
    AERON_INT64_TO_TAGGED_PTR_VALUE_ABSENT_def)

lemma tagged_valid_ops [simp]: "tagged_map.valid_ops ops"
  by (simp add: tagged_map.valid_ops_def)

lemma tagged_put: "(\<lambda>m k (tag, v). int64_to_tagged_ptr_hash_map_put ak ae m k tag v) = map_put tagged_scheme ak ae"
  by (simp add: int64_to_tagged_ptr_hash_map_put_def fun_eq_iff)

text \<open>Allocators that have memory; what they hand out is cleared.\<close>

definition fresh_tagged_keys :: "nat \<Rightarrow> s64 list option" where
  "fresh_tagged_keys n = Some (replicate n 0)"

definition fresh_entries :: "nat \<Rightarrow> 'p tagged_ptr_entry list option" where
  "fresh_entries n = Some (replicate n \<lparr>entry_value = None, internal_flags = 0, entry_tag = 0\<rparr>)"

lemma fresh_tagged_clearing: "clearing tagged_scheme fresh_tagged_keys fresh_entries"
  by (simp add: clearing_def fresh_tagged_keys_def fresh_entries_def tagged_scheme_def
      AERON_INT64_TO_TAGGED_PTR_VALUE_PRESENT_def)

text \<open>
  The tagged map is a partial function from keys to pairs of a tag and a pointer under every sequence
  of operations, NULL pointers included: a key stored with NULL is found, and \<open>remove_if\<close> takes out
  what its predicate says and nothing else.
\<close>

theorem tagged_map_refines:
  assumes "clearing tagged_scheme alloc_keys alloc_entries" and "1 \<le> unat c" and "unat c \<le> 2 ^ 30" and "lf < 1"
    and "1 \<le> lf * of_nat (unat c)" and "\<And>d k tag v. fst (func d k tag v) = P k tag v"
  shows "\<exists>m m' m'' d'. int64_to_tagged_ptr_hash_map_init alloc_keys alloc_entries c lf = (m, 0) \<and>
    map_run (\<lambda>m k (tag, v). int64_to_tagged_ptr_hash_map_put alloc_keys alloc_entries m k tag v)
      int64_to_tagged_ptr_hash_map_get int64_to_tagged_ptr_hash_map_remove m ops =
      Some (m', snd (map_spec Map.empty ops)) \<and>
    int64_to_tagged_ptr_hash_map_remove_if m' func d = Some (m'', d') \<and>
    map_of (map_listing tagged_scheme m'') =
      map_without (\<lambda>k (tag, v). P k tag v) (fst (map_spec Map.empty ops)) \<and>
    map_size m'' = length (map_listing tagged_scheme m'')"
proof -
  obtain m m' where m: "map_init alloc_keys alloc_entries c lf = (m, 0)"
    "map_run (map_put tagged_scheme alloc_keys alloc_entries) (map_get tagged_scheme) (map_remove tagged_scheme) m ops =
      Some (m', snd (map_spec Map.empty ops))"
    "map_of (map_listing tagged_scheme m') = fst (map_spec Map.empty ops)"
    using tagged_map.refines [OF assms(1-5) tagged_valid_ops] by blast
  let ?func = "\<lambda>c key (tag, value). func c key tag value"
  have "fst (?func d k tv) = (\<lambda>k (tag, v). P k tag v) k tv" for d k tv using assms(6) by (cases tv) simp
  then have "\<exists>m'' d'. map_remove_if tagged_scheme m' ?func d = Some (m'', d') \<and>
      map_of (map_listing tagged_scheme m'') =
        map_without (\<lambda>k (tag, v). P k tag v) (map_of (map_listing tagged_scheme m')) \<and>
      distinct (map fst (map_listing tagged_scheme m'')) \<and> map_size m'' = length (map_listing tagged_scheme m'')"
    using m(1,2)
    by (intro tagged_map.removes [OF assms(1-5) tagged_valid_ops, where ops = ops and answers = "snd (map_spec Map.empty ops)"])
      simp_all
  then show ?thesis
    using m unfolding tagged_put unfolding tagged_map_defs by auto
qed

theorem tagged_map_refines_witness:
  "\<exists>m m' m'' d'. int64_to_tagged_ptr_hash_map_init fresh_tagged_keys fresh_entries 2 AERON_MAP_DEFAULT_LOAD_FACTOR = (m, 0) \<and>
    map_run (\<lambda>m k (tag, v). int64_to_tagged_ptr_hash_map_put fresh_tagged_keys fresh_entries m k tag v)
      int64_to_tagged_ptr_hash_map_get int64_to_tagged_ptr_hash_map_remove m
      [Put 1 (7, None), Put 2 (8, Some ''p''), Put 3 (9, None), Get 1, Get 4] =
      Some (m', [Some (7, None), None]) \<and>
    int64_to_tagged_ptr_hash_map_remove_if m' (\<lambda>d k tag v. (v = None, d)) () = Some (m'', d') \<and>
    map_size m'' = length (map_listing tagged_scheme m'')"
proof -
  let ?ops = "[Put 1 (7, None), Put 2 (8, Some ''p''), Put (3 :: s64) (9 :: u32, None), Get 1, Get 4]"
  have "snd (map_spec Map.empty ?ops) = [Some (7, None), None]" by simp
  then show ?thesis
    using tagged_map_refines [OF fresh_tagged_clearing, of 2 AERON_MAP_DEFAULT_LOAD_FACTOR "\<lambda>d k tag v. (v = None, d)"
        "\<lambda>k tag v. v = None" ?ops "()"]
    by (auto simp: default_load_fits simp del: map_spec.simps)
qed

end
