(* ===== verification/ArrayToPtrHashMap.thy ===== *)
theory ArrayToPtrHashMap
  imports CellMap
begin

text \<open>
  \<open>aeron_array_to_ptr_hash_map.h\<close> and \<open>aeron_str_to_ptr_hash_map.h\<close>: maps whose keys are runs of
  bytes and strings. The maps keep pointers to the callers' keys, which have to stay as they are while
  they are in the map; a key is modelled by what the pointer points to. A stored key carries its length
  and its hash code, which the comparison looks at first.
\<close>

text \<open>Both maps fold the hash code of a key the way \<open>aeron_hash\<close> does.\<close>

definition folded_index :: "u64 \<Rightarrow> nat \<Rightarrow> nat" where
  "folded_index key_hash_code msk =
     (let m = word_of_nat msk :: u64;
          hash = (if m \<le> 0xFFFFFFFF then ucast (fold_hash key_hash_code) else key_hash_code)
      in unat (hash AND m))"

lemma folded_index_less:
  assumes "0 < n"
  shows "folded_index h (n - 1) < n"
proof -
  have "folded_index h (n - 1) \<le> unat (word_of_nat (n - 1) :: u64)"
    unfolding folded_index_def Let_def using and_le by (simp only: word_le_nat_alt)
  also have "\<dots> \<le> n - 1" by (simp only: unsigned_of_nat) (simp add: take_bit_nat_less_eq_self)
  finally show ?thesis using assms by simp
qed

section \<open>Byte arrays\<close>

record array_key =
  arr :: "u8 list"
  arr_hash_code :: u64
  arr_length :: nat

type_synonym 'v array_to_ptr_hash_map = "(array_key, 'v option) cell_map"

definition aeron_array_hash :: "u8 list \<Rightarrow> u64" where
  "aeron_array_hash = aeron_fnv_64a_buf"

text \<open>The key \<open>put\<close> stores, and the one the operations look for.\<close>

definition array_key_of :: "u8 list \<Rightarrow> array_key" where
  "array_key_of key = \<lparr>arr = key, arr_hash_code = aeron_array_hash key, arr_length = length key\<rparr>"

definition array_to_ptr_hash_map_hash_key :: "u64 \<Rightarrow> nat \<Rightarrow> nat" where
  "array_to_ptr_hash_map_hash_key = folded_index"

definition memcmp_equal :: "'a list \<Rightarrow> 'a list \<Rightarrow> nat \<Rightarrow> bool" where
  "memcmp_equal a b n \<longleftrightarrow> take n a = take n b"

definition array_to_ptr_hash_map_compare :: "array_key \<Rightarrow> u8 list \<Rightarrow> nat \<Rightarrow> u64 \<Rightarrow> bool" where
  "array_to_ptr_hash_map_compare key key_arr key_arr_len key_hash_code \<longleftrightarrow>
     arr_hash_code key = key_hash_code \<and> arr_length key = key_arr_len \<and> memcmp_equal (arr key) key_arr key_arr_len"

definition array_scheme :: "(array_key, 'v option, 'v) map_scheme" where
  "array_scheme = \<lparr>same_key = (\<lambda>k k'. array_to_ptr_hash_map_compare k (arr k') (arr_length k') (arr_hash_code k')),
     hash_key = (\<lambda>k. array_to_ptr_hash_map_hash_key (arr_hash_code k)), cell_value = (\<lambda>c. c), value_cell = Some,
     absent_cell = None\<rparr>"

definition array_to_ptr_hash_map_init ::
  "(nat \<Rightarrow> array_key list option) \<Rightarrow> (nat \<Rightarrow> 'v option list option) \<Rightarrow> u64 \<Rightarrow> rat \<Rightarrow> 'v array_to_ptr_hash_map \<times> int" where
  "array_to_ptr_hash_map_init = map_init"

definition array_to_ptr_hash_map_delete :: "'v array_to_ptr_hash_map \<Rightarrow> array_key list list \<times> 'v option list list" where
  "array_to_ptr_hash_map_delete = map_delete"

definition array_to_ptr_hash_map_rehash ::
  "(nat \<Rightarrow> array_key list option) \<Rightarrow> (nat \<Rightarrow> 'v option list option) \<Rightarrow> 'v array_to_ptr_hash_map \<Rightarrow> nat
   \<Rightarrow> ('v array_to_ptr_hash_map \<times> int) option" where
  "array_to_ptr_hash_map_rehash = map_rehash array_scheme"

definition array_to_ptr_hash_map_put ::
  "(nat \<Rightarrow> array_key list option) \<Rightarrow> (nat \<Rightarrow> 'v option list option) \<Rightarrow> 'v array_to_ptr_hash_map \<Rightarrow> u8 list \<Rightarrow> 'v option
   \<Rightarrow> ('v array_to_ptr_hash_map \<times> int) option" where
  "array_to_ptr_hash_map_put alloc_keys alloc_values m key value =
     (case value of
        None \<Rightarrow> Some (m, - 1)
      | Some v \<Rightarrow> map_put array_scheme alloc_keys alloc_values m (array_key_of key) v)"

definition array_to_ptr_hash_map_get :: "'v array_to_ptr_hash_map \<Rightarrow> u8 list \<Rightarrow> 'v option option" where
  "array_to_ptr_hash_map_get m key = map_get array_scheme m (array_key_of key)"

definition array_to_ptr_hash_map_compact_chain ::
  "'v array_to_ptr_hash_map \<Rightarrow> nat \<Rightarrow> 'v array_to_ptr_hash_map option" where
  "array_to_ptr_hash_map_compact_chain = map_compact_chain array_scheme"

definition array_to_ptr_hash_map_remove ::
  "'v array_to_ptr_hash_map \<Rightarrow> u8 list \<Rightarrow> ('v array_to_ptr_hash_map \<times> 'v option) option" where
  "array_to_ptr_hash_map_remove m key = map_remove array_scheme m (array_key_of key)"

definition array_to_ptr_hash_map_for_each ::
  "'v array_to_ptr_hash_map \<Rightarrow> ('d \<Rightarrow> u8 list \<Rightarrow> nat \<Rightarrow> 'v \<Rightarrow> 'd) \<Rightarrow> 'd \<Rightarrow> 'd" where
  "array_to_ptr_hash_map_for_each m func = map_for_each array_scheme m (\<lambda>c k v. func c (arr k) (arr_length k) v)"

text \<open>The keys in a map are those \<open>put\<close> makes.\<close>

definition array_key_ok :: "array_key \<Rightarrow> bool" where
  "array_key_ok k \<longleftrightarrow> k = array_key_of (arr k)"

lemma arr_array_key_of [simp]: "arr (array_key_of a) = a"
  by (simp add: array_key_of_def)

interpretation array_map: sound_scheme array_scheme array_key_ok
proof
  show "same_key array_scheme k k' \<longleftrightarrow> k = k'" if ok: "array_key_ok k" "array_key_ok k'" for k k'
  proof -
    obtain a b where "k = array_key_of a" "k' = array_key_of b" using ok unfolding array_key_ok_def by blast
    then show ?thesis
      by (auto simp: array_scheme_def array_to_ptr_hash_map_compare_def array_key_of_def memcmp_equal_def)
  qed
  show "hash_key array_scheme k (n - 1) < n" if "0 < n" for n k
    using that unfolding array_scheme_def map_scheme.simps array_to_ptr_hash_map_hash_key_def
    by (rule folded_index_less)
qed (simp_all add: array_scheme_def)

lemma array_put_value:
  "(\<lambda>m k v. array_to_ptr_hash_map_put alloc_keys alloc_values m k (Some v)) =
   (\<lambda>m k. map_put array_scheme alloc_keys alloc_values m (array_key_of k))"
  by (simp add: array_to_ptr_hash_map_put_def fun_eq_iff)

definition fresh_array_keys :: "nat \<Rightarrow> array_key list option" where
  "fresh_array_keys n = Some (replicate n \<lparr>arr = [], arr_hash_code = 0, arr_length = 0\<rparr>)"

definition fresh_pointers :: "nat \<Rightarrow> 'v option list option" where
  "fresh_pointers n = Some (replicate n None)"

lemma fresh_array_clearing: "clearing array_scheme fresh_array_keys fresh_pointers"
  by (simp add: clearing_def fresh_array_keys_def fresh_pointers_def array_scheme_def)

lemma array_listing:
  "array_to_ptr_hash_map_for_each m (\<lambda>es a n v. es @ [(a, v)]) [] = map (\<lambda>(k, v). (arr k, v)) (map_listing array_scheme m)"
  by (simp add: array_to_ptr_hash_map_for_each_def map_listing_def map_for_each_def foldl_collect foldl_collect_key)

text \<open>
  The map with byte arrays as keys is a partial function from runs of bytes to pointers under every
  sequence of \<open>put\<close>, \<open>get\<close> and \<open>remove\<close>: keys with the same bytes are one key and others are not
  mixed up, also when their hash codes are equal.
\<close>

theorem array_map_refines:
  assumes "clearing array_scheme alloc_keys alloc_values" and "1 \<le> unat c" and "unat c \<le> 2 ^ 30" and "lf < 1"
    and "1 \<le> lf * of_nat (unat c)"
  shows "\<exists>m m'. array_to_ptr_hash_map_init alloc_keys alloc_values c lf = (m, 0) \<and>
    map_run (\<lambda>m k v. array_to_ptr_hash_map_put alloc_keys alloc_values m k (Some v)) array_to_ptr_hash_map_get
      array_to_ptr_hash_map_remove m ops = Some (m', snd (map_spec Map.empty ops)) \<and>
    map_of (array_to_ptr_hash_map_for_each m' (\<lambda>es a n v. es @ [(a, v)]) []) = fst (map_spec Map.empty ops) \<and>
    map_size m' = length (array_to_ptr_hash_map_for_each m' (\<lambda>es a n v. es @ [(a, v)]) [])"
proof -
  have "\<exists>m m'. map_init alloc_keys alloc_values c lf = (m, 0) \<and>
    map_run (\<lambda>m x. map_put array_scheme alloc_keys alloc_values m (array_key_of x))
      (\<lambda>m x. map_get array_scheme m (array_key_of x)) (\<lambda>m x. map_remove array_scheme m (array_key_of x)) m
      ops = Some (m', snd (map_spec Map.empty ops)) \<and>
    map_of (map (\<lambda>(k, v). (arr k, v)) (map_listing array_scheme m')) = fst (map_spec Map.empty ops) \<and>
    distinct (map (\<lambda>(k, v). arr k) (map_listing array_scheme m')) \<and> map_size m' = length (map_listing array_scheme m')"
    by (rule array_map.refines_renamed [OF assms, where Q = "\<lambda>_. True"]) (simp_all add: array_key_ok_def)
  then show ?thesis
    unfolding array_put_value array_listing array_to_ptr_hash_map_init_def array_to_ptr_hash_map_get_def
      array_to_ptr_hash_map_remove_def by (metis length_map)
qed

theorem array_map_refines_witness:
  "\<exists>m m'. array_to_ptr_hash_map_init fresh_array_keys fresh_pointers 2 AERON_MAP_DEFAULT_LOAD_FACTOR = (m, 0) \<and>
    map_run (\<lambda>m k v. array_to_ptr_hash_map_put fresh_array_keys fresh_pointers m k (Some v)) array_to_ptr_hash_map_get
      array_to_ptr_hash_map_remove m
      [Put [1, 2] ''a'', Put [] ''b'', Put [1] ''c'', Get [1, 2], Remove [], Get [], Get [1]] =
      Some (m', [Some ''a'', Some ''b'', None, Some ''c''])"
proof -
  let ?ops = "[Put [1, 2] ''a'', Put [] ''b'', Put [1 :: u8] ''c'', Get [1, 2], Remove [], Get [], Get [1]]"
  have "snd (map_spec Map.empty ?ops) = [Some ''a'', Some ''b'', None, Some ''c'']" by simp
  then show ?thesis
    using array_map_refines [OF fresh_array_clearing, of 2 AERON_MAP_DEFAULT_LOAD_FACTOR ?ops]
    by (auto simp: default_load_fits simp del: map_spec.simps)
qed

section \<open>Strings\<close>

record str_key =
  str :: string
  str_hash_code :: u64
  str_length :: nat

type_synonym 'v str_to_ptr_hash_map = "(str_key, 'v option) cell_map"

definition str_bytes :: "string \<Rightarrow> u8 list" where
  "str_bytes s = map of_char s"

definition str_key_of :: "string \<Rightarrow> str_key" where
  "str_key_of key = \<lparr>str = key, str_hash_code = aeron_fnv_64a_buf (str_bytes key), str_length = length key\<rparr>"

definition str_to_ptr_hash_map_hash_key :: "u64 \<Rightarrow> nat \<Rightarrow> nat" where
  "str_to_ptr_hash_map_hash_key = folded_index"

text \<open>
  \<open>strncmp (a, b, n) == 0\<close>: at most \<open>n\<close> characters, and none behind a NUL. After the characters of
  a string there is one.
\<close>

fun strncmp_equal :: "string \<Rightarrow> string \<Rightarrow> nat \<Rightarrow> bool" where
  "strncmp_equal a b 0 = True"
| "strncmp_equal [] [] (Suc n) = True"
| "strncmp_equal [] (d # ds) (Suc n) = (d = NUL)"
| "strncmp_equal (c # cs) [] (Suc n) = (c = NUL)"
| "strncmp_equal (c # cs) (d # ds) (Suc n) = (c = d \<and> (c = NUL \<or> strncmp_equal cs ds n))"

definition str_to_ptr_hash_map_compare :: "str_key \<Rightarrow> string \<Rightarrow> nat \<Rightarrow> u64 \<Rightarrow> bool" where
  "str_to_ptr_hash_map_compare key key_str key_str_len key_hash_code \<longleftrightarrow>
     str_hash_code key = key_hash_code \<and> str_length key = key_str_len \<and> strncmp_equal (str key) key_str key_str_len"

definition str_scheme :: "(str_key, 'v option, 'v) map_scheme" where
  "str_scheme = \<lparr>same_key = (\<lambda>k k'. str_to_ptr_hash_map_compare k (str k') (str_length k') (str_hash_code k')),
     hash_key = (\<lambda>k. str_to_ptr_hash_map_hash_key (str_hash_code k)), cell_value = (\<lambda>c. c), value_cell = Some,
     absent_cell = None\<rparr>"

definition str_to_ptr_hash_map_init ::
  "(nat \<Rightarrow> str_key list option) \<Rightarrow> (nat \<Rightarrow> 'v option list option) \<Rightarrow> u64 \<Rightarrow> rat \<Rightarrow> 'v str_to_ptr_hash_map \<times> int" where
  "str_to_ptr_hash_map_init = map_init"

definition str_to_ptr_hash_map_delete :: "'v str_to_ptr_hash_map \<Rightarrow> str_key list list \<times> 'v option list list" where
  "str_to_ptr_hash_map_delete = map_delete"

definition str_to_ptr_hash_map_rehash ::
  "(nat \<Rightarrow> str_key list option) \<Rightarrow> (nat \<Rightarrow> 'v option list option) \<Rightarrow> 'v str_to_ptr_hash_map \<Rightarrow> nat
   \<Rightarrow> ('v str_to_ptr_hash_map \<times> int) option" where
  "str_to_ptr_hash_map_rehash = map_rehash str_scheme"

definition str_to_ptr_hash_map_put ::
  "(nat \<Rightarrow> str_key list option) \<Rightarrow> (nat \<Rightarrow> 'v option list option) \<Rightarrow> 'v str_to_ptr_hash_map \<Rightarrow> string \<Rightarrow> 'v option
   \<Rightarrow> ('v str_to_ptr_hash_map \<times> int) option" where
  "str_to_ptr_hash_map_put alloc_keys alloc_values m key value =
     (case value of
        None \<Rightarrow> Some (m, - 1)
      | Some v \<Rightarrow> map_put str_scheme alloc_keys alloc_values m (str_key_of key) v)"

definition str_to_ptr_hash_map_get :: "'v str_to_ptr_hash_map \<Rightarrow> string \<Rightarrow> 'v option option" where
  "str_to_ptr_hash_map_get m key = map_get str_scheme m (str_key_of key)"

definition str_to_ptr_hash_map_compact_chain :: "'v str_to_ptr_hash_map \<Rightarrow> nat \<Rightarrow> 'v str_to_ptr_hash_map option" where
  "str_to_ptr_hash_map_compact_chain = map_compact_chain str_scheme"

definition str_to_ptr_hash_map_remove ::
  "'v str_to_ptr_hash_map \<Rightarrow> string \<Rightarrow> ('v str_to_ptr_hash_map \<times> 'v option) option" where
  "str_to_ptr_hash_map_remove m key = map_remove str_scheme m (str_key_of key)"

definition str_to_ptr_hash_map_for_each ::
  "'v str_to_ptr_hash_map \<Rightarrow> ('d \<Rightarrow> string \<Rightarrow> nat \<Rightarrow> 'v \<Rightarrow> 'd) \<Rightarrow> 'd \<Rightarrow> 'd" where
  "str_to_ptr_hash_map_for_each m func = map_for_each str_scheme m (\<lambda>c k v. func c (str k) (str_length k) v)"

definition str_key_ok :: "str_key \<Rightarrow> bool" where
  "str_key_ok k \<longleftrightarrow> k = str_key_of (str k) \<and> is_c_string (str k)"

lemma str_str_key_of [simp]: "str (str_key_of a) = a"
  by (simp add: str_key_of_def)

lemma strncmp_equal_iff:
  "is_c_string a \<Longrightarrow> is_c_string b \<Longrightarrow> length a = n \<Longrightarrow> length b = n \<Longrightarrow> strncmp_equal a b n \<longleftrightarrow> a = b"
  by (induction a b n rule: strncmp_equal.induct) auto

interpretation str_map: sound_scheme str_scheme str_key_ok
proof
  show "same_key str_scheme k k' \<longleftrightarrow> k = k'" if ok: "str_key_ok k" "str_key_ok k'" for k k'
  proof -
    obtain a b where "k = str_key_of a" "k' = str_key_of b" "is_c_string a" "is_c_string b"
      using ok unfolding str_key_ok_def by blast
    then show ?thesis
      by (auto simp: str_scheme_def str_to_ptr_hash_map_compare_def str_key_of_def strncmp_equal_iff)
  qed
  show "hash_key str_scheme k (n - 1) < n" if "0 < n" for n k
    using that unfolding str_scheme_def map_scheme.simps str_to_ptr_hash_map_hash_key_def
    by (rule folded_index_less)
qed (simp_all add: str_scheme_def)

lemma str_put_value:
  "(\<lambda>m k v. str_to_ptr_hash_map_put alloc_keys alloc_values m k (Some v)) =
   (\<lambda>m k. map_put str_scheme alloc_keys alloc_values m (str_key_of k))"
  by (simp add: str_to_ptr_hash_map_put_def fun_eq_iff)

definition fresh_str_keys :: "nat \<Rightarrow> str_key list option" where
  "fresh_str_keys n = Some (replicate n \<lparr>str = [], str_hash_code = 0, str_length = 0\<rparr>)"

lemma fresh_str_clearing: "clearing str_scheme fresh_str_keys fresh_pointers"
  by (simp add: clearing_def fresh_str_keys_def fresh_pointers_def str_scheme_def)

lemma str_listing:
  "str_to_ptr_hash_map_for_each m (\<lambda>es a n v. es @ [(a, v)]) [] = map (\<lambda>(k, v). (str k, v)) (map_listing str_scheme m)"
  by (simp add: str_to_ptr_hash_map_for_each_def map_listing_def map_for_each_def foldl_collect foldl_collect_key)

text \<open>
  The same for the map with strings as keys, used with strings without a NUL up to the given length,
  since the hash covers that length and the comparison ends at a NUL.
\<close>

theorem str_map_refines:
  assumes "clearing str_scheme alloc_keys alloc_values" and "1 \<le> unat c" and "unat c \<le> 2 ^ 30" and "lf < 1"
    and "1 \<le> lf * of_nat (unat c)" and "\<forall>op \<in> set ops. is_c_string (op_key op)"
  shows "\<exists>m m'. str_to_ptr_hash_map_init alloc_keys alloc_values c lf = (m, 0) \<and>
    map_run (\<lambda>m k v. str_to_ptr_hash_map_put alloc_keys alloc_values m k (Some v)) str_to_ptr_hash_map_get
      str_to_ptr_hash_map_remove m ops = Some (m', snd (map_spec Map.empty ops)) \<and>
    map_of (str_to_ptr_hash_map_for_each m' (\<lambda>es a n v. es @ [(a, v)]) []) = fst (map_spec Map.empty ops) \<and>
    map_size m' = length (str_to_ptr_hash_map_for_each m' (\<lambda>es a n v. es @ [(a, v)]) [])"
proof -
  have "\<exists>m m'. map_init alloc_keys alloc_values c lf = (m, 0) \<and>
    map_run (\<lambda>m x. map_put str_scheme alloc_keys alloc_values m (str_key_of x))
      (\<lambda>m x. map_get str_scheme m (str_key_of x)) (\<lambda>m x. map_remove str_scheme m (str_key_of x)) m
      ops = Some (m', snd (map_spec Map.empty ops)) \<and>
    map_of (map (\<lambda>(k, v). (str k, v)) (map_listing str_scheme m')) = fst (map_spec Map.empty ops) \<and>
    distinct (map (\<lambda>(k, v). str k) (map_listing str_scheme m')) \<and> map_size m' = length (map_listing str_scheme m')"
    by (rule str_map.refines_renamed [OF assms(1-5) _ _ assms(6)]) (simp_all add: str_key_ok_def)
  then show ?thesis
    unfolding str_put_value str_listing str_to_ptr_hash_map_init_def str_to_ptr_hash_map_get_def
      str_to_ptr_hash_map_remove_def by (metis length_map)
qed

theorem str_map_refines_witness:
  "\<exists>m m'. str_to_ptr_hash_map_init fresh_str_keys fresh_pointers 2 AERON_MAP_DEFAULT_LOAD_FACTOR = (m, 0) \<and>
    map_run (\<lambda>m k v. str_to_ptr_hash_map_put fresh_str_keys fresh_pointers m k (Some v)) str_to_ptr_hash_map_get
      str_to_ptr_hash_map_remove m
      [Put ''ab'' 1, Put ''abc'' (2 :: nat), Put ''ab'' 3, Get ''ab'', Get ''abc'', Get ''a''] =
      Some (m', [Some 3, Some 2, None])"
proof -
  let ?ops = "[Put ''ab'' 1, Put ''abc'' (2 :: nat), Put ''ab'' 3, Get ''ab'', Get ''abc'', Get ''a'']"
  have "snd (map_spec Map.empty ?ops) = [Some 3, Some 2, None]" by simp
  moreover have "\<forall>op \<in> set ?ops. is_c_string (op_key op)" by (simp add: op_key_def is_c_string_def)
  ultimately show ?thesis
    using str_map_refines [OF fresh_str_clearing, of 2 AERON_MAP_DEFAULT_LOAD_FACTOR ?ops]
    by (auto simp: default_load_fits simp del: map_spec.simps)
qed

end
