(* ===== verification/Int64CounterMap.thy ===== *)
theory Int64CounterMap
  imports AeronUtil CountedTable MapContract
begin

text \<open>
  \<open>aeron_int64_counter_map.h\<close>: counters by 64-bit keys, kept with their keys in one array. A counter
  that has the initial value is not stored. \<open>alloc n\<close> is the content of a new array of \<open>n\<close> elements,
  or \<open>None\<close>; a loop that does not end is \<open>None\<close>. Sums are those of 64-bit registers; where a sum is not
  representable, C leaves the result open, and the theorem below asks that all sums are.
\<close>

section \<open>The map\<close>

record int64_counter_map =
  cm_entries :: "s64 list"
  cm_load_factor :: rat
  cm_entries_length :: nat
  cm_size :: nat
  cm_resize_threshold :: nat
  cm_initial_value :: s64

definition int64_counter_map_hash_key :: "s64 \<Rightarrow> nat \<Rightarrow> nat" where
  "int64_counter_map_hash_key key msk = unat (aeron_even_hash key (word_of_nat msk))"

definition int64_counter_map_init ::
  "(nat \<Rightarrow> s64 list option) \<Rightarrow> s64 \<Rightarrow> u64 \<Rightarrow> rat \<Rightarrow> int64_counter_map \<times> int" where
  "int64_counter_map_init alloc initial_value initial_capacity load_factor =
     (let capacity = table_capacity initial_capacity;
          m = \<lparr>cm_entries = [], cm_load_factor = load_factor, cm_entries_length = 2 * capacity, cm_size = 0,
               cm_resize_threshold = threshold_of load_factor capacity, cm_initial_value = initial_value\<rparr>
      in case alloc (cm_entries_length m) of
           None \<Rightarrow> (m, - 1)
         | Some entries \<Rightarrow> (m\<lparr>cm_entries := map (\<lambda>_. initial_value) entries\<rparr>, 0))"

text \<open>The array \<open>delete\<close> frees.\<close>

definition int64_counter_map_delete :: "int64_counter_map \<Rightarrow> s64 list list" where
  "int64_counter_map_delete m = (if cm_entries m \<noteq> [] then [cm_entries m] else [])"

text \<open>A slot is free when its value is the initial one.\<close>

definition cm_slot :: "int64_counter_map \<Rightarrow> nat \<Rightarrow> (s64 \<times> s64) option" where
  "cm_slot m i =
     (if cm_entries m ! (i + 1) = cm_initial_value m then None else Some (cm_entries m ! i, cm_entries m ! (i + 1)))"

text \<open>What the loop of \<open>rehash\<close> looks at in the new array: the key, not the value.\<close>

definition cm_key_slot :: "int64_counter_map \<Rightarrow> nat \<Rightarrow> (s64 \<times> s64) option" where
  "cm_key_slot m i =
     (if cm_entries m ! i = cm_initial_value m then None else Some (cm_entries m ! i, cm_entries m ! (i + 1)))"

definition cm_store :: "int64_counter_map \<Rightarrow> nat \<Rightarrow> s64 \<Rightarrow> s64 \<Rightarrow> int64_counter_map" where
  "cm_store m i key v = m\<lparr>cm_entries := (cm_entries m)[i := key, i + 1 := v]\<rparr>"

definition cm_clear :: "int64_counter_map \<Rightarrow> nat \<Rightarrow> int64_counter_map" where
  "cm_clear m i = m\<lparr>cm_entries := (cm_entries m)[i + 1 := cm_initial_value m], cm_size := cm_size m - 1\<rparr>"

definition cm_move :: "int64_counter_map \<Rightarrow> nat \<Rightarrow> nat \<Rightarrow> int64_counter_map" where
  "cm_move m delete_index index =
     m\<lparr>cm_entries := (cm_entries m)[delete_index := cm_entries m ! index,
         delete_index + 1 := cm_entries m ! (index + 1), index + 1 := cm_initial_value m]\<rparr>"

definition cm_slots :: "int64_counter_map \<Rightarrow> (s64 \<times> s64) option list" where
  "cm_slots m = map (\<lambda>i. cm_slot m (2 * i)) [0..<cm_entries_length m div 2]"

definition int64_counter_map_rehash ::
  "(nat \<Rightarrow> s64 list option) \<Rightarrow> int64_counter_map \<Rightarrow> nat \<Rightarrow> (int64_counter_map \<times> int) option" where
  "int64_counter_map_rehash alloc m new_entries_length =
     (let msk = new_entries_length - 1
      in case alloc new_entries_length of
           None \<Rightarrow> Some (m, - 1)
         | Some tmp \<Rightarrow>
             (case rehash_loop cm_key_slot cm_store (\<lambda>key. int64_counter_map_hash_key key msk) (next_index 2 msk)
                     (cm_slots m)
                     (m\<lparr>cm_entries := map (\<lambda>_. cm_initial_value m) tmp, cm_entries_length := new_entries_length,
                        cm_resize_threshold := threshold_of (cm_load_factor m) (new_entries_length div 2)\<rparr>) of
                None \<Rightarrow> None
              | Some m \<Rightarrow> Some (m, 0)))"

definition int64_counter_map_compact_chain :: "int64_counter_map \<Rightarrow> nat \<Rightarrow> int64_counter_map option" where
  "int64_counter_map_compact_chain m delete_index =
     (let msk = cm_entries_length m - 1
      in compact_loop cm_slot cm_move (\<lambda>key. int64_counter_map_hash_key key msk) (next_index 2 msk)
           delete_index delete_index m)"

definition cm_probe :: "int64_counter_map \<Rightarrow> s64 \<Rightarrow> nat option" where
  "cm_probe m key =
     (let msk = cm_entries_length m - 1
      in probe (cm_slot m) (\<lambda>k. k = key) (next_index 2 msk) (int64_counter_map_hash_key key msk))"

definition int64_counter_map_remove :: "int64_counter_map \<Rightarrow> s64 \<Rightarrow> (int64_counter_map \<times> s64) option" where
  "int64_counter_map_remove m key =
     (case cm_probe m key of
        None \<Rightarrow> None
      | Some index \<Rightarrow>
          (let v = cm_entries m ! (index + 1)
           in if v = cm_initial_value m then Some (m, v)
              else map_option (\<lambda>m. (m, v)) (int64_counter_map_compact_chain (cm_clear m index) index)))"

text \<open>
  Results are the map, the returned code, and what is written through the pointer of the caller,
  \<open>None\<close> when nothing is.
\<close>

text \<open>The end of \<open>put\<close> and of adding a counter: growing when the threshold is passed.\<close>

definition cm_grow ::
  "(nat \<Rightarrow> s64 list option) \<Rightarrow> int64_counter_map \<Rightarrow> s64 \<Rightarrow> (int64_counter_map \<times> int \<times> s64 option) option" where
  "cm_grow alloc m old_value =
     (if cm_resize_threshold m < cm_size m
      then (case int64_counter_map_rehash alloc m (cm_entries_length m * 2) of
              None \<Rightarrow> None
            | Some (m, rc) \<Rightarrow> if rc < 0 then Some (m, - 1, None) else Some (m, 0, Some old_value))
      else Some (m, 0, Some old_value))"

definition int64_counter_map_put ::
  "(nat \<Rightarrow> s64 list option) \<Rightarrow> int64_counter_map \<Rightarrow> s64 \<Rightarrow> s64 \<Rightarrow> (int64_counter_map \<times> int \<times> s64 option) option" where
  "int64_counter_map_put alloc m key v =
     (if v = cm_initial_value m then Some (m, - 1, None)
      else case cm_probe m key of
        None \<Rightarrow> None
      | Some index \<Rightarrow>
          (let old_value = cm_entries m ! (index + 1);
               m = (if old_value = cm_initial_value m
                    then m\<lparr>cm_size := cm_size m + 1, cm_entries := (cm_entries m)[index := key]\<rparr> else m);
               m = m\<lparr>cm_entries := (cm_entries m)[index + 1 := v]\<rparr>
           in cm_grow alloc m old_value))"

definition int64_counter_map_get :: "int64_counter_map \<Rightarrow> s64 \<Rightarrow> s64 option" where
  "int64_counter_map_get m key = map_option (\<lambda>index. cm_entries m ! (index + 1)) (cm_probe m key)"

text \<open>
  The signed sum of a value and a delta is undefined in C when it leaves 64 bits; here it wraps, and the
  theorem about sequences of operations asks that it does not leave them.
\<close>

definition int64_counter_map_get_and_add ::
  "(nat \<Rightarrow> s64 list option) \<Rightarrow> int64_counter_map \<Rightarrow> s64 \<Rightarrow> s64 \<Rightarrow> (int64_counter_map \<times> int \<times> s64 option) option" where
  "int64_counter_map_get_and_add alloc m key delta =
     (case cm_probe m key of
        None \<Rightarrow> None
      | Some index \<Rightarrow>
          (let old_value = cm_entries m ! (index + 1)
           in if delta \<noteq> 0
              then
                (let new_value = old_value + delta;
                     m = m\<lparr>cm_entries := (cm_entries m)[index + 1 := new_value]\<rparr>
                 in if cm_initial_value m = old_value
                    then
                      (let m = m\<lparr>cm_size := cm_size m + 1, cm_entries := (cm_entries m)[index := key]\<rparr>
                       in cm_grow alloc m old_value)
                    else if cm_initial_value m = new_value
                    then map_option (\<lambda>m. (m, 0, Some old_value))
                      (int64_counter_map_compact_chain (m\<lparr>cm_size := cm_size m - 1\<rparr>) index)
                    else Some (m, 0, Some old_value))
              else Some (m, 0, Some old_value)))"

text \<open>\<open>existing_value\<close> is 0 when the addition failed.\<close>

definition int64_counter_map_add_and_get ::
  "(nat \<Rightarrow> s64 list option) \<Rightarrow> int64_counter_map \<Rightarrow> s64 \<Rightarrow> s64 \<Rightarrow> (int64_counter_map \<times> int \<times> s64 option) option" where
  "int64_counter_map_add_and_get alloc m key delta =
     map_option (\<lambda>(m, result, written).
         (m, result, Some ((case written of None \<Rightarrow> 0 | Some existing_value \<Rightarrow> existing_value) + delta)))
       (int64_counter_map_get_and_add alloc m key delta)"

definition int64_counter_map_inc_and_get where
  "int64_counter_map_inc_and_get alloc m key = int64_counter_map_add_and_get alloc m key 1"

definition int64_counter_map_dec_and_get where
  "int64_counter_map_dec_and_get alloc m key = int64_counter_map_add_and_get alloc m key (- 1)"

definition int64_counter_map_get_and_inc where
  "int64_counter_map_get_and_inc alloc m key = int64_counter_map_get_and_add alloc m key 1"

definition int64_counter_map_get_and_dec where
  "int64_counter_map_get_and_dec alloc m key = int64_counter_map_get_and_add alloc m key (- 1)"

definition int64_counter_map_for_each :: "int64_counter_map \<Rightarrow> ('d \<Rightarrow> s64 \<Rightarrow> s64 \<Rightarrow> 'd) \<Rightarrow> 'd \<Rightarrow> 'd" where
  "int64_counter_map_for_each m func clientd =
     foldl (\<lambda>c (key, v). func c key v) clientd (cell_entries (cm_slots m))"

text \<open>\<open>map->initial_value != remove (map, key)\<close>, with the value for the loop.\<close>

definition cm_is_removed :: "int64_counter_map \<Rightarrow> s64 \<Rightarrow> (int64_counter_map \<times> s64 option) option" where
  "cm_is_removed m key =
     map_option (\<lambda>(m', v). (m', if cm_initial_value m \<noteq> v then Some v else None)) (int64_counter_map_remove m key)"

definition int64_counter_map_remove_if ::
  "int64_counter_map \<Rightarrow> ('d \<Rightarrow> s64 \<Rightarrow> s64 \<Rightarrow> bool \<times> 'd) \<Rightarrow> 'd \<Rightarrow> (int64_counter_map \<times> 'd) option" where
  "int64_counter_map_remove_if m func clientd =
     remove_if_loop cm_entries_length (remove_if_visit cm_slot cm_is_removed func) 2 0 (cm_size m) (m, clientd)"

section \<open>The layout is one for open addressing\<close>

definition cm_capacity :: "int64_counter_map \<Rightarrow> nat" where
  "cm_capacity m = cm_entries_length m div 2"

definition cm_ok :: "int64_counter_map \<Rightarrow> bool" where
  "cm_ok m \<longleftrightarrow> (\<exists>j. cm_entries_length m = 2 * 2 ^ j) \<and> length (cm_entries m) = cm_entries_length m \<and>
     (\<forall>q k v. position 2 (cm_capacity m) q \<and> cm_slot m q = Some (k, v) \<longrightarrow> k \<noteq> cm_initial_value m)"

definition cm_position_of :: "nat \<Rightarrow> s64 \<Rightarrow> nat" where
  "cm_position_of n key = int64_counter_map_hash_key key (2 * n - 1)"

definition cm_load :: "int64_counter_map \<Rightarrow> (rat \<times> nat) \<times> s64" where
  "cm_load m = ((cm_load_factor m, cm_resize_threshold m), cm_initial_value m)"

definition cm_storable :: "int64_counter_map \<Rightarrow> s64 \<Rightarrow> s64 \<Rightarrow> bool" where
  "cm_storable m key v \<longleftrightarrow> key \<noteq> cm_initial_value m \<and> v \<noteq> cm_initial_value m"

lemma position_2: "position 2 n p \<longleftrightarrow> (\<exists>i<n. p = 2 * i)"
  by (simp add: position_def)

lemma cm_hash_position:
  assumes "0 < n"
  shows "position 2 n (cm_position_of n key)"
proof -
  let ?h = "aeron_even_hash key (word_of_nat (2 * n - 1))"
  have "unat ?h \<le> unat (word_of_nat (2 * n - 1) :: u64)"
    using aeron_even_hash_le by (simp only: word_le_nat_alt)
  also have "\<dots> \<le> 2 * n - 1" by (simp only: unsigned_of_nat) (simp add: take_bit_nat_less_eq_self)
  finally have "unat ?h < 2 * n" using assms by simp
  moreover have "\<not> bit (unat ?h) 0"
    using aeron_even_hash_even [of key "word_of_nat (2 * n - 1)"] by (simp only: bit_unsigned_iff simp_thms)
  then have "even (unat ?h)" by (simp add: bit_0)
  then obtain b where b: "unat ?h = 2 * b" by (elim evenE)
  ultimately have "b < n" by linarith
  then show ?thesis
    unfolding position_2 cm_position_of_def int64_counter_map_hash_key_def b by blast
qed

lemma cm_updates:
  assumes len: "length (cm_entries m) = 2 * cm_capacity m" and p: "position 2 (cm_capacity m) p"
    and q: "position 2 (cm_capacity m) q"
  shows "cm_storable m key v \<Longrightarrow> cm_slot (cm_store m p key v) q = (if q = p then Some (key, v) else cm_slot m q)"
    and "cm_slot (cm_clear m p) q = (if q = p then None else cm_slot m q)"
    and "position 2 (cm_capacity m) d \<Longrightarrow> d \<noteq> p \<Longrightarrow>
      cm_slot (cm_move m d p) q = (if q = p then None else if q = d then cm_slot m p else cm_slot m q)"
proof -
  obtain a b where ab: "a < cm_capacity m" "p = 2 * a" "b < cm_capacity m" "q = 2 * b"
    using p q by (auto simp: position_2)
  show "cm_slot (cm_store m p key v) q = (if q = p then Some (key, v) else cm_slot m q)" if "cm_storable m key v"
    using that len ab by (simp add: cm_slot_def cm_store_def cm_storable_def nth_list_update Suc_double_not_eq_double
        double_not_eq_Suc_double)
  show "cm_slot (cm_clear m p) q = (if q = p then None else cm_slot m q)"
    using len ab by (simp add: cm_slot_def cm_clear_def nth_list_update double_not_eq_Suc_double)
  show "cm_slot (cm_move m d p) q = (if q = p then None else if q = d then cm_slot m p else cm_slot m q)"
    if d: "position 2 (cm_capacity m) d" "d \<noteq> p"
  proof -
    obtain c where "c < cm_capacity m" "d = 2 * c" using d(1) by (auto simp: position_2)
    then show ?thesis
      using d(2) len ab by (simp add: cm_slot_def cm_move_def nth_list_update Suc_double_not_eq_double double_not_eq_Suc_double)
  qed
qed

lemma cm_ok_update:
  assumes "cm_ok m" and "cm_entries_length m' = cm_entries_length m" and "length (cm_entries m') = length (cm_entries m)"
    and "cm_initial_value m' = cm_initial_value m"
    and "\<And>q k v. position 2 (cm_capacity m) q \<Longrightarrow> cm_slot m' q = Some (k, v) \<Longrightarrow>
      k \<noteq> cm_initial_value m \<or> (\<exists>q'. position 2 (cm_capacity m) q' \<and> cm_slot m q' = Some (k, v))"
  shows "cm_ok m'"
proof -
  have "cm_capacity m' = cm_capacity m" using assms(2) by (simp add: cm_capacity_def)
  then show ?thesis using assms unfolding cm_ok_def by metis
qed

lemma cm_unchanged [simp]:
  "cm_capacity (cm_store m p key v) = cm_capacity m" "cm_capacity (cm_clear m p) = cm_capacity m"
  "cm_capacity (cm_move m d i) = cm_capacity m"
  "cm_initial_value (cm_store m p key v) = cm_initial_value m" "cm_initial_value (cm_clear m p) = cm_initial_value m"
  "cm_initial_value (cm_move m d i) = cm_initial_value m"
  "cm_entries_length (cm_store m p key v) = cm_entries_length m" "cm_entries_length (cm_clear m p) = cm_entries_length m"
  "cm_entries_length (cm_move m d i) = cm_entries_length m"
  "length (cm_entries (cm_store m p key v)) = length (cm_entries m)"
  "length (cm_entries (cm_clear m p)) = length (cm_entries m)"
  "length (cm_entries (cm_move m d i)) = length (cm_entries m)"
  by (simp_all add: cm_capacity_def cm_store_def cm_clear_def cm_move_def)

lemma cm_ok_length: "cm_ok m \<Longrightarrow> length (cm_entries m) = 2 * cm_capacity m"
  by (auto simp: cm_ok_def cm_capacity_def)

interpretation cm_table: counted_table cm_slot cm_store cm_clear cm_move cm_position_of cm_capacity 2 cm_ok cm_storable
  cm_size cm_load "\<lambda>r. snd (fst r)" "\<lambda>r. load_ok (fst r)"
proof
  fix m p
  assume m: "cm_ok m" and p: "position 2 (cm_capacity m) p"
  note up = cm_updates [OF cm_ok_length [OF m] p]
  show "cm_ok (cm_store m p key v) \<and> cm_capacity (cm_store m p key v) = cm_capacity m \<and>
      (\<forall>q. position 2 (cm_capacity m) q \<longrightarrow> cm_slot (cm_store m p key v) q = (if q = p then Some (key, v) else cm_slot m q))"
    if "cm_storable m key v" for key v
  proof -
    have "cm_ok (cm_store m p key v)"
      by (rule cm_ok_update [OF m]) (use up(1) [OF _ that] that in \<open>auto simp: cm_storable_def split: if_splits\<close>)
    then show ?thesis using up(1) [OF _ that] by simp
  qed
  show "cm_ok (cm_clear m p) \<and> cm_capacity (cm_clear m p) = cm_capacity m \<and>
      (\<forall>q. position 2 (cm_capacity m) q \<longrightarrow> cm_slot (cm_clear m p) q = (if q = p then None else cm_slot m q))"
  proof -
    have "cm_ok (cm_clear m p)" by (rule cm_ok_update [OF m]) (use up(2) in \<open>auto split: if_splits\<close>)
    then show ?thesis using up(2) by simp
  qed
next
  fix m d p
  assume m: "cm_ok m" and p: "position 2 (cm_capacity m) d" "position 2 (cm_capacity m) p" "d \<noteq> p"
  note up = cm_updates(3) [OF cm_ok_length [OF m] p(2) _ p(1,3)]
  show "cm_ok (cm_move m d p) \<and> cm_capacity (cm_move m d p) = cm_capacity m \<and>
      (\<forall>q. position 2 (cm_capacity m) q \<longrightarrow>
         cm_slot (cm_move m d p) q = (if q = p then None else if q = d then cm_slot m p else cm_slot m q))"
  proof -
    have "cm_ok (cm_move m d p)" by (rule cm_ok_update [OF m]) (use up p in \<open>auto split: if_splits\<close>)
    then show ?thesis using up by simp
  qed
next
  show "position 2 (cm_capacity m) (cm_position_of (cm_capacity m) key)" if "cm_ok m" for m key
    using that by (intro cm_hash_position) (auto simp: cm_ok_def cm_capacity_def)
qed (simp_all add: cm_store_def cm_storable_def cm_clear_def cm_move_def cm_load_def load_ok_less)

section \<open>The operations\<close>

abbreviation cm_wf :: "int64_counter_map \<Rightarrow> bool" where
  "cm_wf \<equiv> cm_table.wf"

text \<open>The counters the map stands for: every key has one.\<close>

definition counter :: "int64_counter_map \<Rightarrow> s64 \<Rightarrow> s64" where
  "counter m key = (case cm_table.contents m key of None \<Rightarrow> cm_initial_value m | Some v \<Rightarrow> v)"

lemma cm_wf_ok [simp]: "cm_wf m \<Longrightarrow> cm_ok m"
  by (simp add: cm_table.wf_def cm_table.inv_def)

lemma cm_entries_length_eq: "cm_ok m \<Longrightarrow> cm_entries_length m = 2 * cm_capacity m"
  by (auto simp: cm_ok_def cm_capacity_def)

lemma cm_next_index: "cm_ok m \<Longrightarrow> next_index 2 (cm_entries_length m - Suc 0) = next_position 2 (cm_capacity m)"
proof -
  assume ok: "cm_ok m"
  then obtain j where "cm_entries_length m = 2 * 2 ^ j" by (auto simp: cm_ok_def)
  then have "2 * cm_capacity m = 2 ^ Suc j" using cm_entries_length_eq [OF ok] by simp
  from next_index_position [OF this] show ?thesis using cm_entries_length_eq [OF ok] by simp
qed

lemma cm_position_eq: "(\<lambda>key. int64_counter_map_hash_key key (2 * n - Suc 0)) = cm_position_of n"
  by (simp add: cm_position_of_def fun_eq_iff)

lemma cm_probe_eq: "cm_ok m \<Longrightarrow> cm_probe m key = cm_table.find_slot m key"
  using cm_next_index [of m] by (simp add: cm_probe_def Let_def cm_entries_length_eq cm_position_of_def)

lemma cm_slots_eq: "cm_slots m = cm_table.cells m"
  by (simp add: cm_slots_def cm_table.cells_def cm_capacity_def)

text \<open>The lookup, in terms of the counters.\<close>

lemma cm_lookup:
  assumes "cm_wf m"
  obtains j where "cm_probe m key = Some j" and "cm_table.find_slot m key = Some j" and "cm_table.pos m j"
    and "cm_entries m ! Suc j = counter m key"
    and "counter m key = cm_initial_value m \<longleftrightarrow> cm_slot m j = None"
    and "counter m key = cm_initial_value m \<longleftrightarrow> cm_table.contents m key = None"
    and "\<And>k v. cm_slot m j = Some (k, v) \<Longrightarrow> k = key \<and> v = counter m key \<and> cm_entries m ! j = key"
proof -
  obtain j where j: "cm_table.find_slot m key = Some j" "cm_table.pos m j"
    "map_option snd (cm_slot m j) = cm_table.contents m key" "\<And>k' w. cm_slot m j = Some (k', w) \<Longrightarrow> k' = key"
    using cm_table.get_step [OF assms] by metis
  have e: "cm_entries m ! Suc j = counter m key"
    by (simp add: counter_def j(3) [symmetric] cm_slot_def)
  have i: "counter m key = cm_initial_value m \<longleftrightarrow> cm_slot m j = None"
    by (simp add: counter_def j(3) [symmetric] cm_slot_def)
  have c: "counter m key = cm_initial_value m \<longleftrightarrow> cm_table.contents m key = None"
    using i by (simp add: j(3) [symmetric])
  have k: "k = key \<and> v = counter m key \<and> cm_entries m ! j = key" if s: "cm_slot m j = Some (k, v)" for k v
  proof -
    have "cm_entries m ! j = k" "cm_entries m ! Suc j = v" using s by (auto simp: cm_slot_def split: if_splits)
    then show ?thesis using j(4) [OF s] e by simp
  qed
  have "cm_probe m key = Some j" using j(1) cm_probe_eq [of m key] assms by simp
  then show ?thesis by (rule that [OF _ j(1,2) e i c k])
qed

lemma cm_get_correct: "cm_wf m \<Longrightarrow> int64_counter_map_get m key = Some (counter m key)"
  by (rule cm_lookup [of m key]) (simp_all add: int64_counter_map_get_def)

lemma cm_compact_clear:
  assumes "cm_ok m"
  shows "int64_counter_map_compact_chain (cm_clear m j) j =
    compact_loop cm_slot cm_move (cm_position_of (cm_capacity m)) (next_position 2 (cm_capacity m)) j j (cm_clear m j)"
  using assms cm_next_index [of m]
  by (simp add: int64_counter_map_compact_chain_def Let_def cm_entries_length_eq cm_position_eq)

lemma cm_counter_update:
  assumes "cm_table.contents m' = (cm_table.contents m)(key := w)" and "cm_initial_value m' = cm_initial_value m"
  shows "counter m' = (counter m)(key := (case w of None \<Rightarrow> cm_initial_value m | Some v \<Rightarrow> v))"
  using assms by (auto simp: counter_def fun_eq_iff split: option.split)

lemma cm_delete_correct:
  assumes wf: "cm_wf m" and "cm_table.pos m j" and "cm_slot m j = Some (key, v)"
  obtains m' where "int64_counter_map_compact_chain (cm_clear m j) j = Some m'" and "cm_wf m'"
    and "counter m' = (counter m)(key := cm_initial_value m)" and "cm_initial_value m' = cm_initial_value m"
proof -
  obtain m' where m': "compact_loop cm_slot cm_move (cm_position_of (cm_capacity m)) (next_position 2 (cm_capacity m)) j j
      (cm_clear m j) = Some m'" "cm_wf m'" "cm_table.contents m' = (cm_table.contents m)(key := None)" "cm_load m' = cm_load m"
    by (rule cm_table.remove_step [OF assms])
  have "counter m' = (counter m)(key := cm_initial_value m)" "cm_initial_value m' = cm_initial_value m"
    using cm_counter_update [OF m'(3)] m'(4) by (simp_all add: cm_load_def)
  then show ?thesis using that m' cm_compact_clear [of m j] wf by simp
qed

lemma cm_remove_correct:
  assumes wf: "cm_wf m"
  shows "\<exists>m'. int64_counter_map_remove m key = Some (m', counter m key) \<and> cm_wf m' \<and>
    counter m' = (counter m)(key := cm_initial_value m) \<and> cm_initial_value m' = cm_initial_value m"
proof (rule cm_lookup [OF wf, of key])
  fix j
  assume j: "cm_probe m key = Some j" "cm_table.pos m j" "cm_entries m ! Suc j = counter m key"
    "counter m key = cm_initial_value m \<longleftrightarrow> cm_slot m j = None"
    and at: "\<And>k v. cm_slot m j = Some (k, v) \<Longrightarrow> k = key \<and> v = counter m key \<and> cm_entries m ! j = key"
  show ?thesis
  proof (cases "cm_slot m j")
    case None
    then show ?thesis using j wf by (simp add: int64_counter_map_remove_def fun_upd_idem)
  next
    case (Some kv)
    then have kv: "cm_slot m j = Some (key, counter m key)" using at by (cases kv) auto
    obtain m' where "int64_counter_map_compact_chain (cm_clear m j) j = Some m'" "cm_wf m'"
      "counter m' = (counter m)(key := cm_initial_value m)" "cm_initial_value m' = cm_initial_value m"
      by (rule cm_delete_correct [OF wf j(2) kv])
    then show ?thesis using j kv by (simp add: int64_counter_map_remove_def)
  qed
qed

section \<open>Growing\<close>

text \<open>
  Looking at the keys finds the same free slots as looking at the values as long as no key is the
  initial value.
\<close>

definition cm_clean :: "int64_counter_map \<Rightarrow> bool" where
  "cm_clean m \<longleftrightarrow> (\<forall>q. position 2 (cm_capacity m) q \<longrightarrow> cm_key_slot m q = cm_slot m q)"

lemma cm_clean_store:
  assumes "cm_clean m" and "length (cm_entries m) = 2 * cm_capacity m" and p: "position 2 (cm_capacity m) p"
    and "cm_storable m key v"
  shows "cm_clean (cm_store m p key v)"
  unfolding cm_clean_def cm_unchanged
proof (intro allI impI)
  fix q
  assume q: "position 2 (cm_capacity m) q"
  obtain a b where "a < cm_capacity m" "p = 2 * a" "b < cm_capacity m" "q = 2 * b"
    using p q by (auto simp: position_2)
  then have "cm_key_slot (cm_store m p key v) q = (if q = p then Some (key, v) else cm_key_slot m q)"
    using assms(2,4) by (simp add: cm_key_slot_def cm_store_def cm_storable_def nth_list_update
        Suc_double_not_eq_double double_not_eq_Suc_double)
  then show "cm_key_slot (cm_store m p key v) q = cm_slot (cm_store m p key v) q"
    using cm_updates(1) [OF assms(2) p q assms(4)] assms(1) q by (simp add: cm_clean_def)
qed

lemma cm_rehash_loop_keys:
  assumes "\<And>k v. (k, v) \<in> set (cell_entries cells) \<Longrightarrow> cm_storable m k v"
  shows "cm_clean m \<Longrightarrow> length (cm_entries m) = 2 * cm_capacity m \<Longrightarrow> 0 < n \<Longrightarrow> n = cm_capacity m \<Longrightarrow>
    rehash_loop cm_key_slot cm_store (cm_position_of n) (next_position 2 n) cells m =
    rehash_loop cm_slot cm_store (cm_position_of n) (next_position 2 n) cells m"
  using assms
proof (induction cells arbitrary: m)
  case (Cons c cells)
  show ?case
  proof (cases c)
    case None
    then show ?thesis using Cons by simp
  next
    case (Some kv)
    obtain k v where c: "c = Some (k, v)" using Some by (cases kv) simp
    let ?P = "position 2 n" and ?step = "next_position 2 n"
    have step: "?P i \<Longrightarrow> ?P (?step i)" for i by (rule position_next) simp_all
    have h: "?P (cm_position_of n k)" using Cons.prems(3) by (rule cm_hash_position)
    have same: "probe (cm_key_slot m) (\<lambda>k'. False) ?step (cm_position_of n k) =
        probe (cm_slot m) (\<lambda>k'. False) ?step (cm_position_of n k)"
      by (rule probe_restrict [where P = ?P]) (use step h Cons.prems(1,4) in \<open>auto simp: cm_clean_def\<close>)
    have st: "cm_storable m k v" using Cons.prems(5) c by simp
    show ?thesis
    proof (cases "probe (cm_slot m) (\<lambda>k'. False) ?step (cm_position_of n k)")
      case None
      then show ?thesis using c same by simp
    next
      case (Some j)
      have "?P j" by (rule probe_stays [OF Some h step])
      then have "cm_clean (cm_store m j k v)"
        using cm_clean_store Cons.prems(1,2,4) st by blast
      then have "rehash_loop cm_key_slot cm_store (cm_position_of n) ?step cells (cm_store m j k v) =
          rehash_loop cm_slot cm_store (cm_position_of n) ?step cells (cm_store m j k v)"
        using Cons.prems c by (intro Cons.IH) (auto simp: cm_storable_def)
      then show ?thesis using c same Some by simp
    qed
  qed
qed simp

text \<open>An allocator that has memory; the map fills the array itself.\<close>

definition providing :: "(nat \<Rightarrow> s64 list option) \<Rightarrow> bool" where
  "providing alloc \<longleftrightarrow> (\<forall>n. \<exists>block. alloc n = Some block \<and> length block = n)"

lemma cm_rehash_grows:
  assumes alloc: "providing alloc" and m: "cm_table.inv m" "cm_size m = card (cm_table.used m)"
    and size: "cm_size m \<le> Suc (threshold_of (cm_load_factor m) (cm_capacity m))"
    and lf: "fitting (cm_load_factor m) (cm_capacity m)"
  shows "\<exists>m'. int64_counter_map_rehash alloc m (cm_entries_length m * 2) = Some (m', 0) \<and> cm_wf m' \<and>
    counter m' = counter m \<and> cm_initial_value m' = cm_initial_value m"
proof -
  let ?n = "cm_capacity m * 2" and ?lf = "cm_load_factor m" and ?i = "cm_initial_value m"
  have ok: "cm_ok m" using m(1) by (simp add: cm_table.inv_def)
  have len: "cm_entries_length m * 2 = 2 * ?n" using cm_entries_length_eq [OF ok] by simp
  obtain block where block: "alloc (2 * ?n) = Some block" "length block = 2 * ?n"
    using alloc unfolding providing_def by blast
  define tmp where "tmp = m\<lparr>cm_entries := map (\<lambda>_. ?i) block, cm_entries_length := 2 * ?n,
    cm_resize_threshold := threshold_of ?lf ?n\<rparr>"
  have tmp: "cm_capacity tmp = ?n" "cm_entries_length tmp = 2 * ?n" "cm_initial_value tmp = ?i"
    "length (cm_entries tmp) = 2 * ?n" "cm_load tmp = ((?lf, threshold_of ?lf ?n), ?i)" "cm_size tmp = cm_size m"
    using block(2) by (simp_all add: tmp_def cm_capacity_def cm_load_def)
  have free: "cm_slot tmp q = None" "cm_key_slot tmp q = None" if "position 2 ?n q" for q
    using that block(2) by (auto simp: tmp_def position_2 cm_slot_def cm_key_slot_def)
  obtain j where "cm_entries_length m = 2 * 2 ^ j" using ok by (auto simp: cm_ok_def)
  then have "2 * ?n = 2 * 2 ^ Suc j" using len by simp
  then have "\<exists>j. 2 * ?n = 2 * 2 ^ j" by blast
  then have ok': "cm_ok tmp" using free unfolding cm_ok_def tmp by auto
  have empty: "cm_table.empty tmp" using ok' free by (simp add: cm_table.empty_def tmp)
  have grow: "cm_size m \<le> threshold_of ?lf ?n" "fitting ?lf ?n"
    using size fitting_threshold [OF lf] by (simp_all add: mult.commute)
  have one: "cm_table.one_slot m" using m(1) by (simp add: cm_table.inv_def)
  have st: "cm_storable tmp k v" if h: "cm_table.holds m k v" for k v
  proof -
    obtain p where p: "cm_table.pos m p" "cm_slot m p = Some (k, v)" using h by (auto simp: cm_table.holds_def)
    then have "k \<noteq> ?i" using ok by (auto simp: cm_ok_def)
    moreover have "v \<noteq> ?i" using p(2) by (auto simp: cm_slot_def split: if_splits)
    ultimately show ?thesis by (simp add: cm_storable_def tmp)
  qed
  then have storable: "cm_storable tmp k v" if "cm_table.contents m k = Some v" for k v
    using that cm_table.contents_holds [OF one] by simp
  obtain m' where m': "rehash_loop cm_slot cm_store (cm_position_of (cm_capacity tmp))
      (next_position 2 (cm_capacity tmp)) (cm_table.cells m) tmp = Some m'"
    "cm_wf m'" "cm_table.contents m' = cm_table.contents m" "cm_load m' = cm_load tmp"
    by (rule cm_table.grow_step [OF m empty])
      (use grow storable in \<open>simp_all add: load_ok_def tmp\<close>)
  have "rehash_loop cm_key_slot cm_store (cm_position_of ?n) (next_position 2 ?n) (cm_table.cells m) tmp = Some m'"
    using m'(1) cm_table.cells_entries(1) [OF one] st free block(2) fitting_threshold(4) [OF grow(2)]
    by (subst cm_rehash_loop_keys) (auto simp: cm_clean_def tmp)
  moreover have "next_index 2 (2 * ?n - Suc 0) = next_position 2 ?n"
    using cm_next_index [OF ok'] by (simp add: tmp)
  ultimately have "int64_counter_map_rehash alloc m (cm_entries_length m * 2) = Some (m', 0)"
    unfolding len using block(1) cm_position_eq [of ?n]
    by (simp add: int64_counter_map_rehash_def Let_def cm_slots_eq tmp_def mult.commute [of "cm_capacity m" 2])
  moreover have "counter m' = counter m" "cm_initial_value m' = ?i"
    using m'(3,4) by (auto simp: counter_def fun_eq_iff tmp cm_load_def [of m'] split: option.split)
  ultimately show ?thesis using m'(2) by blast
qed

section \<open>Storing\<close>

text \<open>The map after a counter was written at the index the lookup found, for a new key with the key.\<close>

definition cm_written :: "int64_counter_map \<Rightarrow> nat \<Rightarrow> s64 \<Rightarrow> s64 \<Rightarrow> int64_counter_map" where
  "cm_written m j key v =
     cm_store (if cm_slot m j = None then m\<lparr>cm_size := Suc (cm_size m)\<rparr> else m) j key v"

lemma cm_written_correct:
  assumes wf: "cm_wf m" and find: "cm_table.find_slot m key = Some j" and st: "cm_storable m key v"
  defines "m1 \<equiv> cm_written m j key v"
  shows "cm_table.inv m1" and "cm_size m1 = card (cm_table.used m1)" and "counter m1 = (counter m)(key := v)"
    and "cm_size m1 \<le> Suc (cm_resize_threshold m)" and "cm_size m1 \<le> cm_resize_threshold m \<Longrightarrow> cm_wf m1"
    and "cm_load m1 = cm_load m" and "cm_capacity m1 = cm_capacity m"
proof -
  have same: "cm_table.same_layout m1 (cm_store m j key v)"
    by (auto simp: m1_def cm_written_def cm_table.same_layout_def cm_slot_def cm_ok_def cm_capacity_def cm_store_def)
  show load: "cm_load m1 = cm_load m" by (simp add: m1_def cm_written_def cm_load_def cm_store_def)
  show "cm_capacity m1 = cm_capacity m" by (simp add: m1_def cm_written_def cm_capacity_def cm_store_def)
  have size: "cm_size m1 = (if cm_slot m j = None then Suc (cm_size m) else cm_size m)"
    by (simp add: m1_def cm_written_def cm_store_def)
  note put = cm_table.put_step [OF wf st find same load size]
  show "cm_table.inv m1" "cm_size m1 = card (cm_table.used m1)" by (fact put(1,3))+
  show "cm_size m1 \<le> Suc (cm_resize_threshold m)" using put(4) by (simp add: cm_load_def)
  show "cm_size m1 \<le> cm_resize_threshold m \<Longrightarrow> cm_wf m1" using put(5) by (simp add: cm_load_def)
  show "counter m1 = (counter m)(key := v)"
    using cm_counter_update [OF put(2)] load by (simp add: cm_load_def)
qed

lemma cm_grow_written:
  assumes alloc: "providing alloc" and wf: "cm_wf m" and find: "cm_table.find_slot m key = Some j"
    and st: "cm_storable m key v" and big: "cm_resize_threshold m < cm_size (cm_written m j key v)"
  shows "\<exists>m'. int64_counter_map_rehash alloc (cm_written m j key v) (cm_entries_length (cm_written m j key v) * 2)
      = Some (m', 0) \<and> cm_wf m' \<and> counter m' = (counter m)(key := v) \<and> cm_initial_value m' = cm_initial_value m"
proof -
  note w = cm_written_correct [OF wf find st]
  have "load_ok (cm_load_factor m, cm_resize_threshold m) (cm_capacity m)"
    using wf by (simp add: cm_table.wf_def cm_load_def)
  then have "cm_size (cm_written m j key v) \<le>
      Suc (threshold_of (cm_load_factor (cm_written m j key v)) (cm_capacity (cm_written m j key v)))"
    "fitting (cm_load_factor (cm_written m j key v)) (cm_capacity (cm_written m j key v))"
    using w(4,6,7) by (simp_all add: load_ok_def cm_load_def)
  from cm_rehash_grows [OF alloc w(1,2) this] show ?thesis using w(3,6) by (simp add: cm_load_def)
qed

lemma cm_grow_correct:
  assumes alloc: "providing alloc" and wf: "cm_wf m" and find: "cm_table.find_slot m key = Some j"
    and st: "cm_storable m key v"
  shows "\<exists>m'. cm_grow alloc (cm_written m j key v) old = Some (m', 0, Some old) \<and> cm_wf m' \<and>
    counter m' = (counter m)(key := v) \<and> cm_initial_value m' = cm_initial_value m"
proof -
  note w = cm_written_correct [OF wf find st]
  have t: "cm_resize_threshold (cm_written m j key v) = cm_resize_threshold m"
    "cm_initial_value (cm_written m j key v) = cm_initial_value m" using w(6) by (simp_all add: cm_load_def)
  show ?thesis
  proof (cases "cm_resize_threshold m < cm_size (cm_written m j key v)")
    case True
    from cm_grow_written [OF alloc wf find st this] show ?thesis using True by (auto simp: cm_grow_def t)
  next
    case False
    then show ?thesis using w(3,5) by (simp add: cm_grow_def t)
  qed
qed

lemma cm_put_correct:
  assumes alloc: "providing alloc" and wf: "cm_wf m" and st: "cm_storable m key v"
  shows "\<exists>m'. int64_counter_map_put alloc m key v = Some (m', 0, Some (counter m key)) \<and> cm_wf m' \<and>
    counter m' = (counter m)(key := v) \<and> cm_initial_value m' = cm_initial_value m"
proof (rule cm_lookup [OF wf, of key])
  fix j
  assume j: "cm_probe m key = Some j" "cm_table.find_slot m key = Some j" "cm_entries m ! Suc j = counter m key"
    "counter m key = cm_initial_value m \<longleftrightarrow> cm_slot m j = None"
    and at: "\<And>k v. cm_slot m j = Some (k, v) \<Longrightarrow> k = key \<and> v = counter m key \<and> cm_entries m ! j = key"
  have v: "v \<noteq> cm_initial_value m" using st by (simp add: cm_storable_def)
  have "int64_counter_map_put alloc m key v = cm_grow alloc (cm_written m j key v) (counter m key)"
    using j(1,3,4) v at
    by (cases "cm_slot m j") (auto simp: int64_counter_map_put_def cm_written_def cm_store_def)
  then show ?thesis using cm_grow_correct [OF alloc wf j(2) st] by simp
qed

text \<open>Adding may make a counter, change it, or bring it back to the initial value.\<close>

lemma cm_get_and_add_correct:
  assumes alloc: "providing alloc" and wf: "cm_wf m" and key: "key \<noteq> cm_initial_value m"
  shows "\<exists>m'. int64_counter_map_get_and_add alloc m key delta = Some (m', 0, Some (counter m key)) \<and> cm_wf m' \<and>
    counter m' = (counter m)(key := counter m key + delta) \<and> cm_initial_value m' = cm_initial_value m"
proof (rule cm_lookup [OF wf, of key])
  fix j
  assume j: "cm_probe m key = Some j" "cm_table.find_slot m key = Some j" "cm_entries m ! Suc j = counter m key"
    "counter m key = cm_initial_value m \<longleftrightarrow> cm_slot m j = None" and pos: "cm_table.pos m j"
    and at: "\<And>k v. cm_slot m j = Some (k, v) \<Longrightarrow> k = key \<and> v = counter m key \<and> cm_entries m ! j = key"
  let ?v = "counter m key + delta"
  consider "delta = 0" | "delta \<noteq> 0" "cm_slot m j = None" | "cm_slot m j \<noteq> None" "?v = cm_initial_value m"
    | "delta \<noteq> 0" "cm_slot m j \<noteq> None" "?v \<noteq> cm_initial_value m" by blast
  then show ?thesis
  proof cases
    case 1
    then show ?thesis using j wf by (simp add: int64_counter_map_get_and_add_def)
  next
    case 2
    have st: "cm_storable m key ?v" using key 2 j(4) by (simp add: cm_storable_def)
    have "int64_counter_map_get_and_add alloc m key delta = cm_grow alloc (cm_written m j key ?v) (counter m key)"
      using j 2 by (simp add: int64_counter_map_get_and_add_def Let_def cm_written_def cm_store_def list_update_swap)
    then show ?thesis using cm_grow_correct [OF alloc wf j(2) st] by simp
  next
    case 3
    then obtain kv where "cm_slot m j = Some kv" by blast
    then have kv: "cm_slot m j = Some (key, counter m key)" using at by (cases kv) auto
    obtain m' where m': "int64_counter_map_compact_chain (cm_clear m j) j = Some m'" "cm_wf m'"
      "counter m' = (counter m)(key := cm_initial_value m)" "cm_initial_value m' = cm_initial_value m"
      by (rule cm_delete_correct [OF wf pos kv])
    have "delta \<noteq> 0" using 3 j(4) by auto
    then have "int64_counter_map_get_and_add alloc m key delta = Some (m', 0, Some (counter m key))"
      using j 3 m'(1) by (simp add: int64_counter_map_get_and_add_def Let_def cm_clear_def)
    then show ?thesis using m' 3 by simp
  next
    case 4
    then obtain kv where "cm_slot m j = Some kv" by blast
    then have kv: "cm_entries m ! j = key" using at by (cases kv) auto
    have st: "cm_storable m key ?v" using key 4 by (simp add: cm_storable_def)
    have w: "cm_written m j key ?v = m\<lparr>cm_entries := (cm_entries m)[Suc j := ?v]\<rparr>"
      using 4 kv by (auto simp: cm_written_def cm_store_def)
    note wr = cm_written_correct [OF wf j(2) st]
    have "int64_counter_map_get_and_add alloc m key delta = Some (cm_written m j key ?v, 0, Some (counter m key))"
      unfolding w using j 4 by (simp add: int64_counter_map_get_and_add_def Let_def)
    moreover have "cm_size (cm_written m j key ?v) \<le> cm_resize_threshold m"
      using wf by (simp add: w cm_table.wf_def cm_load_def)
    ultimately show ?thesis using wr(3,5,6) by (simp add: cm_load_def)
  qed
qed

lemma cm_init_correct:
  assumes alloc: "providing alloc" and "1 \<le> unat c" and "unat c \<le> 2 ^ 30" and "lf < 1"
    and "1 \<le> lf * of_nat (unat c)"
  shows "\<exists>m. int64_counter_map_init alloc initial c lf = (m, 0) \<and> cm_wf m \<and> counter m = (\<lambda>_. initial) \<and>
    cm_initial_value m = initial"
proof -
  let ?n = "table_capacity c"
  obtain j where j: "?n = 2 ^ j" "unat c \<le> ?n" using table_capacity_power [OF assms(2,3)] by auto
  obtain block where block: "alloc (2 * ?n) = Some block" "length block = 2 * ?n"
    using alloc unfolding providing_def by blast
  define m where "m = \<lparr>cm_entries = map (\<lambda>_. initial) block, cm_load_factor = lf, cm_entries_length = 2 * ?n,
    cm_size = 0, cm_resize_threshold = threshold_of lf ?n, cm_initial_value = initial\<rparr>"
  have cap: "cm_capacity m = ?n" by (simp add: m_def cm_capacity_def)
  have load: "cm_load m = ((lf, threshold_of lf ?n), initial)" "cm_size m = 0" by (simp_all add: m_def cm_load_def)
  have free: "cm_slot m q = None" if "position 2 ?n q" for q
    using that block(2) by (auto simp: m_def position_2 cm_slot_def)
  have "cm_ok m" using free block(2) j(1) unfolding cm_ok_def cap by (auto simp: m_def)
  then have "cm_table.empty m" using free by (simp add: cm_table.empty_def cap)
  moreover have "fitting lf ?n" by (rule fitting_mono [OF assms(4,5) j(2)])
  ultimately have "cm_wf m \<and> cm_table.contents m = Map.empty"
    by (intro cm_table.empty_wf) (use load in \<open>simp_all add: cap load_ok_def\<close>)
  moreover have "int64_counter_map_init alloc initial c lf = (m, 0)"
    using block(1) by (simp add: int64_counter_map_init_def m_def Let_def)
  moreover have "cm_initial_value m = initial" by (simp add: m_def)
  ultimately show ?thesis by (auto simp: counter_def fun_eq_iff)
qed

section \<open>Removing by a predicate\<close>

lemma cm_removes_at: "cm_table.removes_at cm_wf cm_is_removed"
proof (rule cm_table.removes_atI)
  fix m k j v m'
  assume "cm_wf m" and j: "cm_table.find_slot m k = Some j" "cm_slot m j = Some (k, v)"
    and c: "compact_loop cm_slot cm_move (cm_position_of (cm_capacity m)) (next_position 2 (cm_capacity m)) j j
      (cm_clear m j) = Some m'"
  have ok: "cm_ok m" using \<open>cm_wf m\<close> by simp
  have "cm_entries m ! Suc j = v" "v \<noteq> cm_initial_value m" using j(2) by (auto simp: cm_slot_def split: if_splits)
  then show "cm_is_removed m k = Some (m', Some v)"
    using j(1) c cm_probe_eq [OF ok, of k] cm_compact_clear [OF ok, of j]
    by (simp add: cm_is_removed_def int64_counter_map_remove_def)
qed

lemma cm_remove_if_correct:
  assumes "cm_wf m" and "\<And>c k v. fst (func c k v) = P k v"
  shows "\<exists>m' c'. int64_counter_map_remove_if m func c = Some (m', c') \<and> cm_wf m' \<and>
    cm_table.contents m' = map_without P (cm_table.contents m)"
proof -
  have "cm_size m = card (cm_table.used m)" using assms(1) by (simp add: cm_table.wf_def)
  moreover have "cm_table.inv t \<and> cm_entries_length t = 2 * cm_capacity t" if "cm_wf t" for t
    using that cm_entries_length_eq [of t] by (simp add: cm_table.wf_def)
  ultimately show ?thesis
    using cm_table.remove_if_loop_correct [OF cm_removes_at, of cm_entries_length func P m 0 0 "cm_size m" c] assms
    by (auto simp: int64_counter_map_remove_if_def)
qed

section \<open>Runs of operations\<close>

datatype counter_op =
    Put s64 s64 | Get s64 | Remove s64
  | Get_and_add s64 s64 | Get_and_inc s64 | Get_and_dec s64 | Add_and_get s64 s64 | Inc_and_get s64 | Dec_and_get s64

text \<open>
  A total function from keys to counters: what an operation answers and how it changes the function.
\<close>

fun counter_answer :: "(s64 \<Rightarrow> s64) \<Rightarrow> counter_op \<Rightarrow> s64" where
  "counter_answer f (Put k v) = f k"
| "counter_answer f (Get k) = f k"
| "counter_answer f (Remove k) = f k"
| "counter_answer f (Get_and_add k delta) = f k"
| "counter_answer f (Get_and_inc k) = f k"
| "counter_answer f (Get_and_dec k) = f k"
| "counter_answer f (Add_and_get k delta) = f k + delta"
| "counter_answer f (Inc_and_get k) = f k + 1"
| "counter_answer f (Dec_and_get k) = f k - 1"

fun counter_change :: "s64 \<Rightarrow> (s64 \<Rightarrow> s64) \<Rightarrow> counter_op \<Rightarrow> (s64 \<Rightarrow> s64)" where
  "counter_change initial f (Put k v) = f(k := v)"
| "counter_change initial f (Get k) = f"
| "counter_change initial f (Remove k) = f(k := initial)"
| "counter_change initial f (Get_and_add k delta) = f(k := f k + delta)"
| "counter_change initial f (Get_and_inc k) = f(k := f k + 1)"
| "counter_change initial f (Get_and_dec k) = f(k := f k - 1)"
| "counter_change initial f (Add_and_get k delta) = f(k := f k + delta)"
| "counter_change initial f (Inc_and_get k) = f(k := f k + 1)"
| "counter_change initial f (Dec_and_get k) = f(k := f k - 1)"

fun counter_spec :: "s64 \<Rightarrow> (s64 \<Rightarrow> s64) \<Rightarrow> counter_op list \<Rightarrow> (s64 \<Rightarrow> s64) \<times> s64 list" where
  "counter_spec initial f [] = (f, [])"
| "counter_spec initial f (op # ops) = apsnd (Cons (counter_answer f op)) (counter_spec initial (counter_change initial f op) ops)"

text \<open>The same on the map; \<open>None\<close> when an operation does not return or reports an error.\<close>

fun counter_step ::
  "(nat \<Rightarrow> s64 list option) \<Rightarrow> int64_counter_map \<Rightarrow> counter_op \<Rightarrow> (int64_counter_map \<times> int \<times> s64 option) option" where
  "counter_step alloc m (Put k v) = int64_counter_map_put alloc m k v"
| "counter_step alloc m (Get k) = map_option (\<lambda>v. (m, 0, Some v)) (int64_counter_map_get m k)"
| "counter_step alloc m (Remove k) = map_option (\<lambda>(m, v). (m, 0, Some v)) (int64_counter_map_remove m k)"
| "counter_step alloc m (Get_and_add k delta) = int64_counter_map_get_and_add alloc m k delta"
| "counter_step alloc m (Get_and_inc k) = int64_counter_map_get_and_inc alloc m k"
| "counter_step alloc m (Get_and_dec k) = int64_counter_map_get_and_dec alloc m k"
| "counter_step alloc m (Add_and_get k delta) = int64_counter_map_add_and_get alloc m k delta"
| "counter_step alloc m (Inc_and_get k) = int64_counter_map_inc_and_get alloc m k"
| "counter_step alloc m (Dec_and_get k) = int64_counter_map_dec_and_get alloc m k"

fun counter_run ::
  "(nat \<Rightarrow> s64 list option) \<Rightarrow> int64_counter_map \<Rightarrow> counter_op list \<Rightarrow> (int64_counter_map \<times> s64 list) option" where
  "counter_run alloc m [] = Some (m, [])"
| "counter_run alloc m (op # ops) =
     (case counter_step alloc m op of
        Some (m, rc, Some a) \<Rightarrow>
          if rc = 0 then map_option (apsnd (Cons a)) (counter_run alloc m ops) else None
      | _ \<Rightarrow> None)"

text \<open>No key that is added is the initial value, no counter is set to it, and no sum leaves the 64 bits.\<close>

definition sum_fits :: "s64 \<Rightarrow> s64 \<Rightarrow> bool" where
  "sum_fits x y \<longleftrightarrow> - (2 ^ 63) \<le> sint x + sint y \<and> sint x + sint y < 2 ^ 63"

fun allowed :: "s64 \<Rightarrow> (s64 \<Rightarrow> s64) \<Rightarrow> counter_op \<Rightarrow> bool" where
  "allowed initial f (Put k v) \<longleftrightarrow> k \<noteq> initial \<and> v \<noteq> initial"
| "allowed initial f (Get k) \<longleftrightarrow> True"
| "allowed initial f (Remove k) \<longleftrightarrow> True"
| "allowed initial f (Get_and_add k delta) \<longleftrightarrow> k \<noteq> initial \<and> sum_fits (f k) delta"
| "allowed initial f (Get_and_inc k) \<longleftrightarrow> k \<noteq> initial \<and> sum_fits (f k) 1"
| "allowed initial f (Get_and_dec k) \<longleftrightarrow> k \<noteq> initial \<and> sum_fits (f k) (- 1)"
| "allowed initial f (Add_and_get k delta) \<longleftrightarrow> k \<noteq> initial \<and> sum_fits (f k) delta"
| "allowed initial f (Inc_and_get k) \<longleftrightarrow> k \<noteq> initial \<and> sum_fits (f k) 1"
| "allowed initial f (Dec_and_get k) \<longleftrightarrow> k \<noteq> initial \<and> sum_fits (f k) (- 1)"

fun all_allowed :: "s64 \<Rightarrow> (s64 \<Rightarrow> s64) \<Rightarrow> counter_op list \<Rightarrow> bool" where
  "all_allowed initial f [] \<longleftrightarrow> True"
| "all_allowed initial f (op # ops) \<longleftrightarrow> allowed initial f op \<and> all_allowed initial (counter_change initial f op) ops"

lemmas adding_defs = int64_counter_map_add_and_get_def int64_counter_map_inc_and_get_def int64_counter_map_dec_and_get_def
  int64_counter_map_get_and_inc_def int64_counter_map_get_and_dec_def

lemma counter_step_correct:
  assumes "providing alloc" and "cm_wf m" and "allowed (cm_initial_value m) (counter m) op"
  shows "\<exists>m'. counter_step alloc m op = Some (m', 0, Some (counter_answer (counter m) op)) \<and> cm_wf m' \<and>
    cm_initial_value m' = cm_initial_value m \<and> counter m' = counter_change (cm_initial_value m) (counter m) op"
proof -
  have add: "\<exists>m'. int64_counter_map_get_and_add alloc m k delta = Some (m', 0, Some (counter m k)) \<and> cm_wf m' \<and>
      cm_initial_value m' = cm_initial_value m \<and> counter m' = (counter m)(k := counter m k + delta)"
    if "k \<noteq> cm_initial_value m" for k delta
    using cm_get_and_add_correct [OF assms(1,2) that, of delta] by auto
  show ?thesis
  proof (cases op)
    case (Put k v)
    then have "cm_storable m k v" using assms(3) by (simp add: cm_storable_def)
    from cm_put_correct [OF assms(1,2) this] show ?thesis using Put by auto
  next
    case (Get k)
    then show ?thesis using assms(2) cm_get_correct [OF assms(2), of k] by auto
  next
    case (Remove k)
    from cm_remove_correct [OF assms(2), of k] show ?thesis using Remove by auto
  next
    case (Get_and_add k delta)
    then show ?thesis using add [of k delta] assms(3) by auto
  next
    case (Get_and_inc k)
    then show ?thesis using add [of k 1] assms(3) by (auto simp: adding_defs)
  next
    case (Get_and_dec k)
    then show ?thesis using add [of k "- 1"] assms(3) by (auto simp: adding_defs)
  next
    case (Add_and_get k delta)
    then show ?thesis using add [of k delta] assms(3) by (auto simp: adding_defs)
  next
    case (Inc_and_get k)
    then show ?thesis using add [of k 1] assms(3) by (auto simp: adding_defs)
  next
    case (Dec_and_get k)
    then show ?thesis using add [of k "- 1"] assms(3) by (auto simp: adding_defs)
  qed
qed

lemma counter_run_correct:
  assumes "providing alloc"
  shows "cm_wf m \<Longrightarrow> all_allowed (cm_initial_value m) (counter m) ops \<Longrightarrow>
    \<exists>m'. counter_run alloc m ops = Some (m', snd (counter_spec (cm_initial_value m) (counter m) ops)) \<and> cm_wf m' \<and>
      counter m' = fst (counter_spec (cm_initial_value m) (counter m) ops) \<and> cm_initial_value m' = cm_initial_value m"
proof (induction ops arbitrary: m)
  case (Cons op ops)
  obtain m1 where m1: "counter_step alloc m op = Some (m1, 0, Some (counter_answer (counter m) op))" "cm_wf m1"
    "cm_initial_value m1 = cm_initial_value m" "counter m1 = counter_change (cm_initial_value m) (counter m) op"
    using counter_step_correct [OF assms Cons.prems(1), of op] Cons.prems(2) by auto
  obtain m' where "counter_run alloc m1 ops = Some (m', snd (counter_spec (cm_initial_value m1) (counter m1) ops))"
    "cm_wf m'" "counter m' = fst (counter_spec (cm_initial_value m1) (counter m1) ops)"
    "cm_initial_value m' = cm_initial_value m1"
    using Cons.IH [OF m1(2)] Cons.prems(2) m1(3,4) by auto
  then show ?case using m1 by simp
qed simp

text \<open>
  C17. The counter map is a total function from keys to counters under every sequence of \<open>put\<close>, \<open>get\<close>,
  \<open>remove\<close> and the six adding operations \<open>get_and_add\<close>, \<open>get_and_inc\<close>, \<open>get_and_dec\<close>, \<open>add_and_get\<close>,
  \<open>inc_and_get\<close> and \<open>dec_and_get\<close>, growing as needed, as long as there is memory, no key is the initial
  value and no sum leaves the 64 bits: every operation returns and answers the value the counter had, or
  the new one where its name says so, and a counter that comes back to the initial value takes no space.
\<close>

theorem counter_map_refines:
  assumes "providing alloc" and "1 \<le> unat c" and "unat c \<le> 2 ^ 30" and "lf < 1" and "1 \<le> lf * of_nat (unat c)"
    and "all_allowed initial (\<lambda>_. initial) ops"
  shows "\<exists>m m'. int64_counter_map_init alloc initial c lf = (m, 0) \<and>
    counter_run alloc m ops = Some (m', snd (counter_spec initial (\<lambda>_. initial) ops)) \<and>
    (\<forall>k. int64_counter_map_get m' k = Some (fst (counter_spec initial (\<lambda>_. initial) ops) k)) \<and>
    cm_size m' = card {k. fst (counter_spec initial (\<lambda>_. initial) ops) k \<noteq> initial}"
proof -
  obtain m where m: "int64_counter_map_init alloc initial c lf = (m, 0)" "cm_wf m" "counter m = (\<lambda>_. initial)"
    "cm_initial_value m = initial"
    using cm_init_correct [OF assms(1-5)] by blast
  obtain m' where m': "counter_run alloc m ops = Some (m', snd (counter_spec initial (\<lambda>_. initial) ops))" "cm_wf m'"
    "counter m' = fst (counter_spec initial (\<lambda>_. initial) ops)" "cm_initial_value m' = initial"
    using counter_run_correct [OF assms(1) m(2), of ops] assms(6) m(3,4) by auto
  have dom: "{k. counter m' k \<noteq> initial} = dom (cm_table.contents m')"
  proof -
    have "counter m' k \<noteq> initial \<longleftrightarrow> cm_table.contents m' k \<noteq> None" for k
      using cm_lookup [OF m'(2), of k] m'(4) by metis
    then show ?thesis by (simp add: dom_def)
  qed
  note e = cm_table.entries_correct [OF m'(2)]
  have "card (dom (cm_table.contents m')) = length (cell_entries (cm_table.cells m'))"
    unfolding e(1) [symmetric] dom_map_of_conv_image_fst using distinct_card [OF e(2)] by simp
  then show ?thesis using m(1) m'(1) cm_get_correct [OF m'(2)] e(3) dom unfolding m'(3) by auto
qed

definition plain_alloc :: "nat \<Rightarrow> s64 list option" where
  "plain_alloc n = Some (replicate n 7)"

theorem counter_map_refines_witness:
  "\<exists>m m'. int64_counter_map_init plain_alloc 0 2 AERON_MAP_DEFAULT_LOAD_FACTOR = (m, 0) \<and>
    counter_run plain_alloc m [Put 1 5, Get_and_add 2 3, Add_and_get 1 (- 5), Inc_and_get 3, Get 1, Get_and_dec 2, Dec_and_get 2,
        Get_and_inc 3, Remove 3, Put 2 9] =
      Some (m', [0, 0, 0, 1, 0, 3, 1, 1, 2, 1]) \<and> int64_counter_map_get m' 2 = Some 9"
proof -
  let ?ops = "[Put 1 5, Get_and_add 2 3, Add_and_get 1 (- 5), Inc_and_get 3, Get 1, Get_and_dec 2, Dec_and_get 2,
    Get_and_inc 3, Remove 3, Put 2 9]"
  have spec: "snd (counter_spec 0 (\<lambda>_. 0) ?ops) = [0, 0, 0, 1, 0, 3, 1, 1, 2, 1]" "fst (counter_spec 0 (\<lambda>_. 0) ?ops) 2 = 9"
    by simp_all
  have "providing plain_alloc" by (simp add: providing_def plain_alloc_def)
  moreover have "all_allowed 0 (\<lambda>_. 0) ?ops" by (simp add: sum_fits_def)
  ultimately show ?thesis
    using counter_map_refines [of plain_alloc 2 AERON_MAP_DEFAULT_LOAD_FACTOR 0 ?ops] spec
    by (auto simp: default_load_fits simp del: counter_spec.simps)
qed

text \<open>
  C36. A key that equals the initial value is lost when the map grows, since growing takes its slot for
  a free one: with initial value 0 and two keys, 0 and 1, both \<open>put\<close>s succeed and the map counts two
  entries, but the first counter is gone.
\<close>

theorem growing_loses_initial_key:
  "\<exists>m0 m1 m2. int64_counter_map_init plain_alloc 0 2 AERON_MAP_DEFAULT_LOAD_FACTOR = (m0, 0) \<and>
    int64_counter_map_put plain_alloc m0 0 5 = Some (m1, 0, Some 0) \<and> int64_counter_map_get m1 0 = Some 5 \<and>
    int64_counter_map_put plain_alloc m1 1 6 = Some (m2, 0, Some 0) \<and>
    int64_counter_map_get m2 0 = Some 0 \<and> int64_counter_map_get m2 1 = Some 6 \<and> cm_size m2 = 2"
proof -
  let ?lf = AERON_MAP_DEFAULT_LOAD_FACTOR
  let ?m0 = "\<lparr>cm_entries = [0, 0, 0, 0], cm_load_factor = ?lf, cm_entries_length = 4, cm_size = 0,
    cm_resize_threshold = 1, cm_initial_value = 0\<rparr>"
  let ?m1 = "?m0\<lparr>cm_size := 1, cm_entries := [0, 5, 0, 0]\<rparr>"
  let ?m2 = "\<lparr>cm_entries = [1, 6, 0, 0, 0, 0, 0, 0], cm_load_factor = ?lf, cm_entries_length = 8, cm_size = 2,
    cm_resize_threshold = 2, cm_initial_value = 0\<rparr>"
  have cap: "table_capacity 2 = 2"
    by (simp add: table_capacity_def aeron_find_next_power_of_two_def smear.simps)
  have t: "threshold_of ?lf 2 = 1" "threshold_of ?lf 4 = 2" by (simp_all add: threshold_default)
  have h: "int64_counter_map_hash_key 0 3 = 0" "int64_counter_map_hash_key 1 3 = 0"
    "int64_counter_map_hash_key 0 7 = 0" "int64_counter_map_hash_key 1 7 = 0"
    by (simp_all add: int64_counter_map_hash_key_def aeron_even_hash_def aeron_hash_code_def fold_hash_def)
  have n: "next_index 2 3 0 = 2" "next_index 2 7 0 = 2" by (simp_all only: next_index_def add_0) simp_all
  note pr = cm_probe_def probe.simps [of _ _ _ 0] probe.simps [of _ _ _ 2] cm_slot_def h n
  have p: "cm_probe ?m0 0 = Some 0" "cm_probe ?m1 0 = Some 0" "cm_probe ?m1 1 = Some 2" "cm_probe ?m2 0 = Some 2"
    "cm_probe ?m2 1 = Some 0"
    by (simp_all add: pr)
  have "int64_counter_map_init plain_alloc 0 2 ?lf = (?m0, 0)"
    using cap t by (simp add: int64_counter_map_init_def plain_alloc_def Let_def numeral_eq_Suc)
  moreover have "int64_counter_map_put plain_alloc ?m0 0 5 = Some (?m1, 0, Some 0)"
    using p(1) by (simp add: int64_counter_map_put_def cm_grow_def)
  moreover have "int64_counter_map_put plain_alloc ?m1 1 6 = Some (?m2, 0, Some 0)"
  proof -
    let ?w = "?m0\<lparr>cm_size := 2, cm_entries := [0, 5, 1, 6]\<rparr>"
    have "[0..<2] = [0, 1 :: nat]" by (simp add: numeral_2_eq_2)
    then have slots: "cm_slots ?w = [Some (0, 5), Some (1, 6)]" by (simp add: cm_slots_def cm_slot_def)
    have eight: "replicate 8 (0 :: s64) = [0, 0, 0, 0, 0, 0, 0, 0]" by (simp add: numeral_eq_Suc)
    have "int64_counter_map_rehash plain_alloc ?w 8 = Some (?m2, 0)"
      using slots t by (simp add: int64_counter_map_rehash_def plain_alloc_def h probe.simps [of _ _ _ 0] cm_key_slot_def
          cm_store_def eight)
    then show ?thesis using p(3) by (simp add: int64_counter_map_put_def cm_grow_def flip: numeral_2_eq_2)
  qed
  moreover have "int64_counter_map_get ?m1 0 = Some 5" "int64_counter_map_get ?m2 0 = Some 0"
    "int64_counter_map_get ?m2 1 = Some 6" "cm_size ?m2 = 2"
    using p by (simp_all add: int64_counter_map_get_def)
  ultimately show ?thesis by blast
qed

end
