(* ===== verification/BitSet.thy ===== *)
theory BitSet
  imports AeronUtil
begin

text \<open>
  \<open>aeron-lib/include/aeron/collections/aeron_bit_set.h\<close>: sets of small numbers as bits of 64-bit
  words, in an array of the caller when it is large enough and otherwise on the heap. \<open>alloc n\<close> is
  the content of a new array of \<open>n\<close> words, or \<open>None\<close>.
\<close>

section \<open>The functions\<close>

datatype bits_pointer = Null | Static | Heap

text \<open>\<open>bits\<close> are the words behind the pointer, \<open>static_array\<close> tells whether the caller gave an array.\<close>

record bit_set =
  bit_set_length :: nat
  bits :: "u64 list"
  bits_at :: bits_pointer
  static_array :: bits_pointer

definition EINVAL :: int where
  "EINVAL = 22"

definition entry_count :: "nat \<Rightarrow> nat" where
  "entry_count len = (len + 63) div 64"

definition aeron_bit_set_init :: "bit_set \<Rightarrow> bool \<Rightarrow> bit_set \<times> int" where
  "aeron_bit_set_init bs initial_value =
     (let n = entry_count (bit_set_length bs)
      in (bs\<lparr>bits := replicate n (if initial_value then - 1 else 0) @ drop n (bits bs)\<rparr>, 0))"

definition aeron_bit_set_stack_alloc ::
  "(nat \<Rightarrow> u64 list option) \<Rightarrow> nat \<Rightarrow> u64 list option \<Rightarrow> nat \<Rightarrow> bit_set \<times> int" where
  "aeron_bit_set_stack_alloc alloc len static_arr static_array_len =
     (let bs = \<lparr>bit_set_length = len, bits = [], bits_at = Null,
                static_array = (if static_arr = None then Null else Static)\<rparr>;
          u64_len = entry_count len
      in if static_arr \<noteq> None \<and> u64_len \<le> static_array_len
         then (bs\<lparr>bits := the static_arr, bits_at := Static\<rparr>, 0)
         else case alloc u64_len of
                None \<Rightarrow> (bs, - 1)
              | Some ws \<Rightarrow> (bs\<lparr>bits := ws, bits_at := Heap\<rparr>, 0))"

text \<open>
  For the heap the set itself is allocated too: \<open>alloc_set\<close> tells whether there is memory for it, and
  \<open>given\<close> whether the pointer the caller passed is not NULL.
\<close>

definition aeron_bit_set_heap_alloc ::
  "(nat \<Rightarrow> u64 list option) \<Rightarrow> bool \<Rightarrow> nat \<Rightarrow> bool \<Rightarrow> bit_set option \<times> int" where
  "aeron_bit_set_heap_alloc alloc alloc_set len given =
     (if \<not> given then (None, - EINVAL)
      else if \<not> alloc_set then (None, - 1)
      else apfst Some (aeron_bit_set_stack_alloc alloc len None 0))"

definition aeron_bit_set_stack_init ::
  "(nat \<Rightarrow> u64 list option) \<Rightarrow> nat \<Rightarrow> u64 list option \<Rightarrow> nat \<Rightarrow> bool \<Rightarrow> bit_set \<times> int" where
  "aeron_bit_set_stack_init alloc len static_arr static_array_len initial_value =
     (case aeron_bit_set_stack_alloc alloc len static_arr static_array_len of (bs, result) \<Rightarrow>
        if result \<noteq> 0 then (bs, result) else aeron_bit_set_init bs initial_value)"

definition aeron_bit_set_heap_init ::
  "(nat \<Rightarrow> u64 list option) \<Rightarrow> bool \<Rightarrow> nat \<Rightarrow> bool \<Rightarrow> bool \<Rightarrow> bit_set option \<times> int" where
  "aeron_bit_set_heap_init alloc alloc_set len initial_value given =
     (case aeron_bit_set_heap_alloc alloc alloc_set len given of
        (Some bs, result) \<Rightarrow> if result \<noteq> 0 then (Some bs, result) else apfst Some (aeron_bit_set_init bs initial_value)
      | (None, result) \<Rightarrow> (None, result))"

text \<open>The set afterwards, and whether the words are given back to the heap.\<close>

definition aeron_bit_set_stack_free :: "bit_set \<Rightarrow> bit_set \<times> bool" where
  "aeron_bit_set_stack_free bs =
     (bs\<lparr>bits := [], bits_at := Null, static_array := Null\<rparr>, static_array bs \<noteq> bits_at bs)"

text \<open>The same, and whether the set is given back.\<close>

definition aeron_bit_set_heap_free :: "bit_set \<Rightarrow> bool \<times> bool" where
  "aeron_bit_set_heap_free bs = (snd (aeron_bit_set_stack_free bs), True)"

text \<open>Pointers that may be NULL are optional; the value found is the second component.\<close>

definition aeron_bit_set_get :: "bit_set option \<Rightarrow> nat \<Rightarrow> bool \<Rightarrow> int \<times> bool option" where
  "aeron_bit_set_get bs_ptr bit_index value_given =
     (case bs_ptr of
        None \<Rightarrow> (- EINVAL, None)
      | Some bs \<Rightarrow>
          if bit_set_length bs \<le> bit_index \<or> \<not> value_given then (- EINVAL, None)
          else (let entry = bit_index div 64; offset = bit_index mod 64
                in (0, Some (0 \<noteq> (bits bs ! entry AND push_bit offset 1)))))"

definition aeron_bit_set_set :: "bit_set option \<Rightarrow> nat \<Rightarrow> bool \<Rightarrow> bit_set option \<times> int" where
  "aeron_bit_set_set bs_ptr bit_index v =
     (case bs_ptr of
        None \<Rightarrow> (None, - EINVAL)
      | Some bs \<Rightarrow>
          if bit_set_length bs \<le> bit_index then (Some bs, - EINVAL)
          else (let entry = bit_index div 64; offset = bit_index mod 64; msk = push_bit offset 1;
                    w = (if v then bits bs ! entry OR msk else bits bs ! entry AND NOT msk)
                in (Some (bs\<lparr>bits := (bits bs)[entry := w]\<rparr>), 0)))"

text \<open>The loop over the words from number \<open>i\<close> on: the index it writes and leaves with.\<close>

fun scan_entries :: "bool \<Rightarrow> nat \<Rightarrow> u64 list \<Rightarrow> nat option" where
  "scan_entries v i [] = None"
| "scan_entries v i (w # ws) =
     (if (if v then 0 else - 1) \<noteq> w
      then Some (i * 64 + aeron_number_of_trailing_zeroes_u64 (if v then w else NOT w))
      else scan_entries v (i + 1) ws)"

definition aeron_bit_set_find_first :: "bit_set \<Rightarrow> bool \<Rightarrow> int \<times> nat option" where
  "aeron_bit_set_find_first bs v =
     (case scan_entries v 0 (take (entry_count (bit_set_length bs)) (bits bs)) of
        None \<Rightarrow> (- 1, None)
      | Some bit_index \<Rightarrow> (if bit_index < bit_set_length bs then 0 else - 1, Some bit_index))"

section \<open>A list of truth values\<close>

definition word_bit :: "u64 list \<Rightarrow> nat \<Rightarrow> bool" where
  "word_bit ws k = bit (ws ! (k div 64)) (k mod 64)"

definition flags :: "bit_set \<Rightarrow> bool list" where
  "flags bs = map (word_bit (bits bs)) [0..<bit_set_length bs]"

text \<open>The words are there.\<close>

definition bit_set_ok :: "bit_set \<Rightarrow> bool" where
  "bit_set_ok bs \<longleftrightarrow> entry_count (bit_set_length bs) \<le> length (bits bs)"

lemma entry_less: "k < len \<Longrightarrow> k div 64 < entry_count len"
  by (simp add: entry_count_def less_eq_div_iff_mult_less_eq div_less_iff_less_mult)

lemma length_flags [simp]: "length (flags bs) = bit_set_length bs"
  by (simp add: flags_def)

lemma test_bit: "0 \<noteq> ((w :: u64) AND push_bit n 1) \<longleftrightarrow> bit w n" if n: "n < 64"
proof -
  have "w AND push_bit n 1 = (if bit w n then push_bit n 1 else 0)"
    using n by (intro bit_word_eqI) (auto simp: bit_simps)
  moreover have "push_bit n (1 :: u64) \<noteq> 0"
  proof -
    have "bit (push_bit n (1 :: u64)) n" using n by (simp add: bit_push_bit_iff del: push_bit_of_1)
    then show ?thesis using n by auto
  qed
  ultimately show ?thesis by auto
qed

lemma set_bit_at:
  "n < 64 \<Longrightarrow> k < 64 \<Longrightarrow>
   bit (if v then (w :: u64) OR push_bit n 1 else w AND NOT (push_bit n 1)) k = (if k = n then v else bit w k)"
  by (auto simp: bit_simps)

lemma bit_set_get_correct:
  "aeron_bit_set_get (Some bs) i True =
   (if i < length (flags bs) then (0, Some (flags bs ! i)) else (- EINVAL, None))"
  by (simp add: aeron_bit_set_get_def flags_def word_bit_def test_bit [symmetric] Let_def not_less del: push_bit_of_1)

lemma bit_set_set_correct:
  assumes "bit_set_ok bs"
  shows "\<exists>bs'. aeron_bit_set_set (Some bs) i v = (Some bs', if i < length (flags bs) then 0 else - EINVAL) \<and>
    bit_set_ok bs' \<and> flags bs' = (flags bs)[i := v]"
proof (cases "i < bit_set_length bs")
  case False
  then show ?thesis using assms by (simp add: aeron_bit_set_set_def list_update_beyond)
next
  case True
  define w where "w = (if v then bits bs ! (i div 64) OR push_bit (i mod 64) 1
    else bits bs ! (i div 64) AND NOT (push_bit (i mod 64) 1))"
  let ?bs = "bs\<lparr>bits := (bits bs)[i div 64 := w]\<rparr>"
  have len: "i div 64 < length (bits bs)" using entry_less [OF True] assms by (simp add: bit_set_ok_def)
  have "word_bit ((bits bs)[i div 64 := w]) k = (if k = i then v else word_bit (bits bs) k)" for k
  proof (cases "k div 64 = i div 64")
    case same: True
    then have "word_bit ((bits bs)[i div 64 := w]) k = bit w (k mod 64)" using len by (simp add: word_bit_def)
    also have "\<dots> = (if k mod 64 = i mod 64 then v else bit (bits bs ! (i div 64)) (k mod 64))"
      unfolding w_def by (rule set_bit_at) simp_all
    also have "k mod 64 = i mod 64 \<longleftrightarrow> k = i" using same by (metis div_mod_decomp)
    finally show ?thesis using same by (simp add: word_bit_def)
  qed (auto simp: word_bit_def)
  then have "flags ?bs = (flags bs)[i := v]"
    by (intro nth_equalityI) (simp_all add: flags_def nth_list_update)
  moreover have "aeron_bit_set_set (Some bs) i v = (Some ?bs, 0)"
    using True by (simp add: aeron_bit_set_set_def w_def Let_def)
  ultimately show ?thesis using True assms by (simp add: bit_set_ok_def)
qed

lemma first_bit:
  fixes w :: u64
  assumes "(if v then 0 else - 1) \<noteq> w"
  defines "n \<equiv> aeron_number_of_trailing_zeroes_u64 (if v then w else NOT w)"
  shows "n < 64" and "bit w n = v" and "k < n \<Longrightarrow> bit w k \<noteq> v"
proof -
  let ?s = "if v then w else NOT w"
  have "w = - 1" if "NOT w = 0" using arg_cong [OF that, of "\<lambda>x. NOT x"] by simp
  then have nz: "?s \<noteq> 0" using assms(1) by auto
  have n: "n = builtin_ctz ?s" using nz by (simp add: n_def aeron_number_of_trailing_zeroes_u64_def)
  note b = builtin_ctz_bits [OF nz]
  show n64: "n < 64" using b(3) n by simp
  show "bit w n = v" using b(1) n n64 by (auto simp: bit_not_iff split: if_splits)
  show "bit w k \<noteq> v" if "k < n" using b(2) [of k] that n n64 by (auto simp: bit_not_iff split: if_splits)
qed

lemma word_bit_Cons: "word_bit (w # ws) k = (if k < 64 then bit w k else word_bit ws (k - 64))"
proof (cases "k < 64")
  case False
  then have "k div 64 = Suc ((k - 64) div 64)" "k mod 64 = (k - 64) mod 64"
    by (simp_all add: le_div_geq le_mod_geq)
  then show ?thesis using False by (simp add: word_bit_def)
qed (simp add: word_bit_def)

lemma scan_entries_correct:
  "case scan_entries v i ws of
     None \<Rightarrow> \<forall>k<64 * length ws. word_bit ws k \<noteq> v
   | Some j \<Rightarrow> \<exists>k<64 * length ws. j = 64 * i + k \<and> word_bit ws k = v \<and> (\<forall>k'<k. word_bit ws k' \<noteq> v)"
proof (induction ws arbitrary: i)
  case (Cons w ws)
  show ?case
  proof (cases "(if v then 0 else - 1) \<noteq> w")
    case True
    let ?n = "aeron_number_of_trailing_zeroes_u64 (if v then w else NOT w)"
    note f = first_bit [OF True]
    have "scan_entries v i (w # ws) = Some (i * 64 + ?n)" using True by simp
    moreover have "word_bit (w # ws) ?n = v" "\<And>k. k < ?n \<Longrightarrow> word_bit (w # ws) k \<noteq> v"
      using f by (auto simp: word_bit_Cons)
    moreover have "?n < 64 * length (w # ws)" using f(1) by simp
    ultimately show ?thesis by (auto intro!: exI [of _ ?n])
  next
    case False
    have low: "bit w k \<noteq> v" if "k < 64" for k using False that by auto
    have step: "scan_entries v i (w # ws) = scan_entries v (i + 1) ws" using False by simp
    show ?thesis
    proof (cases "scan_entries v (i + 1) ws")
      case None
      then have "\<forall>k<64 * length ws. word_bit ws k \<noteq> v" using Cons.IH [of "i + 1"] by simp
      then show ?thesis using None step low by (auto simp: word_bit_Cons)
    next
      case (Some j)
      then obtain k where k: "k < 64 * length ws" "j = 64 * (i + 1) + k" "word_bit ws k = v" "\<forall>k'<k. word_bit ws k' \<noteq> v"
        using Cons.IH [of "i + 1"] by auto
      have "j = 64 * i + (64 + k)" using k(2) by simp
      moreover have "word_bit (w # ws) (64 + k) = v" "\<forall>k'<64 + k. word_bit (w # ws) k' \<noteq> v"
        using k(3,4) low by (auto simp: word_bit_Cons)
      moreover have "64 + k < 64 * length (w # ws)" using k(1) by simp
      ultimately show ?thesis using Some step by auto
    qed
  qed
qed simp

text \<open>The first index of a value in a list, its length when it is not there.\<close>

definition first_index :: "'a \<Rightarrow> 'a list \<Rightarrow> nat" where
  "first_index x xs = length (takeWhile (\<lambda>y. y \<noteq> x) xs)"

lemma first_indexI: "k < length xs \<Longrightarrow> xs ! k = x \<Longrightarrow> (\<And>k'. k' < k \<Longrightarrow> xs ! k' \<noteq> x) \<Longrightarrow> first_index x xs = k"
  unfolding first_index_def using takeWhile_eq_take_P_nth [of k xs "\<lambda>y. y \<noteq> x"] by simp

lemma bit_set_find_first_correct:
  assumes "bit_set_ok bs"
  shows "if v \<in> set (flags bs) then aeron_bit_set_find_first bs v = (0, Some (first_index v (flags bs)))
    else fst (aeron_bit_set_find_first bs v) = - 1"
proof -
  let ?n = "entry_count (bit_set_length bs)" and ?len = "bit_set_length bs"
  let ?ws = "take ?n (bits bs)"
  have lw: "length ?ws = ?n" using assms by (simp add: bit_set_ok_def)
  have len: "?len \<le> 64 * ?n" by (simp add: entry_count_def)
  have at: "word_bit ?ws k = flags bs ! k" if "k < ?len" for k
    using entry_less [OF that] that by (simp add: word_bit_def flags_def)
  have mem: "v \<in> set (flags bs) \<longleftrightarrow> (\<exists>k<?len. flags bs ! k = v)" by (auto simp: in_set_conv_nth)
  show ?thesis
  proof (cases "scan_entries v 0 ?ws")
    case None
    then have "\<forall>k<64 * ?n. word_bit ?ws k \<noteq> v" using scan_entries_correct [where v = v and i = 0 and ws = ?ws] lw by simp
    then have "flags bs ! k \<noteq> v" if "k < ?len" for k using that at [OF that] order_less_le_trans [OF that len] by simp
    then have "v \<notin> set (flags bs)" using mem by blast
    then show ?thesis using None by (simp add: aeron_bit_set_find_first_def)
  next
    case (Some j)
    then have j: "word_bit ?ws j = v" "\<And>k. k < j \<Longrightarrow> word_bit ?ws k \<noteq> v" using scan_entries_correct [where v = v and i = 0 and ws = ?ws] by auto
    show ?thesis
    proof (cases "j < ?len")
      case True
      then have "first_index v (flags bs) = j" using j at by (intro first_indexI) auto
      moreover have "v \<in> set (flags bs)" using True j(1) at [OF True] mem by auto
      ultimately show ?thesis using Some True by (simp add: aeron_bit_set_find_first_def)
    next
      case False
      then have "flags bs ! k \<noteq> v" if "k < ?len" for k using that j(2) [of k] at [OF that] by simp
      then have "v \<notin> set (flags bs)" using mem by blast
      then show ?thesis using Some False by (simp add: aeron_bit_set_find_first_def)
    qed
  qed
qed

lemma bit_set_init_correct:
  assumes "bit_set_ok bs"
  shows "bit_set_ok (fst (aeron_bit_set_init bs v)) \<and> flags (fst (aeron_bit_set_init bs v)) = replicate (bit_set_length bs) v"
proof -
  have "word_bit (replicate n w @ ws) k = bit w (k mod 64)" if "k div 64 < n" for n k and w :: u64 and ws
    using that by (simp add: word_bit_def nth_append)
  then show ?thesis
    using assms entry_less
    by (auto simp: aeron_bit_set_init_def bit_set_ok_def flags_def Let_def map_replicate_const intro!: nth_equalityI)
qed

text \<open>
  A bit set, in the caller's array or on the heap, is a list of truth values: initialising sets them
  all, \<open>get\<close> reads one, \<open>set\<close> replaces one, both refuse an index outside, and \<open>find_first\<close> finds
  the first index with a value and says when there is none, also when unused bits of the last word
  have it.
\<close>

theorem bit_set_refines:
  assumes "\<And>n. \<exists>ws. alloc n = Some ws \<and> length ws = n" and "static_arr \<noteq> None \<Longrightarrow> static_array_len = length (the static_arr)"
    and "bit_set_ok bs"
  shows "(\<exists>bs0. aeron_bit_set_stack_init alloc len static_arr static_array_len v = (bs0, 0) \<and> bit_set_ok bs0 \<and>
      flags bs0 = replicate len v) \<and>
    aeron_bit_set_get (Some bs) i True = (if i < length (flags bs) then (0, Some (flags bs ! i)) else (- EINVAL, None)) \<and>
    (\<exists>bs'. aeron_bit_set_set (Some bs) i v = (Some bs', if i < length (flags bs) then 0 else - EINVAL) \<and>
      bit_set_ok bs' \<and> flags bs' = (flags bs)[i := v]) \<and>
    (if v \<in> set (flags bs) then aeron_bit_set_find_first bs v = (0, Some (first_index v (flags bs)))
     else fst (aeron_bit_set_find_first bs v) = - 1)"
proof -
  obtain bs1 where bs1: "aeron_bit_set_stack_alloc alloc len static_arr static_array_len = (bs1, 0)" "bit_set_ok bs1"
    "bit_set_length bs1 = len"
    using assms(1) [of "entry_count len"] assms(2)
    by (cases "static_arr \<noteq> None \<and> entry_count len \<le> static_array_len")
      (auto simp: aeron_bit_set_stack_alloc_def bit_set_ok_def Let_def)
  have "aeron_bit_set_stack_init alloc len static_arr static_array_len v = (fst (aeron_bit_set_init bs1 v), 0)"
    using bs1(1) by (simp add: aeron_bit_set_stack_init_def aeron_bit_set_init_def Let_def)
  then show ?thesis
    using bit_set_init_correct [OF bs1(2), of v] bs1(3) bit_set_get_correct [of bs i] bit_set_set_correct [OF assms(3), of i v]
      bit_set_find_first_correct [OF assms(3), of v] by simp
qed

theorem bit_set_refines_witness:
  "aeron_bit_set_find_first \<lparr>bit_set_length = 70, bits = [- 1, - 2], bits_at = Heap, static_array = Null\<rparr> False
     = (0, Some 64) \<and>
   (\<exists>bs0. aeron_bit_set_stack_init (\<lambda>n. Some (replicate n 0)) 70 None 0 False = (bs0, 0) \<and>
     flags bs0 = replicate 70 False)"
proof -
  let ?bs = "\<lparr>bit_set_length = 70, bits = [- 1, - 2], bits_at = Heap, static_array = Null\<rparr>"
  have ok: "bit_set_ok ?bs" by (simp add: bit_set_ok_def entry_count_def)
  note b = bit_set_refines [of "\<lambda>n. Some (replicate n 0)" None 0 ?bs 70 False 64, OF _ _ ok]
  have at: "flags ?bs ! k = (k \<noteq> 64)" if "k < 65" for k
    using that by (cases "k = 64") (auto simp: flags_def word_bit_def)
  then have "first_index False (flags ?bs) = 64" by (intro first_indexI) auto
  moreover have "False \<in> set (flags ?bs)" using at [of 64] nth_mem [of 64 "flags ?bs"] by simp
  ultimately show ?thesis using b by auto
qed

end
