(* ===== verification/ArrayQueue.thy ===== *)
theory ArrayQueue
  imports AeronUtil "HOL-Library.Sublist"
begin

text \<open>
  What the two array queues of \<open>aeron-lib/include/aeron/concurrent\<close> share: the array and its
  counters, the consumer (\<open>poll\<close>, \<open>drain\<close>, \<open>drain_all\<close>) and the observer (\<open>size\<close>), each as a machine
  whose steps are the accesses to memory that another thread writes or reads. A thread's reads of a
  variable that only it writes are part of the step before. Steps of different threads interleave in
  any order (sequential consistency; the fences of \<open>AERON_GET_ACQUIRE\<close> and \<open>AERON_SET_RELEASE\<close> keep
  this order on the accesses of one thread that the queues rely on).
\<close>

section \<open>Data\<close>

datatype aeron_queue_offer_result = AERON_OFFER_SUCCESS | AERON_OFFER_ERROR | AERON_OFFER_FULL

text \<open>A NULL pointer is \<open>None\<close>; the padding of the C structures is left out.\<close>

record 'a array_queue =
  tail :: u64
  head :: u64
  capacity :: u64
  mask_bits :: u64
  buffer :: "'a option list"

definition slot_index :: "('a, 'z) array_queue_scheme \<Rightarrow> u64 \<Rightarrow> nat" where
  "slot_index q sequence = unat (sequence AND mask_bits q)"

section \<open>The consumer\<close>

text \<open>
  Where the consumer is: \<open>Poll_*\<close> in \<open>poll\<close>, \<open>Drain_*\<close> in \<open>drain\<close> with \<open>current_head\<close>,
  \<open>next_sequence\<close> and \<open>limit_sequence\<close>, \<open>Drain_all_start\<close> at the read of the tail.
\<close>

datatype 'a consumer_pc =
    Consumer_idle
  | Poll_read | Poll_clear u64 'a | Poll_advance u64 'a | Poll_return "'a option"
  | Drain_all_start | Drain_start u64 | Drain_test u64 u64 u64 | Drain_clear u64 u64 u64 'a
  | Drain_advance u64 u64 u64 'a | Drain_call u64 u64 u64 'a | Drain_return u64

text \<open>The queue, the place after the step, and the elements handed to the client by it.\<close>

fun poll_step :: "('a, 'z) array_queue_scheme \<Rightarrow> 'a consumer_pc \<Rightarrow>
    ('a, 'z) array_queue_scheme \<times> 'a consumer_pc \<times> 'a list" where
  "poll_step q Poll_read =
     (case buffer q ! slot_index q (head q) of
        None \<Rightarrow> (q, Poll_return None, [])
      | Some item \<Rightarrow> (q, Poll_clear (head q) item, []))"
| "poll_step q (Poll_clear current_head item) =
     (q\<lparr>buffer := (buffer q)[slot_index q current_head := None]\<rparr>, Poll_advance current_head item, [])"
| "poll_step q (Poll_advance current_head item) = (q\<lparr>head := current_head + 1\<rparr>, Poll_return (Some item), [])"
| "poll_step q (Poll_return item) = (q, Consumer_idle, case item of None \<Rightarrow> [] | Some x \<Rightarrow> [x])"
| "poll_step q pc = (q, pc, [])"

fun drain_step :: "('a, 'z) array_queue_scheme \<Rightarrow> 'a consumer_pc \<Rightarrow>
    ('a, 'z) array_queue_scheme \<times> 'a consumer_pc \<times> 'a list" where
  "drain_step q (Drain_start limit) = (q, Drain_test (head q) (head q) (head q + limit), [])"
| "drain_step q (Drain_test current_head next_sequence limit_sequence) =
     (if next_sequence < limit_sequence
      then case buffer q ! slot_index q next_sequence of
             None \<Rightarrow> (q, Drain_return (next_sequence - current_head), [])
           | Some item \<Rightarrow> (q, Drain_clear current_head next_sequence limit_sequence item, [])
      else (q, Drain_return (next_sequence - current_head), []))"
| "drain_step q (Drain_clear current_head next_sequence limit_sequence item) =
     (q\<lparr>buffer := (buffer q)[slot_index q next_sequence := None]\<rparr>,
      Drain_advance current_head next_sequence limit_sequence item, [])"
| "drain_step q (Drain_advance current_head next_sequence limit_sequence item) =
     (q\<lparr>head := next_sequence + 1\<rparr>, Drain_call current_head (next_sequence + 1) limit_sequence item, [])"
| "drain_step q (Drain_call current_head next_sequence limit_sequence item) =
     (q, Drain_test current_head next_sequence limit_sequence, [item])"
| "drain_step q (Drain_return n) = (q, Consumer_idle, [])"
| "drain_step q pc = (q, pc, [])"

fun drain_all_step :: "('a, 'z) array_queue_scheme \<Rightarrow> 'a consumer_pc \<Rightarrow>
    ('a, 'z) array_queue_scheme \<times> 'a consumer_pc \<times> 'a list" where
  "drain_all_step q Drain_all_start = (q, Drain_start (tail q - head q), [])"
| "drain_all_step q pc = drain_step q pc"

text \<open>A step of the consumer, in whichever function it is.\<close>

definition consumer_step :: "('a, 'z) array_queue_scheme \<Rightarrow> 'a consumer_pc \<Rightarrow>
    ('a, 'z) array_queue_scheme \<times> 'a consumer_pc \<times> 'a list" where
  "consumer_step q pc =
     (case pc of
        Poll_read \<Rightarrow> poll_step q pc | Poll_clear _ _ \<Rightarrow> poll_step q pc
      | Poll_advance _ _ \<Rightarrow> poll_step q pc | Poll_return _ \<Rightarrow> poll_step q pc
      | _ \<Rightarrow> drain_all_step q pc)"

section \<open>The observer\<close>

datatype size_pc = Size_idle | Size_start | Size_tail u64 | Size_head u64 u64 | Size_return u64

definition clamp_size :: "u64 \<Rightarrow> u64 \<Rightarrow> u64" where
  "clamp_size cap n = (if n <s 0 then 0 else if cap < n then cap else n)"

fun size_step :: "('a, 'z) array_queue_scheme \<Rightarrow> size_pc \<Rightarrow> size_pc" where
  "size_step q Size_start = Size_tail (head q)"
| "size_step q (Size_tail current_head_before) = Size_head current_head_before (tail q)"
| "size_step q (Size_head current_head_before current_tail) =
     (if head q \<noteq> current_head_before then Size_tail (head q)
      else Size_return (clamp_size (capacity q) (current_tail - head q)))"
| "size_step q (Size_return n) = Size_idle"
| "size_step q Size_idle = Size_idle"

section \<open>The array as a window of the sequence of all elements\<close>

text \<open>
  \<open>xs\<close> are all elements that ever got a place, the first \<open>h\<close> of them taken out, those in \<open>pend\<close>
  not written yet. Place \<open>k\<close> of the sequence is slot \<open>k mod cap\<close>.
\<close>

definition ring :: "nat \<Rightarrow> 'a option list \<Rightarrow> 'a list \<Rightarrow> nat set \<Rightarrow> nat \<Rightarrow> bool" where
  "ring cap buf xs pend h \<longleftrightarrow> 0 < cap \<and> length buf = cap \<and> h \<le> length xs \<and> length xs \<le> h + cap \<and>
     pend \<subseteq> {h..<length xs} \<and>
     (\<forall>k. h \<le> k \<and> k < h + cap \<longrightarrow>
        buf ! (k mod cap) = (if k < length xs \<and> k \<notin> pend then Some (xs ! k) else None))"

lemma ring_empty: "0 < cap \<Longrightarrow> ring cap (replicate cap None) [] {} 0"
  by (simp add: ring_def)

lemma ring_slot: "ring cap buf xs pend h \<Longrightarrow> buf ! (h mod cap) = (if h < length xs \<and> h \<notin> pend then Some (xs ! h) else None)"
  by (simp add: ring_def)

lemma ring_claim:
  "ring cap buf xs pend h \<Longrightarrow> length xs < h + cap \<Longrightarrow> ring cap buf (xs @ [e]) (insert (length xs) pend) h"
  by (auto simp: ring_def nth_append less_Suc_eq)

lemma ring_fill:
  assumes r: "ring cap buf xs pend h" and k: "k \<in> pend"
  shows "ring cap (buf[k mod cap := Some (xs ! k)]) xs (pend - {k}) h"
proof -
  have b: "h \<le> k" "k < h + cap" "k < length xs" using r k by (auto simp: ring_def)
  have "(buf[k mod cap := Some (xs ! k)]) ! (j mod cap)
    = (if j < length xs \<and> j \<notin> pend - {k} then Some (xs ! j) else None)" if "h \<le> j" "j < h + cap" for j
  proof (cases "j = k")
    case True
    then show ?thesis using b r by (simp add: ring_def)
  next
    case False
    then have "j mod cap \<noteq> k mod cap" using window_mod_eq [OF that b(1,2)] by simp
    then show ?thesis using that r False by (simp add: ring_def)
  qed
  then show ?thesis using r by (auto simp: ring_def)
qed

lemma ring_put:
  assumes r: "ring cap buf xs pend h" and less: "length xs < h + cap"
  shows "ring cap (buf[length xs mod cap := Some e]) (xs @ [e]) pend h"
proof -
  have "length xs \<notin> pend" using r by (auto simp: ring_def)
  then show ?thesis using ring_fill [OF ring_claim [OF assms, of e], of "length xs"] by simp
qed

lemma ring_take:
  assumes r: "ring cap buf xs pend h" and h: "h < length xs" "h \<notin> pend"
  shows "ring cap (buf[h mod cap := None]) xs pend (Suc h)"
proof -
  have pend: "pend \<subseteq> {Suc h..<length xs}" using r h(2) by (auto simp: ring_def Suc_le_eq order_le_less)
  have "(buf[h mod cap := None]) ! (j mod cap) = (if j < length xs \<and> j \<notin> pend then Some (xs ! j) else None)"
    if j: "Suc h \<le> j" "j < Suc h + cap" for j
  proof (cases "j = h + cap")
    case True
    then have "j mod cap = h mod cap" "\<not> j < length xs" using r by (auto simp: ring_def)
    then show ?thesis using r by (simp add: ring_def)
  next
    case False
    then have "j mod cap \<noteq> h mod cap" using window_mod_eq [of h j cap h] j r by (simp add: ring_def)
    then show ?thesis using j False r by (simp add: ring_def)
  qed
  then show ?thesis using r h pend by (simp add: ring_def)
qed

section \<open>Well-formed queues\<close>

text \<open>The capacity is a power of two and the mask its low bits, which \<open>init\<close> sees to.\<close>

definition shaped :: "nat \<Rightarrow> ('a, 'z) array_queue_scheme \<Rightarrow> bool" where
  "shaped cap q \<longleftrightarrow> (\<exists>p<63. cap = 2 ^ p) \<and> unat (capacity q) = cap \<and> mask_bits q = capacity q - 1"

lemma shaped_update [simp]:
  "shaped cap (q\<lparr>tail := t\<rparr>) = shaped cap q" "shaped cap (q\<lparr>head := t\<rparr>) = shaped cap q"
  "shaped cap (q\<lparr>buffer := b\<rparr>) = shaped cap q"
  by (simp_all add: shaped_def)

lemma slot_index_mod: "shaped cap q \<Longrightarrow> slot_index q s = unat s mod cap"
proof -
  assume s: "shaped cap q"
  then obtain p where p: "p < 63" "cap = 2 ^ p" by (auto simp: shaped_def)
  have "capacity q = word_of_nat (unat (capacity q))" by simp
  also have "unat (capacity q) = 2 ^ p" using s p by (simp add: shaped_def)
  finally have "capacity q = 2 ^ p" by simp
  then have "mask_bits q = mask p" using s by (simp add: shaped_def mask_eq_exp_minus_1)
  then show ?thesis using p by (simp add: slot_index_def take_bit_eq_mask [symmetric] unsigned_take_bit_eq)
      (simp add: take_bit_eq_mod)
qed

definition new_queue :: "nat \<Rightarrow> ('a, 'z) array_queue_scheme \<Rightarrow> bool" where
  "new_queue cap q \<longleftrightarrow> shaped cap q \<and> tail q = 0 \<and> head q = 0 \<and> buffer q = replicate cap None"

section \<open>What the consumer and the observer keep\<close>

text \<open>The sequence number the consumer works at, the element it holds, and whether it cleared a slot.\<close>

fun at_sequence :: "'a consumer_pc \<Rightarrow> u64 option" where
  "at_sequence (Poll_clear s x) = Some s"
| "at_sequence (Poll_advance s x) = Some s"
| "at_sequence (Drain_test c s l) = Some s"
| "at_sequence (Drain_clear c s l x) = Some s"
| "at_sequence (Drain_advance c s l x) = Some s"
| "at_sequence (Drain_call c s l x) = Some s"
| "at_sequence _ = None"

fun in_hand :: "'a consumer_pc \<Rightarrow> 'a list" where
  "in_hand (Poll_advance s x) = [x]"
| "in_hand (Poll_return (Some x)) = [x]"
| "in_hand (Drain_advance c s l x) = [x]"
| "in_hand (Drain_call c s l x) = [x]"
| "in_hand _ = []"

fun cleared :: "'a consumer_pc \<Rightarrow> nat" where
  "cleared (Poll_advance s x) = 1"
| "cleared (Drain_advance c s l x) = 1"
| "cleared _ = 0"

fun clearing_item :: "'a consumer_pc \<Rightarrow> 'a option" where
  "clearing_item (Poll_clear s x) = Some x"
| "clearing_item (Drain_clear c s l x) = Some x"
| "clearing_item _ = None"

definition consuming :: "nat \<Rightarrow> ('a, 'z) array_queue_scheme \<Rightarrow> 'a consumer_pc \<Rightarrow> 'a list \<Rightarrow> 'a list \<Rightarrow> nat set \<Rightarrow> bool" where
  "consuming cap q pc out xs pend \<longleftrightarrow>
     (let h = length (out @ in_hand pc)
      in shaped cap q \<and> ring cap (buffer q) xs pend h \<and> prefix (out @ in_hand pc) xs \<and>
         unat (head q) + cleared pc = h \<and>
         (\<forall>s. at_sequence pc = Some s \<longrightarrow> s = head q) \<and>
         (\<forall>x. clearing_item pc = Some x \<longrightarrow> h < length xs \<and> h \<notin> pend \<and> x = xs ! h))"

lemma unat_Suc: "unat (w :: u64) + 1 < 2 ^ 64 \<Longrightarrow> unat (w + 1) = unat w + 1"
  by (simp add: unat_word_ariths)

text \<open>The three kinds of step: without a write, clearing a slot, advancing the head.\<close>

lemma consuming_moves:
  assumes "consuming cap q pc out xs pend" "out' @ in_hand pc' = out @ in_hand pc" "cleared pc' = cleared pc"
    "at_sequence pc' = None \<or> at_sequence pc' = Some (head q)"
    "clearing_item pc' = None \<or> cleared pc = 0 \<and> clearing_item pc' = buffer q ! slot_index q (head q)"
  shows "consuming cap q pc' out' xs pend"
proof -
  let ?h = "length (out @ in_hand pc)"
  have "ring cap (buffer q) xs pend ?h" "shaped cap q" "unat (head q) + cleared pc = ?h"
    using assms(1) by (simp_all add: consuming_def Let_def)
  then have "?h < length xs \<and> ?h \<notin> pend \<and> x = xs ! ?h" if "clearing_item pc' = Some x" for x
    using that assms(5) ring_slot [of cap "buffer q" xs pend ?h] by (auto simp: slot_index_mod split: if_splits)
  then show ?thesis using assms(1-4) unfolding consuming_def Let_def by auto
qed

lemma consuming_clears:
  assumes "consuming cap q pc out xs pend" "clearing_item pc = Some x" "at_sequence pc = Some s" "in_hand pc = []" "cleared pc = 0"
    "in_hand pc' = [x]" "cleared pc' = 1" "at_sequence pc' = Some s" "clearing_item pc' = None"
  shows "consuming cap (q\<lparr>buffer := (buffer q)[slot_index q s := None]\<rparr>) pc' out xs pend"
proof -
  let ?h = "length out"
  have inv: "shaped cap q" "ring cap (buffer q) xs pend ?h" "prefix out xs" "unat s = ?h" "s = head q"
    and h: "?h < length xs" "?h \<notin> pend" "x = xs ! ?h"
    using assms by (simp_all add: consuming_def Let_def)
  have "ring cap ((buffer q)[slot_index q s := None]) xs pend (Suc ?h)"
    using ring_take [OF inv(2) h(1,2)] inv(1,4) by (simp add: slot_index_mod)
  moreover have "prefix (out @ [x]) xs" using append_one_prefix [OF inv(3) h(1)] h(3) by simp
  ultimately show ?thesis using assms(6-9) inv by (simp add: consuming_def Let_def)
qed

lemma consuming_advances:
  assumes "consuming cap q pc out xs pend" "length xs < 2 ^ 64" "at_sequence pc = Some s" "cleared pc = 1"
    "in_hand pc' = in_hand pc" "cleared pc' = 0" "at_sequence pc' = None \<or> at_sequence pc' = Some (s + 1)" "clearing_item pc' = None"
  shows "consuming cap (q\<lparr>head := s + 1\<rparr>) pc' out xs pend"
proof -
  let ?h = "length (out @ in_hand pc)"
  have inv: "shaped cap q" "ring cap (buffer q) xs pend ?h" "prefix (out @ in_hand pc) xs"
    and s: "s = head q" "unat s + 1 = ?h"
    using assms by (simp_all add: consuming_def Let_def)
  have "?h \<le> length xs" using inv(2) by (simp add: ring_def)
  then have "unat (s + 1) = ?h" using assms(2) s(2) unat_Suc [of s] by linarith
  then show ?thesis
    using assms(5-8) inv s by (auto simp add: consuming_def Let_def)
qed

lemma consuming_head:
  assumes "consuming cap q pc out xs pend" "length xs < 2 ^ 64" "cleared pc = 1"
  shows "unat (head q) \<le> unat (head q + 1)"
proof -
  have "unat (head q) + 1 \<le> length xs" using assms by (auto simp: consuming_def ring_def Let_def)
  then show ?thesis using assms(2) unat_Suc [of "head q"] by linarith
qed

lemma consumer_step_keeps:
  assumes c: "consuming cap q pc out xs pend" and bound: "length xs < 2 ^ 64"
  shows "case consumer_step q pc of (q', pc', ds) \<Rightarrow> consuming cap q' pc' (out @ ds) xs pend \<and>
    unat (head q) \<le> unat (head q') \<and> tail q' = tail q \<and> array_queue.more q' = array_queue.more q"
proof -
  have at: "s = head q" if "at_sequence pc = Some s" for s using c that by (simp add: consuming_def Let_def)
  show ?thesis
    using at consuming_head [OF c bound]
    by (cases pc)
      (auto simp: consumer_step_def intro!: consuming_moves [OF c] consuming_clears [OF c]
        consuming_advances [OF c bound] split: option.splits if_splits)
qed

text \<open>What a producer does to the sequence, seen by the consumer.\<close>

lemma consuming_cong:
  "head q' = head q \<Longrightarrow> buffer q' = buffer q \<Longrightarrow> capacity q' = capacity q \<Longrightarrow> mask_bits q' = mask_bits q \<Longrightarrow>
   consuming cap q pc out xs pend \<Longrightarrow> consuming cap q' pc out xs pend"
  by (simp add: consuming_def shaped_def)

lemma consuming_tail [simp]: "consuming cap (q\<lparr>tail := t\<rparr>) pc out xs pend = consuming cap q pc out xs pend"
  by (simp add: consuming_def slot_index_def)

lemma consuming_claim:
  assumes "consuming cap q pc out xs pend" "length xs < unat (head q) + cap"
  shows "consuming cap q pc out (xs @ [e]) (insert (length xs) pend)"
proof -
  have "length xs < length (out @ in_hand pc) + cap" using assms by (simp add: consuming_def Let_def)
  then show ?thesis
    using assms(1) ring_claim [of cap "buffer q" xs pend "length (out @ in_hand pc)" e]
    by (auto simp: consuming_def Let_def nth_append)
qed

lemma consuming_fill:
  assumes "consuming cap q pc out xs pend" "unat t \<in> pend"
  shows "consuming cap (q\<lparr>buffer := (buffer q)[slot_index q t := Some (xs ! unat t)]\<rparr>) pc out xs (pend - {unat t})"
  using assms ring_fill [of cap "buffer q" xs pend "length (out @ in_hand pc)" "unat t"]
  by (auto simp: consuming_def Let_def slot_index_mod)

lemma consuming_put:
  assumes "consuming cap q pc out xs {}" "length xs < unat (head q) + cap" "unat t = length xs"
  shows "consuming cap (q\<lparr>buffer := (buffer q)[slot_index q t := Some e]\<rparr>) pc out (xs @ [e]) {}"
  using consuming_fill [OF consuming_claim [OF assms(1,2), of e], of t] assms(3) by simp

lemma consuming_start:
  "new_queue cap q \<Longrightarrow> consuming cap q Consumer_idle [] [] {}"
  by (auto simp: new_queue_def consuming_def ring_empty shaped_def)

lemma consuming_shaped: "consuming cap q pc out xs pend \<Longrightarrow> unat (capacity q) = cap"
  "consuming cap q pc out xs pend \<Longrightarrow> unat (head q) \<le> length xs"
  by (auto simp: consuming_def shaped_def ring_def Let_def)

text \<open>The limit does not wrap while the counters are far enough from \<open>2 ^ 64\<close>.\<close>

lemma buffer_limit:
  assumes "unat h \<le> n" "n + unat c < 2 ^ 64"
  shows "h + c \<le> t \<longleftrightarrow> unat h + unat c \<le> unat (t :: u64)"
proof -
  have "unat (h + c) = unat h + unat c" using assms by (subst unat_add_lem [symmetric]) simp
  then show ?thesis by (simp add: word_le_nat_alt)
qed

text \<open>
  What the observer knows. \<open>snap\<close> is the number of elements between the counters at its last read of
  the tail.
\<close>

definition observing :: "nat \<Rightarrow> ('a, 'z) array_queue_scheme \<Rightarrow> size_pc \<Rightarrow> nat \<Rightarrow> bool" where
  "observing cap q pc snap \<longleftrightarrow>
     (case pc of
        Size_tail hb \<Rightarrow> unat hb \<le> unat (head q)
      | Size_head hb t \<Rightarrow> unat hb \<le> unat (head q) \<and>
          (hb = head q \<longrightarrow> snap = unat t - unat hb \<and> unat hb \<le> unat t + 1 \<and> unat t \<le> unat hb + cap)
      | Size_return n \<Rightarrow> unat n = snap
      | _ \<Rightarrow> True)"

fun next_snapshot :: "('a, 'z) array_queue_scheme \<Rightarrow> size_pc \<Rightarrow> nat \<Rightarrow> nat" where
  "next_snapshot q (Size_tail hb) snap = unat (tail q) - unat (head q)"
| "next_snapshot q pc snap = snap"

lemma observing_later: "observing cap q pc snap \<Longrightarrow> unat (head q) \<le> unat (head q') \<Longrightarrow> observing cap q' pc snap"
  by (cases pc) (auto simp: observing_def word_unat_eq_iff)

lemma clamp_exact:
  assumes "unat c = cap" "cap = 2 ^ p" "p < 63" "unat h \<le> unat t + 1" "unat t \<le> unat h + cap"
  shows "unat (clamp_size c (t - h)) = unat t - unat h"
proof (cases "unat h \<le> unat t")
  case True
  then have n: "unat (t - h) = unat t - unat h" by (simp add: unat_sub word_le_nat_alt)
  have "cap < 2 ^ 63" using assms(2,3) power_strict_increasing [of p 63 "2 :: nat"] by simp
  then have "unat (t - h) < 2 ^ 63" using n assms(5) by linarith
  then have "int (unat (t - h)) < int (2 ^ 63)" unfolding of_nat_less_iff .
  then have "uint (t - h) < 2 ^ 63" unfolding of_nat_unat by simp
  then have "uint (t - h) div 2 ^ 63 = 0" by (intro div_pos_pos_trivial) simp_all
  then have "\<not> t - h <s 0" by (simp add: word_sless_alt sint_uint bit_iff_odd)
  then show ?thesis using n assms(1,5) by (auto simp: clamp_size_def word_less_nat_alt)
next
  case False
  then have "unat h = unat t + 1" using assms(4) by linarith
  then have "h = t + 1" using unat_Suc [of t] unat_u64_less [of h] by (simp add: word_unat_eq_iff)
  then have "t - h = - 1" by simp
  then show ?thesis using False by (simp add: clamp_size_def)
qed

lemma size_step_keeps:
  assumes "observing cap q pc snap" "shaped cap q" "unat (head q) \<le> unat (tail q) + 1" "unat (tail q) \<le> unat (head q) + cap"
  shows "observing cap q (size_step q pc) (next_snapshot q pc snap)"
proof (cases pc)
  case (Size_head hb t)
  obtain p where "p < 63" "cap = 2 ^ p" "unat (capacity q) = cap" using assms(2) by (auto simp: shaped_def)
  then show ?thesis using assms(1) Size_head clamp_exact [of "capacity q" cap p hb t] by (auto simp: observing_def)
qed (use assms in \<open>auto simp: observing_def\<close>)

end
