(* ===== verification/SpscQueue.thy ===== *)
theory SpscQueue
  imports ArrayQueue
begin

text \<open>
  \<open>aeron-lib/include/aeron/concurrent/aeron_spsc_concurrent_array_queue.h\<close>: one producer, one
  consumer and an observer of the size, each at its own place and interleaved step by step.
  \<open>init\<close> and \<open>close\<close> are only declared in the header; runs start from a \<open>new_queue\<close>.
\<close>

section \<open>The producer\<close>

record 'a spsc_concurrent_array_queue = "'a array_queue" +
  head_cache :: u64

datatype 'a spsc_offer_pc =
    Offer_idle | Offer_start "'a option" | Offer_head 'a u64 | Offer_store 'a u64 | Offer_tail 'a u64
  | Offer_return "'a option" aeron_queue_offer_result

fun spsc_offer_step :: "'a spsc_concurrent_array_queue \<Rightarrow> 'a spsc_offer_pc \<Rightarrow> 'a spsc_concurrent_array_queue \<times> 'a spsc_offer_pc" where
  "spsc_offer_step q (Offer_start None) = (q, Offer_return None AERON_OFFER_ERROR)"
| "spsc_offer_step q (Offer_start (Some element)) =
     (let buffer_limit = head_cache q + capacity q; current_tail = tail q
      in if buffer_limit \<le> current_tail then (q, Offer_head element current_tail)
         else (q, Offer_store element current_tail))"
| "spsc_offer_step q (Offer_head element current_tail) =
     (let current_head = head q; buffer_limit = current_head + capacity q
      in if buffer_limit \<le> current_tail then (q, Offer_return (Some element) AERON_OFFER_FULL)
         else (q\<lparr>head_cache := current_head\<rparr>, Offer_store element current_tail))"
| "spsc_offer_step q (Offer_store element current_tail) =
     (q\<lparr>buffer := (buffer q)[slot_index q current_tail := Some element]\<rparr>, Offer_tail element current_tail)"
| "spsc_offer_step q (Offer_tail element current_tail) =
     (q\<lparr>tail := current_tail + 1\<rparr>, Offer_return (Some element) AERON_OFFER_SUCCESS)"
| "spsc_offer_step q (Offer_return element result) = (q, Offer_idle)"
| "spsc_offer_step q Offer_idle = (q, Offer_idle)"

section \<open>The threads together\<close>

text \<open>
  \<open>answers\<close> are the results \<open>offer\<close> has returned, \<open>delivered\<close> what the consumer's client has got.
  \<open>placed\<close> (the elements written to the array so far) and \<open>snapshot\<close> (the number of elements between
  the counters when the observer last read the tail) are bookkeeping no step reads.
\<close>

record 'a spsc_system =
  queue :: "'a spsc_concurrent_array_queue"
  producer :: "'a spsc_offer_pc"
  consumer :: "'a consumer_pc"
  observer :: size_pc
  answers :: "('a option \<times> aeron_queue_offer_result) list"
  delivered :: "'a list"
  placed :: "'a list"
  snapshot :: nat

definition producer_moves :: "'a spsc_system \<Rightarrow> 'a spsc_system" where
  "producer_moves s =
     (case spsc_offer_step (queue s) (producer s) of (q, pc) \<Rightarrow>
        s\<lparr>queue := q, producer := pc,
          answers := answers s @ (case producer s of Offer_return e r \<Rightarrow> [(e, r)] | _ \<Rightarrow> []),
          placed := placed s @ (case producer s of Offer_store e t \<Rightarrow> [e] | _ \<Rightarrow> [])\<rparr>)"

definition consumer_moves :: "'a spsc_system \<Rightarrow> 'a spsc_system" where
  "consumer_moves s =
     (case consumer_step (queue s) (consumer s) of (q, pc, ds) \<Rightarrow>
        s\<lparr>queue := q, consumer := pc, delivered := delivered s @ ds\<rparr>)"

definition observer_moves :: "'a spsc_system \<Rightarrow> 'a spsc_system" where
  "observer_moves s = s\<lparr>observer := size_step (queue s) (observer s),
     snapshot := next_snapshot (queue s) (observer s) (snapshot s)\<rparr>"

inductive spsc_step :: "'a spsc_system \<Rightarrow> 'a spsc_system \<Rightarrow> bool" where
  offer: "producer s = Offer_idle \<Longrightarrow> spsc_step s (s\<lparr>producer := Offer_start element\<rparr>)"
| poll: "consumer s = Consumer_idle \<Longrightarrow> spsc_step s (s\<lparr>consumer := Poll_read\<rparr>)"
| drain: "consumer s = Consumer_idle \<Longrightarrow> spsc_step s (s\<lparr>consumer := Drain_start limit\<rparr>)"
| drain_all: "consumer s = Consumer_idle \<Longrightarrow> spsc_step s (s\<lparr>consumer := Drain_all_start\<rparr>)"
| size: "observer s = Size_idle \<Longrightarrow> spsc_step s (s\<lparr>observer := Size_start\<rparr>)"
| producer: "spsc_step s (producer_moves s)"
| consumer: "spsc_step s (consumer_moves s)"
| observer: "spsc_step s (observer_moves s)"

inductive_simps spsc_step_iff: "spsc_step s s'"

definition spsc_start :: "'a spsc_concurrent_array_queue \<Rightarrow> 'a spsc_system" where
  "spsc_start q = \<lparr>queue = q, producer = Offer_idle, consumer = Consumer_idle, observer = Size_idle,
     answers = [], delivered = [], placed = [], snapshot = 0\<rparr>"

section \<open>The invariant\<close>

fun spsc_published :: "'a spsc_offer_pc \<Rightarrow> nat" where
  "spsc_published (Offer_tail e t) = 1"
| "spsc_published _ = 0"

fun offer_tail_read :: "'a spsc_offer_pc \<Rightarrow> u64 option" where
  "offer_tail_read (Offer_head e t) = Some t"
| "offer_tail_read (Offer_store e t) = Some t"
| "offer_tail_read (Offer_tail e t) = Some t"
| "offer_tail_read _ = None"

fun accepting :: "'a spsc_offer_pc \<Rightarrow> 'a list" where
  "accepting (Offer_tail e t) = [e]"
| "accepting (Offer_return (Some e) AERON_OFFER_SUCCESS) = [e]"
| "accepting _ = []"

definition accepted_offers :: "('a option \<times> aeron_queue_offer_result) list \<Rightarrow> 'a list" where
  "accepted_offers rs = [e. (Some e, r) \<leftarrow> rs, r = AERON_OFFER_SUCCESS]"

definition producing :: "nat \<Rightarrow> 'a spsc_system \<Rightarrow> bool" where
  "producing cap s \<longleftrightarrow>
     unat (tail (queue s)) + spsc_published (producer s) = length (placed s) \<and>
     unat (head_cache (queue s)) \<le> unat (head (queue s)) \<and>
     (\<forall>t. offer_tail_read (producer s) = Some t \<longrightarrow> t = tail (queue s)) \<and>
     length (placed s) \<le> unat (head (queue s)) + cap \<and>
     (\<forall>e t. producer s = Offer_store e t \<longrightarrow> length (placed s) < unat (head (queue s)) + cap) \<and>
     placed s = accepted_offers (answers s) @ accepting (producer s)"

definition spsc_inv :: "nat \<Rightarrow> 'a spsc_system \<Rightarrow> bool" where
  "spsc_inv cap s \<longleftrightarrow> consuming cap (queue s) (consumer s) (delivered s) (placed s) {} \<and> producing cap s \<and>
     observing cap (queue s) (observer s) (snapshot s)"

lemma accepted_append [simp]: "accepted_offers (rs @ rs') = accepted_offers rs @ accepted_offers rs'"
  by (simp add: accepted_offers_def)

lemma accepted_one [simp]:
  "accepted_offers [(e, r)] = (case e of None \<Rightarrow> [] | Some x \<Rightarrow> if r = AERON_OFFER_SUCCESS then [x] else [])" "accepted_offers [] = []"
  by (auto simp: accepted_offers_def split: option.splits)

lemma spsc_producer_keeps:
  assumes inv: "spsc_inv cap s" and bound: "length (placed s) + 1 + cap < 2 ^ 64"
  shows "spsc_inv cap (producer_moves s)"
proof -
  let ?q = "queue s"
  have c: "consuming cap ?q (consumer s) (delivered s) (placed s) {}" and p: "producing cap s"
    and o: "observing cap ?q (observer s) (snapshot s)"
    using inv by (simp_all add: spsc_inv_def)
  note cap = consuming_shaped [OF c]
  have limit: "h + capacity ?q \<le> t \<longleftrightarrow> unat h + cap \<le> unat t" if "unat h \<le> unat (head ?q)" for h t
    using buffer_limit [of h "length (placed s)" "capacity ?q" t] that cap(1,2) bound by simp
  show ?thesis
  proof (cases "producer s")
    case (Offer_store e t)
    then have "unat t = length (placed s)" "length (placed s) < unat (head ?q) + cap" using p by (auto simp: producing_def)
    then show ?thesis
      using Offer_store p consuming_put [OF c, of t e]
      by (auto simp: spsc_inv_def producing_def producer_moves_def intro: observing_later [OF o])
  next
    case (Offer_tail e t)
    then have "unat (t + 1) = length (placed s)" using p bound unat_Suc [of t] by (auto simp: producing_def)
    then show ?thesis
      using Offer_tail p c
      by (auto simp: spsc_inv_def producing_def producer_moves_def intro: observing_later [OF o])
  next
    case (Offer_start e)
    then show ?thesis
      using p c o limit
      by (cases e) (auto simp: spsc_inv_def producing_def producer_moves_def Let_def not_le)
  next
    case (Offer_head e t)
    have "consuming cap (?q\<lparr>head_cache := h\<rparr>) (consumer s) (delivered s) (placed s) {}" for h
      by (rule consuming_cong [OF _ _ _ _ c]) simp_all
    then show ?thesis
      using Offer_head p c o limit
      by (auto simp: spsc_inv_def producing_def producer_moves_def Let_def not_le intro: observing_later [OF o])
  next
    case (Offer_return e r)
    then show ?thesis
      using p c o by (cases e; cases r) (auto simp: spsc_inv_def producing_def producer_moves_def)
  qed (use p c o in \<open>auto simp: spsc_inv_def producing_def producer_moves_def\<close>)
qed

lemma spsc_consumer_keeps:
  assumes inv: "spsc_inv cap s" and bound: "length (placed s) + cap < 2 ^ 64"
  shows "spsc_inv cap (consumer_moves s)"
proof -
  have c: "consuming cap (queue s) (consumer s) (delivered s) (placed s) {}" and p: "producing cap s"
    and o: "observing cap (queue s) (observer s) (snapshot s)"
    using inv by (simp_all add: spsc_inv_def)
  obtain q' pc' ds where step: "consumer_step (queue s) (consumer s) = (q', pc', ds)" by (cases "consumer_step (queue s) (consumer s)")
  have k: "consuming cap q' pc' (delivered s @ ds) (placed s) {}" "unat (head (queue s)) \<le> unat (head q')" "tail q' = tail (queue s)"
    and "array_queue.more q' = array_queue.more (queue s)"
    using consumer_step_keeps [OF c] step bound by simp_all
  then have "head_cache q' = head_cache (queue s)" by (cases q'; cases "queue s") simp
  then show ?thesis
    using step p k observing_later [OF o k(2)] by (auto simp: spsc_inv_def producing_def consumer_moves_def)
qed

lemma spsc_step_keeps:
  assumes "spsc_step s s'" "spsc_inv cap s" "length (placed s) + 1 + cap < 2 ^ 64"
  shows "spsc_inv cap s'"
  using assms(1)
proof (cases rule: spsc_step.cases)
  case observer
  have "shaped cap (queue s)" "unat (head (queue s)) \<le> length (placed s)"
    using assms(2) by (auto simp: spsc_inv_def consuming_def ring_def Let_def)
  moreover have "spsc_published (producer s) \<le> 1" by (cases "producer s") auto
  ultimately have "observing cap (queue s) (size_step (queue s) (observer s)) (next_snapshot (queue s) (observer s) (snapshot s))"
    using assms(2) by (intro size_step_keeps) (auto simp: spsc_inv_def producing_def)
  then show ?thesis using observer assms(2) by (auto simp: spsc_inv_def producing_def observer_moves_def)
next
  case producer
  then show ?thesis using spsc_producer_keeps [OF assms(2,3)] by simp
next
  case consumer
  then show ?thesis using spsc_consumer_keeps [OF assms(2)] assms(3) by simp
qed (use assms(2) in \<open>auto simp: spsc_inv_def producing_def observing_def elim!: consuming_moves\<close>)

lemma spsc_step_placed: "spsc_step s s' \<Longrightarrow> length (placed s) \<le> length (placed s')"
  by (cases rule: spsc_step.cases)
    (auto simp: producer_moves_def consumer_moves_def observer_moves_def split: prod.splits)

lemma spsc_reachable:
  assumes "spsc_step\<^sup>*\<^sup>* (spsc_start q) s" "new_queue cap q" "head_cache q = 0" "length (placed s) + 1 + cap < 2 ^ 64"
  shows "spsc_inv cap s"
  using assms(1,4)
proof (induction rule: rtranclp_induct)
  case base
  show ?case
    using consuming_start [OF assms(2)] assms(2,3)
    by (simp add: spsc_start_def spsc_inv_def producing_def observing_def new_queue_def)
next
  case (step s s')
  then show ?case using spsc_step_placed [of s s'] spsc_step_keeps [of s s' cap] by simp
qed

section \<open>The contract\<close>

text \<open>
  C13. The queue of one producer and one consumer is first in, first out under every interleaving of the
  steps of \<open>offer\<close>, \<open>poll\<close>, \<open>drain\<close>, \<open>drain_all\<close> and \<open>size\<close>: what the consumer has got is the
  beginning of what \<open>offer\<close> has accepted (or is about to), nothing lost, doubled or reordered; no more
  than \<open>capacity\<close> accepted elements (and one in the consumer's hands) are outstanding; \<open>offer\<close> answers
  FULL exactly when no slot is free at its read of the head; and \<open>size\<close> answers the number of elements
  there were at its last read of the tail. The counters are assumed not to reach \<open>2 ^ 64\<close>.
\<close>

theorem spsc_queue_fifo:
  assumes "spsc_step\<^sup>*\<^sup>* (spsc_start q) s" and "new_queue cap q" and "head_cache q = 0"
    and "length (placed s) + 1 + cap < 2 ^ 64"
  shows "prefix (delivered s) (accepted_offers (answers s) @ accepting (producer s)) \<and>
    length (accepted_offers (answers s)) \<le> length (delivered s) + length (in_hand (consumer s)) + cap \<and>
    (producer s = Offer_head e t \<longrightarrow>
      (producer (producer_moves s) = Offer_return (Some e) AERON_OFFER_FULL \<longleftrightarrow>
       length (accepted_offers (answers s)) = unat (head (queue s)) + cap)) \<and>
    (observer s = Size_return n \<longrightarrow> unat n = snapshot s)"
proof -
  have inv: "spsc_inv cap s" using assms by (rule spsc_reachable)
  then have c: "consuming cap (queue s) (consumer s) (delivered s) (placed s) {}" and p: "producing cap s"
    and o: "observing cap (queue s) (observer s) (snapshot s)"
    by (simp_all add: spsc_inv_def)
  have "prefix (delivered s) (placed s)" using c by (auto simp: consuming_def Let_def dest: append_prefixD)
  moreover have "length (placed s) \<le> length (delivered s) + length (in_hand (consumer s)) + cap"
    using c by (simp add: consuming_def ring_def Let_def)
  moreover have "producer (producer_moves s) = Offer_return (Some e) AERON_OFFER_FULL \<longleftrightarrow>
      length (accepted_offers (answers s)) = unat (head (queue s)) + cap" if "producer s = Offer_head e t"
    using that p buffer_limit [of "head (queue s)" "length (placed s)" "capacity (queue s)" t] consuming_shaped [OF c] assms(4)
    by (auto simp: producing_def producer_moves_def Let_def)
  moreover have "observer s = Size_return n \<longrightarrow> unat n = snapshot s" using o by (auto simp: observing_def)
  ultimately show ?thesis using p by (auto simp: producing_def)
qed

text \<open>The consumer may get an element before \<open>offer\<close> has published the tail.\<close>

theorem spsc_queue_fifo_witness:
  "\<exists>q :: nat spsc_concurrent_array_queue. \<exists>s. spsc_step\<^sup>*\<^sup>* (spsc_start q) s \<and> delivered s = [7] \<and> answers s = [] \<and>
     prefix (delivered s) (accepted_offers (answers s) @ accepting (producer s))"
proof -
  let ?q = "\<lparr>tail = 0, head = 0, capacity = 2, mask_bits = 1, buffer = [None, None], head_cache = 0\<rparr> :: nat spsc_concurrent_array_queue"
  let ?s1 = "(spsc_start ?q)\<lparr>producer := Offer_start (Some 7)\<rparr>"
  let ?s2 = "producer_moves (producer_moves ?s1)"
  let ?s3 = "?s2\<lparr>consumer := Poll_read\<rparr>"
  let ?s = "consumer_moves (consumer_moves (consumer_moves (consumer_moves ?s3)))"
  have s3: "?s3 = (spsc_start ?q)\<lparr>queue := ?q\<lparr>buffer := [Some 7, None]\<rparr>, producer := Offer_tail 7 0, consumer := Poll_read, placed := [7]\<rparr>"
    by (simp add: spsc_start_def producer_moves_def slot_index_def Let_def word_le_nat_alt)
  have "spsc_step\<^sup>*\<^sup>* (spsc_start ?q) ?s1" by (rule r_into_rtranclp, rule spsc_step.offer) (simp add: spsc_start_def)
  then have "spsc_step\<^sup>*\<^sup>* (spsc_start ?q) ?s2"
    by (rule rtranclp.rtrancl_into_rtrancl [OF rtranclp.rtrancl_into_rtrancl]) (rule spsc_step.producer)+
  then have "spsc_step\<^sup>*\<^sup>* (spsc_start ?q) ?s3"
    by (rule rtranclp.rtrancl_into_rtrancl) (rule spsc_step.poll, simp add: producer_moves_def spsc_start_def split: prod.splits)
  then have run: "spsc_step\<^sup>*\<^sup>* (spsc_start ?q) ?s"
    by (rule rtranclp.rtrancl_into_rtrancl [OF rtranclp.rtrancl_into_rtrancl [OF rtranclp.rtrancl_into_rtrancl [OF rtranclp.rtrancl_into_rtrancl]]])
      (rule spsc_step.consumer)+
  have s: "delivered ?s = [7]" "answers ?s = []" "placed ?s = [7]"
    unfolding s3 by (simp_all add: spsc_start_def consumer_moves_def consumer_step_def slot_index_def)
  have "shaped 2 ?q" unfolding shaped_def by (auto intro: exI [of _ 1])
  then have new: "new_queue 2 ?q" by (simp add: new_queue_def numeral_2_eq_2)
  have "prefix (delivered ?s) (accepted_offers (answers ?s) @ accepting (producer ?s))"
    by (rule spsc_queue_fifo [OF run new, THEN conjunct1]) (simp_all add: s(3))
  with run s(1,2) show ?thesis by (intro exI conjI)
qed

end
