(* ===== verification/MpscQueue.thy ===== *)
theory MpscQueue
  imports ArrayQueue
begin

text \<open>
  \<open>aeron-lib/include/aeron/concurrent/aeron_mpsc_concurrent_array_queue.h\<close>: any number of producers,
  named by the elements of a type, one consumer and an observer of the size, interleaved step by step.
  The compare-and-set of the tail is one step. \<open>init\<close> and \<open>close\<close> are only declared in the header.
\<close>

section \<open>The producers\<close>

text \<open>\<open>own_head_cache\<close> is the member \<open>head_cache\<close>, which no function of the header uses.\<close>

record 'a mpsc_concurrent_array_queue = "'a array_queue" +
  own_head_cache :: u64
  shared_head_cache :: u64

datatype 'a mpsc_offer_pc =
    Offer_idle | Offer_start "'a option" | Offer_tail 'a u64 | Offer_head 'a u64
  | Offer_share 'a u64 u64 u64 | Offer_cas 'a u64 u64 | Offer_store 'a u64
  | Offer_return "'a option" aeron_queue_offer_result

text \<open>
  \<open>Offer_tail\<close> holds \<open>buffer_limit\<close>, \<open>Offer_share\<close> \<open>current_head\<close>, \<open>buffer_limit\<close> and \<open>current_tail\<close>.
\<close>

fun mpsc_offer_step :: "'a mpsc_concurrent_array_queue \<Rightarrow> 'a mpsc_offer_pc \<Rightarrow> 'a mpsc_concurrent_array_queue \<times> 'a mpsc_offer_pc" where
  "mpsc_offer_step q (Offer_start None) = (q, Offer_return None AERON_OFFER_ERROR)"
| "mpsc_offer_step q (Offer_start (Some element)) = (q, Offer_tail element (shared_head_cache q + capacity q))"
| "mpsc_offer_step q (Offer_tail element buffer_limit) =
     (let current_tail = tail q
      in if buffer_limit \<le> current_tail then (q, Offer_head element current_tail)
         else (q, Offer_cas element buffer_limit current_tail))"
| "mpsc_offer_step q (Offer_head element current_tail) =
     (let current_head = head q; buffer_limit = current_head + capacity q
      in if buffer_limit \<le> current_tail then (q, Offer_return (Some element) AERON_OFFER_FULL)
         else (q, Offer_share element current_head buffer_limit current_tail))"
| "mpsc_offer_step q (Offer_share element current_head buffer_limit current_tail) =
     (q\<lparr>shared_head_cache := current_head\<rparr>, Offer_cas element buffer_limit current_tail)"
| "mpsc_offer_step q (Offer_cas element buffer_limit current_tail) =
     (if tail q = current_tail then (q\<lparr>tail := current_tail + 1\<rparr>, Offer_store element current_tail)
      else (q, Offer_tail element buffer_limit))"
| "mpsc_offer_step q (Offer_store element current_tail) =
     (q\<lparr>buffer := (buffer q)[slot_index q current_tail := Some element]\<rparr>, Offer_return (Some element) AERON_OFFER_SUCCESS)"
| "mpsc_offer_step q (Offer_return element result) = (q, Offer_idle)"
| "mpsc_offer_step q Offer_idle = (q, Offer_idle)"

text \<open>The consumer and the observer have the code of the other queue.\<close>

definition mpsc_drain_step :: "'a mpsc_concurrent_array_queue \<Rightarrow> 'a consumer_pc \<Rightarrow>
    'a mpsc_concurrent_array_queue \<times> 'a consumer_pc \<times> 'a list" where
  "mpsc_drain_step q pc = drain_step q pc"

definition mpsc_drain_all_step :: "'a mpsc_concurrent_array_queue \<Rightarrow> 'a consumer_pc \<Rightarrow>
    'a mpsc_concurrent_array_queue \<times> 'a consumer_pc \<times> 'a list" where
  "mpsc_drain_all_step q pc = (if pc = Drain_all_start then drain_all_step q pc else mpsc_drain_step q pc)"

definition mpsc_size_step :: "'a mpsc_concurrent_array_queue \<Rightarrow> size_pc \<Rightarrow> size_pc" where
  "mpsc_size_step q pc = size_step q pc"

section \<open>The threads together\<close>

text \<open>
  \<open>claimed\<close> are the elements in the order in which their producers took a place at the tail, each with
  its producer; with \<open>snapshot\<close> it is bookkeeping no step reads.
\<close>

record ('i, 'a) mpsc_system =
  queue :: "'a mpsc_concurrent_array_queue"
  producers :: "'i \<Rightarrow> 'a mpsc_offer_pc"
  consumer :: "'a consumer_pc"
  observer :: size_pc
  answers :: "('i \<times> 'a option \<times> aeron_queue_offer_result) list"
  delivered :: "'a list"
  claimed :: "('i \<times> 'a) list"
  snapshot :: nat

definition producer_moves :: "'i \<Rightarrow> ('i, 'a) mpsc_system \<Rightarrow> ('i, 'a) mpsc_system" where
  "producer_moves i s =
     (case mpsc_offer_step (queue s) (producers s i) of (q, pc) \<Rightarrow>
        s\<lparr>queue := q, producers := (producers s)(i := pc),
          answers := answers s @ (case producers s i of Offer_return e r \<Rightarrow> [(i, e, r)] | _ \<Rightarrow> []),
          claimed := claimed s @
            (case producers s i of Offer_cas e l t \<Rightarrow> if tail (queue s) = t then [(i, e)] else [] | _ \<Rightarrow> [])\<rparr>)"

definition consumer_moves :: "('i, 'a) mpsc_system \<Rightarrow> ('i, 'a) mpsc_system" where
  "consumer_moves s =
     (case mpsc_drain_all_step (queue s) (consumer s) of (q, pc, ds) \<Rightarrow>
        s\<lparr>queue := q, consumer := pc, delivered := delivered s @ ds\<rparr>)"

definition observer_moves :: "('i, 'a) mpsc_system \<Rightarrow> ('i, 'a) mpsc_system" where
  "observer_moves s = s\<lparr>observer := mpsc_size_step (queue s) (observer s),
     snapshot := next_snapshot (queue s) (observer s) (snapshot s)\<rparr>"

inductive mpsc_step :: "('i, 'a) mpsc_system \<Rightarrow> ('i, 'a) mpsc_system \<Rightarrow> bool" where
  offer: "producers s i = Offer_idle \<Longrightarrow> mpsc_step s (s\<lparr>producers := (producers s)(i := Offer_start element)\<rparr>)"
| drain: "consumer s = Consumer_idle \<Longrightarrow> mpsc_step s (s\<lparr>consumer := Drain_start limit\<rparr>)"
| drain_all: "consumer s = Consumer_idle \<Longrightarrow> mpsc_step s (s\<lparr>consumer := Drain_all_start\<rparr>)"
| size: "observer s = Size_idle \<Longrightarrow> mpsc_step s (s\<lparr>observer := Size_start\<rparr>)"
| producer: "mpsc_step s (producer_moves i s)"
| consumer: "mpsc_step s (consumer_moves s)"
| observer: "mpsc_step s (observer_moves s)"

definition mpsc_start :: "'a mpsc_concurrent_array_queue \<Rightarrow> ('i, 'a) mpsc_system" where
  "mpsc_start q = \<lparr>queue = q, producers = (\<lambda>i. Offer_idle), consumer = Consumer_idle, observer = Size_idle,
     answers = [], delivered = [], claimed = [], snapshot = 0\<rparr>"

section \<open>The invariant\<close>

text \<open>The places taken and not written yet.\<close>

fun ticket :: "'a mpsc_offer_pc \<Rightarrow> nat set" where
  "ticket (Offer_store e t) = {unat t}"
| "ticket _ = {}"

definition pending :: "('i \<Rightarrow> 'a mpsc_offer_pc) \<Rightarrow> nat set" where
  "pending pcs = (\<Union>i. ticket (pcs i))"

fun accepting :: "'a mpsc_offer_pc \<Rightarrow> 'a list" where
  "accepting (Offer_store e t) = [e]"
| "accepting (Offer_return (Some e) AERON_OFFER_SUCCESS) = [e]"
| "accepting _ = []"

definition accepted_from :: "'i \<Rightarrow> ('i \<times> 'a option \<times> aeron_queue_offer_result) list \<Rightarrow> 'a list" where
  "accepted_from i rs = [e. (j, Some e, r) \<leftarrow> rs, j = i \<and> r = AERON_OFFER_SUCCESS]"

definition claimed_by :: "'i \<Rightarrow> ('i \<times> 'a) list \<Rightarrow> 'a list" where
  "claimed_by i cs = [e. (j, e) \<leftarrow> cs, j = i]"

fun offering :: "nat \<Rightarrow> 'a mpsc_concurrent_array_queue \<Rightarrow> ('i \<times> 'a) list \<Rightarrow> 'i \<Rightarrow> 'a mpsc_offer_pc \<Rightarrow> bool" where
  "offering cap q cs i (Offer_tail e l) \<longleftrightarrow> unat l \<le> unat (head q) + cap"
| "offering cap q cs i (Offer_share e h l t) \<longleftrightarrow> unat h \<le> unat (head q) \<and> unat l \<le> unat (head q) + cap \<and> unat t < unat l"
| "offering cap q cs i (Offer_cas e l t) \<longleftrightarrow> unat l \<le> unat (head q) + cap \<and> unat t < unat l"
| "offering cap q cs i (Offer_store e t) \<longleftrightarrow> unat t < length cs \<and> cs ! unat t = (i, e)"
| "offering cap q cs i _ \<longleftrightarrow> True"

definition producing :: "nat \<Rightarrow> ('i, 'a) mpsc_system \<Rightarrow> bool" where
  "producing cap s \<longleftrightarrow>
     unat (tail (queue s)) = length (claimed s) \<and> length (claimed s) \<le> unat (head (queue s)) + cap \<and>
     unat (shared_head_cache (queue s)) \<le> unat (head (queue s)) \<and>
     (\<forall>i. offering cap (queue s) (claimed s) i (producers s i) \<and>
          claimed_by i (claimed s) = accepted_from i (answers s) @ accepting (producers s i))"

definition mpsc_inv :: "nat \<Rightarrow> ('i, 'a) mpsc_system \<Rightarrow> bool" where
  "mpsc_inv cap s \<longleftrightarrow>
     consuming cap (queue s) (consumer s) (delivered s) (map snd (claimed s)) (pending (producers s)) \<and>
     producing cap s \<and> observing cap (queue s) (observer s) (snapshot s)"

lemma pending_upd: "ticket pc = ticket (pcs i) \<Longrightarrow> pending (pcs(i := pc)) = pending pcs"
  by (auto simp: pending_def split: if_splits)

lemma pending_insert: "ticket (pcs i) = {} \<Longrightarrow> pending (pcs(i := Offer_store e t)) = insert (unat t) (pending pcs)"
  by (auto simp: pending_def split: if_splits) (metis empty_iff)

lemma pending_remove:
  assumes "pcs i = Offer_store e t" "\<And>j. offering cap q cs j (pcs j)" "ticket pc = {}"
  shows "pending (pcs(i := pc)) = pending pcs - {unat t}"
proof -
  have "unat t \<notin> ticket (pcs j)" if "j \<noteq> i" for j
    using assms(1) assms(2) [of i] assms(2) [of j] that by (cases "pcs j") auto
  moreover have "x = unat t" if "x \<in> ticket (pcs i)" for x using that assms(1) by simp
  ultimately show ?thesis using assms(3) by (auto simp: pending_def split: if_splits) metis
qed

lemma accepted_from_append [simp]: "accepted_from i (rs @ rs') = accepted_from i rs @ accepted_from i rs'"
  by (simp add: accepted_from_def)

lemma accepted_from_one [simp]:
  "accepted_from i [(j, e, r)] = (case e of None \<Rightarrow> [] | Some x \<Rightarrow> if j = i \<and> r = AERON_OFFER_SUCCESS then [x] else [])"
  "accepted_from i [] = []"
  by (auto simp: accepted_from_def split: option.splits)

lemma claimed_by_simps [simp]:
  "claimed_by i (cs @ cs') = claimed_by i cs @ claimed_by i cs'" "claimed_by i [(j, e)] = (if j = i then [e] else [])"
  "claimed_by i [] = []"
  by (simp_all add: claimed_by_def)

lemma offering_later:
  assumes "offering cap q cs i pc" "unat (head q) \<le> unat (head q')"
  shows "offering cap q' (cs @ cs') i pc"
  using assms by (cases pc) (auto simp: nth_append)

lemma offering_upd [simp]:
  "offering cap (q\<lparr>tail := t\<rparr>) cs i pc = offering cap q cs i pc" "offering cap (q\<lparr>buffer := b\<rparr>) cs i pc = offering cap q cs i pc"
  "offering cap (q\<lparr>shared_head_cache := h\<rparr>) cs i pc = offering cap q cs i pc"
  by (cases pc; simp)+

lemma mpsc_producer_keeps:
  assumes inv: "mpsc_inv cap s" and bound: "length (claimed s) + 1 + cap < 2 ^ 64"
  shows "mpsc_inv cap (producer_moves i s)"
proof -
  let ?q = "queue s" and ?pcs = "producers s"
  have c: "consuming cap ?q (consumer s) (delivered s) (map snd (claimed s)) (pending ?pcs)" and p: "producing cap s"
    and o: "observing cap ?q (observer s) (snapshot s)"
    using inv by (simp_all add: mpsc_inv_def)
  have off: "offering cap ?q (claimed s) j (?pcs j)" for j using p by (simp add: producing_def)
  note cap = consuming_shaped [OF c]
  have sum: "unat (h + capacity ?q) = unat h + cap" if "unat h \<le> unat (head ?q)" for h
    using that cap bound by (subst unat_add_lem [THEN iffD1]) simp_all
  show ?thesis
  proof (cases "?pcs i")
    case (Offer_cas e l t)
    show ?thesis
    proof (cases "tail ?q = t")
      case True
      then have t: "unat t = length (claimed s)" "length (claimed s) < unat (head ?q) + cap"
        using p off [of i] Offer_cas by (auto simp: producing_def)
      have "unat (t + 1) = length (claimed s) + 1" using t bound unat_Suc [of t] by simp
      moreover have "offering cap ?q (claimed s @ [(i, e)]) j (?pcs j)" for j by (rule offering_later [OF off]) simp
      moreover have "consuming cap ?q (consumer s) (delivered s) (map snd (claimed s @ [(i, e)])) (pending (?pcs(i := Offer_store e t)))"
        using consuming_claim [OF c, of e] t Offer_cas by (simp add: pending_insert)
      ultimately show ?thesis
        using True Offer_cas p t by (auto simp: mpsc_inv_def producing_def producer_moves_def intro: observing_later [OF o])
    next
      case False
      then show ?thesis
        using Offer_cas p c o off [of i] by (auto simp: mpsc_inv_def producing_def producer_moves_def pending_upd)
    qed
  next
    case (Offer_store e t)
    have t: "unat t \<in> pending ?pcs" "map snd (claimed s) ! unat t = e"
      using Offer_store off [of i] by (auto simp: pending_def intro!: exI [of _ i])
    have "pending (?pcs(i := Offer_return (Some e) AERON_OFFER_SUCCESS)) = pending ?pcs - {unat t}"
      by (rule pending_remove [OF Offer_store off]) simp
    then show ?thesis
      using Offer_store p consuming_fill [OF c t(1)] t(2)
      by (auto simp: mpsc_inv_def producing_def producer_moves_def intro: observing_later [OF o])
  next
    case (Offer_share e h l t)
    have "consuming cap (?q\<lparr>shared_head_cache := h\<rparr>) (consumer s) (delivered s) (map snd (claimed s)) (pending ?pcs)"
      by (rule consuming_cong [OF _ _ _ _ c]) simp_all
    then show ?thesis
      using Offer_share p off [of i]
      by (auto simp: mpsc_inv_def producing_def producer_moves_def pending_upd intro: observing_later [OF o])
  next
    case (Offer_start e)
    then show ?thesis
      using p c o sum [of "shared_head_cache ?q"]
      by (cases e) (auto simp: mpsc_inv_def producing_def producer_moves_def pending_upd)
  next
    case (Offer_return e r)
    then show ?thesis
      using p c o by (cases e; cases r) (auto simp: mpsc_inv_def producing_def producer_moves_def pending_upd)
  qed (use p c o sum off [of i] in \<open>auto simp: mpsc_inv_def producing_def producer_moves_def pending_upd Let_def word_le_nat_alt\<close>)
qed

lemma drain_all_is_consumer_step:
  "mpsc_drain_all_step q pc = consumer_step q pc \<or> mpsc_drain_all_step q pc = (q, pc, [])"
  by (cases pc) (simp_all add: mpsc_drain_all_step_def mpsc_drain_step_def consumer_step_def)

lemma mpsc_consumer_keeps:
  assumes inv: "mpsc_inv cap s" and bound: "length (claimed s) + cap < 2 ^ 64"
  shows "mpsc_inv cap (consumer_moves s)"
proof (cases "mpsc_drain_all_step (queue s) (consumer s) = (queue s, consumer s, [])")
  case True
  then show ?thesis using inv by (simp add: consumer_moves_def)
next
  case False
  have c: "consuming cap (queue s) (consumer s) (delivered s) (map snd (claimed s)) (pending (producers s))" and p: "producing cap s"
    and o: "observing cap (queue s) (observer s) (snapshot s)"
    using inv by (simp_all add: mpsc_inv_def)
  obtain q' pc' ds where step: "mpsc_drain_all_step (queue s) (consumer s) = (q', pc', ds)" "consumer_step (queue s) (consumer s) = (q', pc', ds)"
    using drain_all_is_consumer_step [of "queue s" "consumer s"] False by (cases "consumer_step (queue s) (consumer s)") auto
  have k: "consuming cap q' pc' (delivered s @ ds) (map snd (claimed s)) (pending (producers s))"
    "unat (head (queue s)) \<le> unat (head q')" "tail q' = tail (queue s)"
    and "array_queue.more q' = array_queue.more (queue s)"
    using consumer_step_keeps [OF c] step bound by simp_all
  then have "shared_head_cache q' = shared_head_cache (queue s)" by (cases q'; cases "queue s") simp
  moreover have "offering cap q' (claimed s) j (producers s j)" for j
    using p offering_later [OF _ k(2), of cap "claimed s" j "producers s j" "[]"] by (simp add: producing_def)
  ultimately show ?thesis
    using step p k observing_later [OF o k(2)] by (auto simp: mpsc_inv_def producing_def consumer_moves_def)
qed

lemma mpsc_step_keeps:
  assumes "mpsc_step s s'" "mpsc_inv cap s" "length (claimed s) + 1 + cap < 2 ^ 64"
  shows "mpsc_inv cap s'"
  using assms(1)
proof (cases rule: mpsc_step.cases)
  case observer
  have "shaped cap (queue s)" "unat (head (queue s)) \<le> length (claimed s)"
    using assms(2) by (auto simp: mpsc_inv_def consuming_def ring_def Let_def)
  then have "observing cap (queue s) (mpsc_size_step (queue s) (observer s)) (next_snapshot (queue s) (observer s) (snapshot s))"
    using assms(2) unfolding mpsc_size_step_def by (intro size_step_keeps) (auto simp: mpsc_inv_def producing_def)
  then show ?thesis using observer assms(2) by (auto simp: mpsc_inv_def producing_def observer_moves_def)
next
  case (producer i)
  then show ?thesis using mpsc_producer_keeps [OF assms(2,3)] by simp
next
  case consumer
  then show ?thesis using mpsc_consumer_keeps [OF assms(2)] assms(3) by simp
next
  case (offer i e)
  then show ?thesis using assms(2) by (auto simp: mpsc_inv_def producing_def pending_upd)
qed (use assms(2) in \<open>auto simp: mpsc_inv_def producing_def observing_def elim!: consuming_moves\<close>)

lemma mpsc_step_claimed: "mpsc_step s s' \<Longrightarrow> length (claimed s) \<le> length (claimed s')"
  by (cases rule: mpsc_step.cases)
    (auto simp: producer_moves_def consumer_moves_def observer_moves_def split: prod.splits)

lemma mpsc_reachable:
  assumes "mpsc_step\<^sup>*\<^sup>* (mpsc_start q) s" "new_queue cap q" "shared_head_cache q = 0" "length (claimed s) + 1 + cap < 2 ^ 64"
  shows "mpsc_inv cap s"
  using assms(1,4)
proof (induction rule: rtranclp_induct)
  case base
  show ?case
    using consuming_start [OF assms(2)] assms(2,3)
    by (simp add: mpsc_start_def mpsc_inv_def producing_def observing_def new_queue_def pending_def)
next
  case (step s s')
  then show ?case using mpsc_step_claimed [of s s'] mpsc_step_keeps [of s s' cap] by simp
qed

section \<open>The contract\<close>

text \<open>
  C12. The queue of many producers and one consumer, under every interleaving of any number of \<open>offer\<close>
  calls with \<open>drain\<close>, \<open>drain_all\<close> and \<open>size\<close>: there is one order of the elements, in which each
  producer's elements are exactly those it was told were accepted (or is about to be told), in the
  order of its calls, and the consumer has got a beginning of it: nothing lost, doubled, overtaken or
  overwritten. No more than \<open>capacity\<close> elements (and one in the consumer's hands) are outstanding, and
  \<open>size\<close> answers the number of elements there were at its last read of the tail. The counters are
  assumed not to reach \<open>2 ^ 64\<close>.
\<close>

theorem mpsc_queue_fifo:
  assumes "mpsc_step\<^sup>*\<^sup>* (mpsc_start q) s" and "new_queue cap q" and "shared_head_cache q = 0"
    and "length (claimed s) + 1 + cap < 2 ^ 64"
  shows "prefix (delivered s) (map snd (claimed s)) \<and>
    (\<forall>i. claimed_by i (claimed s) = accepted_from i (answers s) @ accepting (producers s i)) \<and>
    length (claimed s) \<le> length (delivered s) + length (in_hand (consumer s)) + cap \<and>
    (observer s = Size_return n \<longrightarrow> unat n = snapshot s)"
proof -
  have inv: "mpsc_inv cap s" using assms by (rule mpsc_reachable)
  then have c: "consuming cap (queue s) (consumer s) (delivered s) (map snd (claimed s)) (pending (producers s))"
    and p: "producing cap s" and o: "observing cap (queue s) (observer s) (snapshot s)"
    by (simp_all add: mpsc_inv_def)
  have "prefix (delivered s) (map snd (claimed s))" using c by (auto simp: consuming_def Let_def dest: append_prefixD)
  moreover have "length (claimed s) \<le> length (delivered s) + length (in_hand (consumer s)) + cap"
    using c by (simp add: consuming_def ring_def Let_def)
  moreover have "observer s = Size_return n \<longrightarrow> unat n = snapshot s" using o by (auto simp: observing_def)
  ultimately show ?thesis using p by (simp add: producing_def)
qed

text \<open>Two producers: the one that took the first place writes it last; the consumer waits for it.\<close>

theorem mpsc_queue_fifo_witness:
  "\<exists>(q :: nat mpsc_concurrent_array_queue) s. mpsc_step\<^sup>*\<^sup>* (mpsc_start q) s \<and> claimed s = [(True, 7), (False, 8)] \<and>
     accepted_from False (answers s) @ accepting (producers s False) = [8] \<and> delivered s = []"
proof -
  let ?q = "\<lparr>tail = 0, head = 0, capacity = 2, mask_bits = 1, buffer = [None, None], own_head_cache = 0,
    shared_head_cache = 0\<rparr> :: nat mpsc_concurrent_array_queue"
  let ?start = "mpsc_start ?q :: (bool, nat) mpsc_system"
  let ?s1 = "?start\<lparr>producers := (producers ?start)(True := Offer_start (Some 7))\<rparr>"
  let ?s2 = "?s1\<lparr>producers := (producers ?s1)(False := Offer_start (Some 8))\<rparr>"
  let ?s3 = "producer_moves True (producer_moves True (producer_moves True ?s2))"
  let ?s = "producer_moves False (producer_moves False (producer_moves False (producer_moves False ?s3)))"
  note trans = rtranclp.rtrancl_into_rtrancl
  have s3: "?s3 = ?s2\<lparr>queue := ?q\<lparr>tail := 1\<rparr>, producers := (producers ?s2)(True := Offer_store 7 0), claimed := [(True, 7)]\<rparr>"
    by (simp add: mpsc_start_def producer_moves_def Let_def fun_upd_def cong: if_cong)
  have "mpsc_step\<^sup>*\<^sup>* ?start ?s1" by (rule r_into_rtranclp, rule mpsc_step.offer) (simp add: mpsc_start_def)
  then have "mpsc_step\<^sup>*\<^sup>* ?start ?s2" by (rule trans) (rule mpsc_step.offer, simp add: mpsc_start_def)
  then have "mpsc_step\<^sup>*\<^sup>* ?start ?s3" by (rule trans [OF trans [OF trans]]) (rule mpsc_step.producer)+
  then have run: "mpsc_step\<^sup>*\<^sup>* ?start ?s" by (rule trans [OF trans [OF trans [OF trans]]]) (rule mpsc_step.producer)+
  have s: "claimed ?s = [(True, 7), (False, 8)]" "delivered ?s = []"
    unfolding s3 by (simp_all add: mpsc_start_def producer_moves_def slot_index_def Let_def word_le_nat_alt)
  have "shaped 2 ?q" unfolding shaped_def by (auto intro: exI [of _ 1])
  then have new: "new_queue 2 ?q" by (simp add: new_queue_def numeral_2_eq_2)
  have len: "length (claimed ?s) + 1 + 2 < 2 ^ 64" unfolding s(1) by simp
  have "claimed_by False (claimed ?s) = accepted_from False (answers ?s) @ accepting (producers ?s False)"
    by (rule mpsc_queue_fifo [OF run new _ len, THEN conjunct2, THEN conjunct1, THEN spec]) simp
  then have "accepted_from False (answers ?s) @ accepting (producers ?s False) = [8]"
    unfolding s(1) by (simp add: claimed_by_def)
  then show ?thesis using run s by (intro exI [of _ ?q] exI [of _ ?s] conjI)
qed

end
