(* ===== verification/LogBufferDescriptor.thy ===== *)
theory LogBufferDescriptor
  imports AeronUtil BinaryMessage "HOL-Library.Signed_Division"
begin

text \<open>
  \<open>aeron-lib/include/aeron/concurrent/aeron_logbuffer_descriptor.h\<close> with the frame headers of
  \<open>protocol/aeron_udp_protocol.h\<close>: a stream as a sequence of terms kept in three partitions, positions
  in it, the lengths of messages, and the metadata of a log. The volatile members are read and written
  as in sequential code here; the rotation of the log by several threads is in \<open>LogRotation\<close>.
\<close>

section \<open>Frame headers\<close>

record frame_header =
  frame_length :: s32
  version :: u8
  frame_flags :: u8
  frame_type :: "16 word"

record data_header =
  dh_frame_header :: frame_header
  dh_term_offset :: s32
  dh_session_id :: s32
  dh_stream_id :: s32
  dh_term_id :: s32
  dh_reserved_value :: s64

definition AERON_DATA_HEADER_LENGTH :: nat where
  "AERON_DATA_HEADER_LENGTH = 32"

definition AERON_FRAME_HEADER_VERSION :: u8 where
  "AERON_FRAME_HEADER_VERSION = 0"

definition AERON_HDR_TYPE_DATA :: "16 word" where
  "AERON_HDR_TYPE_DATA = 1"

definition AERON_DATA_HEADER_BEGIN_FLAG :: u8 where
  "AERON_DATA_HEADER_BEGIN_FLAG = 0x80"

definition AERON_DATA_HEADER_END_FLAG :: u8 where
  "AERON_DATA_HEADER_END_FLAG = 0x40"

text \<open>The bytes of a number in memory, and of the packed structure.\<close>

definition host_bytes :: "endian \<Rightarrow> nat \<Rightarrow> 'a::len word \<Rightarrow> u8 list" where
  "host_bytes e n w = (case e of Little \<Rightarrow> le_encode n w | Big \<Rightarrow> rev (le_encode n w))"

definition of_host_bytes :: "endian \<Rightarrow> u8 list \<Rightarrow> 'a::len word" where
  "of_host_bytes e bs = (case e of Little \<Rightarrow> le_decode bs | Big \<Rightarrow> le_decode (rev bs))"

definition data_header_bytes :: "endian \<Rightarrow> data_header \<Rightarrow> u8 list" where
  "data_header_bytes e h =
     host_bytes e 4 (frame_length (dh_frame_header h)) @ [version (dh_frame_header h), frame_flags (dh_frame_header h)] @
     host_bytes e 2 (frame_type (dh_frame_header h)) @ host_bytes e 4 (dh_term_offset h) @ host_bytes e 4 (dh_session_id h) @
     host_bytes e 4 (dh_stream_id h) @ host_bytes e 4 (dh_term_id h) @ host_bytes e 8 (dh_reserved_value h)"

definition data_header_at :: "endian \<Rightarrow> u8 list \<Rightarrow> data_header" where
  "data_header_at e bs =
     \<lparr>dh_frame_header = \<lparr>frame_length = of_host_bytes e (take 4 bs), version = bs ! 4, frame_flags = bs ! 5,
        frame_type = of_host_bytes e (take 2 (drop 6 bs))\<rparr>,
      dh_term_offset = of_host_bytes e (take 4 (drop 8 bs)), dh_session_id = of_host_bytes e (take 4 (drop 12 bs)),
      dh_stream_id = of_host_bytes e (take 4 (drop 16 bs)), dh_term_id = of_host_bytes e (take 4 (drop 20 bs)),
      dh_reserved_value = of_host_bytes e (take 8 (drop 24 bs))\<rparr>"

definition aeron_compute_max_message_length :: "u64 \<Rightarrow> u64" where
  "aeron_compute_max_message_length term_len =
     (let max_length_for_term = term_len div 8
      in if max_length_for_term < 16 * 1024 * 1024 then max_length_for_term else 16 * 1024 * 1024)"

section \<open>Metadata\<close>

definition AERON_LOGBUFFER_PARTITION_COUNT :: int where
  "AERON_LOGBUFFER_PARTITION_COUNT = 3"

definition AERON_LOGBUFFER_META_DATA_LENGTH :: u64 where
  "AERON_LOGBUFFER_META_DATA_LENGTH = 4 * 1024"

definition AERON_LOGBUFFER_FRAME_ALIGNMENT :: u64 where
  "AERON_LOGBUFFER_FRAME_ALIGNMENT = 32"

text \<open>Without the padding; each member has the prefix \<open>lm_\<close>.\<close>

record logbuffer_metadata =
  lm_term_tail_counters :: "s64 list"
  lm_active_term_count :: s32
  lm_end_of_stream_position :: s64
  lm_is_connected :: s32
  lm_active_transport_count :: s32
  lm_correlation_id :: s64
  lm_initial_term_id :: s32
  lm_default_frame_header_length :: s32
  lm_mtu_length :: s32
  lm_term_length :: s32
  lm_page_size :: s32
  lm_publication_window_length :: s32
  lm_receiver_window_length :: s32
  lm_socket_sndbuf_length :: s32
  lm_os_default_socket_sndbuf_length :: s32
  lm_os_max_socket_sndbuf_length :: s32
  lm_socket_rcvbuf_length :: s32
  lm_os_default_socket_rcvbuf_length :: s32
  lm_os_max_socket_rcvbuf_length :: s32
  lm_max_resend :: s32
  lm_default_header :: "u8 list"
  lm_entity_tag :: s64
  lm_response_correlation_id :: s64
  lm_linger_timeout_ns :: s64
  lm_untethered_window_limit_timeout_ns :: s64
  lm_untethered_resting_timeout_ns :: s64
  lm_group :: u8
  lm_is_response :: u8
  lm_rejoin :: u8
  lm_reliable :: u8
  lm_sparse :: u8
  lm_signal_eos :: u8
  lm_spies_simulate_connection :: u8
  lm_tether :: u8
  lm_is_publication_revoked :: u8
  lm_untethered_linger_timeout_ns :: s64

section \<open>Positions\<close>

definition aeron_logbuffer_compute_log_length :: "u64 \<Rightarrow> u64 \<Rightarrow> u64" where
  "aeron_logbuffer_compute_log_length term_len page_len =
     AERON_ALIGN (term_len * word_of_int AERON_LOGBUFFER_PARTITION_COUNT + AERON_LOGBUFFER_META_DATA_LENGTH) page_len"

definition aeron_logbuffer_term_offset :: "s64 \<Rightarrow> s32 \<Rightarrow> s32" where
  "aeron_logbuffer_term_offset raw_tail term_len =
     (let offset = raw_tail AND 0xFFFFFFFF in if offset <s scast term_len then ucast offset else term_len)"

definition aeron_logbuffer_term_id :: "s64 \<Rightarrow> s32" where
  "aeron_logbuffer_term_id raw_tail = ucast (signed_drop_bit 32 raw_tail)"

definition aeron_logbuffer_compute_term_count :: "s32 \<Rightarrow> s32 \<Rightarrow> s32" where
  "aeron_logbuffer_compute_term_count term_id initial_term_id = aeron_sub_wrap_i32 term_id initial_term_id"

text \<open>The C remainder has the sign of the dividend; the conversion to \<open>size_t\<close> is modulo \<open>2 ^ 64\<close>.\<close>

definition aeron_logbuffer_index_by_position :: "s64 \<Rightarrow> nat \<Rightarrow> u64" where
  "aeron_logbuffer_index_by_position position position_bits_to_shift =
     word_of_int (sint (signed_drop_bit position_bits_to_shift position) smod AERON_LOGBUFFER_PARTITION_COUNT)"

definition aeron_logbuffer_index_by_term_count :: "s32 \<Rightarrow> u64" where
  "aeron_logbuffer_index_by_term_count term_count = word_of_int (sint term_count smod AERON_LOGBUFFER_PARTITION_COUNT)"

definition aeron_logbuffer_index_by_term :: "s32 \<Rightarrow> s32 \<Rightarrow> u64" where
  "aeron_logbuffer_index_by_term initial_term_id active_term_id =
     (let term_count = aeron_logbuffer_compute_term_count active_term_id initial_term_id
      in word_of_int (sint term_count smod AERON_LOGBUFFER_PARTITION_COUNT))"

definition aeron_logbuffer_compute_position :: "s32 \<Rightarrow> s32 \<Rightarrow> nat \<Rightarrow> s32 \<Rightarrow> s64" where
  "aeron_logbuffer_compute_position active_term_id term_offset position_bits_to_shift initial_term_id =
     (let term_count = scast (aeron_logbuffer_compute_term_count active_term_id initial_term_id)
      in push_bit position_bits_to_shift term_count + scast term_offset)"

definition aeron_logbuffer_compute_term_begin_position :: "s32 \<Rightarrow> nat \<Rightarrow> s32 \<Rightarrow> s64" where
  "aeron_logbuffer_compute_term_begin_position active_term_id position_bits_to_shift initial_term_id =
     aeron_logbuffer_compute_position active_term_id 0 position_bits_to_shift initial_term_id"

definition aeron_logbuffer_compute_term_id_from_position :: "s64 \<Rightarrow> nat \<Rightarrow> s32 \<Rightarrow> s32" where
  "aeron_logbuffer_compute_term_id_from_position position position_bits_to_shift initial_term_id =
     aeron_add_wrap_i32 (ucast (signed_drop_bit position_bits_to_shift position)) initial_term_id"

definition aeron_logbuffer_compute_term_offset_from_position :: "s64 \<Rightarrow> nat \<Rightarrow> s32" where
  "aeron_logbuffer_compute_term_offset_from_position position position_bits_to_shift =
     (let msk = ucast ((push_bit position_bits_to_shift 1 :: u32) - 1) :: s64 in ucast (position AND msk))"

section \<open>Setting up a log\<close>

definition aeron_logbuffer_fill_default_header ::
  "endian \<Rightarrow> logbuffer_metadata \<Rightarrow> s32 \<Rightarrow> s32 \<Rightarrow> s32 \<Rightarrow> logbuffer_metadata" where
  "aeron_logbuffer_fill_default_header byte_order m session_id stream_id initial_term_id =
     (let hdr = \<lparr>dh_frame_header = \<lparr>frame_length = 0, version = AERON_FRAME_HEADER_VERSION,
                   frame_flags = AERON_DATA_HEADER_BEGIN_FLAG OR AERON_DATA_HEADER_END_FLAG,
                   frame_type = AERON_HDR_TYPE_DATA\<rparr>,
                 dh_term_offset = 0, dh_session_id = session_id, dh_stream_id = stream_id,
                 dh_term_id = initial_term_id, dh_reserved_value = 0\<rparr>
      in m\<lparr>lm_default_frame_header_length := word_of_nat AERON_DATA_HEADER_LENGTH,
           lm_default_header := data_header_bytes byte_order hdr @ drop AERON_DATA_HEADER_LENGTH (lm_default_header m)\<rparr>)"

definition aeron_logbuffer_metadata_init ::
  "endian \<Rightarrow> logbuffer_metadata \<Rightarrow> s64 \<Rightarrow> s32 \<Rightarrow> s32 \<Rightarrow> s64 \<Rightarrow> s32
    \<Rightarrow> s32 \<Rightarrow> s32 \<Rightarrow> s32 \<Rightarrow> s32 \<Rightarrow> s32 \<Rightarrow> s32
    \<Rightarrow> s32 \<Rightarrow> s32 \<Rightarrow> s32 \<Rightarrow> s32 \<Rightarrow> s32 \<Rightarrow> s32
    \<Rightarrow> s32 \<Rightarrow> s32 \<Rightarrow> s64 \<Rightarrow> s64 \<Rightarrow> s64 \<Rightarrow> s64
    \<Rightarrow> s64 \<Rightarrow> s64 \<Rightarrow> u8 \<Rightarrow> u8 \<Rightarrow> u8 \<Rightarrow> u8
    \<Rightarrow> u8 \<Rightarrow> u8 \<Rightarrow> u8 \<Rightarrow> u8 \<Rightarrow> logbuffer_metadata" where
  "aeron_logbuffer_metadata_init byte_order m
      end_of_stream_position is_connected active_transport_count correlation_id initial_term_id mtu_length
      term_length page_size publication_window_length receiver_window_length socket_sndbuf_length
      os_default_socket_sndbuf_length os_max_socket_sndbuf_length socket_rcvbuf_length
      os_default_socket_rcvbuf_length os_max_socket_rcvbuf_length max_resend session_id stream_id
      entity_tag response_correlation_id linger_timeout_ns untethered_window_limit_timeout_ns
      untethered_linger_timeout_ns untethered_resting_timeout_ns grp is_response rejoin reliable sparse
      signal_eos spies_simulate_connection tether =
     (let m1 = m\<lparr>lm_end_of_stream_position := end_of_stream_position,
       lm_is_connected := is_connected,
       lm_active_transport_count := active_transport_count,
       lm_correlation_id := correlation_id,
       lm_initial_term_id := initial_term_id,
       lm_mtu_length := mtu_length,
       lm_term_length := term_length,
       lm_page_size := page_size,
       lm_publication_window_length := publication_window_length,
       lm_receiver_window_length := receiver_window_length,
       lm_socket_sndbuf_length := socket_sndbuf_length,
       lm_os_default_socket_sndbuf_length := os_default_socket_sndbuf_length,
       lm_os_max_socket_sndbuf_length := os_max_socket_sndbuf_length,
       lm_socket_rcvbuf_length := socket_rcvbuf_length,
       lm_os_default_socket_rcvbuf_length := os_default_socket_rcvbuf_length,
       lm_os_max_socket_rcvbuf_length := os_max_socket_rcvbuf_length,
       lm_max_resend := max_resend\<rparr>;
          m2 = aeron_logbuffer_fill_default_header byte_order m1 session_id stream_id initial_term_id
      in m2\<lparr>lm_entity_tag := entity_tag,
       lm_response_correlation_id := response_correlation_id,
       lm_linger_timeout_ns := linger_timeout_ns,
       lm_untethered_window_limit_timeout_ns := untethered_window_limit_timeout_ns,
       lm_untethered_linger_timeout_ns := untethered_linger_timeout_ns,
       lm_untethered_resting_timeout_ns := untethered_resting_timeout_ns,
       lm_group := grp,
       lm_is_response := is_response,
       lm_rejoin := rejoin,
       lm_reliable := reliable,
       lm_sparse := sparse,
       lm_signal_eos := signal_eos,
       lm_spies_simulate_connection := spies_simulate_connection,
       lm_tether := tether,
       lm_is_publication_revoked := 0\<rparr>)"

definition aeron_logbuffer_apply_default_header :: "logbuffer_metadata \<Rightarrow> u8 list \<Rightarrow> u8 list option" where
  "aeron_logbuffer_apply_default_header m buf =
     (case mem_read (lm_default_header m) 0 (unat (scast (lm_default_frame_header_length m) :: u64)) of
        None \<Rightarrow> None
      | Some bs \<Rightarrow> mem_write buf 0 bs)"

section \<open>Lengths of messages\<close>

definition aeron_logbuffer_compute_fragmented_length :: "u64 \<Rightarrow> u64 \<Rightarrow> u64" where
  "aeron_logbuffer_compute_fragmented_length len max_payload_length =
     (let num_max_payloads = len div max_payload_length;
          remaining_payload = len mod max_payload_length;
          last_frame_length =
            (if 0 < remaining_payload
             then AERON_ALIGN (remaining_payload + word_of_nat AERON_DATA_HEADER_LENGTH) AERON_LOGBUFFER_FRAME_ALIGNMENT
             else 0)
      in num_max_payloads * (max_payload_length + word_of_nat AERON_DATA_HEADER_LENGTH) + last_frame_length)"

section \<open>Lemmas on the arithmetic\<close>

lemma low_half: "ucast (w AND 0xFFFFFFFF :: s64) = (ucast w :: s32)"
  by (rule bit_word_eqI) (simp only: half_words, simp add: bit_unsigned_iff)

lemma ucast_of_int: "ucast (word_of_int k :: s64) = (word_of_int k :: s32)"
  by (rule bit_word_eqI) (simp add: bit_simps)

lemma wrap_i32 [simp]: "aeron_add_wrap_i32 a b = a + b" "aeron_sub_wrap_i32 a b = a - b"
proof -
  have s: "scast x = (word_of_int (sint x) :: s64)" for x :: s32 by (rule scast_eq)
  have "ucast (scast a + scast b :: s64) = a + b" "ucast (scast a - scast b :: s64) = a - b"
    unfolding s of_int_add [symmetric] of_int_diff [symmetric] ucast_of_int by simp_all
  then show "aeron_add_wrap_i32 a b = a + b" "aeron_sub_wrap_i32 a b = a - b"
    by (simp_all add: aeron_add_wrap_i32_def aeron_sub_wrap_i32_def Let_def low_half)
qed

lemma sint_of_nat:
  "n < 2 ^ 31 \<Longrightarrow> sint (word_of_nat n :: s32) = int n" "n < 2 ^ 63 \<Longrightarrow> sint (word_of_nat n :: s64) = int n"
  by (simp_all add: signed_of_nat signed_take_bit_int_eq_self)

lemma scast_of_nat: "n < 2 ^ 31 \<Longrightarrow> scast (word_of_nat n :: s32) = (word_of_nat n :: s64)"
  unfolding scast_eq by (subst sint_of_nat) simp_all

lemma signed_drop_of_nat:
  assumes "n < 2 ^ 63"
  shows "signed_drop_bit b (word_of_nat n :: s64) = word_of_nat (n div 2 ^ b)"
proof (rule signed_word_eqI)
  have "n div 2 ^ b < 2 ^ 63" using assms div_le_dividend [of n "2 ^ b"] by (rule le_less_trans [rotated])
  then show "sint (signed_drop_bit b (word_of_nat n :: s64)) = sint (word_of_nat (n div 2 ^ b) :: s64)"
    using assms by (simp add: sint_signed_drop_bit_eq sint_of_nat(2) drop_bit_eq_div zdiv_int)
qed

lemma smod_of_nat: "word_of_int (int n smod AERON_LOGBUFFER_PARTITION_COUNT) = (word_of_nat (n mod 3) :: u64)"
proof -
  have "int n smod 3 = int (n mod 3)" by (cases "n = 0") (simp_all add: smod_int_alt_def sgn_if zmod_int)
  then show ?thesis by (simp add: AERON_LOGBUFFER_PARTITION_COUNT_def)
qed

lemma index_of_count: "n < 2 ^ 31 \<Longrightarrow> aeron_logbuffer_index_by_term_count (word_of_nat n) = word_of_nat (n mod 3)"
  by (simp add: aeron_logbuffer_index_by_term_count_def sint_of_nat smod_of_nat)

text \<open>The position of offset \<open>k\<close> in the term number \<open>n\<close> from the first is a number that fits.\<close>

lemma position_of_nat:
  assumes "n < 2 ^ 31" "b \<le> 30" "k \<le> 2 ^ b"
  shows "aeron_logbuffer_compute_position (init + word_of_nat n) (word_of_nat k) b init = word_of_nat (n * 2 ^ b + k)"
    and "n * 2 ^ b + k < 2 ^ 62"
proof -
  have b: "2 ^ b \<le> (2 ^ 30 :: nat)" using assms(2) by (rule power_increasing) simp
  then have "k < 2 ^ 31" using assms(3) by simp
  then show "aeron_logbuffer_compute_position (init + word_of_nat n) (word_of_nat k) b init = word_of_nat (n * 2 ^ b + k)"
    using assms(1)
    by (simp add: aeron_logbuffer_compute_position_def aeron_logbuffer_compute_term_count_def scast_of_nat push_bit_eq_mult)
  have "n * 2 ^ b \<le> (2 ^ 31 - 1) * 2 ^ 30" using assms(1) b by (intro mult_le_mono) simp_all
  then show "n * 2 ^ b + k < 2 ^ 62" using assms(3) b by simp
qed

lemma low_mask: "b \<le> 30 \<Longrightarrow> (ucast ((push_bit b 1 :: u32) - 1) :: s64) = mask b"
proof -
  assume b: "b \<le> 30"
  have "(push_bit b 1 :: u32) - 1 = mask b" by (simp add: mask_eq_exp_minus_1)
  then show ?thesis using b by (simp only:) (rule bit_word_eqI, auto simp: bit_simps)
qed

lemma offset_of_nat:
  "b \<le> 30 \<Longrightarrow> m < 2 ^ 63 \<Longrightarrow>
   aeron_logbuffer_compute_term_offset_from_position (word_of_nat m) b = word_of_nat (m mod 2 ^ b)"
  unfolding take_bit_eq_mod [symmetric] aeron_logbuffer_compute_term_offset_from_position_def low_mask Let_def
  by (rule bit_word_eqI) (auto simp: bit_simps)

text \<open>
  C18. Positions in a stream: for the term number \<open>n\<close> from the initial one and an offset \<open>k\<close> inside a
  term of length \<open>2 ^ b\<close> the position is \<open>n * 2 ^ b + k\<close> whatever the initial term id (the ids may wrap);
  the term id and the offset are read back from it, and the three ways to find the partition agree.
\<close>

theorem position_roundtrip:
  fixes n b k :: nat and init :: s32
  assumes "n < 2 ^ 31" and "b \<le> 30" and "k < 2 ^ b"
  defines "active_term_id \<equiv> init + word_of_nat n"
  defines "position \<equiv> aeron_logbuffer_compute_position active_term_id (word_of_nat k) b init"
  shows "unat position = n * 2 ^ b + k \<and>
    aeron_logbuffer_compute_term_begin_position active_term_id b init + word_of_nat k = position \<and>
    aeron_logbuffer_compute_term_id_from_position position b init = active_term_id \<and>
    aeron_logbuffer_compute_term_offset_from_position position b = word_of_nat k \<and>
    aeron_logbuffer_index_by_position position b = word_of_nat (n mod 3) \<and>
    aeron_logbuffer_index_by_term init active_term_id = word_of_nat (n mod 3) \<and>
    aeron_logbuffer_index_by_term_count (word_of_nat n) = word_of_nat (n mod 3)"
proof -
  have k: "k \<le> 2 ^ b" using assms(3) by simp
  have p: "position = word_of_nat (n * 2 ^ b + k)"
    unfolding position_def active_term_id_def by (rule position_of_nat(1) [OF assms(1,2) k])
  note lt = position_of_nat(2) [OF assms(1,2) k]
  have lt63: "n * 2 ^ b + k < 2 ^ 63" using lt by simp
  have d: "(n * 2 ^ b + k) div 2 ^ b = n" "(n * 2 ^ b + k) mod 2 ^ b = k" using assms(3) by simp_all
  have "unat position = n * 2 ^ b + k" unfolding p using lt by (intro unat_of_nat_u64) simp
  moreover have "aeron_logbuffer_compute_term_begin_position active_term_id b init + word_of_nat k = position"
    using position_of_nat(1) [OF assms(1,2), of 0 init]
    by (simp add: p aeron_logbuffer_compute_term_begin_position_def active_term_id_def)
  moreover have "aeron_logbuffer_compute_term_id_from_position position b init = active_term_id"
    unfolding p aeron_logbuffer_compute_term_id_from_position_def signed_drop_of_nat [OF lt63] d active_term_id_def
    using ucast_of_int [of "int n"] by simp
  moreover have "aeron_logbuffer_compute_term_offset_from_position position b = word_of_nat k"
    unfolding p offset_of_nat [OF assms(2) lt63] d ..
  moreover have "aeron_logbuffer_index_by_position position b = word_of_nat (n mod 3)"
    unfolding p aeron_logbuffer_index_by_position_def signed_drop_of_nat [OF lt63] d
    using assms(1) by (simp add: sint_of_nat smod_of_nat)
  moreover have "aeron_logbuffer_index_by_term init active_term_id = word_of_nat (n mod 3)"
    using assms(1)
    by (simp add: aeron_logbuffer_index_by_term_def aeron_logbuffer_compute_term_count_def active_term_id_def sint_of_nat smod_of_nat)
  ultimately show ?thesis using index_of_count [OF assms(1)] by simp
qed

theorem position_roundtrip_witness:
  "unat (aeron_logbuffer_compute_position (0x7FFFFFFE + 4) 96 16 0x7FFFFFFE) = 4 * 65536 + 96 \<and>
   aeron_logbuffer_compute_term_id_from_position
     (aeron_logbuffer_compute_position (0x7FFFFFFE + 4) 96 16 0x7FFFFFFE) 16 0x7FFFFFFE = 0x80000002"
  using position_roundtrip [of 4 16 96 "0x7FFFFFFE"] by simp

section \<open>Aligned lengths\<close>

definition align_up :: "nat \<Rightarrow> nat \<Rightarrow> nat" where
  "align_up n alignment = (n + alignment - 1) div alignment * alignment"

lemma align_up_bounds: "0 < a \<Longrightarrow> n \<le> align_up n a" "0 < a \<Longrightarrow> align_up n a < n + a" "a dvd align_up n a"
proof -
  have "(n + a - 1) div a * a + (n + a - 1) mod a = n + a - 1" by simp
  then show "n \<le> align_up n a" "align_up n a < n + a" if "0 < a"
    unfolding align_up_def using that mod_less_divisor [OF that, of "n + a - 1"] by linarith+
qed (simp add: align_up_def)

lemma align_up_self: "0 < a \<Longrightarrow> a dvd n \<Longrightarrow> align_up n a = n"
  using div_mult_self3 [of a _ "a - 1"] by (auto simp: align_up_def mult.commute elim!: dvdE)

lemma clear_low_bits: "x AND NOT (mask a) = push_bit a (drop_bit a x)" for x :: u64
  by (rule bit_word_eqI) (auto simp: bit_simps)

lemma unat_align:
  assumes "a < 64" "unat v + 2 ^ a - 1 < 2 ^ 64"
  shows "unat (AERON_ALIGN v (2 ^ a)) = align_up (unat v) (2 ^ a)"
proof -
  let ?x = "v + mask a :: u64"
  have "unat (mask a :: u64) = take_bit a (unat (- 1 :: u64))"
    unfolding take_bit_minus_one_eq_mask [symmetric] by (rule unsigned_take_bit_eq)
  also have "unat (- 1 :: u64) = mask 64" by (simp add: mask_eq_exp_minus_1)
  finally have m: "unat (mask a :: u64) = 2 ^ a - 1"
    unfolding take_bit_of_mask using assms(1) by (simp add: min_def mask_eq_exp_minus_1)
  have "(1 :: nat) \<le> 2 ^ a" by simp
  then have x: "unat ?x = unat v + 2 ^ a - 1" using assms(2) m by (subst unat_add_lem [THEN iffD1]) simp_all
  have "unat ?x div 2 ^ a * 2 ^ a \<le> unat ?x" by simp
  then have "unat ?x div 2 ^ a * 2 ^ a < 2 ^ 64" using unat_u64_less [of ?x] by (rule le_less_trans)
  then have "unat (push_bit a (drop_bit a ?x)) = unat ?x div 2 ^ a * 2 ^ a"
    unfolding unsigned_push_bit_eq unsigned_drop_bit_eq
    using take_bit_nat_eq_self [OF unat_u64_less [of ?x]]
    by (simp add: push_bit_eq_mult drop_bit_eq_div take_bit_nat_eq_self)
  moreover have "AERON_ALIGN v (2 ^ a) = push_bit a (drop_bit a ?x)"
    unfolding AERON_ALIGN_def mask_eq_exp_minus_1 [symmetric] by (rule clear_low_bits)
  ultimately show ?thesis using x by (simp add: align_up_def)
qed

text \<open>The payloads of the fragments a message of length \<open>n\<close> is sent in.\<close>

function payloads :: "nat \<Rightarrow> nat \<Rightarrow> nat list" where
  "payloads mx n = (if n = 0 \<or> mx = 0 then [] else if n \<le> mx then [n] else mx # payloads mx (n - mx))"
  by pat_completeness auto
termination
  by (relation "measure snd") auto

declare payloads.simps [simp del]

lemma payloads_eq: "0 < mx \<Longrightarrow> payloads mx n = replicate (n div mx) mx @ (if n mod mx = 0 then [] else [n mod mx])"
proof (induction mx n rule: payloads.induct)
  case (1 mx n)
  show ?case
  proof (cases "n = 0 \<or> n \<le> mx")
    case True
    then show ?thesis using 1(2) by (subst payloads.simps) (auto simp: order_le_less)
  next
    case False
    then have "payloads mx n = mx # payloads mx (n - mx)" using 1(2) by (subst payloads.simps) simp
    moreover have "n div mx = Suc ((n - mx) div mx)" "n mod mx = (n - mx) mod mx"
      using False 1(2) by (simp_all add: le_div_geq le_mod_geq)
    ultimately show ?thesis using 1 False by simp
  qed
qed

lemma sum_list_payloads: "0 < mx \<Longrightarrow> sum_list (payloads mx n) = n"
  using div_mult_mod_eq [of n mx] by (auto simp: payloads_eq sum_list_replicate)

text \<open>The computed length, in whole frames and the rest.\<close>

lemma fragmented_length_eq:
  assumes "0 < unat max_payload" and "unat len + (unat len div unat max_payload + 2) * 64 < 2 ^ 64"
    and "unat max_payload + 32 < 2 ^ 64"
  defines "m \<equiv> unat max_payload" and "n \<equiv> unat len"
  shows "unat (aeron_logbuffer_compute_fragmented_length len max_payload)
    = n div m * (m + 32) + (if n mod m = 0 then 0 else align_up (n mod m + 32) 32)"
proof -
  let ?q = "n div m" and ?r = "n mod m"
  have qm: "?q * m + ?r = n" by simp
  have r: "?r + 64 < 2 ^ 64"
    unfolding m_def n_def by (rule le_less_trans [OF _ assms(2)], rule add_le_mono) (simp_all add: mod_less_eq_dividend)
  have up: "align_up (?r + 32) 32 < ?r + 64" using align_up_bounds(2) [of 32 "?r + 32"] by simp
  have "q * (m + 32) + u < t" if "q * m + r = n" "n + (q + 2) * 64 < t" "u < r + 64" for q m u t r n :: nat
    using that by (simp add: algebra_simps)
  then have total: "?q * (m + 32) + align_up (?r + 32) 32 < 2 ^ 64" using qm assms(2) [folded m_def n_def] up by this
  have m32: "unat (max_payload + 32) = m + 32" using assms(3) by (subst unat_add_lem [THEN iffD1]) (simp_all add: m_def)
  have r32: "unat (len mod max_payload + 32) = ?r + 32"
    using r by (subst unat_add_lem [THEN iffD1]) (simp_all add: unat_mod_distrib m_def n_def)
  have al: "unat (AERON_ALIGN (len mod max_payload + 32) 32) = align_up (?r + 32) 32"
    using unat_align [of 5 "len mod max_payload + 32"] r32 r by simp
  have prod: "unat (len div max_payload * (max_payload + 32)) = ?q * (m + 32)"
    using total m32 by (subst unat_mult_lem [THEN iffD1]) (simp_all add: unat_div_distrib m_def n_def)
  have sum: "unat (len div max_payload * (max_payload + 32) + AERON_ALIGN (len mod max_payload + 32) 32)
    = ?q * (m + 32) + align_up (?r + 32) 32"
    using total prod al by (subst unat_add_lem [THEN iffD1]) simp_all
  have zero: "len mod max_payload = 0 \<longleftrightarrow> ?r = 0" by (simp add: word_unat_eq_iff unat_mod_distrib m_def n_def)
  show ?thesis
  proof (cases "?r = 0")
    case True
    then show ?thesis using zero prod by (simp add: aeron_logbuffer_compute_fragmented_length_def AERON_DATA_HEADER_LENGTH_def)
  next
    case False
    then have "0 < len mod max_payload" using zero by (simp add: word_neq_0_conv)
    then show ?thesis using False sum
      by (simp add: aeron_logbuffer_compute_fragmented_length_def AERON_DATA_HEADER_LENGTH_def AERON_LOGBUFFER_FRAME_ALIGNMENT_def)
  qed
qed

lemma frames_have_room: "sum_list ps + 32 * length ps \<le> (\<Sum>p\<leftarrow>ps. align_up (p + 32) 32)"
proof (induction ps)
  case (Cons p ps)
  then show ?case using align_up_bounds(1) [of 32 "p + 32"] by simp
qed simp

text \<open>
  The space a message takes in the log: the length \<open>compute_fragmented_length\<close> gives is the sum over
  its fragments of the header and the payload, rounded up to the frame alignment, for a maximum
  payload that fills whole frames; it is a multiple of the alignment with room for all of the message
  and a header per fragment.
\<close>

theorem fragmented_length_correct:
  assumes "0 < unat max_payload" and "32 dvd unat max_payload" and "unat len + (unat len div unat max_payload + 2) * 64 < 2 ^ 64"
    and "unat max_payload + 32 < 2 ^ 64"
  defines "frames \<equiv> map (\<lambda>p. align_up (p + 32) 32) (payloads (unat max_payload) (unat len))"
  shows "unat (aeron_logbuffer_compute_fragmented_length len max_payload) = sum_list frames \<and>
    32 dvd sum_list frames \<and> unat len + 32 * length frames \<le> sum_list frames"
proof -
  let ?m = "unat max_payload" and ?n = "unat len"
  have full: "align_up (?m + 32) 32 = ?m + 32" using assms(2) by (intro align_up_self) simp_all
  have frames: "sum_list frames = ?n div ?m * (?m + 32) + (if ?n mod ?m = 0 then 0 else align_up (?n mod ?m + 32) 32)"
    unfolding frames_def by (simp add: payloads_eq [OF assms(1)] full sum_list_replicate)
  then have "32 dvd sum_list frames" using assms(2) align_up_bounds(3) by simp
  moreover have "?n + 32 * length frames \<le> sum_list frames"
    using frames_have_room [of "payloads ?m ?n"] sum_list_payloads [OF assms(1), of ?n] by (simp add: frames_def)
  ultimately show ?thesis using fragmented_length_eq [OF assms(1,3,4)] frames by simp
qed

theorem fragmented_length_correct_witness:
  "unat (aeron_logbuffer_compute_fragmented_length 3000 1376) = 2 * 1408 + 288"
proof -
  have "payloads 1376 3000 = [1376, 1376, 248]" by (simp add: payloads.simps)
  then show ?thesis using fragmented_length_correct [of 1376 3000] by (simp add: align_up_def)
qed

text \<open>The length of the log file: three terms and the metadata in whole pages.\<close>

lemma log_length_correct:
  assumes "unat term_len \<le> 2 ^ 30" "page_len = 2 ^ a" "a \<le> 30"
  shows "unat (aeron_logbuffer_compute_log_length term_len page_len) = align_up (3 * unat term_len + 4096) (2 ^ a)"
proof -
  have a: "2 ^ a \<le> (2 ^ 30 :: nat)" using assms(3) by (rule power_increasing) simp
  have "unat (term_len * 3) = unat term_len * 3" using assms(1) by (subst unat_mult_lem [THEN iffD1]) simp_all
  then have x: "unat (term_len * 3 + 4096) = 3 * unat term_len + 4096"
    using assms(1) by (subst unat_add_lem [THEN iffD1]) simp_all
  have "unat (term_len * 3 + 4096) + 2 ^ a - 1 < 2 ^ 64" using x a assms(1) by simp
  then show ?thesis
    using unat_align [of a "term_len * 3 + 4096"] assms(2,3) x
    by (simp add: aeron_logbuffer_compute_log_length_def AERON_LOGBUFFER_PARTITION_COUNT_def AERON_LOGBUFFER_META_DATA_LENGTH_def)
qed

section \<open>The default header\<close>

lemma of_host_bytes: "LENGTH('a) = 8 * n \<Longrightarrow> of_host_bytes e (host_bytes e n w) = (w :: 'a::len word)"
  by (cases e) (simp_all add: of_host_bytes_def host_bytes_def le_decode_encode take_bit_word_eq_self)

lemma length_host_bytes [simp]: "length (host_bytes e n w) = n"
  by (cases e) (simp_all add: host_bytes_def)

lemma length_data_header_bytes [simp]: "length (data_header_bytes e h) = 32"
  by (simp add: data_header_bytes_def)

lemma data_header_at_bytes: "data_header_at e (data_header_bytes e h @ rest) = h"
  by (simp add: data_header_at_def data_header_bytes_def of_host_bytes nth_append)

text \<open>The metadata of a new file, all zero.\<close>

definition new_metadata :: logbuffer_metadata where
  "new_metadata = \<lparr>lm_term_tail_counters = [0, 0, 0], lm_active_term_count = 0, lm_end_of_stream_position = 0, lm_is_connected =
      0, lm_active_transport_count = 0, lm_correlation_id = 0, lm_initial_term_id = 0,
      lm_default_frame_header_length = 0, lm_mtu_length = 0, lm_term_length = 0, lm_page_size = 0,
      lm_publication_window_length = 0, lm_receiver_window_length = 0, lm_socket_sndbuf_length = 0,
      lm_os_default_socket_sndbuf_length = 0, lm_os_max_socket_sndbuf_length = 0, lm_socket_rcvbuf_length = 0,
      lm_os_default_socket_rcvbuf_length = 0, lm_os_max_socket_rcvbuf_length = 0, lm_max_resend = 0,
      lm_default_header = replicate 128 0, lm_entity_tag = 0, lm_response_correlation_id = 0, lm_linger_timeout_ns =
      0, lm_untethered_window_limit_timeout_ns = 0, lm_untethered_resting_timeout_ns = 0, lm_group = 0,
      lm_is_response = 0, lm_rejoin = 0, lm_reliable = 0, lm_sparse = 0, lm_signal_eos = 0,
      lm_spies_simulate_connection = 0, lm_tether = 0, lm_is_publication_revoked = 0,
      lm_untethered_linger_timeout_ns = 0\<rparr>"

text \<open>
  A log set up by \<open>metadata_init\<close>: the metadata keeps its tail counters and its term count, and the
  default header copied to the start of a frame is that of an unfragmented data frame of the session,
  stream and initial term given, whatever the byte order of the host; the rest of the frame stays.
\<close>

theorem default_header_applied:
  assumes "32 \<le> length frame"
    and m': "m' = aeron_logbuffer_metadata_init e m
      end_of_stream_position is_connected active_transport_count correlation_id initial_term_id mtu_length term_length
      page_size publication_window_length receiver_window_length socket_sndbuf_length os_default_socket_sndbuf_length
      os_max_socket_sndbuf_length socket_rcvbuf_length os_default_socket_rcvbuf_length os_max_socket_rcvbuf_length
      max_resend session_id stream_id entity_tag response_correlation_id linger_timeout_ns
      untethered_window_limit_timeout_ns untethered_linger_timeout_ns untethered_resting_timeout_ns grp is_response
      rejoin reliable sparse signal_eos spies_simulate_connection tether"
  shows "lm_term_tail_counters m' = lm_term_tail_counters m \<and> lm_active_term_count m' = lm_active_term_count m \<and>
    lm_initial_term_id m' = initial_term_id \<and> lm_term_length m' = term_length \<and> lm_mtu_length m' = mtu_length \<and>
    (\<exists>frame'. aeron_logbuffer_apply_default_header m' frame = Some frame' \<and> length frame' = length frame \<and>
       drop 32 frame' = drop 32 frame \<and>
       data_header_at e frame' =
         \<lparr>dh_frame_header = \<lparr>frame_length = 0, version = 0, frame_flags = 0xC0, frame_type = 1\<rparr>, dh_term_offset = 0,
          dh_session_id = session_id, dh_stream_id = stream_id, dh_term_id = initial_term_id, dh_reserved_value = 0\<rparr>)"
proof -
  let ?h = "\<lparr>dh_frame_header = \<lparr>frame_length = 0, version = 0, frame_flags = 0xC0, frame_type = 1\<rparr>, dh_term_offset = 0,
    dh_session_id = session_id, dh_stream_id = stream_id, dh_term_id = initial_term_id, dh_reserved_value = 0\<rparr>"
  note defs = m' aeron_logbuffer_metadata_init_def aeron_logbuffer_fill_default_header_def
    AERON_DATA_HEADER_LENGTH_def AERON_FRAME_HEADER_VERSION_def AERON_HDR_TYPE_DATA_def
    AERON_DATA_HEADER_BEGIN_FLAG_def AERON_DATA_HEADER_END_FLAG_def Let_def
  have hdr: "lm_default_header m' = data_header_bytes e ?h @ drop 32 (lm_default_header m)"
    "lm_default_frame_header_length m' = 32"
    by (simp_all add: defs)
  have "unat (scast (32 :: s32) :: u64) = 32" by simp
  then have "aeron_logbuffer_apply_default_header m' frame = Some (data_header_bytes e ?h @ drop 32 frame)"
    using assms(1) by (simp add: aeron_logbuffer_apply_default_header_def hdr mem_read_def mem_write_def)
  moreover have "data_header_at e (data_header_bytes e ?h @ drop 32 frame) = ?h" by (rule data_header_at_bytes)
  ultimately show ?thesis using assms(1) by (simp add: defs)
qed

theorem default_header_applied_witness:
  "\<exists>frame'. aeron_logbuffer_apply_default_header
       (aeron_logbuffer_metadata_init Little new_metadata 0 0 0 0 7 0 0 0 0 0 0 0 0 0 0 0 0 8 9 0 0 0 0 0 0 0 0 0 0 0 0 0 0)
       (replicate 40 0) = Some frame' \<and>
     dh_session_id (data_header_at Little frame') = 8 \<and> dh_term_id (data_header_at Little frame') = 7"
  using default_header_applied [OF _ refl, of "replicate 40 0" Little new_metadata 0 0 0 0 7 0 0 0 0 0 0 0 0 0 0 0 0 8 9 0 0 0 0 0 0 0 0 0 0 0 0 0 0]
  by auto

end
