(* ===== verification/LogRotation.thy ===== *)
theory LogRotation
  imports LogBufferDescriptor
begin

text \<open>
  The part of \<open>aeron_logbuffer_descriptor.h\<close> that several threads run at once: reading and setting the
  tails of the partitions and the active term count, and \<open>rotate_log\<close>, whose steps are its accesses to
  the shared metadata. Any number of threads rotate and append in any order.
\<close>

section \<open>Access to the counters\<close>

definition aeron_logbuffer_rawtail_volatile :: "logbuffer_metadata \<Rightarrow> s64" where
  "aeron_logbuffer_rawtail_volatile m =
     (let partition = word_of_int (sint (lm_active_term_count m) smod AERON_LOGBUFFER_PARTITION_COUNT) :: u64
      in lm_term_tail_counters m ! unat partition)"

definition aeron_logbuffer_cas_raw_tail :: "logbuffer_metadata \<Rightarrow> u64 \<Rightarrow> s64 \<Rightarrow> s64 \<Rightarrow> logbuffer_metadata \<times> bool" where
  "aeron_logbuffer_cas_raw_tail m partition_index expected_raw_tail update_raw_tail =
     (if lm_term_tail_counters m ! unat partition_index = expected_raw_tail
      then (m\<lparr>lm_term_tail_counters := (lm_term_tail_counters m)[unat partition_index := update_raw_tail]\<rparr>, True)
      else (m, False))"

definition aeron_logbuffer_active_term_count :: "logbuffer_metadata \<Rightarrow> s32" where
  "aeron_logbuffer_active_term_count m = lm_active_term_count m"

definition aeron_logbuffer_cas_active_term_count :: "logbuffer_metadata \<Rightarrow> s32 \<Rightarrow> s32 \<Rightarrow> logbuffer_metadata \<times> bool" where
  "aeron_logbuffer_cas_active_term_count m expected_term_count update_term_count =
     (if lm_active_term_count m = expected_term_count
      then (m\<lparr>lm_active_term_count := update_term_count\<rparr>, True) else (m, False))"

section \<open>Rotating\<close>

text \<open>Where a caller is, with \<open>current_term_count\<close> and \<open>current_term_id\<close>: at the read of the next
  partition's tail, at its compare-and-set, at that of the term count, or back with the answer.
  Term ids are compared for equality only and go round at 32 bits: where the C code's signed sums
  \<open>current_term_id + 1\<close> and \<open>next_term_id - 3\<close> leave the range, which the language leaves undefined, the
  model takes the wrapped value the protocol means.\<close>

datatype rotate_pc =
    Rotate_idle | Rotate_read s32 s32 | Rotate_cas s32 s32 s64 | Rotate_count s32 s32 | Rotate_return s32 s32 bool

fun rotate_log_step :: "logbuffer_metadata \<Rightarrow> rotate_pc \<Rightarrow> logbuffer_metadata \<times> rotate_pc" where
  "rotate_log_step m (Rotate_read current_term_count current_term_id) =
     (let next_term_id = current_term_id + 1;
          next_index = aeron_logbuffer_index_by_term_count (current_term_count + 1);
          expected_term_id = next_term_id - word_of_int AERON_LOGBUFFER_PARTITION_COUNT;
          raw_tail = lm_term_tail_counters m ! unat next_index
      in if expected_term_id \<noteq> aeron_logbuffer_term_id raw_tail then (m, Rotate_count current_term_count current_term_id)
         else (m, Rotate_cas current_term_count current_term_id raw_tail))"
| "rotate_log_step m (Rotate_cas current_term_count current_term_id raw_tail) =
     (let next_term_id = current_term_id + 1;
          next_index = aeron_logbuffer_index_by_term_count (current_term_count + 1)
      in case aeron_logbuffer_cas_raw_tail m next_index raw_tail (push_bit 32 (scast next_term_id)) of
           (m', True) \<Rightarrow> (m', Rotate_count current_term_count current_term_id)
         | (m', False) \<Rightarrow> (m', Rotate_read current_term_count current_term_id))"
| "rotate_log_step m (Rotate_count current_term_count current_term_id) =
     (case aeron_logbuffer_cas_active_term_count m current_term_count (current_term_count + 1) of
        (m', result) \<Rightarrow> (m', Rotate_return current_term_count current_term_id result))"
| "rotate_log_step m (Rotate_return current_term_count current_term_id result) = (m, Rotate_idle)"
| "rotate_log_step m Rotate_idle = (m, Rotate_idle)"

text \<open>
  \<open>rotated\<close> collects the term counts with which a call has moved the log on. A caller takes the term
  count it finds; an append adds to the tail of a partition (even one that is no longer active),
  without running over the low half.
\<close>

record 'i log_system =
  meta :: logbuffer_metadata
  rotators :: "'i \<Rightarrow> rotate_pc"
  rotated :: "s32 list"

definition rotator_moves :: "'i \<Rightarrow> 'i log_system \<Rightarrow> 'i log_system" where
  "rotator_moves i s =
     (case rotate_log_step (meta s) (rotators s i) of (m, pc) \<Rightarrow>
        s\<lparr>meta := m, rotators := (rotators s)(i := pc),
          rotated := rotated s @ (case rotators s i of
             Rotate_count c d \<Rightarrow> if snd (aeron_logbuffer_cas_active_term_count (meta s) c (c + 1)) then [c] else []
           | _ \<Rightarrow> [])\<rparr>)"

inductive log_step :: "s32 \<Rightarrow> 'i log_system \<Rightarrow> 'i log_system \<Rightarrow> bool" for init where
  call: "rotators s i = Rotate_idle \<Longrightarrow> count = aeron_logbuffer_active_term_count (meta s) \<Longrightarrow>
    log_step init s (s\<lparr>rotators := (rotators s)(i := Rotate_read count (init + count))\<rparr>)"
| rotate: "log_step init s (rotator_moves i s)"
| append: "p < 3 \<Longrightarrow> unat (lm_term_tail_counters (meta s) ! p) mod 2 ^ 32 + unat n < 2 ^ 32 \<Longrightarrow>
    log_step init s (s\<lparr>meta := (meta s)\<lparr>lm_term_tail_counters :=
      (lm_term_tail_counters (meta s))[p := lm_term_tail_counters (meta s) ! p + n]\<rparr>\<rparr>)"

inductive_cases log_stepE: "log_step init s s'"

section \<open>The invariant\<close>

text \<open>Partition \<open>p\<close> holds term \<open>x\<close> from the first.\<close>

definition holds_term :: "s32 \<Rightarrow> logbuffer_metadata \<Rightarrow> nat \<Rightarrow> int \<Rightarrow> bool" where
  "holds_term init m p x \<longleftrightarrow> aeron_logbuffer_term_id (lm_term_tail_counters m ! p) = init + word_of_int x"

definition in_step :: "s32 \<Rightarrow> logbuffer_metadata \<Rightarrow> nat \<Rightarrow> bool" where
  "in_step init m c \<longleftrightarrow> length (lm_term_tail_counters m) = 3 \<and> lm_active_term_count m = word_of_nat c \<and>
     (\<forall>p<3. \<exists>x. holds_term init m p x \<and> x mod 3 = int p \<and> int c - 2 \<le> x \<and> x \<le> int c + 1)"

fun rotating :: "s32 \<Rightarrow> logbuffer_metadata \<Rightarrow> nat \<Rightarrow> rotate_pc \<Rightarrow> bool" where
  "rotating init m c Rotate_idle \<longleftrightarrow> True"
| "rotating init m c (Rotate_read k d) \<longleftrightarrow> (\<exists>n\<le>c. k = word_of_nat n \<and> d = init + word_of_nat n)"
| "rotating init m c (Rotate_cas k d raw) \<longleftrightarrow>
     (\<exists>n\<le>c. k = word_of_nat n \<and> d = init + word_of_nat n \<and> aeron_logbuffer_term_id raw = init + word_of_int (int n - 2))"
| "rotating init m c (Rotate_count k d) \<longleftrightarrow>
     (\<exists>n\<le>c. k = word_of_nat n \<and> d = init + word_of_nat n \<and> (n = c \<longrightarrow> holds_term init m ((c + 1) mod 3) (int c + 1)))"
| "rotating init m c (Rotate_return k d r) \<longleftrightarrow> True"

definition log_inv :: "s32 \<Rightarrow> 'i log_system \<Rightarrow> bool" where
  "log_inv init s \<longleftrightarrow>
     (\<exists>c. in_step init (meta s) c \<and> rotated s = map word_of_nat [0..<c] \<and> (\<forall>i. rotating init (meta s) c (rotators s i)))"

lemma log_invI:
  "in_step init (meta s) c \<Longrightarrow> rotated s = map word_of_nat [0..<c] \<Longrightarrow> (\<And>i. rotating init (meta s) c (rotators s i)) \<Longrightarrow>
   log_inv init s"
  by (auto simp: log_inv_def)

lemma word_eq_near:
  assumes "init + word_of_int x = (init + word_of_int y :: s32)" "\<bar>x - y\<bar> < 2 ^ 32"
  shows "x = y"
proof -
  have "(word_of_int x :: s32) = word_of_int y" using assms(1) by simp
  then have "x mod 2 ^ 32 = y mod 2 ^ 32" by (simp add: word_of_int_eq_iff take_bit_eq_mod)
  then have "2 ^ 32 dvd x - y" by (simp add: mod_eq_dvd_iff)
  then show ?thesis using assms(2) dvd_imp_le_int [of "x - y" "2 ^ 32"] by fastforce
qed

lemma count_eq: "n < 2 ^ 31 \<Longrightarrow> c < 2 ^ 31 \<Longrightarrow> (word_of_nat n :: s32) = word_of_nat c \<longleftrightarrow> n = c"
  by (metis sint_of_nat(1) of_nat_eq_iff)

lemma next_index: "n + 1 < 2 ^ 31 \<Longrightarrow> unat (aeron_logbuffer_index_by_term_count (word_of_nat n + 1)) = (n + 1) mod 3"
  using index_of_count [of "n + 1"] unat_of_nat_u64 [of "(n + 1) mod 3"] by (simp add: add.commute)

lemma term_id_of_fresh: "aeron_logbuffer_term_id (push_bit 32 (scast i)) = i"
  unfolding aeron_logbuffer_term_id_def by (rule bit_word_eqI) (auto simp: bit_simps)

lemma term_id_div: "aeron_logbuffer_term_id w = word_of_nat (unat w div 2 ^ 32)"
proof -
  have "aeron_logbuffer_term_id w = ucast (drop_bit 32 w)"
    unfolding aeron_logbuffer_term_id_def by (rule bit_word_eqI) (auto simp: bit_simps)
  also have "\<dots> = word_of_nat (unat (drop_bit 32 w))" by simp
  also have "unat (drop_bit 32 w) = drop_bit 32 (take_bit 64 (unat w))" using unsigned_drop_bit_eq [of 32 w] by simp
  also have "\<dots> = unat w div 2 ^ 32" using take_bit_nat_eq_self [OF unat_u64_less [of w]] by (simp add: drop_bit_eq_div)
  finally show ?thesis .
qed

lemma term_id_of_append:
  assumes "unat w mod 2 ^ 32 + unat n < 2 ^ 32"
  shows "aeron_logbuffer_term_id (w + n) = aeron_logbuffer_term_id w"
proof -
  define a r where "a = unat w div 2 ^ 32" and "r = unat w mod 2 ^ 32"
  have w: "unat w = 2 ^ 32 * a + r" unfolding a_def r_def by simp
  have "a < 2 ^ 32" using unat_u64_less [of w] unfolding a_def by (intro less_mult_imp_div_less) simp
  then have "2 ^ 32 * a + (r + unat n) < 2 ^ 64" using assms unfolding r_def [symmetric] by simp
  then have "unat (w + n) = 2 ^ 32 * a + (r + unat n)" using w by (subst unat_add_lem [THEN iffD1]) simp_all
  moreover have "(2 ^ 32 * a + (r + unat n)) div 2 ^ 32 = a" using assms unfolding r_def [symmetric] by simp
  ultimately show ?thesis by (simp add: term_id_div a_def)
qed

text \<open>The next partition holds the term before the last or already the next one.\<close>

lemma next_partition:
  assumes "in_step init m c" "p = (n + 1) mod 3" "n \<le> c"
  obtains x where "holds_term init m p x" "x mod 3 = (int n + 1) mod 3" "int c - 2 \<le> x" "x \<le> int c + 1" "p < 3"
proof -
  have "p < 3" using assms(2) by simp
  moreover have "int p = (int n + 1) mod 3" using assms(2) by (simp add: zmod_int add.commute)
  ultimately show ?thesis using assms(1) that by (auto simp: in_step_def)
qed

lemma in_step_store:
  assumes "in_step init m c" "p < 3" "aeron_logbuffer_term_id w = init + word_of_int x" "x mod 3 = int p"
    "int c - 2 \<le> x" "x \<le> int c + 1"
  shows "in_step init (m\<lparr>lm_term_tail_counters := (lm_term_tail_counters m)[p := w]\<rparr>) c"
  using assms by (fastforce simp: in_step_def holds_term_def nth_list_update)

lemma holds_term_store:
  assumes "length (lm_term_tail_counters m) = 3" "p < 3" "aeron_logbuffer_term_id w = init + word_of_int x"
  shows "holds_term init (m\<lparr>lm_term_tail_counters := (lm_term_tail_counters m)[p := w]\<rparr>) q y
    = (if q = p then (init + word_of_int x = init + word_of_int y) else holds_term init m q y)"
  using assms by (auto simp: holds_term_def)

lemma rotating_store:
  assumes "rotating init m c pc" "length (lm_term_tail_counters m) = 3" "p < 3"
    "aeron_logbuffer_term_id w = init + word_of_int x" "p = (c + 1) mod 3 \<Longrightarrow> x = int c + 1 \<or> holds_term init m p x"
  shows "rotating init (m\<lparr>lm_term_tail_counters := (lm_term_tail_counters m)[p := w]\<rparr>) c pc"
proof -
  have "holds_term init (m\<lparr>lm_term_tail_counters := (lm_term_tail_counters m)[p := w]\<rparr>) ((c + 1) mod 3) (int c + 1)"
    if "holds_term init m ((c + 1) mod 3) (int c + 1)"
    unfolding holds_term_store [OF assms(2-4)] using that assms(5) by (auto simp: holds_term_def)
  then show ?thesis using assms(1) by (cases pc) auto
qed

text \<open>Moving the term count on.\<close>

lemma in_step_Suc:
  assumes "in_step init m c" "holds_term init m ((c + 1) mod 3) (int c + 1)" "c + 1 < 2 ^ 31"
  shows "in_step init (m\<lparr>lm_active_term_count := word_of_nat c + 1\<rparr>) (Suc c)"
proof -
  have "\<exists>x. holds_term init m p x \<and> x mod 3 = int p \<and> int c - 1 \<le> x \<and> x \<le> int c + 2" if p: "p < 3" for p
  proof (cases "p = (c + 1) mod 3")
    case True
    then show ?thesis using assms(2) by (intro exI [of _ "int c + 1"]) (simp add: zmod_int add.commute)
  next
    case False
    obtain x where x: "holds_term init m p x" "x mod 3 = int p" "int c - 2 \<le> x" "x \<le> int c + 1"
      using assms(1) p by (auto simp: in_step_def)
    have "x \<noteq> int c - 2"
    proof
      assume "x = int c - 2"
      then have "x mod 3 = int ((c + 1) mod 3)" by presburger
      then show False using False x(2) by simp
    qed
    then show ?thesis using x by (intro exI [of _ x]) auto
  qed
  then show ?thesis using assms(1) by (simp add: in_step_def holds_term_def add.commute)
qed

lemma rotating_Suc:
  assumes "rotating init m c pc"
  shows "rotating init (m\<lparr>lm_active_term_count := k\<rparr>) (Suc c) pc"
  using assms by (cases pc) (auto simp: holds_term_def intro: le_SucI)

lemma rotate_keeps:
  assumes inv: "in_step init (meta s) c" "\<And>j. rotating init (meta s) c (rotators s j)" "rotated s = map word_of_nat [0..<c]"
    and bound: "c + 1 < 2 ^ 31"
  shows "log_inv init (rotator_moves i s)"
proof -
  let ?m = "meta s"
  have pc: "rotating init ?m c (rotators s i)" by (rule inv(2))
  have len: "length (lm_term_tail_counters ?m) = 3" and cnt: "lm_active_term_count ?m = word_of_nat c"
    using inv(1) by (simp_all add: in_step_def)
  have keep: "log_inv init (s\<lparr>rotators := (rotators s)(i := pc')\<rparr>)"
    if "rotating init ?m c pc'" for pc'
    using inv that by (auto simp: log_inv_def)
  show ?thesis
  proof (cases "rotators s i")
    case (Rotate_read k d)
    then obtain n where n: "n \<le> c" "k = word_of_nat n" "d = init + word_of_nat n" using pc by auto
    let ?p = "(n + 1) mod 3"
    have idx: "unat (aeron_logbuffer_index_by_term_count (k + 1)) = ?p" using n bound next_index [of n] by simp
    have expected: "d + 1 - word_of_int AERON_LOGBUFFER_PARTITION_COUNT = init + word_of_int (int n - 2)"
      using n by (simp add: AERON_LOGBUFFER_PARTITION_COUNT_def)
    obtain x where x: "holds_term init ?m ?p x" "x mod 3 = (int n + 1) mod 3" "int c - 2 \<le> x" "x \<le> int c + 1"
      using next_partition [OF inv(1) refl n(1)] by blast
    have "holds_term init ?m ((c + 1) mod 3) (int c + 1)"
      if "n = c" "aeron_logbuffer_term_id (lm_term_tail_counters ?m ! ?p) \<noteq> init + word_of_int (int n - 2)"
    proof -
      have "x \<noteq> int c - 2" using that x(1) by (auto simp: holds_term_def)
      then have "x = int c + 1" using x that(1) by presburger
      then show ?thesis using x(1) that(1) by simp
    qed
    then have count: "rotating init ?m c (Rotate_count k d)"
      if "aeron_logbuffer_term_id (lm_term_tail_counters ?m ! ?p) \<noteq> init + word_of_int (int n - 2)"
      unfolding rotating.simps using n that by blast
    have cas: "rotating init ?m c (Rotate_cas k d (lm_term_tail_counters ?m ! ?p))"
      if "aeron_logbuffer_term_id (lm_term_tail_counters ?m ! ?p) = init + word_of_int (int n - 2)"
      unfolding rotating.simps using n that by blast
    have "rotator_moves i s = s\<lparr>rotators := (rotators s)(i :=
        if aeron_logbuffer_term_id (lm_term_tail_counters ?m ! ?p) = init + word_of_int (int n - 2)
        then Rotate_cas k d (lm_term_tail_counters ?m ! ?p) else Rotate_count k d)\<rparr>"
      using Rotate_read by (auto simp: rotator_moves_def Let_def idx expected)
    then show ?thesis using keep [OF count] keep [OF cas] by presburger
  next
    case (Rotate_cas k d raw)
    then obtain n where n: "n \<le> c" "k = word_of_nat n" "d = init + word_of_nat n"
      and raw: "aeron_logbuffer_term_id raw = init + word_of_int (int n - 2)" using pc by auto
    let ?p = "(n + 1) mod 3"
    have idx: "unat (aeron_logbuffer_index_by_term_count (k + 1)) = ?p" using n bound next_index [of n] by simp
    show ?thesis
    proof (cases "lm_term_tail_counters ?m ! ?p = raw")
      case True
      obtain x where x: "holds_term init ?m ?p x" "int c - 2 \<le> x" "x \<le> int c + 1"
        using next_partition [OF inv(1) refl n(1)] by blast
      have "x = int n - 2"
        using x n(1) bound raw True by (intro word_eq_near [of init]) (auto simp: holds_term_def)
      then have c: "n = c" using x(2) n(1) by simp
      let ?w = "push_bit 32 (scast (d + 1)) :: s64"
      have w: "aeron_logbuffer_term_id ?w = init + word_of_int (int c + 1)" unfolding term_id_of_fresh using n c by simp
      let ?m' = "?m\<lparr>lm_term_tail_counters := (lm_term_tail_counters ?m)[?p := ?w]\<rparr>"
      have "in_step init ?m' c" using w c by (intro in_step_store [OF inv(1), where x = "int c + 1"]) (auto simp: zmod_int add.commute)
      moreover have "rotating init ?m' c (rotators s j)" for j
        by (rule rotating_store [OF inv(2) len _ w]) simp_all
      moreover have "rotating init ?m' c (Rotate_count k d)"
        using n c holds_term_store [OF len _ w, of ?p ?p "int c + 1"] by auto
      ultimately have "log_inv init (s\<lparr>meta := ?m', rotators := (rotators s)(i := Rotate_count k d)\<rparr>)"
        using inv(3) by (intro log_invI [of _ _ c]) (simp_all del: rotating.simps)
      then show ?thesis
        using Rotate_cas True idx by (simp add: rotator_moves_def aeron_logbuffer_cas_raw_tail_def Let_def)
    next
      case False
      then show ?thesis
        using Rotate_cas idx n(1) keep [of "Rotate_read k d"] n(2,3)
        by (auto simp: rotator_moves_def aeron_logbuffer_cas_raw_tail_def Let_def)
    qed
  next
    case (Rotate_count k d)
    then obtain n where n: "n \<le> c" "k = word_of_nat n" "n = c \<Longrightarrow> holds_term init ?m ((c + 1) mod 3) (int c + 1)"
      using pc by auto
    have eq: "k = word_of_nat c \<longleftrightarrow> n = c" using n(1,2) bound count_eq [of n c] by simp
    show ?thesis
    proof (cases "n = c")
      case True
      then have "in_step init (?m\<lparr>lm_active_term_count := k + 1\<rparr>) (Suc c)" using in_step_Suc [OF inv(1) n(3) bound] n(2) by simp
      then show ?thesis
        using Rotate_count True eq cnt inv(3) rotating_Suc [OF inv(2)] n(2)
        by (intro log_invI [of _ _ "Suc c"])
          (simp_all add: rotator_moves_def aeron_logbuffer_cas_active_term_count_def del: rotating.simps(2-4))
    next
      case False
      then show ?thesis
        using Rotate_count eq cnt keep [of "Rotate_return k d False"]
        by (auto simp: rotator_moves_def aeron_logbuffer_cas_active_term_count_def)
    qed
  qed (use keep [of Rotate_idle] in \<open>simp_all add: rotator_moves_def\<close>)
qed

lemma append_keeps:
  assumes inv: "in_step init m c" "rotating init m c pc" and p: "p < 3" "unat (lm_term_tail_counters m ! p) mod 2 ^ 32 + unat n < 2 ^ 32"
  defines "m' \<equiv> m\<lparr>lm_term_tail_counters := (lm_term_tail_counters m)[p := lm_term_tail_counters m ! p + n]\<rparr>"
  shows "in_step init m' c" and "rotating init m' c pc"
proof -
  obtain x where x: "holds_term init m p x" "x mod 3 = int p" "int c - 2 \<le> x" "x \<le> int c + 1"
    using inv(1) p(1) by (auto simp: in_step_def)
  have len: "length (lm_term_tail_counters m) = 3" using inv(1) by (simp add: in_step_def)
  have w: "aeron_logbuffer_term_id (lm_term_tail_counters m ! p + n) = init + word_of_int x"
    using term_id_of_append [OF p(2)] x(1) by (simp add: holds_term_def)
  show "in_step init m' c" unfolding m'_def by (rule in_step_store [OF inv(1) p(1) w x(2-4)])
  show "rotating init m' c pc" unfolding m'_def by (rule rotating_store [OF inv(2) len p(1) w], rule disjI2, rule x(1))
qed

lemma log_step_keeps:
  assumes "log_step init s s'" "log_inv init s" "length (rotated s) + 1 < 2 ^ 31"
  shows "log_inv init s'"
proof -
  obtain c where inv: "in_step init (meta s) c" "\<And>j. rotating init (meta s) c (rotators s j)" "rotated s = map word_of_nat [0..<c]"
    using assms(2) by (auto simp: log_inv_def)
  then have c: "c + 1 < 2 ^ 31" using assms(3) by simp
  show ?thesis
    using assms(1)
  proof (cases rule: log_step.cases)
    case (call i count)
    then have "rotating init (meta s) c (Rotate_read count (init + count))"
      using inv(1) by (auto simp: in_step_def aeron_logbuffer_active_term_count_def)
    then show ?thesis using call inv by (auto simp: log_inv_def)
  next
    case (rotate i)
    then show ?thesis using rotate_keeps [OF inv c] by simp
  next
    case (append p n)
    then show ?thesis
      using append_keeps [OF inv(1) inv(2) append(2,3)] inv(3) by (auto simp: log_inv_def)
  qed
qed

lemma log_step_rotated: "log_step init s s' \<Longrightarrow> length (rotated s) \<le> length (rotated s')"
  by (erule log_stepE) (auto simp: rotator_moves_def split: prod.splits)

text \<open>A log as it starts: the first term in partition 0, the others marked as two and one before it.\<close>

definition new_log :: "s32 \<Rightarrow> logbuffer_metadata \<Rightarrow> bool" where
  "new_log init m \<longleftrightarrow> lm_active_term_count m = 0 \<and> length (lm_term_tail_counters m) = 3 \<and>
     map aeron_logbuffer_term_id (lm_term_tail_counters m) = [init, init - 2, init - 1]"

definition log_start :: "logbuffer_metadata \<Rightarrow> 'i log_system" where
  "log_start m = \<lparr>meta = m, rotators = (\<lambda>i. Rotate_idle), rotated = []\<rparr>"

lemma new_log_in_step: "new_log init m \<Longrightarrow> in_step init m 0"
proof -
  assume new: "new_log init m"
  then obtain a b d where t: "lm_term_tail_counters m = [a, b, d]" by (auto simp: new_log_def length_Suc_conv numeral_3_eq_3)
  have "\<exists>x. holds_term init m p x \<and> x mod 3 = int p \<and> - 2 \<le> x \<and> x \<le> 1" if "p < 3" for p
  proof -
    have "p = 0 \<or> p = 1 \<or> p = 2" using that by auto
    then show ?thesis
      using new t
      by (elim disjE) (auto simp: new_log_def holds_term_def intro: exI [of _ 0] exI [of _ "- 2"] exI [of _ "- 1"])
  qed
  then show ?thesis using new by (simp add: in_step_def new_log_def)
qed

lemma log_reachable:
  assumes "(log_step init)\<^sup>*\<^sup>* (log_start m) s" "new_log init m" "length (rotated s) + 1 < 2 ^ 31"
  shows "log_inv init s"
  using assms(1,3)
proof (induction rule: rtranclp_induct)
  case base
  show ?case using new_log_in_step [OF assms(2)] by (auto simp: log_inv_def log_start_def intro!: exI [of _ 0])
next
  case (step s s')
  then show ?case using log_step_rotated [of init s s'] log_step_keeps [of init s s'] by simp
qed

section \<open>What a step does to a tail\<close>

lemma offset_of_append:
  fixes w n :: s64
  assumes "unat w mod 2 ^ 32 + unat n < 2 ^ 32"
  shows "unat w mod 2 ^ 32 \<le> unat (w + n) mod 2 ^ 32"
proof -
  define a r where "a = unat w div 2 ^ 32" and "r = unat w mod 2 ^ 32"
  have w: "unat w = 2 ^ 32 * a + r" unfolding a_def r_def by simp
  have "a < 2 ^ 32" using unat_u64_less [of w] unfolding a_def by (intro less_mult_imp_div_less) simp
  then have "2 ^ 32 * a + (r + unat n) < 2 ^ 64" using assms unfolding r_def [symmetric] by simp
  then have "unat (w + n) = 2 ^ 32 * a + (r + unat n)" using w by (subst unat_add_lem [THEN iffD1]) simp_all
  then show ?thesis using assms unfolding r_def [symmetric] by simp
qed

text \<open>With \<open>c\<close> terms left: a tail stays in its term and does not go back, or the one three terms behind enters the next term.\<close>

definition tail_moves :: "s32 \<Rightarrow> nat \<Rightarrow> s64 \<Rightarrow> s64 \<Rightarrow> bool" where
  "tail_moves init c t t' \<longleftrightarrow>
     aeron_logbuffer_term_id t' = aeron_logbuffer_term_id t \<and> unat t mod 2 ^ 32 \<le> unat t' mod 2 ^ 32 \<or>
     aeron_logbuffer_term_id t = init + word_of_int (int c - 2) \<and> t' = push_bit 32 (scast (init + word_of_nat (c + 1)))"

lemma tail_moves_refl [simp]: "tail_moves init c t t"
  by (simp add: tail_moves_def)

lemma rotator_tails:
  assumes inv: "in_step init (meta s) c" "rotating init (meta s) c (rotators s i)" and bound: "c + 1 < 2 ^ 31" and p: "p < 3"
  shows "tail_moves init c (lm_term_tail_counters (meta s) ! p) (lm_term_tail_counters (meta (rotator_moves i s)) ! p)"
proof (cases "rotators s i")
  case (Rotate_cas k d raw)
  then obtain n where n: "n \<le> c" "k = word_of_nat n" "d = init + word_of_nat n"
    and raw: "aeron_logbuffer_term_id raw = init + word_of_int (int n - 2)" using inv(2) by auto
  let ?q = "(n + 1) mod 3" and ?t = "lm_term_tail_counters (meta s)"
  have idx: "unat (aeron_logbuffer_index_by_term_count (k + 1)) = ?q" using n bound next_index [of n] by simp
  show ?thesis
  proof (cases "?t ! ?q = raw")
    case True
    obtain x where x: "holds_term init (meta s) ?q x" "int c - 2 \<le> x" "x \<le> int c + 1"
      using next_partition [OF inv(1) refl n(1)] by blast
    have "x = int n - 2" using x n(1) bound raw True by (intro word_eq_near [of init]) (auto simp: holds_term_def)
    then have c: "n = c" using x(2) n(1) by simp
    have "lm_term_tail_counters (meta (rotator_moves i s)) = ?t[?q := push_bit 32 (scast (init + word_of_nat (c + 1)))]"
      using Rotate_cas True idx n c by (simp add: rotator_moves_def aeron_logbuffer_cas_raw_tail_def ac_simps)
    then show ?thesis
      using raw True c p inv(1) by (cases "p = ?q") (simp_all add: tail_moves_def in_step_def)
  qed (use Rotate_cas idx in \<open>simp add: rotator_moves_def aeron_logbuffer_cas_raw_tail_def Let_def\<close>)
qed (simp_all add: rotator_moves_def aeron_logbuffer_cas_active_term_count_def Let_def)

lemma step_tails:
  assumes "log_step init s s'" and inv: "in_step init (meta s) c" "\<And>j. rotating init (meta s) c (rotators s j)"
    and bound: "c + 1 < 2 ^ 31" and p: "p < 3"
  shows "tail_moves init c (lm_term_tail_counters (meta s) ! p) (lm_term_tail_counters (meta s') ! p)"
  using assms(1)
proof (cases rule: log_step.cases)
  case (rotate i)
  then show ?thesis using rotator_tails [OF inv(1) inv(2) bound p] by simp
next
  case (append q n)
  then show ?thesis
    using p inv(1) term_id_of_append [OF append(3)] offset_of_append [OF append(3)]
    by (cases "p = q") (simp_all add: tail_moves_def in_step_def)
qed simp

section \<open>The contract\<close>

text \<open>
  C15. Under every interleaving of any number of threads that rotate the log or append to it, each term is
  left by exactly one call of \<open>rotate_log\<close>, the terms one after the other: the calls that answered true
  are those for the term counts 0, 1, 2 and so on up to the active one, and the tail read for the active
  term carries the id of that term. A tail in use is never set back: whatever step comes next, every tail
  keeps its term and an offset at least as large, except the one that is two terms behind the active
  term, which may be set to the beginning of the next term (the term count is assumed not to reach the
  end of its 31 bits).
\<close>

theorem rotate_log_once:
  assumes "(log_step init)\<^sup>*\<^sup>* (log_start m) s" and "new_log init m" and "length (rotated s) + 1 < 2 ^ 31"
  defines "c \<equiv> length (rotated s)"
  shows "rotated s = map word_of_nat [0..<c] \<and> aeron_logbuffer_active_term_count (meta s) = word_of_nat c \<and>
    aeron_logbuffer_term_id (aeron_logbuffer_rawtail_volatile (meta s)) = init + word_of_nat c \<and>
    (\<forall>s' p. log_step init s s' \<and> p < 3 \<longrightarrow>
       (let t = lm_term_tail_counters (meta s) ! p; t' = lm_term_tail_counters (meta s') ! p
        in aeron_logbuffer_term_id t' = aeron_logbuffer_term_id t \<and> unat t mod 2 ^ 32 \<le> unat t' mod 2 ^ 32 \<or>
           aeron_logbuffer_term_id t = init + word_of_int (int c - 2) \<and> t' = push_bit 32 (scast (init + word_of_nat (c + 1)))))"
proof -
  obtain n where inv: "in_step init (meta s) n" "rotated s = map word_of_nat [0..<n]" "\<And>j. rotating init (meta s) n (rotators s j)"
    using log_reachable [OF assms(1-3)] by (auto simp: log_inv_def)
  then have n: "n = c" by (simp add: c_def)
  have "aeron_logbuffer_rawtail_volatile (meta s) = lm_term_tail_counters (meta s) ! (c mod 3)"
    using inv(1) n assms(3) unat_of_nat_u64 [of "c mod 3"]
    by (simp add: aeron_logbuffer_rawtail_volatile_def in_step_def sint_of_nat smod_of_nat c_def [symmetric])
  moreover have "c mod 3 < 3" by simp
  then obtain x where x: "holds_term init (meta s) (c mod 3) x" "x mod 3 = int (c mod 3)" "int c - 2 \<le> x" "x \<le> int c + 1"
    using inv(1) n unfolding in_step_def by blast
  moreover have "x = int c" using x(2-4) by presburger
  moreover have "tail_moves init c (lm_term_tail_counters (meta s) ! p) (lm_term_tail_counters (meta s') ! p)"
    if "log_step init s s'" "p < 3" for s' p
    using step_tails [OF that(1) inv(1,3) _ that(2)] assms(3) n by (simp add: c_def)
  ultimately show ?thesis
    using inv(1,2) n unfolding tail_moves_def Let_def
    by (simp add: holds_term_def aeron_logbuffer_active_term_count_def in_step_def)
qed

theorem rotate_log_once_witness:
  "\<exists>m s. (log_step 5)\<^sup>*\<^sup>* (log_start m) s \<and> rotated s = [0] \<and> meta s \<noteq> m \<and>
     aeron_logbuffer_term_id (aeron_logbuffer_rawtail_volatile (meta (s :: bool log_system))) = 6"
proof -
  let ?m = "new_metadata\<lparr>lm_term_tail_counters := [push_bit 32 5, push_bit 32 3, push_bit 32 4]\<rparr>"
  let ?start = "log_start ?m :: bool log_system"
  let ?call = "?start\<lparr>rotators := (rotators ?start)(True := Rotate_read 0 (5 + 0))\<rparr>"
  let ?s = "rotator_moves True (rotator_moves True (rotator_moves True ?call))"
  note trans = rtranclp.rtrancl_into_rtrancl
  have new: "new_log 5 ?m" by (simp add: new_log_def new_metadata_def term_id_div)
  have "(log_step 5)\<^sup>*\<^sup>* ?start ?call"
    by (rule r_into_rtranclp, rule log_step.call) (simp_all add: log_start_def aeron_logbuffer_active_term_count_def new_metadata_def)
  then have run: "(log_step 5)\<^sup>*\<^sup>* ?start ?s" by (rule trans [OF trans [OF trans]]) (rule log_step.rotate)+
  have one: "unat (aeron_logbuffer_index_by_term_count 1) = 1" using next_index [of 0] by simp
  have s: "rotated ?s = [0]" "lm_active_term_count (meta ?s) = 1"
    by (simp_all add: rotator_moves_def log_start_def new_metadata_def one term_id_div AERON_LOGBUFFER_PARTITION_COUNT_def
        aeron_logbuffer_cas_raw_tail_def aeron_logbuffer_cas_active_term_count_def)
  have len: "length (rotated ?s) + 1 < 2 ^ 31" unfolding s by simp
  have "aeron_logbuffer_term_id (aeron_logbuffer_rawtail_volatile (meta ?s)) = 5 + word_of_nat (length (rotated ?s))"
    by (rule rotate_log_once [OF run new len, THEN conjunct2, THEN conjunct2, THEN conjunct1])
  then have "aeron_logbuffer_term_id (aeron_logbuffer_rawtail_volatile (meta ?s)) = 6" unfolding s by simp
  moreover have "meta ?s \<noteq> ?m" using s(2) by (auto simp: new_metadata_def dest: arg_cong [of _ _ lm_active_term_count])
  ultimately show ?thesis using run s(1) by (intro exI [of _ ?m] exI [of _ ?s] conjI)
qed

end
