(* ===== verification/AtomicBuffer.thy ===== *)
theory AtomicBuffer
  imports LogBufferDescriptor
begin

text \<open>
  \<open>aeron-lib/include/concurrent/AtomicBuffer.h\<close>: the view of a run of bytes through which the C++ client
  reads and writes its log buffers. The model keeps the memory the view points to together with the
  length the view was given; every access is checked by the class against that length, and by the
  model against the memory, so that an access the class lets through although it is outside the
  memory is \<open>UndefinedBehaviour\<close>. Ordered, volatile and atomic variants differ in the order other threads
  see them in and not in what they do to the memory. \<open>util::index_t\<close>, a 32-bit integer, is an \<open>int\<close>.
\<close>

section \<open>Results of C++ code\<close>

text \<open>A function returns a value, throws one of the client's exceptions, or its behaviour is undefined.\<close>

datatype cpp_error = OutOfBoundsException | IllegalArgumentException | IllegalStateException | UndefinedBehaviour

type_synonym 'a cpp = "cpp_error + 'a"

definition andThen :: "'a cpp \<Rightarrow> ('a \<Rightarrow> 'b cpp) \<Rightarrow> 'b cpp" where
  "andThen r f = (case r of Inl err \<Rightarrow> Inl err | Inr x \<Rightarrow> f x)"

lemma andThen_simps [simp]: "andThen (Inl err) f = Inl err" "andThen (Inr x) f = f x"
  by (simp_all add: andThen_def)

lemma andThen_eq_Inr: "andThen r f = Inr y \<longleftrightarrow> (\<exists>x. r = Inr x \<and> f x = Inr y)"
  by (cases r) simp_all

section \<open>The class\<close>

record atomic_buffer =
  m_buffer :: "u8 list"
  m_length :: u32

abbreviation INT32_MAX :: nat where
  "INT32_MAX \<equiv> 2147483647"

definition wrap :: "u8 list \<Rightarrow> nat \<Rightarrow> atomic_buffer cpp" where
  "wrap buffer len =
     (if INT32_MAX < len then Inl OutOfBoundsException
      else Inr \<lparr>m_buffer = buffer, m_length = word_of_nat len\<rparr>)"

definition set_capacity :: "atomic_buffer \<Rightarrow> nat \<Rightarrow> atomic_buffer cpp" where
  "set_capacity b len =
     (if INT32_MAX < len then Inl OutOfBoundsException else Inr (b\<lparr>m_length := word_of_nat len\<rparr>))"

definition capacity :: "atomic_buffer \<Rightarrow> int" where
  "capacity b = sint (m_length b)"

definition boundsCheck :: "atomic_buffer \<Rightarrow> int \<Rightarrow> u64 \<Rightarrow> unit cpp" where
  "boundsCheck b index len =
     (if index < 0 \<or> ucast (m_length b) - word_of_int index < len then Inl OutOfBoundsException else Inr ())"

text \<open>The memory access after the check; the view does not own bytes outside of \<open>m_buffer\<close>.\<close>

definition load_bytes :: "atomic_buffer \<Rightarrow> int \<Rightarrow> nat \<Rightarrow> u8 list cpp" where
  "load_bytes b offset n =
     (case mem_read (m_buffer b) (nat offset) n of None \<Rightarrow> Inl UndefinedBehaviour | Some bs \<Rightarrow> Inr bs)"

definition store_bytes :: "atomic_buffer \<Rightarrow> int \<Rightarrow> u8 list \<Rightarrow> atomic_buffer cpp" where
  "store_bytes b offset bs =
     (case mem_write (m_buffer b) (nat offset) bs of
        None \<Rightarrow> Inl UndefinedBehaviour | Some bytes \<Rightarrow> Inr (b\<lparr>m_buffer := bytes\<rparr>))"

text \<open>
  Reading and writing a number of \<open>n\<close> bytes in the byte order of the host, as the typed accessors do.
\<close>

definition get_number :: "endian \<Rightarrow> nat \<Rightarrow> atomic_buffer \<Rightarrow> int \<Rightarrow> ('a::len) word cpp" where
  "get_number e n b offset =
     andThen (boundsCheck b offset (word_of_nat n)) (\<lambda>_.
     andThen (load_bytes b offset n) (\<lambda>bs. Inr (of_host_bytes e bs)))"

definition put_number :: "endian \<Rightarrow> nat \<Rightarrow> atomic_buffer \<Rightarrow> int \<Rightarrow> ('a::len) word \<Rightarrow> atomic_buffer cpp" where
  "put_number e n b offset v =
     andThen (boundsCheck b offset (word_of_nat n)) (\<lambda>_. store_bytes b offset (host_bytes e n v))"

definition putInt64 :: "endian \<Rightarrow> atomic_buffer \<Rightarrow> int \<Rightarrow> s64 \<Rightarrow> atomic_buffer cpp" where
  "putInt64 e = put_number e 8"

definition getInt64 :: "endian \<Rightarrow> atomic_buffer \<Rightarrow> int \<Rightarrow> s64 cpp" where
  "getInt64 e = get_number e 8"

definition putInt32 :: "endian \<Rightarrow> atomic_buffer \<Rightarrow> int \<Rightarrow> s32 \<Rightarrow> atomic_buffer cpp" where
  "putInt32 e = put_number e 4"

definition getInt32 :: "endian \<Rightarrow> atomic_buffer \<Rightarrow> int \<Rightarrow> s32 cpp" where
  "getInt32 e = get_number e 4"

definition getInt16 :: "endian \<Rightarrow> atomic_buffer \<Rightarrow> int \<Rightarrow> 16 word cpp" where
  "getInt16 e = get_number e 2"

definition putInt16 :: "endian \<Rightarrow> atomic_buffer \<Rightarrow> int \<Rightarrow> 16 word \<Rightarrow> atomic_buffer cpp" where
  "putInt16 e = put_number e 2"

definition getUInt16 :: "endian \<Rightarrow> atomic_buffer \<Rightarrow> int \<Rightarrow> 16 word cpp" where
  "getUInt16 e = get_number e 2"

definition putUInt16 :: "endian \<Rightarrow> atomic_buffer \<Rightarrow> int \<Rightarrow> 16 word \<Rightarrow> atomic_buffer cpp" where
  "putUInt16 e = put_number e 2"

definition getUInt8 :: "endian \<Rightarrow> atomic_buffer \<Rightarrow> int \<Rightarrow> u8 cpp" where
  "getUInt8 e = get_number e 1"

definition putUInt8 :: "endian \<Rightarrow> atomic_buffer \<Rightarrow> int \<Rightarrow> u8 \<Rightarrow> atomic_buffer cpp" where
  "putUInt8 e = put_number e 1"

definition putInt64Ordered :: "endian \<Rightarrow> atomic_buffer \<Rightarrow> int \<Rightarrow> s64 \<Rightarrow> atomic_buffer cpp" where
  "putInt64Ordered e = put_number e 8"

definition getInt64Volatile :: "endian \<Rightarrow> atomic_buffer \<Rightarrow> int \<Rightarrow> s64 cpp" where
  "getInt64Volatile e = get_number e 8"

definition putInt32Ordered :: "endian \<Rightarrow> atomic_buffer \<Rightarrow> int \<Rightarrow> s32 \<Rightarrow> atomic_buffer cpp" where
  "putInt32Ordered e = put_number e 4"

definition getInt32Volatile :: "endian \<Rightarrow> atomic_buffer \<Rightarrow> int \<Rightarrow> s32 cpp" where
  "getInt32Volatile e = get_number e 4"

definition putInt64Atomic :: "endian \<Rightarrow> atomic_buffer \<Rightarrow> int \<Rightarrow> s64 \<Rightarrow> atomic_buffer cpp" where
  "putInt64Atomic e = put_number e 8"

definition putInt32Atomic :: "endian \<Rightarrow> atomic_buffer \<Rightarrow> int \<Rightarrow> s32 \<Rightarrow> atomic_buffer cpp" where
  "putInt32Atomic e = put_number e 4"

definition addInt64Ordered :: "endian \<Rightarrow> atomic_buffer \<Rightarrow> int \<Rightarrow> s64 \<Rightarrow> atomic_buffer cpp" where
  "addInt64Ordered e b offset delta =
     andThen (getInt64 e b offset) (\<lambda>value. putInt64Ordered e b offset (value + delta))"

definition addInt32Ordered :: "endian \<Rightarrow> atomic_buffer \<Rightarrow> int \<Rightarrow> s32 \<Rightarrow> atomic_buffer cpp" where
  "addInt32Ordered e b offset delta =
     andThen (getInt32 e b offset) (\<lambda>value. putInt32Ordered e b offset (value + delta))"

definition compareAndSetInt64 :: "endian \<Rightarrow> atomic_buffer \<Rightarrow> int \<Rightarrow> s64 \<Rightarrow> s64 \<Rightarrow> (atomic_buffer \<times> bool) cpp" where
  "compareAndSetInt64 e b offset expectedValue updateValue =
     andThen (getInt64Volatile e b offset) (\<lambda>original.
       if original = expectedValue
       then andThen (putInt64Atomic e b offset updateValue) (\<lambda>b'. Inr (b', True))
       else Inr (b, False))"

definition compareAndSetInt32 :: "endian \<Rightarrow> atomic_buffer \<Rightarrow> int \<Rightarrow> s32 \<Rightarrow> s32 \<Rightarrow> (atomic_buffer \<times> bool) cpp" where
  "compareAndSetInt32 e b offset expectedValue updateValue =
     andThen (getInt32Volatile e b offset) (\<lambda>original.
       if original = expectedValue
       then andThen (putInt32Atomic e b offset updateValue) (\<lambda>b'. Inr (b', True))
       else Inr (b, False))"

definition getAndSetInt64 :: "endian \<Rightarrow> atomic_buffer \<Rightarrow> int \<Rightarrow> s64 \<Rightarrow> (atomic_buffer \<times> s64) cpp" where
  "getAndSetInt64 e b offset value =
     andThen (getInt64Volatile e b offset) (\<lambda>original.
     andThen (putInt64Atomic e b offset value) (\<lambda>b'. Inr (b', original)))"

definition getAndSetInt32 :: "endian \<Rightarrow> atomic_buffer \<Rightarrow> int \<Rightarrow> s32 \<Rightarrow> (atomic_buffer \<times> s32) cpp" where
  "getAndSetInt32 e b offset value =
     andThen (getInt32Volatile e b offset) (\<lambda>original.
     andThen (putInt32Atomic e b offset value) (\<lambda>b'. Inr (b', original)))"

definition getAndAddInt64 :: "endian \<Rightarrow> atomic_buffer \<Rightarrow> int \<Rightarrow> s64 \<Rightarrow> (atomic_buffer \<times> s64) cpp" where
  "getAndAddInt64 e b offset delta =
     andThen (getInt64Volatile e b offset) (\<lambda>original.
     andThen (putInt64Atomic e b offset (original + delta)) (\<lambda>b'. Inr (b', original)))"

definition getAndAddInt32 :: "endian \<Rightarrow> atomic_buffer \<Rightarrow> int \<Rightarrow> s32 \<Rightarrow> (atomic_buffer \<times> s32) cpp" where
  "getAndAddInt32 e b offset delta =
     andThen (getInt32Volatile e b offset) (\<lambda>original.
     andThen (putInt32Atomic e b offset (original + delta)) (\<lambda>b'. Inr (b', original)))"

text \<open>Blocks of bytes; \<open>length\<close> is an \<open>index_t\<close> that the check widens to an unsigned 64-bit number.\<close>

definition putBytes :: "atomic_buffer \<Rightarrow> int \<Rightarrow> atomic_buffer \<Rightarrow> int \<Rightarrow> int \<Rightarrow> atomic_buffer cpp" where
  "putBytes b index srcBuffer srcIndex len =
     andThen (boundsCheck b index (word_of_int len)) (\<lambda>_.
     andThen (boundsCheck srcBuffer srcIndex (word_of_int len)) (\<lambda>_.
     andThen (load_bytes srcBuffer srcIndex (nat len)) (store_bytes b index)))"

definition getBytes :: "atomic_buffer \<Rightarrow> int \<Rightarrow> int \<Rightarrow> u8 list cpp" where
  "getBytes b index len =
     andThen (boundsCheck b index (word_of_int len)) (\<lambda>_. load_bytes b index (nat len))"

definition setMemory :: "atomic_buffer \<Rightarrow> int \<Rightarrow> nat \<Rightarrow> u8 \<Rightarrow> atomic_buffer cpp" where
  "setMemory b offset len value =
     andThen (boundsCheck b offset (word_of_nat len)) (\<lambda>_. store_bytes b offset (replicate len value))"

text \<open>Strings with and without a length in front; \<open>static_cast<std::size_t>\<close> sign-extends the length.\<close>

definition getStringWithoutLength :: "atomic_buffer \<Rightarrow> int \<Rightarrow> u64 \<Rightarrow> u8 list cpp" where
  "getStringWithoutLength b offset len =
     andThen (boundsCheck b offset len) (\<lambda>_. load_bytes b offset (unat len))"

definition getString :: "endian \<Rightarrow> atomic_buffer \<Rightarrow> int \<Rightarrow> u8 list cpp" where
  "getString e b offset =
     andThen (getInt32 e b offset) (\<lambda>len. getStringWithoutLength b (offset + 4) (scast len))"

definition getStringLength :: "endian \<Rightarrow> atomic_buffer \<Rightarrow> int \<Rightarrow> s32 cpp" where
  "getStringLength e b offset = getInt32 e b offset"

definition putString :: "endian \<Rightarrow> atomic_buffer \<Rightarrow> int \<Rightarrow> u8 list \<Rightarrow> (atomic_buffer \<times> s32) cpp" where
  "putString e b offset value =
     (let len = word_of_nat (length value) :: s32
      in andThen (boundsCheck b offset (word_of_nat (length value) + 4)) (\<lambda>_.
         andThen (store_bytes b offset (host_bytes e 4 len)) (\<lambda>b.
         andThen (store_bytes b (offset + 4) value) (\<lambda>b. Inr (b, 4 + len)))))"

definition putStringWithoutLength :: "atomic_buffer \<Rightarrow> int \<Rightarrow> u8 list \<Rightarrow> (atomic_buffer \<times> s32) cpp" where
  "putStringWithoutLength b offset value =
     andThen (boundsCheck b offset (word_of_nat (length value))) (\<lambda>_.
     andThen (store_bytes b offset value) (\<lambda>b. Inr (b, word_of_nat (length value))))"

section \<open>Accesses inside the memory\<close>

text \<open>A view whose length is the length of its memory.\<close>

definition sound :: "atomic_buffer \<Rightarrow> bool" where
  "sound b \<longleftrightarrow> length (m_buffer b) = unat (m_length b) \<and> unat (m_length b) \<le> INT32_MAX"

definition patch :: "u8 list \<Rightarrow> nat \<Rightarrow> u8 list \<Rightarrow> u8 list" where
  "patch buf off bs = take off buf @ bs @ drop (off + length bs) buf"

lemma length_patch [simp]: "off + length bs \<le> length buf \<Longrightarrow> length (patch buf off bs) = length buf"
  by (simp add: patch_def)

lemma sound_wrap: "wrap bs (length bs) = Inr b \<Longrightarrow> sound b"
  by (auto simp: wrap_def sound_def unsigned_of_nat take_bit_nat_eq_self split: if_splits)

lemma capacity_sound: "sound b \<Longrightarrow> capacity b = int (length (m_buffer b))"
  using sint_of_nat (1) [of "unat (m_length b)"] by (simp add: capacity_def sound_def)

lemma uint_length_sound: "sound b \<Longrightarrow> uint (m_length b) = int (length (m_buffer b))"
  by (simp add: sound_def)

lemma boundsCheck_sound:
  assumes "sound b" and "0 \<le> index" and "index \<le> int (length (m_buffer b))" and "n < 2 ^ 64"
  shows "boundsCheck b index (word_of_nat n) =
    (if nat index + n \<le> length (m_buffer b) then Inr () else Inl OutOfBoundsException)"
proof -
  have len: "length (m_buffer b) \<le> 2147483647" using assms(1) by (simp add: sound_def)
  have "ucast (m_length b) - word_of_int index = (word_of_int (int (length (m_buffer b)) - index) :: u64)"
    by (simp only: ucast_eq wi_hom_sub uint_length_sound [OF assms(1)])
  moreover have "\<dots> = word_of_nat (length (m_buffer b) - nat index)"
    using assms(2,3) by (simp add: of_nat_diff)
  ultimately have "ucast (m_length b) - word_of_int index < (word_of_nat n :: u64) \<longleftrightarrow>
      length (m_buffer b) - nat index < n"
    using len assms(4) by (simp add: word_less_nat_alt unat_of_nat_u64)
  then show ?thesis using assms(2,3) by (auto simp: boundsCheck_def)
qed

text \<open>Patches beside each other, inside each other, and what they leave alone.\<close>

lemma patch_inside:
  "off + length (a @ b @ c) \<le> length buf \<Longrightarrow> length b' = length b \<Longrightarrow>
   patch (patch buf off (a @ b @ c)) (off + length a) b' = patch buf off (a @ b' @ c)"
  by (simp add: patch_def)

lemma patch_same: "off \<le> length buf \<Longrightarrow> patch buf off (take n (drop off buf)) = buf"
proof -
  assume "off \<le> length buf"
  then have "drop (off + length (take n (drop off buf))) buf = drop n (drop off buf)"
    by (cases "n \<le> length buf - off") (simp_all add: add.commute)
  then show ?thesis by (simp only: patch_def append_take_drop_id)
qed

lemma patch_within:
  "off + length bs \<le> length buf \<Longrightarrow> take (length bs) (drop off (patch buf off bs)) = bs"
  by (simp add: patch_def)

lemma patch_before: "k + n \<le> off \<Longrightarrow> off \<le> length buf \<Longrightarrow> take n (drop k (patch buf off bs)) = take n (drop k buf)"
  by (simp add: patch_def drop_take min.absorb1 min.absorb2)

lemma patch_after: "off + length bs \<le> k \<Longrightarrow> off + length bs \<le> length buf \<Longrightarrow> drop k (patch buf off bs) = drop k buf"
  by (simp add: patch_def)

lemma sound_patch: "sound b \<Longrightarrow> off + length bs \<le> length (m_buffer b) \<Longrightarrow> sound (b\<lparr>m_buffer := patch (m_buffer b) off bs\<rparr>)"
  by (simp add: sound_def)

lemma nat_int_numeral [simp]: "nat (int k + numeral m) = k + numeral m" "nat (int k + 1) = Suc k"
  by (simp_all add: nat_add_distrib)

named_theorems abuf \<open>accesses of an atomic buffer inside its memory\<close>

lemma boundsCheck_inside [abuf]:
  "sound b \<Longrightarrow> 0 \<le> off \<Longrightarrow> nat off + n \<le> length (m_buffer b) \<Longrightarrow> boundsCheck b off (word_of_nat n) = Inr ()"
proof -
  assume b: "sound b" "0 \<le> off" "nat off + n \<le> length (m_buffer b)"
  have "n \<le> INT32_MAX" using b by (simp add: sound_def)
  then show ?thesis using b by (subst boundsCheck_sound) auto
qed

lemma boundsCheck_outside:
  "sound b \<Longrightarrow> 0 \<le> off \<Longrightarrow> nat off \<le> length (m_buffer b) \<Longrightarrow> length (m_buffer b) < nat off + n \<Longrightarrow> n < 2 ^ 64 \<Longrightarrow>
   boundsCheck b off (word_of_nat n) = Inl OutOfBoundsException"
  by (subst boundsCheck_sound) auto

lemma load_inside [abuf]:
  "nat off + n \<le> length (m_buffer b) \<Longrightarrow> load_bytes b off n = Inr (take n (drop (nat off) (m_buffer b)))"
  by (simp add: load_bytes_def mem_read_def)

lemma store_inside [abuf]:
  "nat off + length bs \<le> length (m_buffer b) \<Longrightarrow>
   store_bytes b off bs = Inr (b\<lparr>m_buffer := patch (m_buffer b) (nat off) bs\<rparr>)"
  by (simp add: store_bytes_def mem_write_def patch_def)

lemma get_number_inside [abuf]:
  "sound b \<Longrightarrow> 0 \<le> off \<Longrightarrow> nat off + n \<le> length (m_buffer b) \<Longrightarrow>
   get_number e n b off = Inr (of_host_bytes e (take n (drop (nat off) (m_buffer b))))"
  by (simp add: get_number_def abuf)

lemma put_number_inside [abuf]:
  "sound b \<Longrightarrow> 0 \<le> off \<Longrightarrow> nat off + n \<le> length (m_buffer b) \<Longrightarrow>
   put_number e n b off v = Inr (b\<lparr>m_buffer := patch (m_buffer b) (nat off) (host_bytes e n v)\<rparr>)"
  by (simp add: put_number_def abuf)

lemma put_number_outside:
  "sound b \<Longrightarrow> 0 \<le> off \<Longrightarrow> nat off \<le> length (m_buffer b) \<Longrightarrow> length (m_buffer b) < nat off + n \<Longrightarrow> n < 2 ^ 64 \<Longrightarrow>
   put_number e n b off v = Inl OutOfBoundsException"
  by (simp add: put_number_def boundsCheck_outside)

lemma get_number_outside:
  "sound b \<Longrightarrow> 0 \<le> off \<Longrightarrow> nat off \<le> length (m_buffer b) \<Longrightarrow> length (m_buffer b) < nat off + n \<Longrightarrow> n < 2 ^ 64 \<Longrightarrow>
   get_number e n b off = Inl OutOfBoundsException"
  by (simp add: get_number_def boundsCheck_outside)

lemma getBytes_inside [abuf]:
  "sound b \<Longrightarrow> 0 \<le> off \<Longrightarrow> 0 \<le> n \<Longrightarrow> nat off + nat n \<le> length (m_buffer b) \<Longrightarrow>
   getBytes b off n = Inr (take (nat n) (drop (nat off) (m_buffer b)))"
  using boundsCheck_inside [of b off "nat n"] by (simp add: getBytes_def abuf)

lemma putBytes_inside [abuf]:
  assumes "sound b" "0 \<le> off" "0 \<le> n" "nat off + nat n \<le> length (m_buffer b)"
    "sound src" "0 \<le> k" "nat k + nat n \<le> length (m_buffer src)"
  shows "putBytes b off src k n =
    Inr (b\<lparr>m_buffer := patch (m_buffer b) (nat off) (take (nat n) (drop (nat k) (m_buffer src)))\<rparr>)"
  using boundsCheck_inside [OF assms(1,2,4)] boundsCheck_inside [OF assms(5-7)] assms
  by (simp add: putBytes_def abuf)

lemma host_bytes_zero: "host_bytes e n (0 :: 'a::len word) = replicate n 0"
proof -
  have "le_encode n (0 :: 'a word) = replicate n 0" by (induction n) simp_all
  then show ?thesis by (cases e) (simp_all add: host_bytes_def)
qed

lemma of_host_zero: "of_host_bytes e (replicate n 0) = (0 :: 'a::len word)"
proof -
  have "le_decode (replicate n 0) = (0 :: 'a word)" by (induction n) simp_all
  then show ?thesis by (cases e) (simp_all add: of_host_bytes_def)
qed

text \<open>A message as a run of bytes of a buffer.\<close>

definition feeds_from :: "atomic_buffer \<Rightarrow> int \<Rightarrow> u8 list \<Rightarrow> bool" where
  "feeds_from src from msg \<longleftrightarrow> sound src \<and> 0 \<le> from \<and> nat from + length msg \<le> length (m_buffer src) \<and>
     msg = take (length msg) (drop (nat from) (m_buffer src))"

section \<open>The typed accessors\<close>

text \<open>
  What a pair of accessors of one type promises: a number takes \<open>width\<close> bytes; an access at an offset
  in the buffer succeeds when all of them are inside and is refused otherwise; reading gives back
  what was written, and the rest of the memory stays as it was.
\<close>

definition wrote ::
  "nat \<Rightarrow> (atomic_buffer \<Rightarrow> int \<Rightarrow> 'v cpp) \<Rightarrow> atomic_buffer \<Rightarrow> int \<Rightarrow> 'v \<Rightarrow> atomic_buffer cpp \<Rightarrow> bool" where
  "wrote width get b off v r \<longleftrightarrow>
     (if off + int width \<le> capacity b
      then \<exists>b'. r = Inr b' \<and> sound b' \<and> capacity b' = capacity b \<and> get b' off = Inr v \<and>
        (\<forall>k n. 0 \<le> k \<and> 0 \<le> n \<and> k + n \<le> capacity b \<and> (k + n \<le> off \<or> off + int width \<le> k) \<longrightarrow>
          getBytes b' k n = getBytes b k n)
      else r = Inl OutOfBoundsException)"

text \<open>What reading the same place first gives.\<close>

definition readable_inside :: "nat \<Rightarrow> (atomic_buffer \<Rightarrow> int \<Rightarrow> 'v cpp) \<Rightarrow> (u8 list \<Rightarrow> 'v) \<Rightarrow> atomic_buffer \<Rightarrow> int \<Rightarrow> bool" where
  "readable_inside width get of_bytes b off \<longleftrightarrow>
     get b off = (if off + int width \<le> capacity b
       then Inr (of_bytes (take width (drop (nat off) (m_buffer b)))) else Inl OutOfBoundsException)"

locale buffer_field =
  fixes width :: nat
    and get :: "atomic_buffer \<Rightarrow> int \<Rightarrow> 'v cpp"
    and put :: "atomic_buffer \<Rightarrow> int \<Rightarrow> 'v \<Rightarrow> atomic_buffer cpp"
    and bytes_of :: "'v \<Rightarrow> u8 list"
    and of_bytes :: "u8 list \<Rightarrow> 'v"
  assumes get_inside: "sound b \<Longrightarrow> 0 \<le> off \<Longrightarrow> nat off + width \<le> length (m_buffer b) \<Longrightarrow>
      get b off = Inr (of_bytes (take width (drop (nat off) (m_buffer b))))"
    and put_inside: "sound b \<Longrightarrow> 0 \<le> off \<Longrightarrow> nat off + width \<le> length (m_buffer b) \<Longrightarrow>
      put b off v = Inr (b\<lparr>m_buffer := patch (m_buffer b) (nat off) (bytes_of v)\<rparr>)"
    and put_outside: "sound b \<Longrightarrow> 0 \<le> off \<Longrightarrow> nat off \<le> length (m_buffer b) \<Longrightarrow> length (m_buffer b) < nat off + width \<Longrightarrow>
      put b off v = Inl OutOfBoundsException"
    and get_outside: "sound b \<Longrightarrow> 0 \<le> off \<Longrightarrow> nat off \<le> length (m_buffer b) \<Longrightarrow> length (m_buffer b) < nat off + width \<Longrightarrow>
      get b off = Inl OutOfBoundsException"
    and of_bytes_of: "of_bytes (bytes_of v) = v"
    and length_bytes_of: "length (bytes_of v) = width"
begin

lemma put_inside_iff:
  "sound b \<Longrightarrow> 0 \<le> off \<Longrightarrow> off \<le> capacity b \<Longrightarrow>
   put b off v = (if off + int width \<le> capacity b
     then Inr (b\<lparr>m_buffer := patch (m_buffer b) (nat off) (bytes_of v)\<rparr>) else Inl OutOfBoundsException)"
  using put_inside [of b off v] put_outside [of b off v] by (auto simp: capacity_sound)

text \<open>What a write leaves behind.\<close>

lemma put_wrote:
  assumes b: "sound b" "0 \<le> off" "off \<le> capacity b"
  shows "wrote width get b off v (put b off v)"
proof (cases "off + int width \<le> capacity b")
  case True
  define b' where "b' = b\<lparr>m_buffer := patch (m_buffer b) (nat off) (bytes_of v)\<rparr>"
  have inside: "nat off + width \<le> length (m_buffer b)" using b True by (simp add: capacity_sound)
  then have len: "length (m_buffer b') = length (m_buffer b)" by (simp add: b'_def length_bytes_of)
  have s: "sound b'" using sound_patch [of b "nat off" "bytes_of v"] b(1) inside by (simp add: b'_def length_bytes_of)
  have "get b' off = Inr v"
    using get_inside [OF s b(2)] inside len patch_within [of "nat off" "bytes_of v" "m_buffer b"]
    by (simp add: length_bytes_of of_bytes_of) (simp add: b'_def length_bytes_of of_bytes_of)
  moreover have "getBytes b' k n = getBytes b k n"
    if "0 \<le> k" "0 \<le> n" "k + n \<le> capacity b" "k + n \<le> off \<or> off + int width \<le> k" for k n
  proof -
    have kn: "nat k + nat n \<le> length (m_buffer b)" using that b(1) by (simp add: capacity_sound)
    have "take (nat n) (drop (nat k) (m_buffer b')) = take (nat n) (drop (nat k) (m_buffer b))"
      using that(4) patch_before [of "nat k" "nat n" "nat off" "m_buffer b" "bytes_of v"]
        patch_after [of "nat off" "bytes_of v" "nat k" "m_buffer b"] inside that b(2)
      by (auto simp: b'_def length_bytes_of)
    then show ?thesis using that(1,2) kn len s b(1) by (simp add: getBytes_inside)
  qed
  moreover have "put b off v = Inr b'" using put_inside_iff [OF b] True by (simp add: b'_def)
  ultimately show ?thesis using True s len b(1) by (simp add: wrote_def capacity_sound)
next
  case False
  then show ?thesis using put_inside_iff [OF b] by (simp add: wrote_def)
qed

text \<open>A read at an offset in the buffer.\<close>

lemma get_readable: "sound b \<Longrightarrow> 0 \<le> off \<Longrightarrow> off \<le> capacity b \<Longrightarrow> readable_inside width get of_bytes b off"
  using get_inside [of b off] get_outside [of b off] by (auto simp: readable_inside_def capacity_sound)

lemma get_total: "sound b \<Longrightarrow> 0 \<le> off \<Longrightarrow> off + int width \<le> capacity b \<Longrightarrow> \<exists>v. get b off = Inr v"
  using get_inside [of b off] by (simp add: capacity_sound)

end

lemmas number_access = abuf get_number_outside put_number_outside of_host_bytes

interpretation int64: buffer_field 8 "getInt64 e" "putInt64 e" "host_bytes e 8" "of_host_bytes e" for e
  by unfold_locales (simp_all add: getInt64_def putInt64_def number_access)

interpretation int32: buffer_field 4 "getInt32 e" "putInt32 e" "host_bytes e 4" "of_host_bytes e" for e
  by unfold_locales (simp_all add: getInt32_def putInt32_def number_access)

interpretation int16: buffer_field 2 "getInt16 e" "putInt16 e" "host_bytes e 2" "of_host_bytes e" for e
  by unfold_locales (simp_all add: getInt16_def putInt16_def number_access)

interpretation uint16: buffer_field 2 "getUInt16 e" "putUInt16 e" "host_bytes e 2" "of_host_bytes e" for e
  by unfold_locales (simp_all add: getUInt16_def putUInt16_def number_access)

interpretation uint8: buffer_field 1 "getUInt8 e" "putUInt8 e" "host_bytes e 1" "of_host_bytes e" for e
  by unfold_locales (simp_all add: getUInt8_def putUInt8_def number_access)

lemma ordered_access:
  "putInt64Ordered = putInt64" "putInt64Atomic = putInt64" "getInt64Volatile = getInt64"
  "putInt32Ordered = putInt32" "putInt32Atomic = putInt32" "getInt32Volatile = getInt32"
  by (simp_all add: fun_eq_iff putInt64Ordered_def putInt64Atomic_def getInt64Volatile_def
      putInt32Ordered_def putInt32Atomic_def getInt32Volatile_def putInt64_def getInt64_def putInt32_def getInt32_def)

lemma getBytes_outside:
  "sound b \<Longrightarrow> 0 \<le> off \<Longrightarrow> off \<le> capacity b \<Longrightarrow> 0 \<le> n \<Longrightarrow> n < 2 ^ 31 \<Longrightarrow> capacity b < off + n \<Longrightarrow>
   getBytes b off n = Inl OutOfBoundsException"
  using boundsCheck_outside [of b off "nat n"] by (simp add: getBytes_def capacity_sound)

text \<open>
  C32. Through a view of its own memory, an access that begins in the buffer and reaches out of it throws and
  leaves the memory as it was: every typed read and write, the reads of a block of bytes and the
  operations that read and write at once. A typed read that fits gives the number of the bytes there; a
  typed write that fits is read back and changes no other byte; adding and comparing with an exchange read
  the old number and write the new one.
\<close>

theorem atomic_buffer_access:
  assumes "sound b" and "0 \<le> off" and "off \<le> capacity b"
  shows "wrote 8 (getInt64 e) b off v (putInt64 e b off v) \<and> readable_inside 8 (getInt64 e) (of_host_bytes e) b off \<and>
    wrote 4 (getInt32 e) b off w (putInt32 e b off w) \<and> readable_inside 4 (getInt32 e) (of_host_bytes e) b off \<and>
    wrote 2 (getInt16 e) b off h (putInt16 e b off h) \<and> readable_inside 2 (getInt16 e) (of_host_bytes e) b off \<and>
    wrote 2 (getUInt16 e) b off h (putUInt16 e b off h) \<and> readable_inside 2 (getUInt16 e) (of_host_bytes e) b off \<and>
    wrote 1 (getUInt8 e) b off c (putUInt8 e b off c) \<and> readable_inside 1 (getUInt8 e) (of_host_bytes e) b off \<and>
    (0 \<le> n \<and> n < 2 ^ 31 \<longrightarrow> getBytes b off n =
      (if off + n \<le> capacity b then Inr (take (nat n) (drop (nat off) (m_buffer b))) else Inl OutOfBoundsException)) \<and>
    (if off + 8 \<le> capacity b
     then \<exists>x b'. getInt64 e b off = Inr x \<and> getAndAddInt64 e b off v = Inr (b', x) \<and> wrote 8 (getInt64 e) b off (x + v) (Inr b')
     else getAndAddInt64 e b off v = Inl OutOfBoundsException) \<and>
    (if off + 4 \<le> capacity b
     then \<exists>x b'. getInt32 e b off = Inr x \<and> compareAndSetInt32 e b off w w' = Inr (b', x = w) \<and>
       (if x = w then wrote 4 (getInt32 e) b off w' (Inr b') else b' = b)
     else compareAndSetInt32 e b off w w' = Inl OutOfBoundsException)"
proof (intro conjI impI)
  note r8 = int64.get_readable [OF assms, of e] and r4 = int32.get_readable [OF assms, of e]
  show "if off + 8 \<le> capacity b
    then \<exists>x b'. getInt64 e b off = Inr x \<and> getAndAddInt64 e b off v = Inr (b', x) \<and> wrote 8 (getInt64 e) b off (x + v) (Inr b')
    else getAndAddInt64 e b off v = Inl OutOfBoundsException"
  proof (cases "off + 8 \<le> capacity b")
    case True
    then obtain x where x: "getInt64 e b off = Inr x" using r8 by (simp add: readable_inside_def)
    have w: "wrote 8 (getInt64 e) b off (x + v) (putInt64 e b off (x + v))" using assms by (rule int64.put_wrote)
    then obtain b' where "putInt64 e b off (x + v) = Inr b'" using True by (auto simp: wrote_def)
    then show ?thesis using x w True by (simp add: getAndAddInt64_def ordered_access)
  qed (use r8 in \<open>simp add: readable_inside_def getAndAddInt64_def ordered_access\<close>)
  show "if off + 4 \<le> capacity b
    then \<exists>x b'. getInt32 e b off = Inr x \<and> compareAndSetInt32 e b off w w' = Inr (b', x = w) \<and>
      (if x = w then wrote 4 (getInt32 e) b off w' (Inr b') else b' = b)
    else compareAndSetInt32 e b off w w' = Inl OutOfBoundsException"
  proof (cases "off + 4 \<le> capacity b")
    case True
    then obtain x where x: "getInt32 e b off = Inr x" using r4 by (simp add: readable_inside_def)
    have w: "wrote 4 (getInt32 e) b off w' (putInt32 e b off w')" using assms by (rule int32.put_wrote)
    then obtain b' where "putInt32 e b off w' = Inr b'" using True by (auto simp: wrote_def)
    then show ?thesis using x w True by (simp add: compareAndSetInt32_def ordered_access)
  qed (use r4 in \<open>simp add: readable_inside_def compareAndSetInt32_def ordered_access\<close>)
  show "getBytes b off n =
      (if off + n \<le> capacity b then Inr (take (nat n) (drop (nat off) (m_buffer b))) else Inl OutOfBoundsException)"
    if "0 \<le> n \<and> n < 2 ^ 31"
    using that assms getBytes_outside [OF assms, of n] getBytes_inside [of b off n] by (auto simp: capacity_sound)
qed (rule int64.put_wrote [OF assms] int32.put_wrote [OF assms] int16.put_wrote [OF assms] uint16.put_wrote [OF assms]
    uint8.put_wrote [OF assms] int64.get_readable [OF assms] int32.get_readable [OF assms] int16.get_readable [OF assms]
    uint16.get_readable [OF assms] uint8.get_readable [OF assms])+

text \<open>
  C40. The check subtracts without a borrow: at an offset past the end of the buffer the difference wraps
  to a huge unsigned number, so no offset above the capacity is ever refused, and the access behind
  the check is outside the memory.
\<close>

theorem offset_past_end_not_refused:
  assumes "sound b" and "capacity b < off" and "off \<le> int INT32_MAX" and "n \<le> 2 ^ 32"
  shows "boundsCheck b off (word_of_nat n) = Inr () \<and>
    getInt64 e b off = Inl UndefinedBehaviour \<and> putInt64 e b off v = Inl UndefinedBehaviour"
proof -
  have gap: "boundsCheck b off (word_of_nat n) = Inr ()" if n: "n \<le> 2 ^ 32" for n
  proof -
    let ?d = "int (length (m_buffer b)) - off"
    have "- (2 ^ 31) \<le> ?d" "?d < 0" "0 \<le> off" using assms(2,3) by (simp_all add: capacity_sound assms(1))
    then have "uint (word_of_int ?d :: u64) = ?d + 2 ^ 64"
      using mod_pos_pos_trivial [of "?d + 2 ^ 64" "2 ^ 64"] by (subst uint_word_of_int) simp
    moreover have "ucast (m_length b) - word_of_int off = (word_of_int ?d :: u64)"
      by (simp only: ucast_eq wi_hom_sub uint_length_sound [OF assms(1)])
    moreover have "uint (word_of_nat n :: u64) = int n"
      using n le_less_trans [OF n, of "2 ^ 64"] by (simp add: unsigned_of_nat take_bit_nat_eq_self)
    ultimately have "\<not> ucast (m_length b) - word_of_int off < (word_of_nat n :: u64)"
      using n \<open>- (2 ^ 31) \<le> ?d\<close> by (simp add: word_less_def)
    then show ?thesis using \<open>0 \<le> off\<close> by (simp add: boundsCheck_def)
  qed
  have "length (m_buffer b) < nat off" using assms(1,2) by (simp add: capacity_sound)
  then show ?thesis
    using gap [of n] gap [of 8] assms(4)
    by (simp add: getInt64_def putInt64_def get_number_def put_number_def load_bytes_def store_bytes_def
        mem_read_def mem_write_def)
qed

definition eight_bytes :: atomic_buffer where
  "eight_bytes = \<lparr>m_buffer = replicate 8 0, m_length = 8\<rparr>"

lemma sound_eight_bytes: "sound eight_bytes" "capacity eight_bytes = 8"
  by (simp_all add: sound_def eight_bytes_def capacity_def)

theorem atomic_buffer_access_witness:
  "\<exists>x b'. getInt64 Big eight_bytes 0 = Inr x \<and> getAndAddInt64 Big eight_bytes 0 5 = Inr (b', x) \<and>
     getInt64 Big b' 0 = Inr (x + 5)"
proof -
  obtain x b' where "getInt64 Big eight_bytes 0 = Inr x" "getAndAddInt64 Big eight_bytes 0 5 = Inr (b', x)"
    "wrote 8 (getInt64 Big) eight_bytes 0 (x + 5) (Inr b')"
    using atomic_buffer_access [of eight_bytes 0 Big 5 0 0 0 0 0] by (auto simp: sound_eight_bytes)
  then show ?thesis by (auto simp: wrote_def sound_eight_bytes)
qed

theorem offset_past_end_not_refused_witness:
  "getInt64 Little eight_bytes 16 = Inl UndefinedBehaviour \<and> boundsCheck eight_bytes 16 (word_of_nat 8) = Inr ()"
  using offset_past_end_not_refused [of eight_bytes 16 8 Little] by (simp add: sound_eight_bytes)

end
