(* ===== verification/FrameDescriptor.thy ===== *)
theory FrameDescriptor
  imports AtomicBuffer
begin

text \<open>
  The frames of a log buffer as the C++ client writes them: \<open>align\<close> of \<open>util/BitUtil.h\<close>, and
  \<open>DataFrameHeader.h\<close>, \<open>FrameDescriptor.h\<close>, \<open>HeaderWriter.h\<close> and \<open>BufferClaim.h\<close> of
  \<open>concurrent/logbuffer\<close>. The packed header structure is the record \<open>data_header\<close> of
  \<open>LogBufferDescriptor\<close>, whose bytes are \<open>data_header_bytes\<close>. The lemmas show that the sequence of
  stores which writes a frame leaves exactly the bytes of its header and payload.
\<close>

section \<open>Alignment\<close>

definition align :: "int \<Rightarrow> int \<Rightarrow> int" where
  "align value alignment = (value + (alignment - 1)) AND NOT (alignment - 1)"

section \<open>The data frame header\<close>

definition FRAME_LENGTH_FIELD_OFFSET :: int where "FRAME_LENGTH_FIELD_OFFSET = 0"
definition VERSION_FIELD_OFFSET :: int where "VERSION_FIELD_OFFSET = 4"
definition FLAGS_FIELD_OFFSET :: int where "FLAGS_FIELD_OFFSET = 5"
definition TYPE_FIELD_OFFSET :: int where "TYPE_FIELD_OFFSET = 6"
definition TERM_OFFSET_FIELD_OFFSET :: int where "TERM_OFFSET_FIELD_OFFSET = 8"
definition SESSION_ID_FIELD_OFFSET :: int where "SESSION_ID_FIELD_OFFSET = 12"
definition STREAM_ID_FIELD_OFFSET :: int where "STREAM_ID_FIELD_OFFSET = 16"
definition TERM_ID_FIELD_OFFSET :: int where "TERM_ID_FIELD_OFFSET = 20"
definition RESERVED_VALUE_FIELD_OFFSET :: int where "RESERVED_VALUE_FIELD_OFFSET = 24"
definition DATA_FRAME_LENGTH :: int where "DATA_FRAME_LENGTH = 32"

definition HDR_TYPE_PAD :: "16 word" where "HDR_TYPE_PAD = 0"
definition HDR_TYPE_DATA :: "16 word" where "HDR_TYPE_DATA = 1"
definition CURRENT_VERSION :: u8 where "CURRENT_VERSION = 0"

lemmas field_offsets = FRAME_LENGTH_FIELD_OFFSET_def VERSION_FIELD_OFFSET_def FLAGS_FIELD_OFFSET_def
  TYPE_FIELD_OFFSET_def TERM_OFFSET_FIELD_OFFSET_def SESSION_ID_FIELD_OFFSET_def STREAM_ID_FIELD_OFFSET_def
  TERM_ID_FIELD_OFFSET_def RESERVED_VALUE_FIELD_OFFSET_def DATA_FRAME_LENGTH_def

section \<open>Frames\<close>

definition FRAME_ALIGNMENT :: int where "FRAME_ALIGNMENT = 32"
definition BEGIN_FRAG :: u8 where "BEGIN_FRAG = 0x80"
definition END_FRAG :: u8 where "END_FRAG = 0x40"
definition UNFRAGMENTED :: u8 where "UNFRAGMENTED = BEGIN_FRAG OR END_FRAG"
definition MAX_MESSAGE_LENGTH :: int where "MAX_MESSAGE_LENGTH = 16 * 1024 * 1024"

definition checkHeaderLength :: "int \<Rightarrow> unit cpp" where
  "checkHeaderLength len = (if len \<noteq> DATA_FRAME_LENGTH then Inl IllegalStateException else Inr ())"

definition checkMaxFrameLength :: "int \<Rightarrow> unit cpp" where
  "checkMaxFrameLength len = (if len AND (FRAME_ALIGNMENT - 1) \<noteq> 0 then Inl IllegalStateException else Inr ())"

definition computeMaxMessageLength :: "int \<Rightarrow> int" where
  "computeMaxMessageLength cap = min (cap sdiv 8) MAX_MESSAGE_LENGTH"

definition typeOffset :: "int \<Rightarrow> int" where
  "typeOffset frameOffset = frameOffset + TYPE_FIELD_OFFSET"

definition flagsOffset :: "int \<Rightarrow> int" where
  "flagsOffset frameOffset = frameOffset + FLAGS_FIELD_OFFSET"

definition lengthOffset :: "int \<Rightarrow> int" where
  "lengthOffset frameOffset = frameOffset + FRAME_LENGTH_FIELD_OFFSET"

definition termOffsetOffset :: "int \<Rightarrow> int" where
  "termOffsetOffset frameOffset = frameOffset + TERM_OFFSET_FIELD_OFFSET"

definition set_frameType :: "endian \<Rightarrow> atomic_buffer \<Rightarrow> int \<Rightarrow> 16 word \<Rightarrow> atomic_buffer cpp" where
  "set_frameType e logBuffer frameOffset type = putUInt16 e logBuffer (typeOffset frameOffset) type"

definition frameType :: "endian \<Rightarrow> atomic_buffer \<Rightarrow> int \<Rightarrow> 16 word cpp" where
  "frameType e logBuffer frameOffset = getUInt16 e logBuffer frameOffset"

definition frameFlags :: "endian \<Rightarrow> atomic_buffer \<Rightarrow> int \<Rightarrow> u8 \<Rightarrow> atomic_buffer cpp" where
  "frameFlags e logBuffer frameOffset flags = putUInt8 e logBuffer (flagsOffset frameOffset) flags"

definition frameTermOffset :: "endian \<Rightarrow> atomic_buffer \<Rightarrow> int \<Rightarrow> s32 \<Rightarrow> atomic_buffer cpp" where
  "frameTermOffset e logBuffer frameOffset termOffset = putInt32 e logBuffer (termOffsetOffset frameOffset) termOffset"

definition isPaddingFrame :: "endian \<Rightarrow> atomic_buffer \<Rightarrow> int \<Rightarrow> bool cpp" where
  "isPaddingFrame e logBuffer frameOffset =
     andThen (getUInt16 e logBuffer (typeOffset frameOffset)) (\<lambda>type. Inr (type = HDR_TYPE_PAD))"

definition frameLengthVolatile :: "endian \<Rightarrow> atomic_buffer \<Rightarrow> int \<Rightarrow> s32 cpp" where
  "frameLengthVolatile e logBuffer frameOffset = getInt32Volatile e logBuffer (lengthOffset frameOffset)"

definition frameLengthOrdered :: "endian \<Rightarrow> atomic_buffer \<Rightarrow> int \<Rightarrow> s32 \<Rightarrow> atomic_buffer cpp" where
  "frameLengthOrdered e logBuffer frameOffset frameLength =
     putInt32Ordered e logBuffer (lengthOffset frameOffset) frameLength"

definition frameVersion :: "endian \<Rightarrow> atomic_buffer \<Rightarrow> int \<Rightarrow> u8 cpp" where
  "frameVersion e logBuffer frameOffset = getUInt8 e logBuffer frameOffset"

section \<open>Writing headers\<close>

record header_writer =
  hw_sessionId :: s32
  hw_streamId :: s32

definition HeaderWriter :: "endian \<Rightarrow> atomic_buffer \<Rightarrow> header_writer cpp" where
  "HeaderWriter e defaultHdr =
     andThen (getInt32 e defaultHdr SESSION_ID_FIELD_OFFSET) (\<lambda>sessionId.
     andThen (getInt32 e defaultHdr STREAM_ID_FIELD_OFFSET) (\<lambda>streamId.
       Inr \<lparr>hw_sessionId = sessionId, hw_streamId = streamId\<rparr>))"

text \<open>
  The negative length is stored through the checked access, the members behind it, from the version
  to the term id, through a pointer to the structure.
\<close>

definition write_header :: "endian \<Rightarrow> header_writer \<Rightarrow> atomic_buffer \<Rightarrow> int \<Rightarrow> int \<Rightarrow> s32 \<Rightarrow> atomic_buffer cpp" where
  "write_header e hw termBuffer offset len termId =
     andThen (putInt32Ordered e termBuffer offset (word_of_int (- len))) (\<lambda>termBuffer.
       store_bytes termBuffer (offset + VERSION_FIELD_OFFSET)
         ([CURRENT_VERSION, BEGIN_FRAG OR END_FRAG] @ host_bytes e 2 HDR_TYPE_DATA @
          host_bytes e 4 (word_of_int offset :: s32) @ host_bytes e 4 (hw_sessionId hw) @
          host_bytes e 4 (hw_streamId hw) @ host_bytes e 4 termId))"

section \<open>Claimed ranges\<close>

text \<open>
  A claim is a view of \<open>length\<close> bytes of a term buffer from an offset on; here it is the partition, the
  offset and the length, and its operations are those of the view, done on the term buffer.
\<close>

record buffer_claim =
  claim_partition :: int
  claim_offset :: int
  claim_capacity :: int

definition claim_wrap :: "int \<Rightarrow> int \<Rightarrow> int \<Rightarrow> buffer_claim" where
  "claim_wrap partitionIndex offset len = \<lparr>claim_partition = partitionIndex, claim_offset = offset, claim_capacity = len\<rparr>"

definition claim_length :: "buffer_claim \<Rightarrow> int" where
  "claim_length c = claim_capacity c - DATA_FRAME_LENGTH"

text \<open>The view itself.\<close>

definition claim_view :: "buffer_claim \<Rightarrow> atomic_buffer \<Rightarrow> atomic_buffer" where
  "claim_view c b = \<lparr>m_buffer = take (nat (claim_capacity c)) (drop (nat (claim_offset c)) (m_buffer b)),
     m_length = word_of_int (claim_capacity c)\<rparr>"

definition through_claim :: "(atomic_buffer \<Rightarrow> atomic_buffer cpp) \<Rightarrow> buffer_claim \<Rightarrow> atomic_buffer \<Rightarrow> atomic_buffer cpp" where
  "through_claim access c b =
     andThen (access (claim_view c b)) (\<lambda>v. store_bytes b (claim_offset c) (m_buffer v))"

definition claim_flags :: "endian \<Rightarrow> u8 \<Rightarrow> buffer_claim \<Rightarrow> atomic_buffer \<Rightarrow> atomic_buffer cpp" where
  "claim_flags e flags = through_claim (\<lambda>v. putUInt8 e v FLAGS_FIELD_OFFSET flags)"

definition claim_headerType :: "endian \<Rightarrow> 16 word \<Rightarrow> buffer_claim \<Rightarrow> atomic_buffer \<Rightarrow> atomic_buffer cpp" where
  "claim_headerType e type = through_claim (\<lambda>v. putUInt16 e v TYPE_FIELD_OFFSET type)"

definition claim_reservedValue :: "endian \<Rightarrow> s64 \<Rightarrow> buffer_claim \<Rightarrow> atomic_buffer \<Rightarrow> atomic_buffer cpp" where
  "claim_reservedValue e value = through_claim (\<lambda>v. putInt64 e v RESERVED_VALUE_FIELD_OFFSET value)"

definition claim_commit :: "endian \<Rightarrow> buffer_claim \<Rightarrow> atomic_buffer \<Rightarrow> atomic_buffer cpp" where
  "claim_commit e = through_claim (\<lambda>v. putInt32Ordered e v 0 (word_of_int (capacity v)))"

definition claim_abort :: "endian \<Rightarrow> buffer_claim \<Rightarrow> atomic_buffer \<Rightarrow> atomic_buffer cpp" where
  "claim_abort e = through_claim (\<lambda>v.
     andThen (putUInt16 e v TYPE_FIELD_OFFSET HDR_TYPE_PAD) (\<lambda>v. putInt32Ordered e v 0 (word_of_int (capacity v))))"

text \<open>The claiming user fills in the payload through the view at \<open>offset ()\<close>.\<close>

definition claim_fill :: "u8 list \<Rightarrow> buffer_claim \<Rightarrow> atomic_buffer \<Rightarrow> atomic_buffer cpp" where
  "claim_fill bs = through_claim (\<lambda>v.
     andThen (boundsCheck v DATA_FRAME_LENGTH (word_of_nat (length bs))) (\<lambda>_. store_bytes v DATA_FRAME_LENGTH bs))"

section \<open>Lemmas\<close>

lemma host_bytes_one [simp]: "host_bytes e (Suc 0) w = [w]" for w :: u8
  by (cases e) (simp_all add: host_bytes_def)

lemma of_host_bytes_one [simp]: "of_host_bytes e [w] = w" for w :: u8
  by (cases e) (simp_all add: of_host_bytes_def)

lemma clear_low_bits_int: "x AND NOT (mask n) = x div 2 ^ n * 2 ^ n" for x :: int
proof -
  have "x AND NOT (mask n) = push_bit n (drop_bit n x)" by (rule bit_eqI) (auto simp: bit_simps)
  then show ?thesis by (simp add: push_bit_eq_mult drop_bit_eq_div)
qed

lemma align_frame: "align (int n) FRAME_ALIGNMENT = int (align_up n 32)"
proof -
  have "align (int n) FRAME_ALIGNMENT = (int n + 31) div 32 * 32"
    using clear_low_bits_int [of "int n + 31" 5] by (simp add: align_def FRAME_ALIGNMENT_def mask_eq_exp_minus_1)
  also have "\<dots> = int ((n + 31) div 32 * 32)" by (simp add: zdiv_int)
  finally show ?thesis by (simp add: align_up_def)
qed

lemma patch_beside:
  "off + length (a @ b) \<le> length buf \<Longrightarrow> patch (patch buf off a) (off + length a) b = patch buf off (a @ b)"
  by (simp add: patch_def ac_simps)

lemma patch_extend:
  "off + length a \<le> length buf \<Longrightarrow> patch buf off (a @ take n (drop (off + length a) buf)) = patch buf off a"
  using patch_same [of "off + length a" "patch buf off a" n] patch_beside [of off a "take n (drop (off + length a) buf)" buf]
  by (cases "n \<le> length buf - (off + length a)") (simp_all add: patch_after)

text \<open>
  A buffer with a frame written at an offset, by the parts of the frame that the code stores one by
  one: length, version, flags, type, the four numbers behind it, reserved value, payload.
\<close>

definition framed ::
  "atomic_buffer \<Rightarrow> nat \<Rightarrow> u8 list \<Rightarrow> u8 \<Rightarrow> u8 \<Rightarrow> u8 list \<Rightarrow> u8 list \<Rightarrow> u8 list \<Rightarrow> u8 list \<Rightarrow> atomic_buffer" where
  "framed b o1 l v f t r x p = b\<lparr>m_buffer := patch (m_buffer b) o1 (l @ [v, f] @ t @ r @ x @ p)\<rparr>"

definition frame_fits :: "atomic_buffer \<Rightarrow> nat \<Rightarrow> u8 list \<Rightarrow> u8 list \<Rightarrow> u8 list \<Rightarrow> u8 list \<Rightarrow> u8 list \<Rightarrow> bool" where
  "frame_fits b o1 l t r x p \<longleftrightarrow> sound b \<and> o1 + 32 + length p \<le> length (m_buffer b) \<and>
     length l = 4 \<and> length t = 2 \<and> length r = 16 \<and> length x = 8"

lemma framed_sound: "frame_fits b o1 l t r x p \<Longrightarrow> sound (framed b o1 l v f t r x p)"
  by (simp add: frame_fits_def framed_def sound_patch)

lemma framed_length: "frame_fits b o1 l t r x p \<Longrightarrow> length (m_buffer (framed b o1 l v f t r x p)) = length (m_buffer b)"
  by (simp add: frame_fits_def framed_def)

lemma framed_patch:
  assumes "frame_fits b o1 l t r x p"
  shows "length l' = 4 \<Longrightarrow> (framed b o1 l v f t r x p)\<lparr>m_buffer := patch (m_buffer (framed b o1 l v f t r x p)) o1 l'\<rparr> =
      framed b o1 l' v f t r x p"
    and "(framed b o1 l v f t r x p)\<lparr>m_buffer := patch (m_buffer (framed b o1 l v f t r x p)) (o1 + 5) [f']\<rparr> =
      framed b o1 l v f' t r x p"
    and "length t' = 2 \<Longrightarrow> (framed b o1 l v f t r x p)\<lparr>m_buffer := patch (m_buffer (framed b o1 l v f t r x p)) (o1 + 6) t'\<rparr> =
      framed b o1 l v f t' r x p"
    and "length x' = 8 \<Longrightarrow> (framed b o1 l v f t r x p)\<lparr>m_buffer := patch (m_buffer (framed b o1 l v f t r x p)) (o1 + 24) x'\<rparr> =
      framed b o1 l v f t r x' p"
    and "length p' = length p \<Longrightarrow> (framed b o1 l v f t r x p)\<lparr>m_buffer := patch (m_buffer (framed b o1 l v f t r x p)) (o1 + 32) p'\<rparr> =
      framed b o1 l v f t r x p'"
  using assms
    patch_inside [of o1 "[]" l "[v, f] @ t @ r @ x @ p" "m_buffer b" l']
    patch_inside [of o1 "l @ [v]" "[f]" "t @ r @ x @ p" "m_buffer b" "[f']"]
    patch_inside [of o1 "l @ [v, f]" t "r @ x @ p" "m_buffer b" t']
    patch_inside [of o1 "l @ [v, f] @ t @ r" x p "m_buffer b" x']
    patch_inside [of o1 "l @ [v, f] @ t @ r @ x" p "[]" "m_buffer b" p']
  by (simp_all add: frame_fits_def framed_def)

named_theorems frame_steps \<open>stores of the parts of a frame\<close>

lemma framed_length_put [frame_steps]:
  "frame_fits b o1 l t r x p \<Longrightarrow>
   frameLengthOrdered e (framed b o1 l v f t r x p) (int o1) w = Inr (framed b o1 (host_bytes e 4 w) v f t r x p)"
  using framed_sound [of b o1 l t r x p v f] framed_length [of b o1 l t r x p v f]
  by (simp add: frameLengthOrdered_def ordered_access int32.put_inside lengthOffset_def field_offsets
      framed_patch frame_fits_def)

lemma framed_flags_put [frame_steps]:
  "frame_fits b o1 l t r x p \<Longrightarrow>
   frameFlags e (framed b o1 l v f t r x p) (int o1) w = Inr (framed b o1 l v w t r x p)"
  using framed_sound [of b o1 l t r x p v f] framed_length [of b o1 l t r x p v f]
  by (simp add: frameFlags_def uint8.put_inside flagsOffset_def field_offsets
      framed_patch frame_fits_def)

lemma framed_type_put [frame_steps]:
  "frame_fits b o1 l t r x p \<Longrightarrow>
   set_frameType e (framed b o1 l v f t r x p) (int o1) w = Inr (framed b o1 l v f (host_bytes e 2 w) r x p)"
  using framed_sound [of b o1 l t r x p v f] framed_length [of b o1 l t r x p v f]
  by (simp add: set_frameType_def uint16.put_inside typeOffset_def field_offsets framed_patch frame_fits_def)

lemma framed_reserved_put [frame_steps]:
  "frame_fits b o1 l t r x p \<Longrightarrow>
   putInt64 e (framed b o1 l v f t r x p) (int o1 + RESERVED_VALUE_FIELD_OFFSET) w =
     Inr (framed b o1 l v f t r (host_bytes e 8 w) p)"
  using framed_sound [of b o1 l t r x p v f] framed_length [of b o1 l t r x p v f]
  by (simp add: int64.put_inside field_offsets framed_patch frame_fits_def)

lemma framed_payload_put [frame_steps]:
  assumes "frame_fits b o1 l t r x p" and "sound src" and "k + length p \<le> length (m_buffer src)"
  shows "putBytes (framed b o1 l v f t r x p) (int o1 + DATA_FRAME_LENGTH) src (int k) (int (length p)) =
     Inr (framed b o1 l v f t r x (take (length p) (drop k (m_buffer src))))"
  using framed_sound [OF assms(1), of v f] framed_length [OF assms(1), of v f] assms
  by (simp add: putBytes_inside field_offsets framed_patch frame_fits_def)

text \<open>The four numbers between the type and the reserved value.\<close>

definition header_numbers :: "endian \<Rightarrow> header_writer \<Rightarrow> nat \<Rightarrow> s32 \<Rightarrow> u8 list" where
  "header_numbers e hw offset i = host_bytes e 4 (word_of_nat offset :: s32) @ host_bytes e 4 (hw_sessionId hw) @
     host_bytes e 4 (hw_streamId hw) @ host_bytes e 4 i"

lemma length_header_numbers [simp]: "length (header_numbers e hw offset i) = 16"
  by (simp add: header_numbers_def)

lemma framed_header_put [frame_steps]:
  assumes "sound b" and "o1 + 32 + n \<le> length (m_buffer b)"
  shows "write_header e hw b (int o1) len termId =
    Inr (framed b o1 (host_bytes e 4 (word_of_int (- len) :: s32)) CURRENT_VERSION UNFRAGMENTED (host_bytes e 2 HDR_TYPE_DATA)
      (header_numbers e hw o1 termId)
      (take 8 (drop (o1 + 24) (m_buffer b))) (take n (drop (o1 + 32) (m_buffer b))))"
proof -
  define l where "l = host_bytes e 4 (word_of_int (- len) :: s32)"
  define r where "r = [CURRENT_VERSION, BEGIN_FRAG OR END_FRAG] @ host_bytes e 2 HDR_TYPE_DATA @
      host_bytes e 4 (word_of_nat o1 :: s32) @ host_bytes e 4 (hw_sessionId hw) @ host_bytes e 4 (hw_streamId hw) @ host_bytes e 4 termId"
  have len: "length l = 4" "length r = 20" by (simp_all add: l_def r_def)
  have "write_header e hw b (int o1) len termId = Inr (b\<lparr>m_buffer := patch (m_buffer b) o1 (l @ r)\<rparr>)"
    using assms len patch_beside [of o1 l r "m_buffer b"]
    by (simp add: write_header_def ordered_access int32.put_inside store_inside field_offsets)
      (simp add: l_def r_def)
  moreover have "patch (m_buffer b) o1 (l @ r @ take 8 (drop (o1 + 24) (m_buffer b)) @ take n (drop (o1 + 32) (m_buffer b))) =
      patch (m_buffer b) o1 (l @ r)"
  proof -
    have "take 8 (drop (o1 + 24) (m_buffer b)) @ take n (drop (o1 + 32) (m_buffer b)) = take (8 + n) (drop (o1 + 24) (m_buffer b))"
      using take_add [of 8 n "drop (o1 + 24) (m_buffer b)"] by (simp add: add.commute)
    then show ?thesis using patch_extend [of o1 "l @ r" "m_buffer b" "8 + n"] len assms(2) by simp
  qed
  ultimately show ?thesis by (simp add: framed_def UNFRAGMENTED_def l_def r_def header_numbers_def)
qed

section \<open>Whole frames\<close>

definition frame_hdr :: "header_writer \<Rightarrow> nat \<Rightarrow> u8 \<Rightarrow> 16 word \<Rightarrow> nat \<Rightarrow> s32 \<Rightarrow> s64 \<Rightarrow> data_header" where
  "frame_hdr hw len flags type offset termId reserved =
     \<lparr>dh_frame_header = \<lparr>frame_length = word_of_nat len, version = CURRENT_VERSION, frame_flags = flags, frame_type = type\<rparr>,
      dh_term_offset = word_of_nat offset, dh_session_id = hw_sessionId hw, dh_stream_id = hw_streamId hw,
      dh_term_id = termId, dh_reserved_value = reserved\<rparr>"

lemma framed_frame:
  "framed b o1 (host_bytes e 4 (word_of_nat len :: s32)) CURRENT_VERSION flags (host_bytes e 2 type)
     (header_numbers e hw o1 termId)
     (host_bytes e 8 reserved) p =
   b\<lparr>m_buffer := patch (m_buffer b) o1 (data_header_bytes e (frame_hdr hw len flags type o1 termId reserved) @ p)\<rparr>"
  by (simp add: framed_def frame_hdr_def data_header_bytes_def header_numbers_def)

end
