(* ===== verification/CppLogBuffer.thy ===== *)
theory CppLogBuffer
  imports FrameDescriptor LogRotation
begin

text \<open>
  \<open>concurrent/logbuffer/LogBufferDescriptor.h\<close> of the C++ client. The metadata section of a log, which
  the C++ code reads and writes at the offsets of its members, is the record \<open>logbuffer_metadata\<close> of the C
  client, whose layout it shares; a member that is read is the field, a member that is stored is the
  update. The log of several threads is in \<open>LogRotation\<close>: here \<open>rotateLog\<close> runs undisturbed, so that its
  compare-and-set, tried with the value just read, succeeds at the first attempt.
\<close>

section \<open>Checks\<close>

definition TERM_MIN_LENGTH :: int where "TERM_MIN_LENGTH = 64 * 1024"
definition TERM_MAX_LENGTH :: int where "TERM_MAX_LENGTH = 1024 * 1024 * 1024"
definition AERON_PAGE_MIN_SIZE :: int where "AERON_PAGE_MIN_SIZE = 4 * 1024"
definition AERON_PAGE_MAX_SIZE :: int where "AERON_PAGE_MAX_SIZE = 1024 * 1024 * 1024"
definition PARTITION_COUNT :: int where "PARTITION_COUNT = 3"

definition isPowerOfTwo :: "int \<Rightarrow> bool" where
  "isPowerOfTwo value \<longleftrightarrow> 0 < value \<and> value AND (NOT value + 1) = value"

definition checkTermLength :: "int \<Rightarrow> unit cpp" where
  "checkTermLength termLength =
     (if termLength < TERM_MIN_LENGTH then Inl IllegalStateException
      else if TERM_MAX_LENGTH < termLength then Inl IllegalStateException
      else if \<not> isPowerOfTwo termLength then Inl IllegalStateException
      else Inr ())"

definition checkPageSize :: "int \<Rightarrow> unit cpp" where
  "checkPageSize pageSize =
     (if pageSize < AERON_PAGE_MIN_SIZE then Inl IllegalStateException
      else if AERON_PAGE_MAX_SIZE < pageSize then Inl IllegalStateException
      else if \<not> isPowerOfTwo pageSize then Inl IllegalStateException
      else Inr ())"

definition positionBitsToShift :: "int \<Rightarrow> nat cpp" where
  "positionBitsToShift termBufferLength =
     (if termBufferLength = 64 * 1024 then Inr 16
      else if termBufferLength = 128 * 1024 then Inr 17
      else if termBufferLength = 256 * 1024 then Inr 18
      else if termBufferLength = 512 * 1024 then Inr 19
      else if termBufferLength = 1024 * 1024 then Inr 20
      else if termBufferLength = 2 * 1024 * 1024 then Inr 21
      else if termBufferLength = 4 * 1024 * 1024 then Inr 22
      else if termBufferLength = 8 * 1024 * 1024 then Inr 23
      else if termBufferLength = 16 * 1024 * 1024 then Inr 24
      else if termBufferLength = 32 * 1024 * 1024 then Inr 25
      else if termBufferLength = 64 * 1024 * 1024 then Inr 26
      else if termBufferLength = 128 * 1024 * 1024 then Inr 27
      else if termBufferLength = 256 * 1024 * 1024 then Inr 28
      else if termBufferLength = 512 * 1024 * 1024 then Inr 29
      else if termBufferLength = 1024 * 1024 * 1024 then Inr 30
      else Inl IllegalArgumentException)"

section \<open>The metadata\<close>

definition activeTermCount :: "logbuffer_metadata \<Rightarrow> s32" where
  "activeTermCount m = lm_active_term_count m"

definition activeTermCountOrdered :: "logbuffer_metadata \<Rightarrow> s32 \<Rightarrow> logbuffer_metadata" where
  "activeTermCountOrdered m activeTermId = m\<lparr>lm_active_term_count := activeTermId\<rparr>"

definition casActiveTermCount :: "logbuffer_metadata \<Rightarrow> s32 \<Rightarrow> s32 \<Rightarrow> logbuffer_metadata \<times> bool" where
  "casActiveTermCount m expectedTermCount updateTermCount =
     (if lm_active_term_count m = expectedTermCount
      then (m\<lparr>lm_active_term_count := updateTermCount\<rparr>, True) else (m, False))"

definition isConnected :: "logbuffer_metadata \<Rightarrow> bool" where
  "isConnected m \<longleftrightarrow> lm_is_connected m = 1"

definition set_isConnected :: "logbuffer_metadata \<Rightarrow> bool \<Rightarrow> logbuffer_metadata" where
  "set_isConnected m connected = m\<lparr>lm_is_connected := (if connected then 1 else 0)\<rparr>"

definition activeTransportCount :: "logbuffer_metadata \<Rightarrow> s32" where
  "activeTransportCount m = lm_active_transport_count m"

definition endOfStreamPosition :: "logbuffer_metadata \<Rightarrow> s64" where
  "endOfStreamPosition m = lm_end_of_stream_position m"

definition set_endOfStreamPosition :: "logbuffer_metadata \<Rightarrow> s64 \<Rightarrow> logbuffer_metadata" where
  "set_endOfStreamPosition m position = m\<lparr>lm_end_of_stream_position := position\<rparr>"

section \<open>Terms and positions\<close>

definition nextPartitionIndex :: "int \<Rightarrow> int" where
  "nextPartitionIndex currentIndex = (currentIndex + 1) smod PARTITION_COUNT"

definition previousPartitionIndex :: "int \<Rightarrow> int" where
  "previousPartitionIndex currentIndex = (currentIndex + (PARTITION_COUNT - 1)) smod PARTITION_COUNT"

definition computeTermCount :: "s32 \<Rightarrow> s32 \<Rightarrow> s32" where
  "computeTermCount termId initialTermId =
     (let difference = scast termId - scast initialTermId :: s64 in ucast (difference AND 0xFFFFFFFF))"

definition indexByTerm :: "s32 \<Rightarrow> s32 \<Rightarrow> int" where
  "indexByTerm initialTermId activeTermId = sint (computeTermCount activeTermId initialTermId) smod PARTITION_COUNT"

definition indexByTermCount :: "s64 \<Rightarrow> int" where
  "indexByTermCount termCount = sint termCount smod PARTITION_COUNT"

definition indexByPosition :: "s64 \<Rightarrow> nat \<Rightarrow> int" where
  "indexByPosition position bitsToShift = uint (drop_bit bitsToShift position) mod PARTITION_COUNT"

definition computePosition :: "s32 \<Rightarrow> s32 \<Rightarrow> nat \<Rightarrow> s32 \<Rightarrow> s64" where
  "computePosition activeTermId termOffset bitsToShift initialTermId =
     (let termCount = scast (computeTermCount activeTermId initialTermId) in push_bit bitsToShift termCount + scast termOffset)"

definition computeTermBeginPosition :: "s32 \<Rightarrow> nat \<Rightarrow> s32 \<Rightarrow> s64" where
  "computeTermBeginPosition activeTermId bitsToShift initialTermId =
     (let termCount = scast (computeTermCount activeTermId initialTermId) in push_bit bitsToShift termCount)"

text \<open>The tail counters; the index of the active partition is computed from the term count.\<close>

definition rawTail :: "logbuffer_metadata \<Rightarrow> int \<Rightarrow> s64" where
  "rawTail m partitionIndex = lm_term_tail_counters m ! nat partitionIndex"

definition rawTailVolatile :: "logbuffer_metadata \<Rightarrow> s64" where
  "rawTailVolatile m = (let partitionIndex = indexByTermCount (scast (activeTermCount m)) in rawTail m partitionIndex)"

definition put_rawTail :: "logbuffer_metadata \<Rightarrow> int \<Rightarrow> s64 \<Rightarrow> logbuffer_metadata" where
  "put_rawTail m partitionIndex v = m\<lparr>lm_term_tail_counters := (lm_term_tail_counters m)[nat partitionIndex := v]\<rparr>"

definition termId :: "s64 \<Rightarrow> s32" where
  "termId raw = ucast (signed_drop_bit 32 raw)"

definition termOffset :: "s64 \<Rightarrow> int \<Rightarrow> int" where
  "termOffset raw termLength = (let tail = raw AND 0xFFFFFFFF in min (sint tail) termLength)"

definition casRawTail :: "logbuffer_metadata \<Rightarrow> int \<Rightarrow> s64 \<Rightarrow> s64 \<Rightarrow> logbuffer_metadata \<times> bool" where
  "casRawTail m partitionIndex expectedRawTail updateRawTail =
     (if rawTail m partitionIndex = expectedRawTail then (put_rawTail m partitionIndex updateRawTail, True) else (m, False))"

definition rotateLog :: "logbuffer_metadata \<Rightarrow> s32 \<Rightarrow> s32 \<Rightarrow> logbuffer_metadata" where
  "rotateLog m currentTermCount currentTermId =
     (let nextTermId = currentTermId + 1;
          nextTermCount = currentTermCount + 1;
          nextIndex = indexByTermCount (scast nextTermCount);
          expectedTermId = nextTermId - word_of_int PARTITION_COUNT;
          newRawTail = scast nextTermId * push_bit 32 1;
          raw = rawTail m nextIndex;
          m = (if expectedTermId \<noteq> termId raw then m else fst (casRawTail m nextIndex raw newRawTail))
      in fst (casActiveTermCount m currentTermCount nextTermCount))"

definition initializeTailWithTermId :: "logbuffer_metadata \<Rightarrow> int \<Rightarrow> s32 \<Rightarrow> logbuffer_metadata" where
  "initializeTailWithTermId m partitionIndex i = (let raw = push_bit 32 (scast i) in put_rawTail m partitionIndex raw)"

text \<open>
  The length a fragmented message takes in the log. The code computes it in 32-bit signed integers, and
  the definition gives the number meant; the two are the same where the result is below \<open>2 ^ 31\<close>, as shown
  below for every message that fits into a term.
\<close>

definition computeFragmentedFrameLength :: "int \<Rightarrow> int \<Rightarrow> int" where
  "computeFragmentedFrameLength len maxPayloadLength =
     (let numMaxPayloads = len sdiv maxPayloadLength;
          remainingPayload = len smod maxPayloadLength;
          lastFrameLength = (if 0 < remainingPayload then align (remainingPayload + DATA_FRAME_LENGTH) FRAME_ALIGNMENT else 0)
      in numMaxPayloads * (maxPayloadLength + DATA_FRAME_LENGTH) + lastFrameLength)"

section \<open>Agreement with the C client\<close>

lemma computeTermCount_eq [simp]: "computeTermCount t i = t - i"
proof -
  have "computeTermCount t i = ucast (scast t - scast i :: s64)" by (simp add: computeTermCount_def low_half)
  also have "\<dots> = ucast (word_of_int (sint t - sint i) :: s64)" by (simp only: scast_eq wi_hom_sub)
  also have "\<dots> = t - i" unfolding ucast_of_int by simp
  finally show ?thesis .
qed

lemma computePosition_eq: "computePosition = aeron_logbuffer_compute_position"
  by (simp add: fun_eq_iff computePosition_def aeron_logbuffer_compute_position_def aeron_logbuffer_compute_term_count_def)

lemma termId_eq: "termId = aeron_logbuffer_term_id"
  by (simp add: fun_eq_iff termId_def aeron_logbuffer_term_id_def)

lemma smod_three: "int n smod 3 = int (n mod 3)"
  by (cases "n = 0") (simp_all add: smod_int_alt_def sgn_if zmod_int)

lemma indexByTermCount_of_nat: "n < 2 ^ 31 \<Longrightarrow> indexByTermCount (scast (word_of_nat n :: s32)) = int (n mod 3)"
  by (simp add: indexByTermCount_def PARTITION_COUNT_def scast_of_nat sint_of_nat(2) smod_three)

lemma indexByPosition_of_nat: "n < 2 ^ 63 \<Longrightarrow> indexByPosition (word_of_nat n) b = int (n div 2 ^ b mod 3)"
proof -
  assume n: "n < 2 ^ 63"
  then have u: "unat (word_of_nat n :: s64) = n" using less_trans [of n "2 ^ 63" "2 ^ 64"] by (simp add: unat_of_nat_u64)
  have "unat (drop_bit b (word_of_nat n :: s64)) = drop_bit b (take_bit 64 (unat (word_of_nat n :: s64)))"
    using unsigned_drop_bit_eq [of b "word_of_nat n :: s64"] by simp
  also have "\<dots> = n div 2 ^ b" using take_bit_nat_eq_self [OF unat_u64_less [of "word_of_nat n"]] u by (simp add: drop_bit_eq_div)
  finally have "uint (drop_bit b (word_of_nat n :: s64)) = int (n div 2 ^ b)" by (simp only: uint_nat)
  then show ?thesis by (simp add: indexByPosition_def PARTITION_COUNT_def zmod_int)
qed

lemma unat_take_bit_mod: "unat (take_bit n w) = unat w mod 2 ^ n" for w :: s64
  unfolding unsigned_take_bit_eq by (rule take_bit_eq_mod)

lemma termOffset_div: "termOffset raw (int len) = int (min (unat raw mod 2 ^ 32) len)"
proof -
  have "raw AND 0xFFFFFFFF = take_bit 32 raw" by (simp add: take_bit_eq_mask mask_eq_exp_minus_1)
  then have t: "raw AND 0xFFFFFFFF = word_of_nat (unat raw mod 2 ^ 32)" by (metis unat_take_bit_mod of_nat_unat ucast_id)
  have "unat raw mod 2 ^ 32 < 2 ^ 63" by (rule less_trans [of _ "2 ^ 32"]) simp_all
  then show ?thesis unfolding termOffset_def Let_def t by (subst sint_of_nat(2)) auto
qed

lemma sdiv_smod_of_nat: "int n sdiv int m = int (n div m)" "int n smod int m = int (n mod m)"
  by (cases "n = 0"; cases "m = 0"; simp add: signed_divide_int_def smod_int_alt_def zdiv_int zmod_int sgn_if)+

lemma computeFragmentedFrameLength_of_nat:
  "computeFragmentedFrameLength (int n) (int m) =
    int (n div m * (m + 32) + (if n mod m = 0 then 0 else align_up (n mod m + 32) 32))"
proof -
  have "align (int (n mod m) + 32) FRAME_ALIGNMENT = int (align_up (n mod m + 32) 32)"
    using align_frame [of "n mod m + 32"] by simp
  then show ?thesis
    by (simp add: computeFragmentedFrameLength_def sdiv_smod_of_nat DATA_FRAME_LENGTH_def flip: zmod_int)
qed

text \<open>
  The code computes in 32 bits. For the lengths a publication permits, at most an eighth of a term, the
  framed length is below \<open>2 ^ 31\<close>, and so is every number on the way to it.
\<close>

lemma computeFragmentedFrameLength_less:
  assumes "n + 32 < 2 ^ 30" and "32 \<le> m"
  shows "computeFragmentedFrameLength (int n) (int m) < 2 ^ 31"
proof -
  have "n div m * (m + 32) \<le> n div m * (2 * m)" using assms(2) by (intro mult_le_mono2) simp
  moreover have "n div m * (2 * m) + 2 * (n mod m) = 2 * n" using div_mult_mod_eq [of n m] by (metis mult.left_commute distrib_left)
  moreover have "align_up (n mod m + 32) 32 < n mod m + 64" using align_up_bounds(2) [of 32 "n mod m + 32"] by simp
  ultimately have "n div m * (m + 32) + align_up (n mod m + 32) 32 < 2 * n + 64" by linarith
  then have "n div m * (m + 32) + (if n mod m = 0 then 0 else align_up (n mod m + 32) 32) < 2 * n + 64"
    by (rule le_less_trans [rotated]) simp
  also have "\<dots> < 2 ^ 31" using assms(1) by simp
  finally have "n div m * (m + 32) + (if n mod m = 0 then 0 else align_up (n mod m + 32) 32) < 2 ^ 31" .
  then show ?thesis unfolding computeFragmentedFrameLength_of_nat by (metis of_nat_less_iff of_nat_numeral of_nat_power)
qed

text \<open>The tail counter of a partition at an offset of a term.\<close>

definition tail_of :: "s32 \<Rightarrow> nat \<Rightarrow> s64" where
  "tail_of t k = push_bit 32 (scast t) + word_of_nat k"

lemma unat_fresh_tail: "unat (push_bit 32 (scast t) :: s64) mod 2 ^ 32 = 0" for t :: s32
proof -
  have "take_bit 32 (push_bit 32 (scast t) :: s64) = 0" by (rule bit_word_eqI) (auto simp: bit_simps)
  then show ?thesis by (metis unat_take_bit_mod unsigned_0)
qed

lemma tail_of_low: "k < 2 ^ 32 \<Longrightarrow> unat (tail_of t k) mod 2 ^ 32 = k"
proof -
  assume k: "k < 2 ^ 32"
  define w where "w = (push_bit 32 (scast t) :: s64)"
  have "unat w mod 2 ^ 32 = 0" unfolding w_def by (rule unat_fresh_tail)
  then obtain a where a: "unat w = 2 ^ 32 * a" by (metis mod_0_imp_dvd dvdE)
  then have "a < 2 ^ 32" using unat_u64_less [of w] by simp
  then have "2 ^ 32 * a + k < 2 ^ 64" using k by simp
  moreover have "unat (word_of_nat k :: s64) = k" using k by (intro unat_of_nat_u64) simp
  ultimately have "unat (w + word_of_nat k) = 2 ^ 32 * a + k" using a by (subst unat_add_lem [THEN iffD1]) simp_all
  then show ?thesis using k by (simp add: tail_of_def w_def)
qed

lemma termId_tail_of: "k < 2 ^ 32 \<Longrightarrow> termId (tail_of t k) = t"
  using term_id_of_append [of "push_bit 32 (scast t)" "word_of_nat k"] unat_fresh_tail [of t]
    unat_of_nat_u64 [of k] less_trans [of k "2 ^ 32" "2 ^ 64"] term_id_of_fresh [of t]
  by (simp add: tail_of_def termId_eq)

lemma termOffset_tail_of: "k < 2 ^ 32 \<Longrightarrow> termOffset (tail_of t k) (int len) = int (min k len)"
  unfolding termOffset_div by (simp only: tail_of_low)

lemma tail_of_add: "tail_of t k + word_of_int (int n) = tail_of t (k + n)"
  by (simp add: tail_of_def)

lemma new_tail: "(scast t :: s64) * push_bit 32 1 = tail_of t 0"
  by (simp add: tail_of_def push_bit_eq_mult)

lemma rotateLog_eq:
  assumes "0 \<le> sint (currentTermCount + 1)"
  shows "rotateLog m currentTermCount currentTermId =
    fst (((\<lambda>(m, pc). rotate_log_step m pc) ^^ 3) (m, Rotate_read currentTermCount currentTermId))"
proof -
  define n where "n = nat (sint (currentTermCount + 1))"
  have "word_of_int (sint (currentTermCount + 1)) = currentTermCount + 1" by simp
  then have n: "currentTermCount + 1 = word_of_nat n" using assms by (simp add: n_def)
  have "n < 2 ^ 31" using sint_lt [of "currentTermCount + 1"] assms by (simp add: n_def)
  then have i: "nat (indexByTermCount (scast (currentTermCount + 1))) =
      unat (aeron_logbuffer_index_by_term_count (currentTermCount + 1))"
    using unat_of_nat_u64 [of "n mod 3"] unfolding n by (simp add: indexByTermCount_of_nat index_of_count)
  show ?thesis
    by (auto simp: rotateLog_def Let_def numeral_3_eq_3 rawTail_def put_rawTail_def casRawTail_def i termId_eq
        casActiveTermCount_def aeron_logbuffer_cas_active_term_count_def aeron_logbuffer_cas_raw_tail_def
        PARTITION_COUNT_def AERON_LOGBUFFER_PARTITION_COUNT_def push_bit_eq_mult mult.commute)
qed

lemma C_term_offset: "len < 2 ^ 31 \<Longrightarrow> sint (aeron_logbuffer_term_offset raw (word_of_nat len)) = int (min (unat raw mod 2 ^ 32) len)"
proof -
  assume len: "len < 2 ^ 31"
  have "raw AND 0xFFFFFFFF = take_bit 32 raw" by (simp add: take_bit_eq_mask mask_eq_exp_minus_1)
  then have t: "raw AND 0xFFFFFFFF = word_of_nat (unat raw mod 2 ^ 32)" by (metis unat_take_bit_mod of_nat_unat ucast_id)
  have lt: "unat raw mod 2 ^ 32 < 2 ^ 63" by (rule less_trans [of _ "2 ^ 32"]) simp_all
  have "word_of_nat (unat raw mod 2 ^ 32) <s (scast (word_of_nat len :: s32) :: s64) \<longleftrightarrow> unat raw mod 2 ^ 32 < len"
    using len lt by (simp add: scast_of_nat word_sless_alt sint_of_nat(2))
  then show ?thesis
    using len ucast_of_int [of "int (unat raw mod 2 ^ 32)"] unfolding aeron_logbuffer_term_offset_def Let_def t
    by (auto simp: min_def sint_of_nat(1))
qed

text \<open>
  C33. The descriptors of the C++ and of the C client compute the same term counts, positions, term ids,
  partitions and offsets, and the C++ rotation, undisturbed, leaves the metadata that the C rotation
  leaves. For messages of less than one gigabyte cut at 32 bytes or more, which covers all that a
  publication permits, they compute the same framed length too, and it is within the 32 bits the C++ code
  computes it in.
\<close>

theorem cpp_descriptor_agrees:
  assumes "n + 1 < 2 ^ 31" and "p < 2 ^ 63" and "len < 2 ^ 31" and "msg_len + 32 < 2 ^ 30" and "32 \<le> mx" and "mx + 32 < 2 ^ 31"
  shows "computeTermCount = aeron_logbuffer_compute_term_count \<and>
    computePosition = aeron_logbuffer_compute_position \<and>
    computeTermBeginPosition = aeron_logbuffer_compute_term_begin_position \<and>
    termId = aeron_logbuffer_term_id \<and>
    indexByTermCount (scast (word_of_nat n :: s32)) = uint (aeron_logbuffer_index_by_term_count (word_of_nat n)) \<and>
    indexByPosition (word_of_nat p) b = uint (aeron_logbuffer_index_by_position (word_of_nat p) b) \<and>
    termOffset raw (int len) = sint (aeron_logbuffer_term_offset raw (word_of_nat len)) \<and>
    computeFragmentedFrameLength (int msg_len) (int mx) =
      uint (aeron_logbuffer_compute_fragmented_length (word_of_nat msg_len) (word_of_nat mx)) \<and>
    computeFragmentedFrameLength (int msg_len) (int mx) < 2 ^ 31 \<and>
    rotateLog m (word_of_nat n) i =
      fst (((\<lambda>(m, pc). rotate_log_step m pc) ^^ 3) (m, Rotate_read (word_of_nat n) i))"
proof (intro conjI)
  have small: "uint (word_of_nat (k mod 3) :: u64) = int (k mod 3)" for k
    using unat_of_nat_u64 [of "k mod 3"] by (simp add: uint_nat)
  show "indexByTermCount (scast (word_of_nat n :: s32)) = uint (aeron_logbuffer_index_by_term_count (word_of_nat n))"
    using assms(1) small by (simp add: indexByTermCount_of_nat index_of_count)
  have "p div 2 ^ b < 2 ^ 63" using assms(2) div_le_dividend [of p "2 ^ b"] by (rule le_less_trans [rotated])
  then show "indexByPosition (word_of_nat p) b = uint (aeron_logbuffer_index_by_position (word_of_nat p) b)"
    using assms(2) small
    by (simp add: indexByPosition_of_nat aeron_logbuffer_index_by_position_def signed_drop_of_nat sint_of_nat(2) smod_of_nat)
  show "termOffset raw (int len) = sint (aeron_logbuffer_term_offset raw (word_of_nat len))"
    using assms(3) by (simp only: termOffset_div C_term_offset)
  show "computeFragmentedFrameLength (int msg_len) (int mx) =
      uint (aeron_logbuffer_compute_fragmented_length (word_of_nat msg_len) (word_of_nat mx))"
  proof -
    have u: "unat (word_of_nat msg_len :: u64) = msg_len" "unat (word_of_nat mx :: u64) = mx"
      using assms(4,6) by (simp_all add: unat_of_nat_u64)
    have "msg_len + (msg_len div mx + 2) * 64 \<le> msg_len + (msg_len + 2) * 64" by (simp add: div_le_dividend)
    also have "\<dots> < 2 ^ 64" using assms(4) by simp
    finally show ?thesis
      using fragmented_length_eq [of "word_of_nat mx" "word_of_nat msg_len"] assms(5,6)
      unfolding u computeFragmentedFrameLength_of_nat by (simp add: uint_nat)
  qed
  show "computeFragmentedFrameLength (int msg_len) (int mx) < 2 ^ 31"
    by (rule computeFragmentedFrameLength_less [OF assms(4,5)])
  have "word_of_nat n + 1 = (word_of_nat (n + 1) :: s32)" by simp
  then have "0 \<le> sint (word_of_nat n + 1 :: s32)" using sint_of_nat(1) [OF assms(1)] by (simp only:)
  then show "rotateLog m (word_of_nat n) i =
      fst (((\<lambda>(m, pc). rotate_log_step m pc) ^^ 3) (m, Rotate_read (word_of_nat n) i))"
    by (rule rotateLog_eq)
qed (simp_all add: fun_eq_iff computePosition_eq termId_eq computeTermBeginPosition_def aeron_logbuffer_compute_term_count_def
    aeron_logbuffer_compute_term_begin_position_def aeron_logbuffer_compute_position_def)

theorem cpp_descriptor_agrees_witness:
  "computeFragmentedFrameLength 3000 1376 = uint (aeron_logbuffer_compute_fragmented_length 3000 1376) \<and>
   computeFragmentedFrameLength 3000 1376 = 3104"
  using cpp_descriptor_agrees [of 5 100000 3000 3000 1376 16 0 undefined 0]
  by (simp add: computeFragmentedFrameLength_of_nat [of 3000 1376, simplified] align_up_def)

end
