(* ===== verification/CppPublication.thy ===== *)
theory CppPublication
  imports CppLogBuffer
begin

text \<open>
  \<open>Publication.h\<close> of the C++ client: claiming space in the active term by moving its tail, writing the
  frames of a message there, and moving on to the next term. One call runs at a time here; that the
  rotation is safe among many threads is shown in \<open>LogRotation\<close>. The object's constructor is only
  declared in the header, so its members are taken as given; \<open>offer\<close> of a range of buffers takes the
  buffers as a list. A call that throws leaves its caller an exception and a log about which nothing is
  said here.
\<close>

section \<open>The object\<close>

definition NOT_CONNECTED :: s64 where "NOT_CONNECTED = - 1"
definition BACK_PRESSURED :: s64 where "BACK_PRESSURED = - 2"
definition ADMIN_ACTION :: s64 where "ADMIN_ACTION = - 3"
definition PUBLICATION_CLOSED :: s64 where "PUBLICATION_CLOSED = - 4"
definition MAX_POSITION_EXCEEDED :: s64 where "MAX_POSITION_EXCEEDED = - 5"

text \<open>The limit is the value of the counter the driver sets.\<close>

record publication =
  logBuffers :: "atomic_buffer list"
  logMetaData :: logbuffer_metadata
  maxPossiblePosition :: s64
  initialTermId :: s32
  maxPayloadLength :: int
  maxMessageLength :: int
  pub_bitsToShift :: nat
  pub_limit :: s64
  pub_isClosed :: bool
  headerWriter :: header_writer

type_synonym reserved_value_supplier = "atomic_buffer \<Rightarrow> int \<Rightarrow> int \<Rightarrow> s64"

definition DEFAULT_RESERVED_VALUE_SUPPLIER :: reserved_value_supplier where
  "DEFAULT_RESERVED_VALUE_SUPPLIER termBuffer offset len = 0"

definition term_buffer :: "publication \<Rightarrow> int \<Rightarrow> atomic_buffer" where
  "term_buffer p partitionIndex = logBuffers p ! nat partitionIndex"

definition put_term :: "publication \<Rightarrow> int \<Rightarrow> atomic_buffer \<Rightarrow> publication" where
  "put_term p partitionIndex b = p\<lparr>logBuffers := (logBuffers p)[nat partitionIndex := b]\<rparr>"

definition close :: "publication \<Rightarrow> publication" where
  "close p = p\<lparr>pub_isClosed := True\<rparr>"

definition pub_isConnected :: "publication \<Rightarrow> bool" where
  "pub_isConnected p \<longleftrightarrow> \<not> pub_isClosed p \<and> isConnected (logMetaData p)"

definition pub_position :: "publication \<Rightarrow> s64" where
  "pub_position p =
     (if pub_isClosed p then PUBLICATION_CLOSED
      else let raw = rawTailVolatile (logMetaData p);
               offset = termOffset raw (capacity (term_buffer p 0))
           in computePosition (termId raw) (word_of_int offset) (pub_bitsToShift p) (initialTermId p))"

definition publicationLimit :: "publication \<Rightarrow> s64" where
  "publicationLimit p = (if pub_isClosed p then PUBLICATION_CLOSED else pub_limit p)"

definition availableWindow :: "publication \<Rightarrow> s64" where
  "availableWindow p = (if pub_isClosed p then PUBLICATION_CLOSED else pub_limit p - pub_position p)"

section \<open>Private operations\<close>

definition checkMaxMessageLength :: "publication \<Rightarrow> int \<Rightarrow> unit cpp" where
  "checkMaxMessageLength p len = (if maxMessageLength p < len then Inl IllegalArgumentException else Inr ())"

definition checkPayloadLength :: "publication \<Rightarrow> int \<Rightarrow> unit cpp" where
  "checkPayloadLength p len = (if maxPayloadLength p < len then Inl IllegalArgumentException else Inr ())"

text \<open>The padding frame at the end of a term, and the whole of the operation.\<close>

definition pad_term :: "endian \<Rightarrow> publication \<Rightarrow> int \<Rightarrow> int \<Rightarrow> int \<Rightarrow> s32 \<Rightarrow> publication cpp" where
  "pad_term e p partitionIndex offset termLength i =
     (if offset < termLength
      then let paddingLength = termLength - offset
           in andThen (write_header e (headerWriter p) (term_buffer p partitionIndex) offset paddingLength i) (\<lambda>b.
              andThen (set_frameType e b offset HDR_TYPE_PAD) (\<lambda>b.
              andThen (frameLengthOrdered e b offset (word_of_int paddingLength)) (\<lambda>b.
                Inr (put_term p partitionIndex b))))
      else Inr p)"

definition handleEndOfLogCondition ::
  "endian \<Rightarrow> publication \<Rightarrow> int \<Rightarrow> int \<Rightarrow> int \<Rightarrow> s32 \<Rightarrow> s64 \<Rightarrow> (publication \<times> s64) cpp" where
  "handleEndOfLogCondition e p partitionIndex offset termLength i position =
     andThen (pad_term e p partitionIndex offset termLength i) (\<lambda>p.
       if maxPossiblePosition p \<le>s position then Inr (p, MAX_POSITION_EXCEEDED)
       else let termCount = computeTermCount i (initialTermId p)
            in Inr (p\<lparr>logMetaData := rotateLog (logMetaData p) termCount i\<rparr>, ADMIN_ACTION))"

definition backPressureStatus :: "publication \<Rightarrow> s64 \<Rightarrow> int \<Rightarrow> s64" where
  "backPressureStatus p currentPosition messageLength =
     (if maxPossiblePosition p \<le>s currentPosition + word_of_int (align (messageLength + DATA_FRAME_LENGTH) FRAME_ALIGNMENT)
      then MAX_POSITION_EXCEEDED
      else if isConnected (logMetaData p) then BACK_PRESSURED
      else NOT_CONNECTED)"

text \<open>
  The common beginning of the appending operations: \<open>getAndAddInt64\<close> on the tail of the partition by the
  aligned length, and then either the end of the term, or \<open>append\<close> at the offset the tail had.
\<close>

definition reserving ::
  "endian \<Rightarrow> publication \<Rightarrow> int \<Rightarrow> int \<Rightarrow> (atomic_buffer \<Rightarrow> int \<Rightarrow> s32 \<Rightarrow> atomic_buffer cpp)
   \<Rightarrow> (publication \<times> s64) cpp" where
  "reserving e p partitionIndex alignedLength append_at =
     (let raw = rawTail (logMetaData p) partitionIndex;
          p = p\<lparr>logMetaData := put_rawTail (logMetaData p) partitionIndex (raw + word_of_int alignedLength)\<rparr>;
          termBuffer = term_buffer p partitionIndex;
          termLength = capacity termBuffer;
          offset = termOffset raw termLength;
          i = termId raw;
          resultingOffset = offset + alignedLength;
          position = computePosition i (word_of_int resultingOffset) (pub_bitsToShift p) (initialTermId p)
      in if termLength < resultingOffset
         then handleEndOfLogCondition e p partitionIndex offset termLength i position
         else andThen (append_at termBuffer offset i) (\<lambda>b. Inr (put_term p partitionIndex b, position)))"

text \<open>The claim is wrapped around the frame unless the term has ended.\<close>

definition claim :: "endian \<Rightarrow> publication \<Rightarrow> int \<Rightarrow> int \<Rightarrow> buffer_claim \<Rightarrow> (publication \<times> buffer_claim \<times> s64) cpp" where
  "claim e p partitionIndex len bufferClaim =
     (let frameLength = len + DATA_FRAME_LENGTH;
          alignedLength = align frameLength FRAME_ALIGNMENT;
          termLength = capacity (term_buffer p partitionIndex);
          offset = termOffset (rawTail (logMetaData p) partitionIndex) termLength
      in andThen
           (reserving e p partitionIndex alignedLength (\<lambda>termBuffer offset i.
              write_header e (headerWriter p) termBuffer offset frameLength i))
           (\<lambda>(p, position). Inr (p,
              if termLength < offset + alignedLength then bufferClaim else claim_wrap partitionIndex offset frameLength,
              position)))"

text \<open>The last stores of a frame: the reserved value and, publishing it, the length.\<close>

definition finish_frame :: "endian \<Rightarrow> reserved_value_supplier \<Rightarrow> int \<Rightarrow> int \<Rightarrow> atomic_buffer \<Rightarrow> atomic_buffer cpp" where
  "finish_frame e supplier frameOffset frameLength b =
     (let reservedValue = supplier b frameOffset frameLength
      in andThen (putInt64 e b (frameOffset + RESERVED_VALUE_FIELD_OFFSET) reservedValue) (\<lambda>b.
         frameLengthOrdered e b frameOffset (word_of_int frameLength)))"

definition appendUnfragmentedMessage ::
  "endian \<Rightarrow> publication \<Rightarrow> int \<Rightarrow> atomic_buffer \<Rightarrow> int \<Rightarrow> int \<Rightarrow> reserved_value_supplier \<Rightarrow> (publication \<times> s64) cpp" where
  "appendUnfragmentedMessage e p partitionIndex srcBuffer srcOffset len supplier =
     (let frameLength = len + DATA_FRAME_LENGTH;
          alignedLength = align frameLength FRAME_ALIGNMENT
      in reserving e p partitionIndex alignedLength (\<lambda>termBuffer frameOffset i.
           andThen (write_header e (headerWriter p) termBuffer frameOffset frameLength i) (\<lambda>b.
           andThen (putBytes b (frameOffset + DATA_FRAME_LENGTH) srcBuffer srcOffset len) (\<lambda>b.
             finish_frame e supplier frameOffset frameLength b))))"

text \<open>
  The loop over the fragments. The members make every pass write at least one byte; a maximum payload
  that is not positive, with which the loop would not get on, has no defined meaning (and zero would
  already have divided by zero before the loop).
\<close>

function fragment_loop ::
  "endian \<Rightarrow> header_writer \<Rightarrow> int \<Rightarrow> s32 \<Rightarrow> ('x \<Rightarrow> atomic_buffer \<Rightarrow> int \<Rightarrow> int \<Rightarrow> (atomic_buffer \<times> 'x) cpp)
   \<Rightarrow> reserved_value_supplier \<Rightarrow> u8 \<Rightarrow> int \<Rightarrow> int \<Rightarrow> 'x \<Rightarrow> atomic_buffer \<Rightarrow> atomic_buffer cpp" where
  "fragment_loop e hw mx i put_payload supplier flags remaining frameOffset x b =
     (let bytesToWrite = min remaining mx;
          frameLength = bytesToWrite + DATA_FRAME_LENGTH;
          alignedLength = align frameLength FRAME_ALIGNMENT
      in if bytesToWrite \<le> 0 then Inl UndefinedBehaviour
         else andThen (write_header e hw b frameOffset frameLength i) (\<lambda>b.
              andThen (put_payload x b (frameOffset + DATA_FRAME_LENGTH) bytesToWrite) (\<lambda>(b, x).
                let flags = (if remaining \<le> mx then flags OR END_FRAG else flags)
                in andThen (frameFlags e b frameOffset flags) (\<lambda>b.
                   andThen (finish_frame e supplier frameOffset frameLength b) (\<lambda>b.
                     if 0 < remaining - bytesToWrite
                     then fragment_loop e hw mx i put_payload supplier 0 (remaining - bytesToWrite)
                            (frameOffset + alignedLength) x b
                     else Inr b)))))"
  by pat_completeness auto
termination
  by (relation "measure (\<lambda>(_, _, _, _, _, _, _, remaining, _). nat remaining)") auto

declare fragment_loop.simps [simp del]

text \<open>What the loop writes as payload: the next bytes of the source, from \<open>srcOffset + (length - remaining)\<close>.\<close>

definition next_bytes :: "atomic_buffer \<Rightarrow> int \<Rightarrow> atomic_buffer \<Rightarrow> int \<Rightarrow> int \<Rightarrow> (atomic_buffer \<times> int) cpp" where
  "next_bytes srcBuffer from b payloadOffset bytesToWrite =
     andThen (putBytes b payloadOffset srcBuffer from bytesToWrite) (\<lambda>b. Inr (b, from + bytesToWrite))"

definition appendFragmentedMessage ::
  "endian \<Rightarrow> publication \<Rightarrow> int \<Rightarrow> atomic_buffer \<Rightarrow> int \<Rightarrow> int \<Rightarrow> reserved_value_supplier \<Rightarrow> (publication \<times> s64) cpp" where
  "appendFragmentedMessage e p partitionIndex srcBuffer srcOffset len supplier =
     (if maxPayloadLength p = 0 then Inl UndefinedBehaviour
      else reserving e p partitionIndex (computeFragmentedFrameLength len (maxPayloadLength p)) (\<lambda>termBuffer frameOffset i.
             fragment_loop e (headerWriter p) (maxPayloadLength p) i (next_bytes srcBuffer) supplier
               BEGIN_FRAG len frameOffset srcOffset termBuffer))"

section \<open>Appending from several buffers\<close>

text \<open>The iterator is the list of the buffers from the current one on; past its end it must not be used.\<close>

fun put_buffers :: "int \<Rightarrow> int \<Rightarrow> atomic_buffer list \<Rightarrow> atomic_buffer \<Rightarrow> atomic_buffer cpp" where
  "put_buffers endingOffset offset bufs b =
     (if offset < endingOffset
      then case bufs of
             [] \<Rightarrow> Inl UndefinedBehaviour
           | buf # rest \<Rightarrow> andThen (putBytes b offset buf 0 (capacity buf)) (\<lambda>b.
               put_buffers endingOffset (offset + capacity buf) rest b)
      else Inr b)"

declare put_buffers.simps [simp del]

definition appendUnfragmentedMessage_vectored ::
  "endian \<Rightarrow> publication \<Rightarrow> int \<Rightarrow> atomic_buffer list \<Rightarrow> int \<Rightarrow> reserved_value_supplier \<Rightarrow> (publication \<times> s64) cpp" where
  "appendUnfragmentedMessage_vectored e p partitionIndex bufs len supplier =
     (let frameLength = len + DATA_FRAME_LENGTH;
          alignedLength = align frameLength FRAME_ALIGNMENT
      in reserving e p partitionIndex alignedLength (\<lambda>termBuffer frameOffset i.
           andThen (write_header e (headerWriter p) termBuffer frameOffset frameLength i) (\<lambda>b.
           andThen (put_buffers (frameOffset + DATA_FRAME_LENGTH + len) (frameOffset + DATA_FRAME_LENGTH) bufs b) (\<lambda>b.
             finish_frame e supplier frameOffset frameLength b))))"

text \<open>The inner loop of the fragmented case, with the iterator and the offset in the current buffer.\<close>

function gather ::
  "int \<Rightarrow> int \<Rightarrow> int \<Rightarrow> atomic_buffer list \<Rightarrow> int \<Rightarrow> atomic_buffer \<Rightarrow> (atomic_buffer \<times> atomic_buffer list \<times> int) cpp" where
  "gather bytesToWrite bytesWritten payloadOffset [] currentBufferOffset b = Inl UndefinedBehaviour"
| "gather bytesToWrite bytesWritten payloadOffset (buf # rest) currentBufferOffset b =
     (let currentBufferRemaining = capacity buf - currentBufferOffset;
          numBytes = min (bytesToWrite - bytesWritten) currentBufferRemaining
      in andThen (putBytes b payloadOffset buf currentBufferOffset numBytes) (\<lambda>b.
           let (bufs, currentBufferOffset) =
                 (if currentBufferRemaining \<le> numBytes then (rest, 0) else (buf # rest, currentBufferOffset + numBytes))
           in if bytesWritten + numBytes < bytesToWrite
              then gather bytesToWrite (bytesWritten + numBytes) (payloadOffset + numBytes) bufs currentBufferOffset b
              else Inr (b, bufs, currentBufferOffset)))"
  by pat_completeness auto
termination
  by (relation "measure (\<lambda>(_, _, _, bufs, _). length bufs)") (auto split: if_splits)

declare gather.simps [simp del]

definition next_gathered ::
  "atomic_buffer list \<times> int \<Rightarrow> atomic_buffer \<Rightarrow> int \<Rightarrow> int \<Rightarrow> (atomic_buffer \<times> atomic_buffer list \<times> int) cpp" where
  "next_gathered it b payloadOffset bytesToWrite = gather bytesToWrite 0 payloadOffset (fst it) (snd it) b"

definition appendFragmentedMessage_vectored ::
  "endian \<Rightarrow> publication \<Rightarrow> int \<Rightarrow> atomic_buffer list \<Rightarrow> int \<Rightarrow> reserved_value_supplier \<Rightarrow> (publication \<times> s64) cpp" where
  "appendFragmentedMessage_vectored e p partitionIndex bufs len supplier =
     (if maxPayloadLength p = 0 then Inl UndefinedBehaviour
      else reserving e p partitionIndex (computeFragmentedFrameLength len (maxPayloadLength p)) (\<lambda>termBuffer frameOffset i.
             fragment_loop e (headerWriter p) (maxPayloadLength p) i next_gathered supplier
               BEGIN_FRAG len frameOffset (bufs, 0) termBuffer))"

section \<open>Offering and claiming\<close>

text \<open>
  The common part of the public operations; \<open>body\<close> runs when the position is below the limit, and \<open>refused\<close>
  makes a result of the answer otherwise.
\<close>

definition on_active_term :: "publication \<Rightarrow> int \<Rightarrow> (s64 \<Rightarrow> 'r) \<Rightarrow> (int \<Rightarrow> 'r cpp) \<Rightarrow> 'r cpp" where
  "on_active_term p len refused body =
     (if pub_isClosed p then Inr (refused PUBLICATION_CLOSED)
      else let limit = pub_limit p;
               termCount = activeTermCount (logMetaData p);
               partitionIndex = indexByTermCount (scast termCount);
               raw = rawTail (logMetaData p) partitionIndex;
               offset = termOffset raw (capacity (term_buffer p partitionIndex));
               i = termId raw
           in if termCount \<noteq> computeTermCount i (initialTermId p) then Inr (refused ADMIN_ACTION)
              else let position = computePosition i (word_of_int offset) (pub_bitsToShift p) (initialTermId p)
                   in if position <s limit then body partitionIndex
                      else Inr (refused (backPressureStatus p position len)))"

definition offer ::
  "endian \<Rightarrow> publication \<Rightarrow> atomic_buffer \<Rightarrow> int \<Rightarrow> int \<Rightarrow> reserved_value_supplier \<Rightarrow> (publication \<times> s64) cpp" where
  "offer e p buffer offset len supplier =
     on_active_term p len (Pair p) (\<lambda>partitionIndex.
       if len \<le> maxPayloadLength p
       then appendUnfragmentedMessage e p partitionIndex buffer offset len supplier
       else andThen (checkMaxMessageLength p len) (\<lambda>_.
              appendFragmentedMessage e p partitionIndex buffer offset len supplier))"

definition offer_buffer :: "endian \<Rightarrow> publication \<Rightarrow> atomic_buffer \<Rightarrow> (publication \<times> s64) cpp" where
  "offer_buffer e p buffer = offer e p buffer 0 (capacity buffer) DEFAULT_RESERVED_VALUE_SUPPLIER"

text \<open>
  The sum of the capacities, 32 bits wide; the source throws when it has become negative. Capacities are
  not negative, so this is its test for an overflow, and it relies on the signed sum to wrap, which
  the language leaves undefined; the model gives the sum that value.
\<close>

fun total_length :: "s32 \<Rightarrow> atomic_buffer list \<Rightarrow> s32 cpp" where
  "total_length len [] = Inr len"
| "total_length len (buf # bufs) =
     (if len + m_length buf <s 0 then Inl IllegalStateException else total_length (len + m_length buf) bufs)"

definition offer_vectored ::
  "endian \<Rightarrow> publication \<Rightarrow> atomic_buffer list \<Rightarrow> reserved_value_supplier \<Rightarrow> (publication \<times> s64) cpp" where
  "offer_vectored e p bufs supplier =
     andThen (total_length 0 bufs) (\<lambda>total.
       let len = sint total
       in on_active_term p len (Pair p) (\<lambda>partitionIndex.
            if len \<le> maxPayloadLength p
            then appendUnfragmentedMessage_vectored e p partitionIndex bufs len supplier
            else andThen (checkMaxMessageLength p len) (\<lambda>_.
                   appendFragmentedMessage_vectored e p partitionIndex bufs len supplier)))"

definition tryClaim :: "endian \<Rightarrow> publication \<Rightarrow> int \<Rightarrow> buffer_claim \<Rightarrow> (publication \<times> buffer_claim \<times> s64) cpp" where
  "tryClaim e p len bufferClaim =
     andThen (checkPayloadLength p len) (\<lambda>_.
       on_active_term p len (\<lambda>answer. (p, bufferClaim, answer)) (\<lambda>partitionIndex. claim e p partitionIndex len bufferClaim))"

section \<open>What the loop writes\<close>

text \<open>
  A frame is its header and its payload; in the log it takes a whole number of alignment units, the
  rest of the last one being zero.
\<close>

type_synonym frame = "data_header \<times> u8 list"

definition frame_image :: "endian \<Rightarrow> frame \<Rightarrow> u8 list" where
  "frame_image e f = data_header_bytes e (fst f) @ snd f @
     replicate (align_up (length (snd f) + 32) 32 - (length (snd f) + 32)) 0"

definition frames_image :: "endian \<Rightarrow> frame list \<Rightarrow> u8 list" where
  "frames_image e fs = concat (map (frame_image e) fs)"

lemma length_frame_image [simp]: "length (frame_image e f) = align_up (length (snd f) + 32) 32"
  using align_up_bounds(1) [of 32 "length (snd f) + 32"] by (simp add: frame_image_def)

lemma frames_image_simps [simp]:
  "frames_image e [] = []" "frames_image e (f # fs) = frame_image e f @ frames_image e fs"
  "frames_image e (fs @ gs) = frames_image e fs @ frames_image e gs"
  by (simp_all add: frames_image_def)

text \<open>
  The frames of a message of which the bytes \<open>msg\<close> are left, from the offset \<open>off\<close> on: each carries as much
  as fits, the first the flags given, the last the end flag, and the offset it stands at.
\<close>

fun is_fragments :: "header_writer \<Rightarrow> nat \<Rightarrow> s32 \<Rightarrow> u8 \<Rightarrow> nat \<Rightarrow> u8 list \<Rightarrow> frame list \<Rightarrow> bool" where
  "is_fragments hw mx i flags off msg [] \<longleftrightarrow> False"
| "is_fragments hw mx i flags off msg ((h, p) # fs) \<longleftrightarrow>
     p = take mx msg \<and>
     h = frame_hdr hw (length p + 32) (if length msg \<le> mx then flags OR END_FRAG else flags) HDR_TYPE_DATA off i (dh_reserved_value h) \<and>
     (if length msg \<le> mx then fs = []
      else is_fragments hw mx i 0 (off + align_up (length p + 32) 32) (drop mx msg) fs)"

lemma frame_hdr_reserved [simp]: "dh_reserved_value (frame_hdr hw len f t off i rv) = rv"
  by (simp add: frame_hdr_def)

text \<open>Writing header and payload over zeros leaves the image of the frame and zeros.\<close>

lemma patch_zeros:
  assumes "align_up (length p + 32) 32 \<le> r"
  shows "patch (A @ replicate r 0) (length A) (data_header_bytes e h @ p) =
    A @ frame_image e (h, p) @ replicate (r - align_up (length p + 32) 32) 0"
proof -
  have "length p + 32 \<le> align_up (length p + 32) 32" by (rule align_up_bounds) simp
  moreover from this assms obtain d where "r = align_up (length p + 32) 32 + d" by (metis le_Suc_ex)
  ultimately show ?thesis
    by (simp add: patch_def frame_image_def add.commute flip: replicate_add)
qed

text \<open>The length of all frames of a message.\<close>

definition framed_total :: "nat \<Rightarrow> nat \<Rightarrow> nat" where
  "framed_total mx n = (if n \<le> mx then align_up (n + 32) 32
     else sum_list (map (\<lambda>p. align_up (p + 32) 32) (payloads mx n)))"

lemma framed_total_step:
  "0 < mx \<Longrightarrow> framed_total mx n = align_up (min n mx + 32) 32 + (if mx < n then framed_total mx (n - mx) else 0)"
  by (cases "n - mx \<le> mx") (auto simp: framed_total_def min_def payloads.simps [of mx n] payloads.simps [of mx "n - mx"])

lemma framed_total_eq:
  assumes "0 < mx" and "32 dvd mx" and "mx < n"
  shows "int (framed_total mx n) = computeFragmentedFrameLength (int n) (int mx)"
proof -
  have "align_up (mx + 32) 32 = mx + 32" using assms(2) by (intro align_up_self) simp_all
  then show ?thesis
    using assms by (auto simp: framed_total_def payloads_eq computeFragmentedFrameLength_of_nat sum_list_replicate map_replicate)
qed

text \<open>The last stores of a frame over zeros.\<close>

lemma frame_finished:
  assumes "sound b" and b: "m_buffer b = A @ replicate r 0" and q: "length q = n" and r: "align_up (n + 32) 32 \<le> r"
    and l: "length l = 4" and y: "length y = 8"
  shows "\<exists>h b'. finish_frame e supplier (int (length A)) (int n + DATA_FRAME_LENGTH)
      (framed b (length A) l CURRENT_VERSION flags (host_bytes e 2 HDR_TYPE_DATA) (header_numbers e hw (length A) i) y q) = Inr b' \<and>
    sound b' \<and> m_buffer b' = A @ frame_image e (h, q) @ replicate (r - align_up (n + 32) 32) 0 \<and>
    h = frame_hdr hw (n + 32) flags HDR_TYPE_DATA (length A) i (dh_reserved_value h)"
proof -
  let ?o = "length A" and ?t = "host_bytes e 2 HDR_TYPE_DATA" and ?r = "header_numbers e hw (length A) i"
  have "n + 32 \<le> align_up (n + 32) 32" by (rule align_up_bounds) simp
  then have fits: "frame_fits b ?o l' ?t ?r y' q" if "length l' = 4" "length y' = 8" for l' y'
    using that assms(1) r q by (simp add: frame_fits_def b)
  define rv where "rv = supplier (framed b ?o l CURRENT_VERSION flags ?t ?r y q) (int ?o) (int n + 32)"
  define b' where "b' = framed b ?o (host_bytes e 4 (word_of_nat (n + 32) :: s32)) CURRENT_VERSION flags ?t ?r (host_bytes e 8 rv) q"
  have "finish_frame e supplier (int ?o) (int n + DATA_FRAME_LENGTH) (framed b ?o l CURRENT_VERSION flags ?t ?r y q) =
      frameLengthOrdered e (framed b ?o l CURRENT_VERSION flags ?t ?r (host_bytes e 8 rv) q) (int ?o) (word_of_int (int n + 32))"
    by (simp add: finish_frame_def framed_reserved_put [OF fits [OF l y]] rv_def) (simp add: DATA_FRAME_LENGTH_def)
  then have "finish_frame e supplier (int ?o) (int n + DATA_FRAME_LENGTH) (framed b ?o l CURRENT_VERSION flags ?t ?r y q) = Inr b'"
    using framed_length_put [OF fits [OF l], of "host_bytes e 8 rv"] by (simp add: b'_def)
  moreover have "m_buffer b' = A @ frame_image e (frame_hdr hw (n + 32) flags HDR_TYPE_DATA ?o i rv, q) @ replicate (r - align_up (n + 32) 32) 0"
    unfolding b'_def framed_frame using patch_zeros [of q r A e] r q by (simp add: b)
  moreover have "sound b'" unfolding b'_def by (intro framed_sound fits) simp_all
  ultimately show ?thesis
    by (intro exI [of _ "frame_hdr hw (n + 32) flags HDR_TYPE_DATA ?o i rv"] exI [of _ b']) simp
qed

text \<open>
  Where payloads come from: a source \<open>x\<close> feeds the bytes \<open>msg\<close>, and writing the next bytes as the payload
  of a frame takes them from its front.
\<close>

locale payload_source =
  fixes put_payload :: "'x \<Rightarrow> atomic_buffer \<Rightarrow> int \<Rightarrow> int \<Rightarrow> (atomic_buffer \<times> 'x) cpp"
    and feeds :: "'x \<Rightarrow> u8 list \<Rightarrow> bool"
  assumes put_payload_feeds: "feeds x msg \<Longrightarrow> frame_fits b o1 l t r y p \<Longrightarrow> 0 < length p \<Longrightarrow> length p \<le> length msg \<Longrightarrow>
    \<exists>x'. put_payload x (framed b o1 l v f t r y p) (int o1 + DATA_FRAME_LENGTH) (int (length p)) =
      Inr (framed b o1 l v f t r y (take (length p) msg), x') \<and> feeds x' (drop (length p) msg)"
begin

text \<open>One pass of the loop.\<close>

lemma fragment_written:
  fixes flags :: u8
  assumes "sound b" and b: "m_buffer b = A @ replicate r 0" and n: "n = min (length msg) mx" "0 < n"
    and r: "align_up (n + 32) 32 \<le> r" and x: "feeds x msg"
  defines "flags' \<equiv> (if length msg \<le> mx then flags OR END_FRAG else flags)"
  shows "\<exists>h b' x'. fragment_loop e hw (int mx) i put_payload supplier flags (int (length msg)) (int (length A)) x b =
      (if mx < length msg
       then fragment_loop e hw (int mx) i put_payload supplier 0 (int (length msg - mx)) (int (length A + align_up (n + 32) 32)) x' b'
       else Inr b') \<and> feeds x' (drop n msg) \<and> sound b' \<and>
    m_buffer b' = A @ frame_image e (h, take n msg) @ replicate (r - align_up (n + 32) 32) 0 \<and>
    h = frame_hdr hw (n + 32) flags' HDR_TYPE_DATA (length A) i (dh_reserved_value h)"
proof -
  let ?o = "length A" and ?t = "host_bytes e 2 HDR_TYPE_DATA" and ?r = "header_numbers e hw (length A) i"
    and ?p = "take n (drop (length A + 32) (m_buffer b))"
  have up: "n + 32 \<le> align_up (n + 32) 32" by (rule align_up_bounds) simp
  have room: "?o + 32 + n \<le> length (m_buffer b)" using up r by (simp add: b)
  have p: "length ?p = n" "length (take n msg) = n" using room n by simp_all
  define l y where "l = host_bytes e 4 (word_of_int (- (int n + 32)) :: s32)" and "y = take 8 (drop (?o + 24) (m_buffer b))"
  have ly: "length l = 4" "length y = 8" using room by (simp_all add: l_def y_def)
  have fits: "frame_fits b ?o l ?t ?r y q" if "length q = n" for q
    using that assms(1) room ly by (simp add: frame_fits_def)
  have hdr: "write_header e hw b (int ?o) (int n + DATA_FRAME_LENGTH) i = Inr (framed b ?o l CURRENT_VERSION UNFRAGMENTED ?t ?r y ?p)"
    using framed_header_put [OF assms(1) room, of e hw "int n + 32" i] by (simp add: DATA_FRAME_LENGTH_def l_def y_def)
  obtain x' where pay: "put_payload x (framed b ?o l CURRENT_VERSION UNFRAGMENTED ?t ?r y ?p) (int ?o + DATA_FRAME_LENGTH) (int n) =
      Inr (framed b ?o l CURRENT_VERSION UNFRAGMENTED ?t ?r y (take n msg), x')" and x': "feeds x' (drop n msg)"
    using put_payload_feeds [OF x fits [OF p(1)], of CURRENT_VERSION UNFRAGMENTED] n unfolding p by auto
  have flags: "frameFlags e (framed b ?o l CURRENT_VERSION UNFRAGMENTED ?t ?r y (take n msg)) (int ?o) flags' =
      Inr (framed b ?o l CURRENT_VERSION flags' ?t ?r y (take n msg))"
    by (rule framed_flags_put [OF fits [OF p(2)]])
  obtain h b' where fin: "finish_frame e supplier (int ?o) (int n + DATA_FRAME_LENGTH)
      (framed b ?o l CURRENT_VERSION flags' ?t ?r y (take n msg)) = Inr b'"
    and b': "sound b'" "m_buffer b' = A @ frame_image e (h, take n msg) @ replicate (r - align_up (n + 32) 32) 0"
      "h = frame_hdr hw (n + 32) flags' HDR_TYPE_DATA ?o i (dh_reserved_value h)"
    using frame_finished [OF assms(1) b p(2) r ly, of e supplier flags' hw i] by blast
  have "int (length msg) - int n = int (length msg - mx)" if "mx < length msg" using that n by simp
  moreover have "align (int n + DATA_FRAME_LENGTH) FRAME_ALIGNMENT = int (align_up (n + 32) 32)"
    using align_frame [of "n + 32"] by (simp add: DATA_FRAME_LENGTH_def)
  moreover have "min (int (length msg)) (int mx) = int n" using n by simp
  ultimately have "fragment_loop e hw (int mx) i put_payload supplier flags (int (length msg)) (int ?o) x b =
      (if mx < length msg
       then fragment_loop e hw (int mx) i put_payload supplier 0 (int (length msg - mx)) (int (?o + align_up (n + 32) 32)) x' b'
       else Inr b')"
    using n hdr pay flags fin by (subst fragment_loop.simps) (auto simp: Let_def flags'_def)
  then show ?thesis using x' b' by blast
qed

text \<open>The whole loop.\<close>

lemma fragments_written:
  fixes flags :: u8
  assumes "sound b" and "m_buffer b = A @ replicate r 0" and "0 < mx" and "0 < length msg" and "feeds x msg"
    and "framed_total mx (length msg) \<le> r"
  shows "\<exists>fs b'. fragment_loop e hw (int mx) i put_payload supplier flags (int (length msg)) (int (length A)) x b = Inr b' \<and>
    sound b' \<and> is_fragments hw mx i flags (length A) msg fs \<and> length (frames_image e fs) = framed_total mx (length msg) \<and>
    m_buffer b' = A @ frames_image e fs @ replicate (r - framed_total mx (length msg)) 0"
  using assms
proof (induction "length msg" arbitrary: msg b A r x flags rule: less_induct)
  case less
  define n where "n = min (length msg) mx"
  have n: "n = min (length msg) mx" "0 < n" using less.prems(3,4) by (simp_all add: n_def)
  define a where "a = align_up (n + 32) 32"
  have total: "framed_total mx (length msg) = a + (if mx < length msg then framed_total mx (length msg - mx) else 0)"
    using less.prems(3,4) framed_total_step [of mx "length msg"] by (simp add: a_def n_def)
  have "align_up (n + 32) 32 \<le> r" using total less.prems(6) by (simp add: a_def)
  from fragment_written [OF less.prems(1,2) n this less.prems(5), of e hw i supplier flags]
  obtain h b' x' where
    run: "fragment_loop e hw (int mx) i put_payload supplier flags (int (length msg)) (int (length A)) x b =
      (if mx < length msg
       then fragment_loop e hw (int mx) i put_payload supplier 0 (int (length msg - mx)) (int (length A + a)) x' b'
       else Inr b')"
    and x': "feeds x' (drop n msg)" and b': "sound b'"
    and mb: "m_buffer b' = A @ frame_image e (h, take n msg) @ replicate (r - a) 0"
    and h: "h = frame_hdr hw (n + 32) (if length msg \<le> mx then flags OR END_FRAG else flags) HDR_TYPE_DATA (length A) i (dh_reserved_value h)"
    unfolding a_def by blast
  have tk: "take n msg = take mx msg" "length (take mx msg) = n" by (simp_all add: n_def min.commute) (simp add: min_def)
  show ?case
  proof (cases "mx < length msg")
    case False
    then show ?thesis
      using run b' mb h total tk by (intro exI [of _ "[(h, take mx msg)]"] exI [of _ b']) (simp add: a_def n_def)
  next
    case True
    let ?A = "A @ frame_image e (h, take n msg)"
    have lA: "length ?A = length A + a" using tk by (simp add: a_def)
    have d: "length (drop mx msg) = length msg - mx" "n = mx" using True by (simp_all add: n_def)
    have "\<exists>fs b''. fragment_loop e hw (int mx) i put_payload supplier 0 (int (length (drop mx msg))) (int (length ?A)) x' b' = Inr b'' \<and>
        sound b'' \<and> is_fragments hw mx i 0 (length ?A) (drop mx msg) fs \<and>
        length (frames_image e fs) = framed_total mx (length (drop mx msg)) \<and>
        m_buffer b'' = ?A @ frames_image e fs @ replicate (r - a - framed_total mx (length (drop mx msg))) 0"
      using less.prems(3,6) True total x' mb d
      by (intro less.hyps [OF _ b']) simp_all
    then obtain fs b'' where f: "fragment_loop e hw (int mx) i put_payload supplier 0 (int (length msg - mx)) (int (length A + a)) x' b' = Inr b''"
        "sound b''" "is_fragments hw mx i 0 (length A + a) (drop mx msg) fs"
        "length (frames_image e fs) = framed_total mx (length msg - mx)"
        "m_buffer b'' = ?A @ frames_image e fs @ replicate (r - a - framed_total mx (length msg - mx)) 0"
      unfolding lA d(1) by blast
    show ?thesis
      using run f True total h d tk by (intro exI [of _ "(h, take mx msg) # fs"] exI [of _ b'']) (simp add: a_def)
  qed
qed

end

end
