(* ===== verification/PublicationAppends.thy ===== *)
theory PublicationAppends
  imports CppPublication
begin

text \<open>
  What \<open>offer\<close> does to the log: the frames it leaves, the position it answers, the padding and rotation
  at the end of a term, and the answers when nothing is appended.
\<close>

section \<open>Sources of payload\<close>

interpretation from_buffer: payload_source "next_bytes src" "feeds_from src" for src
proof
  fix x msg b o1 l t r y p v f
  assume a: "feeds_from src x msg" "frame_fits b o1 l t r y p" "0 < length p" "length p \<le> length msg"
  define k where "k = nat x"
  have k: "x = int k" "k + length msg \<le> length (m_buffer src)" "msg = take (length msg) (drop k (m_buffer src))" "sound src"
    using a(1) by (simp_all add: feeds_from_def k_def)
  have take: "take n msg = take n (drop k (m_buffer src))" if "n \<le> length msg" for n
    using that k(3) by (metis min.absorb1 take_take)
  have "putBytes (framed b o1 l v f t r y p) (int o1 + DATA_FRAME_LENGTH) src x (int (length p)) =
      Inr (framed b o1 l v f t r y (take (length p) msg))"
    unfolding k(1) take [OF a(4)] using a(2,4) k(2,4) by (intro framed_payload_put) simp_all
  moreover have "feeds_from src (x + int (length p)) (drop (length p) msg)"
  proof -
    have "drop (length p) msg = take (length msg - length p) (drop (k + length p) (m_buffer src))"
      by (subst k(3)) (simp add: drop_take add.commute)
    then show ?thesis using k a(4) by (simp add: feeds_from_def nat_add_distrib)
  qed
  ultimately show "\<exists>x'. next_bytes src x (framed b o1 l v f t r y p) (int o1 + DATA_FRAME_LENGTH) (int (length p)) =
      Inr (framed b o1 l v f t r y (take (length p) msg), x') \<and> feeds_from src x' (drop (length p) msg)"
    by (simp add: next_bytes_def)
qed

text \<open>The bytes of a list of buffers from an offset in the first one on.\<close>

definition feeds_gathered :: "atomic_buffer list \<times> int \<Rightarrow> u8 list \<Rightarrow> bool" where
  "feeds_gathered it msg \<longleftrightarrow> (\<forall>b\<in>set (fst it). sound b) \<and> 0 \<le> snd it \<and>
     (case fst it of [] \<Rightarrow> snd it = 0 | buf # rest \<Rightarrow> nat (snd it) \<le> length (m_buffer buf)) \<and>
     msg = drop (nat (snd it)) (concat (map m_buffer (fst it)))"

lemma framed_payload_part:
  assumes fits: "frame_fits b o1 l t r y (w @ q @ s)" and "sound src" and "k + length q \<le> length (m_buffer src)"
  shows "putBytes (framed b o1 l v f t r y (w @ q @ s)) (int o1 + DATA_FRAME_LENGTH + int (length w)) src (int k) (int (length q)) =
     Inr (framed b o1 l v f t r y (w @ take (length q) (drop k (m_buffer src)) @ s))"
proof -
  let ?b = "framed b o1 l v f t r y (w @ q @ s)" and ?q = "take (length q) (drop k (m_buffer src))"
  have "patch (patch (m_buffer b) o1 ((l @ [v, f] @ t @ r @ y @ w) @ q @ s)) (o1 + length (l @ [v, f] @ t @ r @ y @ w)) ?q =
      patch (m_buffer b) o1 ((l @ [v, f] @ t @ r @ y @ w) @ ?q @ s)"
    using fits assms(3) by (intro patch_inside) (simp_all add: frame_fits_def)
  then have "patch (m_buffer ?b) (o1 + 32 + length w) ?q = patch (m_buffer b) o1 (l @ [v, f] @ t @ r @ y @ w @ ?q @ s)"
    using fits by (simp add: framed_def frame_fits_def ac_simps)
  moreover have "nat (int o1 + DATA_FRAME_LENGTH + int (length w)) = o1 + 32 + length w" by (simp add: DATA_FRAME_LENGTH_def)
  ultimately show ?thesis
    using framed_sound [OF fits, of v f] framed_length [OF fits, of v f] fits assms(2,3)
    by (simp add: putBytes_inside frame_fits_def) (simp add: framed_def DATA_FRAME_LENGTH_def)
qed

lemma gather_feeds:
  assumes "frame_fits b o1 l t r y (w @ z)" and "feeds_gathered (bufs, cur) msg" and "z \<noteq> []" and "length z \<le> length msg"
  shows "\<exists>it'. gather (int (length (w @ z))) (int (length w)) (int o1 + DATA_FRAME_LENGTH + int (length w)) bufs cur
        (framed b o1 l v f t r y (w @ z)) = Inr (framed b o1 l v f t r y (w @ take (length z) msg), it') \<and>
      feeds_gathered it' (drop (length z) msg)"
  using assms
proof (induction bufs arbitrary: w z cur msg)
  case Nil
  then show ?case by (simp add: feeds_gathered_def)
next
  case (Cons buf rest)
  define k where "k = nat cur"
  have k: "cur = int k" "k \<le> length (m_buffer buf)" "sound buf" "msg = drop k (m_buffer buf) @ concat (map m_buffer rest)"
    "\<forall>b\<in>set rest. sound b"
    using Cons.prems(2) by (auto simp: feeds_gathered_def k_def)
  define n where "n = min (length z) (length (m_buffer buf) - k)"
  define m where "m = take n msg"
  have n: "n \<le> length z" "k + n \<le> length (m_buffer buf)" using k(2) by (auto simp: n_def)
  have m: "m = take n (drop k (m_buffer buf))" "length m = n" using n by (simp_all add: m_def k(4))
  have z: "z = take n z @ drop n z" by simp
  have put: "putBytes (framed b o1 l v f t r y (w @ z)) (int o1 + DATA_FRAME_LENGTH + int (length w)) buf cur (int n) =
      Inr (framed b o1 l v f t r y ((w @ m) @ drop n z))"
    using framed_payload_part [of b o1 l t r y w "take n z" "drop n z" buf k v f] Cons.prems(1) k(1,3) n m by simp
  have min: "min (int (length (w @ z)) - int (length w)) (capacity buf - cur) = int n"
    using k by (simp add: n_def capacity_sound of_nat_diff)
  have rem: "capacity buf - cur \<le> int n \<longleftrightarrow> length (m_buffer buf) - k \<le> n"
    using k by (auto simp: capacity_sound)
  show ?case
  proof (cases "length (m_buffer buf) - k \<le> n")
    case False
    then have nz: "n = length z" by (auto simp: n_def)
    have "feeds_gathered (buf # rest, cur + int n) (drop n msg)"
      using k n by (simp add: feeds_gathered_def nat_add_distrib add.commute)
    then show ?thesis
      using put min rem False nz k unfolding gather.simps Let_def
      by (simp add: capacity_sound m_def of_nat_diff)
  next
    case True
    have rest: "feeds_gathered (rest, 0) (drop n msg)"
      using k n True by (auto simp: feeds_gathered_def split: list.split)
    show ?thesis
    proof (cases "n < length z")
      case False
      then show ?thesis
        using put min rem True n k rest unfolding gather.simps Let_def by (simp add: capacity_sound m_def of_nat_diff)
    next
      case less: True
      have fits: "frame_fits b o1 l t r y ((w @ m) @ drop n z)" using Cons.prems(1) n m by (simp add: frame_fits_def)
      have "length (drop n z) \<le> length (drop n msg)" using Cons.prems(4) by simp
      from Cons.IH [OF fits rest _ this] less obtain it' where
        it': "gather (int (length ((w @ m) @ drop n z))) (int (length (w @ m))) (int o1 + DATA_FRAME_LENGTH + int (length (w @ m))) rest 0
            (framed b o1 l v f t r y ((w @ m) @ drop n z)) =
          Inr (framed b o1 l v f t r y ((w @ m) @ take (length (drop n z)) (drop n msg)), it')"
        "feeds_gathered it' (drop (length (drop n z)) (drop n msg))" by auto
      have "m @ take (length z - n) (drop n msg) = take (length z) msg"
        using take_add [of n "length z - n" msg] n by (simp add: m_def)
      then show ?thesis
        using put min rem True less n k it' m unfolding gather.simps Let_def
        by (simp add: capacity_sound of_nat_diff algebra_simps)
    qed
  qed
qed

interpretation from_buffers: payload_source next_gathered feeds_gathered
proof
  fix x msg b o1 l t r y p v f
  assume a: "feeds_gathered x msg" "frame_fits b o1 l t r y p" "0 < length p" "length p \<le> length msg"
  then show "\<exists>x'. next_gathered x (framed b o1 l v f t r y p) (int o1 + DATA_FRAME_LENGTH) (int (length p)) =
      Inr (framed b o1 l v f t r y (take (length p) msg), x') \<and> feeds_gathered x' (drop (length p) msg)"
    using gather_feeds [of b o1 l t r y "[]" p "fst x" "snd x" msg v f] by (auto simp: next_gathered_def)
qed

section \<open>Messages written into a term\<close>

text \<open>Over zeros, \<open>append_at\<close> writes the frames of the message, whatever the term.\<close>

definition writes_message ::
  "endian \<Rightarrow> header_writer \<Rightarrow> nat \<Rightarrow> u8 list \<Rightarrow> (atomic_buffer \<Rightarrow> int \<Rightarrow> s32 \<Rightarrow> atomic_buffer cpp) \<Rightarrow> bool" where
  "writes_message e hw mx msg append_at \<longleftrightarrow>
     (\<forall>b A r i. sound b \<longrightarrow> m_buffer b = A @ replicate r 0 \<longrightarrow> framed_total mx (length msg) \<le> r \<longrightarrow>
       (\<exists>fs b'. append_at b (int (length A)) i = Inr b' \<and> sound b' \<and> is_fragments hw mx i BEGIN_FRAG (length A) msg fs \<and>
         length (frames_image e fs) = framed_total mx (length msg) \<and>
         m_buffer b' = A @ frames_image e fs @ replicate (r - framed_total mx (length msg)) 0))"

context payload_source
begin

lemma fragmented_writes:
  "0 < mx \<Longrightarrow> 0 < length msg \<Longrightarrow> feeds x msg \<Longrightarrow>
   writes_message e hw mx msg (\<lambda>b frameOffset i.
     fragment_loop e hw (int mx) i put_payload supplier BEGIN_FRAG (int (length msg)) frameOffset x b)"
  unfolding writes_message_def by (intro allI impI fragments_written)

end

text \<open>A message in one frame, with \<open>put_all\<close> storing the whole payload.\<close>

definition puts_all :: "u8 list \<Rightarrow> (atomic_buffer \<Rightarrow> int \<Rightarrow> atomic_buffer cpp) \<Rightarrow> bool" where
  "puts_all msg put_all \<longleftrightarrow> (\<forall>b o1 l v f t r y p. frame_fits b o1 l t r y p \<longrightarrow> length p = length msg \<longrightarrow>
     put_all (framed b o1 l v f t r y p) (int o1 + DATA_FRAME_LENGTH) = Inr (framed b o1 l v f t r y msg))"

lemma unfragmented_writes:
  assumes "length msg \<le> mx" and "puts_all msg put_all"
  shows "writes_message e hw mx msg (\<lambda>b frameOffset i.
    andThen (write_header e hw b frameOffset (int (length msg) + DATA_FRAME_LENGTH) i) (\<lambda>b.
    andThen (put_all b (frameOffset + DATA_FRAME_LENGTH)) (\<lambda>b.
      finish_frame e supplier frameOffset (int (length msg) + DATA_FRAME_LENGTH) b)))"
  unfolding writes_message_def
proof (intro allI impI)
  fix b A r i
  assume sb: "sound b" and b: "m_buffer b = A @ replicate r 0" and r: "framed_total mx (length msg) \<le> r"
  let ?n = "length msg" and ?o = "length A" and ?t = "host_bytes e 2 HDR_TYPE_DATA" and ?r = "header_numbers e hw (length A) i"
    and ?p = "take (length msg) (drop (length A + 32) (m_buffer b))"
  have total: "framed_total mx ?n = align_up (?n + 32) 32" using assms(1) by (simp add: framed_total_def)
  then have room: "?o + 32 + ?n \<le> length (m_buffer b)" using align_up_bounds(1) [of 32 "?n + 32"] r by (simp add: b)
  define l y where "l = host_bytes e 4 (word_of_int (- (int ?n + 32)) :: s32)" and "y = take 8 (drop (?o + 24) (m_buffer b))"
  have ly: "length l = 4" "length y = 8" using room by (simp_all add: l_def y_def)
  have hdr: "write_header e hw b (int ?o) (int ?n + DATA_FRAME_LENGTH) i = Inr (framed b ?o l CURRENT_VERSION UNFRAGMENTED ?t ?r y ?p)"
    using framed_header_put [OF sb room, of e hw "int ?n + 32" i] by (simp add: DATA_FRAME_LENGTH_def l_def y_def)
  have "frame_fits b ?o l ?t ?r y ?p" using sb room ly by (simp add: frame_fits_def)
  then have put: "put_all (framed b ?o l CURRENT_VERSION UNFRAGMENTED ?t ?r y ?p) (int ?o + DATA_FRAME_LENGTH) =
      Inr (framed b ?o l CURRENT_VERSION UNFRAGMENTED ?t ?r y msg)"
    using assms(2) room unfolding puts_all_def by simp
  obtain h b' where "finish_frame e supplier (int ?o) (int ?n + DATA_FRAME_LENGTH)
      (framed b ?o l CURRENT_VERSION UNFRAGMENTED ?t ?r y msg) = Inr b'" "sound b'"
      "m_buffer b' = A @ frame_image e (h, msg) @ replicate (r - align_up (?n + 32) 32) 0"
      "h = frame_hdr hw (?n + 32) UNFRAGMENTED HDR_TYPE_DATA ?o i (dh_reserved_value h)"
    using frame_finished [OF sb b refl r [unfolded total] ly, of e supplier UNFRAGMENTED hw i] by blast
  then show "\<exists>fs b'. andThen (write_header e hw b (int ?o) (int ?n + DATA_FRAME_LENGTH) i) (\<lambda>b.
      andThen (put_all b (int ?o + DATA_FRAME_LENGTH)) (\<lambda>b.
        finish_frame e supplier (int ?o) (int ?n + DATA_FRAME_LENGTH) b)) = Inr b' \<and> sound b' \<and>
      is_fragments hw mx i BEGIN_FRAG ?o msg fs \<and> length (frames_image e fs) = framed_total mx ?n \<and>
      m_buffer b' = A @ frames_image e fs @ replicate (r - framed_total mx ?n) 0"
    using hdr put total assms(1)
    by (intro exI [of _ "[(h, msg)]"] exI [of _ b']) (simp add: UNFRAGMENTED_def)
qed

lemma puts_all_buffer:
  "feeds_from src from msg \<Longrightarrow> puts_all msg (\<lambda>b payloadOffset. putBytes b payloadOffset src from (int (length msg)))"
  unfolding puts_all_def
proof (intro allI impI)
  fix b o1 l v f t r y p
  assume a: "feeds_from src from msg" "frame_fits b o1 l t r y p" "length p = length msg"
  then have "from = int (nat from)" "take (length p) (drop (nat from) (m_buffer src)) = msg" "sound src"
    "nat from + length p \<le> length (m_buffer src)"
    by (auto simp: feeds_from_def)
  then show "putBytes (framed b o1 l v f t r y p) (int o1 + DATA_FRAME_LENGTH) src from (int (length msg)) =
      Inr (framed b o1 l v f t r y msg)"
    using framed_payload_put [OF a(2), of src "nat from" v f] a(3) by simp
qed

lemma put_buffers_eq:
  assumes "frame_fits b o1 l t r y (w @ z)" and "\<forall>b\<in>set bufs. sound b" and "length z = length (concat (map m_buffer bufs))"
  shows "put_buffers (int o1 + DATA_FRAME_LENGTH + int (length (w @ z))) (int o1 + DATA_FRAME_LENGTH + int (length w)) bufs
      (framed b o1 l v f t r y (w @ z)) = Inr (framed b o1 l v f t r y (w @ concat (map m_buffer bufs)))"
  using assms
proof (induction bufs arbitrary: w z)
  case Nil
  then show ?case by (subst put_buffers.simps) simp
next
  case (Cons buf rest)
  show ?case
  proof (cases "z = []")
    case True
    then have "concat (map m_buffer (buf # rest)) = []" using Cons.prems(3) by (metis length_0_conv)
    then show ?thesis using True by (subst put_buffers.simps) (simp del: concat_eq_Nil_conv)
  next
    case False
    define n q s where "n = length (m_buffer buf)" and "q = take n z" and "s = drop n z"
    have z: "z = q @ s" "length q = n" using Cons.prems(3) by (simp_all add: q_def s_def n_def)
    have put: "putBytes (framed b o1 l v f t r y (w @ z)) (int o1 + DATA_FRAME_LENGTH + int (length w)) buf 0 (capacity buf) =
        Inr (framed b o1 l v f t r y ((w @ m_buffer buf) @ s))"
      using framed_payload_part [of b o1 l t r y w q s buf 0 v f] Cons.prems(1,2) z by (simp add: n_def capacity_sound)
    have "frame_fits b o1 l t r y ((w @ m_buffer buf) @ s)" using Cons.prems(1) z by (simp add: frame_fits_def n_def)
    moreover have "length s = length (concat (map m_buffer rest))" using Cons.prems(3) z by (simp add: n_def)
    ultimately have "put_buffers (int o1 + DATA_FRAME_LENGTH + int (length ((w @ m_buffer buf) @ s)))
        (int o1 + DATA_FRAME_LENGTH + int (length (w @ m_buffer buf))) rest (framed b o1 l v f t r y ((w @ m_buffer buf) @ s)) =
        Inr (framed b o1 l v f t r y ((w @ m_buffer buf) @ concat (map m_buffer rest)))"
      using Cons.prems(2) by (intro Cons.IH) simp_all
    moreover have "int (length z) = int (length (m_buffer buf)) + int (length s)" using z by (simp add: n_def)
    moreover from this have "0 < int (length s) + int (length (m_buffer buf))"
      using False length_greater_0_conv [of z] by linarith
    ultimately show ?thesis
      using put False Cons.prems(2) by (subst put_buffers.simps) (simp add: capacity_sound algebra_simps)
  qed
qed

lemma puts_all_buffers:
  "\<forall>b\<in>set bufs. sound b \<Longrightarrow> msg = concat (map m_buffer bufs) \<Longrightarrow>
   puts_all msg (\<lambda>b payloadOffset. put_buffers (payloadOffset + int (length msg)) payloadOffset bufs b)"
  using put_buffers_eq [of _ _ _ _ _ _ "[]"] by (auto simp: puts_all_def)

section \<open>Well-formed publications\<close>

text \<open>
  A publication that is in term \<open>n\<close> from its first, with its tail at \<open>k\<close>: its members as the constructor
  sets them for a term length that is a power of two and a maximum transmission unit of at most 65504
  bytes, and the tails of the two other partitions in the terms before.
\<close>

abbreviation term_length :: "publication \<Rightarrow> nat" where
  "term_length p \<equiv> 2 ^ pub_bitsToShift p"

definition members_ok :: "publication \<Rightarrow> bool" where
  "members_ok p \<longleftrightarrow> length (logBuffers p) = 3 \<and> (\<forall>b\<in>set (logBuffers p). sound b \<and> length (m_buffer b) = term_length p) \<and>
     16 \<le> pub_bitsToShift p \<and> pub_bitsToShift p \<le> 30 \<and> maxPossiblePosition p = word_of_nat (term_length p * 2 ^ 31) \<and>
     0 < maxPayloadLength p \<and> 32 dvd maxPayloadLength p \<and> maxPayloadLength p + 32 < 65536 \<and>
     maxMessageLength p * 8 \<le> int (term_length p)"

definition tails_ok :: "publication \<Rightarrow> nat \<Rightarrow> nat \<Rightarrow> bool" where
  "tails_ok p n k \<longleftrightarrow> (let tails = lm_term_tail_counters (logMetaData p); init = initialTermId p in
     length tails = 3 \<and> n < 2 ^ 31 \<and> k < 2 ^ 32 \<and> lm_active_term_count (logMetaData p) = word_of_nat n \<and>
     tails ! (n mod 3) = tail_of (init + word_of_nat n) k \<and>
     termId (tails ! ((n + 1) mod 3)) = init + word_of_int (int n - 2) \<and>
     termId (tails ! ((n + 2) mod 3)) = init + word_of_int (int n - 1))"

definition pub_ok :: "publication \<Rightarrow> nat \<Rightarrow> nat \<Rightarrow> bool" where
  "pub_ok p n k \<longleftrightarrow> members_ok p \<and> tails_ok p n k \<and> k \<le> term_length p \<and> 32 dvd k"

lemma position_beyond:
  assumes "n < 2 ^ 31" "b \<le> 30" "k < 2 ^ 31"
  shows "computePosition (init + word_of_nat n) (word_of_int (int k)) b init = word_of_nat (n * 2 ^ b + k)"
    and "n * 2 ^ b + k < 2 ^ 62"
proof -
  show "computePosition (init + word_of_nat n) (word_of_int (int k)) b init = word_of_nat (n * 2 ^ b + k)"
    using assms(1,3)
    by (simp add: computePosition_eq aeron_logbuffer_compute_position_def aeron_logbuffer_compute_term_count_def
        scast_of_nat push_bit_eq_mult)
  have "2 ^ b \<le> (2 ^ 30 :: nat)" using assms(2) by (rule power_increasing) simp
  then have "n * 2 ^ b \<le> (2 ^ 31 - 1) * 2 ^ 30" using assms(1) by (intro mult_le_mono) simp_all
  then show "n * 2 ^ b + k < 2 ^ 62" using assms(3) by simp
qed

lemma term_length_le: "members_ok p \<Longrightarrow> term_length p \<le> 2 ^ 30"
  unfolding members_ok_def by (intro power_increasing) simp_all

lemma term_length_ge: "members_ok p \<Longrightarrow> 65536 \<le> term_length p"
  using power_increasing [of 16 "pub_bitsToShift p" "2 :: nat"] by (simp add: members_ok_def)

lemma capacity_term:
  "members_ok p \<Longrightarrow> j < 3 \<Longrightarrow> capacity (term_buffer p (int j)) = int (term_length p)"
  by (simp add: members_ok_def term_buffer_def capacity_sound)

lemma on_active_term_ok:
  assumes "pub_ok p n k"
  shows "on_active_term p len refused body =
    (if pub_isClosed p then Inr (refused PUBLICATION_CLOSED)
     else if int (n * term_length p + k) < sint (pub_limit p) then body (int (n mod 3))
     else Inr (refused (backPressureStatus p (word_of_nat (n * term_length p + k)) len)))"
proof -
  note ok = assms [unfolded pub_ok_def tails_ok_def Let_def]
  have m: "members_ok p" and n: "n < 2 ^ 31" and k: "k \<le> term_length p" "k < 2 ^ 32" using ok by simp_all
  have k31: "k < 2 ^ 31" using k(1) term_length_le [OF m] by simp
  have b: "pub_bitsToShift p \<le> 30" using m by (simp add: members_ok_def)
  note pos = position_beyond(1) [OF n b k31, of "initialTermId p"] position_beyond(2) [OF n b k31]
  have "termOffset (tail_of (initialTermId p + word_of_nat n) k) (int (term_length p)) = int k"
    unfolding termOffset_tail_of [OF k(2)] using k(1) by simp
  moreover have "sint (word_of_nat (n * term_length p + k) :: s64) = int (n * term_length p + k)"
    using pos(2) by (intro sint_of_nat(2)) simp
  ultimately show ?thesis
    using ok n k(2) pos(1) capacity_term [OF m, of "n mod 3"]
    by (simp add: on_active_term_def activeTermCount_def indexByTermCount_of_nat rawTail_def termId_tail_of word_sless_alt Let_def)
qed

text \<open>The publication after the tail of term \<open>n\<close> has moved to \<open>t\<close>, and after its buffer has changed too.\<close>

definition moved :: "publication \<Rightarrow> nat \<Rightarrow> nat \<Rightarrow> publication" where
  "moved p n t = p\<lparr>logMetaData := put_rawTail (logMetaData p) (int (n mod 3)) (tail_of (initialTermId p + word_of_nat n) t)\<rparr>"

definition appended :: "publication \<Rightarrow> nat \<Rightarrow> nat \<Rightarrow> atomic_buffer \<Rightarrow> publication" where
  "appended p n t b = put_term (moved p n t) (int (n mod 3)) b"

lemma moved_simps [simp]:
  "logBuffers (moved p n t) = logBuffers p" "members_ok (moved p n t) = members_ok p"
  "pub_bitsToShift (moved p n t) = pub_bitsToShift p" "initialTermId (moved p n t) = initialTermId p"
  "maxPossiblePosition (moved p n t) = maxPossiblePosition p" "headerWriter (moved p n t) = headerWriter p"
  by (simp_all add: moved_def members_ok_def)

lemma members_ok_put_term:
  "members_ok p \<Longrightarrow> sound b \<Longrightarrow> length (m_buffer b) = term_length p \<Longrightarrow> members_ok (put_term p j b)"
  using set_update_subset_insert [of "logBuffers p" "nat j" b] by (auto simp: members_ok_def put_term_def)

lemma mod_3_distinct: "(n + 1) mod 3 \<noteq> n mod (3 :: nat)" "(n + 2) mod 3 \<noteq> n mod (3 :: nat)" "(n + 1) mod 3 \<noteq> (n + 2) mod (3 :: nat)"
  by presburger+

lemma tails_ok_moved: "tails_ok p n k \<Longrightarrow> t < 2 ^ 32 \<Longrightarrow> tails_ok (moved p n t) n t"
  using mod_3_distinct [of n] by (simp add: tails_ok_def Let_def moved_def put_rawTail_def nth_list_update)

lemma tails_ok_put_term [simp]: "tails_ok (put_term p j b) n k = tails_ok p n k"
  by (simp add: tails_ok_def put_term_def Let_def)

lemma pub_ok_appended:
  "pub_ok p n k \<Longrightarrow> t \<le> term_length p \<Longrightarrow> 32 dvd t \<Longrightarrow> sound b \<Longrightarrow> length (m_buffer b) = term_length p \<Longrightarrow>
   pub_ok (appended p n t b) n t"
  using term_length_le [of p] tails_ok_moved [of p n k t]
  by (simp add: pub_ok_def appended_def members_ok_put_term) (simp add: put_term_def)

lemma reserving_ok:
  assumes "pub_ok p n k" and "a < term_length p"
  shows "reserving e p (int (n mod 3)) (int a) append_at =
    (if k + a \<le> term_length p
     then andThen (append_at (logBuffers p ! (n mod 3)) (int k) (initialTermId p + word_of_nat n))
       (\<lambda>b. Inr (appended p n (k + a) b, word_of_nat (n * term_length p + (k + a))))
     else handleEndOfLogCondition e (moved p n (k + a)) (int (n mod 3)) (int k) (int (term_length p))
       (initialTermId p + word_of_nat n) (word_of_nat (n * term_length p + (k + a))))"
proof -
  note ok = assms(1) [unfolded pub_ok_def tails_ok_def Let_def]
  have m: "members_ok p" and n: "n < 2 ^ 31" and k: "k \<le> term_length p" "k < 2 ^ 32" using ok by simp_all
  have ka: "k + a < 2 ^ 31" using k(1) assms(2) term_length_le [OF m] by simp
  have b: "pub_bitsToShift p \<le> 30" using m by (simp add: members_ok_def)
  have "termOffset (tail_of (initialTermId p + word_of_nat n) k) (int (term_length p)) = int k"
    unfolding termOffset_tail_of [OF k(2)] using k(1) by simp
  moreover have "rawTail (logMetaData p) (int (n mod 3)) = tail_of (initialTermId p + word_of_nat n) k"
    using ok by (simp add: rawTail_def)
  moreover have "capacity (term_buffer (moved p n t) (int (n mod 3))) = int (term_length p)" for t
    using capacity_term [of "moved p n t" "n mod 3"] m by simp
  moreover have "p\<lparr>logMetaData := put_rawTail (logMetaData p) (int (n mod 3)) (tail_of (initialTermId p + word_of_nat n) (k + a))\<rparr> =
      moved p n (k + a)"
    by (simp add: moved_def)
  ultimately show ?thesis
    using position_beyond(1) [OF n b ka, of "initialTermId p"] k(2)
    by (simp only: reserving_def Let_def tail_of_add termId_tail_of of_nat_add [symmetric] moved_simps appended_def of_nat_less_iff)
      (auto simp: term_buffer_def)
qed

section \<open>The end of a term\<close>

definition padding_frame :: "header_writer \<Rightarrow> s32 \<Rightarrow> nat \<Rightarrow> nat \<Rightarrow> frame" where
  "padding_frame hw i len offset = (frame_hdr hw len UNFRAGMENTED HDR_TYPE_PAD offset i 0, replicate (len - 32) 0)"

text \<open>The frames that fill a term of length \<open>len\<close> from the offset \<open>k\<close> on.\<close>

definition padding :: "header_writer \<Rightarrow> s32 \<Rightarrow> nat \<Rightarrow> nat \<Rightarrow> frame list" where
  "padding hw i len k = (if k < len then [padding_frame hw i (len - k) k] else [])"

lemma padding_written:
  assumes sb: "sound b" and b: "m_buffer b = A @ replicate r 0" and r: "32 \<le> r" "32 dvd r"
  shows "\<exists>b'. andThen (write_header e hw b (int (length A)) (int r) i) (\<lambda>b.
      andThen (set_frameType e b (int (length A)) HDR_TYPE_PAD) (\<lambda>b.
      andThen (frameLengthOrdered e b (int (length A)) (word_of_int (int r))) f)) = f b' \<and> sound b' \<and>
    m_buffer b' = A @ frame_image e (padding_frame hw i r (length A))"
proof -
  let ?o = "length A" and ?r = "header_numbers e hw (length A) i"
  have room: "?o + 32 + 0 \<le> length (m_buffer b)" using r(1) by (simp add: b)
  have y: "take 8 (drop (?o + 24) (m_buffer b)) = host_bytes e 8 (0 :: s64)" using r(1) by (simp add: b host_bytes_zero min_def)
  have fits: "frame_fits b ?o l t ?r (host_bytes e 8 (0 :: s64)) []" if "length l = 4" "length t = 2" for l t
    using that sb room by (simp add: frame_fits_def)
  define b' where "b' = framed b ?o (host_bytes e 4 (word_of_nat r :: s32)) CURRENT_VERSION UNFRAGMENTED (host_bytes e 2 HDR_TYPE_PAD) ?r (host_bytes e 8 (0 :: s64)) []"
  have "andThen (write_header e hw b (int ?o) (int r) i) (\<lambda>b. andThen (set_frameType e b (int ?o) HDR_TYPE_PAD) (\<lambda>b.
      andThen (frameLengthOrdered e b (int ?o) (word_of_int (int r))) f)) = f b'"
    using framed_header_put [OF sb room, of e hw "int r" i] framed_type_put [OF fits] framed_length_put [OF fits]
    by (simp add: y b'_def)
  moreover have "sound b'" unfolding b'_def by (intro framed_sound fits) simp_all
  moreover have "m_buffer b' = A @ frame_image e (padding_frame hw i r ?o)"
  proof -
    have "align_up r 32 = r" using r(2) by (intro align_up_self) simp_all
    then show ?thesis
      unfolding b'_def framed_frame using r(1) by (simp add: b patch_def padding_frame_def frame_image_def)
  qed
  ultimately show ?thesis by blast
qed

lemma rotateLog_ok:
  assumes "tails_ok p n t" and "n + 1 < 2 ^ 31"
  shows "rotateLog (logMetaData p) (word_of_nat n) (initialTermId p + word_of_nat n) =
    (put_rawTail (logMetaData p) (int ((n + 1) mod 3)) (tail_of (initialTermId p + word_of_nat (n + 1)) 0))
      \<lparr>lm_active_term_count := word_of_nat (n + 1)\<rparr>"
proof -
  have c: "word_of_nat n + 1 = (word_of_nat (n + 1) :: s32)" by simp
  have i: "indexByTermCount (scast (word_of_nat n + 1 :: s32)) = int ((n + 1) mod 3)"
    unfolding c by (rule indexByTermCount_of_nat [OF assms(2)])
  have "initialTermId p + word_of_nat n + 1 - word_of_int PARTITION_COUNT = initialTermId p + word_of_int (int n - 2)"
    by (simp add: PARTITION_COUNT_def)
  moreover have "termId (rawTail (logMetaData p) (int ((n + 1) mod 3))) = initialTermId p + word_of_int (int n - 2)"
    "lm_active_term_count (logMetaData p) = word_of_nat n"
    using assms(1) by (simp_all add: tails_ok_def Let_def rawTail_def)
  ultimately show ?thesis
    unfolding rotateLog_def Let_def i new_tail casRawTail_def casActiveTermCount_def
    by (simp add: put_rawTail_def ac_simps)
qed

lemma tails_ok_rotated:
  assumes "tails_ok p n t" and "n + 1 < 2 ^ 31"
  shows "tails_ok (p\<lparr>logMetaData := rotateLog (logMetaData p) (word_of_nat n) (initialTermId p + word_of_nat n)\<rparr>) (n + 1) 0"
proof -
  have three: "(n + 1 + 1) mod 3 = (n + 2) mod 3" "(n + 1 + 2) mod 3 = n mod 3" by presburger+
  have t: "t < 2 ^ 32" using assms(1) by (simp add: tails_ok_def Let_def)
  show ?thesis
    using assms mod_3_distinct [of n] termId_tail_of [OF t] unfolding tails_ok_def Let_def rotateLog_ok [OF assms] three
    by (simp add: put_rawTail_def nth_list_update)
qed

lemma position_exceeded:
  fixes n k a :: nat
  assumes m: "members_ok p" and n: "n < 2 ^ 31" and ka: "term_length p < k + a" "k \<le> term_length p" "a < term_length p"
  shows "maxPossiblePosition p \<le>s word_of_nat (n * term_length p + (k + a)) \<longleftrightarrow> n + 1 = 2 ^ 31"
proof -
  define L where "L = term_length p"
  have L: "L \<le> 2 ^ 30" "L < k + a" "k + a < 2 * L" using term_length_le [OF m] ka by (simp_all add: L_def)
  have "L * 2 ^ 31 \<le> 2 ^ 30 * 2 ^ 31" by (rule mult_le_mono1) (rule L)
  then have s1: "sint (word_of_nat (L * 2 ^ 31) :: s64) = int (L * 2 ^ 31)" by (intro sint_of_nat(2)) simp
  have "n * L \<le> 2 ^ 31 * 2 ^ 30" using n L(1) by (intro mult_le_mono) simp_all
  then have s2: "sint (word_of_nat (n * L + (k + a)) :: s64) = int (n * L + (k + a))" using L by (intro sint_of_nat(2)) simp
  have "L * 2 ^ 31 \<le> n * L + (k + a) \<longleftrightarrow> n + 1 = 2 ^ 31"
  proof
    assume "n + 1 = 2 ^ 31"
    then have "L * 2 ^ 31 = n * L + L" by (simp add: algebra_simps flip: \<open>n + 1 = 2 ^ 31\<close>)
    then show "L * 2 ^ 31 \<le> n * L + (k + a)" using L(2) by linarith
  next
    assume le: "L * 2 ^ 31 \<le> n * L + (k + a)"
    show "n + 1 = 2 ^ 31"
    proof (rule ccontr)
      assume "n + 1 \<noteq> 2 ^ 31"
      then have "L * (n + 2) \<le> L * 2 ^ 31" using n by (intro mult_le_mono2) simp
      moreover have "L * (n + 2) = n * L + 2 * L" by (simp add: algebra_simps)
      ultimately show False using le L(3) by linarith
    qed
  qed
  moreover have "maxPossiblePosition p = word_of_nat (L * 2 ^ 31)" using m by (simp add: members_ok_def L_def)
  ultimately show ?thesis
    unfolding word_sle_eq L_def [symmetric] using s1 s2 by (simp only: of_nat_le_iff)
qed

text \<open>Only the log and its metadata change.\<close>

definition same_members :: "publication \<Rightarrow> publication \<Rightarrow> bool" where
  "same_members p p' \<longleftrightarrow> maxPossiblePosition p' = maxPossiblePosition p \<and> initialTermId p' = initialTermId p \<and>
     maxPayloadLength p' = maxPayloadLength p \<and> maxMessageLength p' = maxMessageLength p \<and>
     pub_bitsToShift p' = pub_bitsToShift p \<and> pub_limit p' = pub_limit p \<and> pub_isClosed p' = pub_isClosed p \<and>
     headerWriter p' = headerWriter p"

lemma appended_buffers:
  "length (logBuffers p) = 3 \<Longrightarrow> map m_buffer (logBuffers (appended p n t b)) = (map m_buffer (logBuffers p))[n mod 3 := m_buffer b]"
  by (simp add: appended_def put_term_def map_update)

lemma same_members_appended: "same_members p (appended p n t b)" "same_members p (moved p n t)"
  by (simp_all add: same_members_def appended_def put_term_def moved_def)

lemma pad_term_ok:
  assumes ok: "pub_ok p n k" and t: "t < 2 ^ 32"
    and b: "m_buffer (logBuffers p ! (n mod 3)) = A @ replicate (term_length p - k) 0" "length A = k"
  shows "\<exists>q. pad_term e (moved p n t) (int (n mod 3)) (int k) (int (term_length p)) i = Inr q \<and>
    same_members p q \<and> members_ok q \<and> tails_ok q n t \<and>
    map m_buffer (logBuffers q) = (map m_buffer (logBuffers p))[n mod 3 := A @ frames_image e (padding (headerWriter p) i (term_length p) k)]"
proof -
  let ?L = "term_length p" and ?j = "n mod 3"
  have m: "members_ok p" and k: "k \<le> ?L" "32 dvd k" and tails: "tails_ok p n k" using ok by (simp_all add: pub_ok_def)
  have lb: "length (logBuffers p) = 3" "sound (logBuffers p ! ?j)" using m by (simp_all add: members_ok_def)
  show ?thesis
  proof (cases "k < ?L")
    case True
    have "32 dvd ?L" using m le_imp_power_dvd [of 5 "pub_bitsToShift p" "2 :: nat"] by (simp add: members_ok_def)
    then have r: "32 dvd ?L - k" "32 \<le> ?L - k" using k True by (auto simp: dvd_imp_le)
    from padding_written [OF lb(2) b(1) r(2,1), of e "headerWriter p" i "\<lambda>b. Inr (put_term (moved p n t) (int ?j) b)"]
    obtain b' where w: "andThen (write_header e (headerWriter p) (logBuffers p ! ?j) (int k) (int (?L - k)) i) (\<lambda>b.
        andThen (set_frameType e b (int k) HDR_TYPE_PAD) (\<lambda>b.
        andThen (frameLengthOrdered e b (int k) (word_of_int (int (?L - k)))) (\<lambda>b. Inr (put_term (moved p n t) (int ?j) b)))) =
        Inr (put_term (moved p n t) (int ?j) b')" "sound b'"
        "m_buffer b' = A @ frame_image e (padding_frame (headerWriter p) i (?L - k) k)"
      unfolding b(2) by blast
    have len: "length (m_buffer b') = ?L" using w(3) b(2) r True align_up_self [of 32 "?L - k"] by (simp add: padding_frame_def)
    have d: "int ?L - int k = int (?L - k)" "int k < int ?L" using True by simp_all
    have "pad_term e (moved p n t) (int ?j) (int k) (int ?L) i = Inr (appended p n t b')"
      unfolding pad_term_def Let_def d(1) appended_def using w(1) d(2) by (simp only: if_True term_buffer_def moved_simps nat_int)
    moreover have "members_ok (appended p n t b')" using w(2) m len by (simp add: appended_def members_ok_put_term)
    moreover have "tails_ok (appended p n t b') n t" using tails_ok_moved [OF tails t] by (simp add: appended_def)
    ultimately show ?thesis
      using appended_buffers [OF lb(1)] same_members_appended(1) w(3) True by (simp add: padding_def)
  next
    case False
    then have "(map m_buffer (logBuffers p))[?j := A] = map m_buffer (logBuffers p)"
      using b(1) lb(1) by (simp flip: map_update) (simp add: list_update_same_conv flip: b(1))
    then show ?thesis
      using False m same_members_appended(2) tails_ok_moved [OF tails t] by (simp add: padding_def pad_term_def)
  qed
qed

lemma end_of_log_ok:
  assumes ok: "pub_ok p n k" and ka: "term_length p < k + a" "a < term_length p"
    and b: "m_buffer (logBuffers p ! (n mod 3)) = A @ replicate (term_length p - k) 0" "length A = k"
  shows "\<exists>p'. handleEndOfLogCondition e (moved p n (k + a)) (int (n mod 3)) (int k) (int (term_length p))
        (initialTermId p + word_of_nat n) (word_of_nat (n * term_length p + (k + a))) =
          Inr (p', if n + 1 = 2 ^ 31 then MAX_POSITION_EXCEEDED else ADMIN_ACTION) \<and>
    same_members p p' \<and> (n + 1 < 2 ^ 31 \<longrightarrow> pub_ok p' (n + 1) 0) \<and>
    map m_buffer (logBuffers p') = (map m_buffer (logBuffers p))
      [n mod 3 := A @ frames_image e (padding (headerWriter p) (initialTermId p + word_of_nat n) (term_length p) k)]"
proof -
  have m: "members_ok p" and n: "n < 2 ^ 31" and k: "k \<le> term_length p" using ok by (simp_all add: pub_ok_def tails_ok_def Let_def)
  have "k + a < 2 ^ 32" using k ka(2) term_length_le [OF m] by simp
  from pad_term_ok [OF ok this b, of e "initialTermId p + word_of_nat n"] obtain q where
    q: "pad_term e (moved p n (k + a)) (int (n mod 3)) (int k) (int (term_length p)) (initialTermId p + word_of_nat n) = Inr q"
    "same_members p q" "members_ok q" "tails_ok q n (k + a)"
    "map m_buffer (logBuffers q) = (map m_buffer (logBuffers p))
      [n mod 3 := A @ frames_image e (padding (headerWriter p) (initialTermId p + word_of_nat n) (term_length p) k)]"
    by blast
  have same: "maxPossiblePosition q = maxPossiblePosition p" "initialTermId q = initialTermId p" "pub_bitsToShift q = pub_bitsToShift p"
    using q(2) by (simp_all add: same_members_def)
  let ?p = "q\<lparr>logMetaData := rotateLog (logMetaData q) (word_of_nat n) (initialTermId p + word_of_nat n)\<rparr>"
  note exceeded = position_exceeded [OF m n ka(1) k ka(2)]
  show ?thesis
  proof (cases "n + 1 = 2 ^ 31")
    case True
    then show ?thesis using q exceeded same by (intro exI [of _ q]) (simp add: handleEndOfLogCondition_def)
  next
    case False
    then have "n + 1 < 2 ^ 31" using n by simp
    from tails_ok_rotated [OF q(4) this] have "pub_ok ?p (n + 1) 0"
      using q(3) same by (simp add: pub_ok_def members_ok_def)
    moreover have "same_members p ?p" using q(2) by (simp add: same_members_def)
    ultimately show ?thesis
      using q False exceeded same by (intro exI [of _ ?p]) (simp add: handleEndOfLogCondition_def)
  qed
qed

section \<open>Offering\<close>

lemma framed_total_le:
  assumes "0 < mx" and "32 dvd mx"
  shows "framed_total mx n < 2 * n + 64" and "n \<le> mx \<Longrightarrow> framed_total mx n < n + 64" and "32 dvd framed_total mx n"
proof -
  show small: "framed_total mx n < n + 64" if "n \<le> mx"
    using align_up_bounds(2) [of 32 "n + 32"] that by (simp add: framed_total_def)
  have up: "align_up (mx + 32) 32 = mx + 32" using assms(2) by (intro align_up_self) simp_all
  have big: "framed_total mx n = n div mx * (mx + 32) + (if n mod mx = 0 then 0 else align_up (n mod mx + 32) 32)" if "mx < n"
    using assms that up by (auto simp: framed_total_def payloads_eq sum_list_replicate map_replicate)
  show "framed_total mx n < 2 * n + 64"
  proof (cases "n \<le> mx")
    case True
    then show ?thesis using small by simp
  next
    case False
    have "32 \<le> mx" using assms by (simp add: dvd_imp_le)
    then have "n div mx * (mx + 32) \<le> n div mx * (2 * mx)" by (intro mult_le_mono2) simp
    moreover have "n div mx * (2 * mx) + 2 * (n mod mx) = 2 * n"
      using div_mult_mod_eq [of n mx] by (metis mult.left_commute distrib_left)
    moreover have "align_up (n mod mx + 32) 32 < n mod mx + 64" using align_up_bounds(2) [of 32 "n mod mx + 32"] by simp
    moreover have "framed_total mx n \<le> n div mx * (mx + 32) + align_up (n mod mx + 32) 32" using big False by simp
    ultimately show ?thesis by linarith
  qed
  show "32 dvd framed_total mx n"
    using assms(2) big align_up_bounds(3) [of 32] by (cases "n \<le> mx") (auto simp: framed_total_def [of mx n])
qed

lemma framed_total_room: "0 < mx \<Longrightarrow> n + 32 \<le> framed_total mx n"
proof -
  assume mx: "0 < mx"
  have "n \<noteq> 0 \<Longrightarrow> 1 \<le> length (payloads mx n)" using mx by (subst payloads.simps) simp
  then show ?thesis
    using align_up_bounds(1) [of 32 "n + 32"] frames_have_room [of "payloads mx n"] sum_list_payloads [OF mx, of n]
    by (auto simp: framed_total_def)
qed

lemma payload_ok:
  assumes "members_ok p"
  shows "0 < nat (maxPayloadLength p)" "32 dvd nat (maxPayloadLength p)" "nat (maxPayloadLength p) + 32 < 65536"
    "int (nat (maxPayloadLength p)) = maxPayloadLength p"
proof -
  have m: "0 < maxPayloadLength p" "32 dvd maxPayloadLength p" "maxPayloadLength p + 32 < 65536"
    using assms unfolding members_ok_def by blast+
  then have "int 32 dvd int (nat (maxPayloadLength p))" by simp
  then show "32 dvd nat (maxPayloadLength p)" by (simp only: int_dvd_int_iff)
  show "0 < nat (maxPayloadLength p)" "nat (maxPayloadLength p) + 32 < 65536" "int (nat (maxPayloadLength p)) = maxPayloadLength p"
    using m(1,3) by linarith+
qed

text \<open>The lengths \<open>offer\<close> accepts.\<close>

definition sendable :: "publication \<Rightarrow> nat \<Rightarrow> bool" where
  "sendable p n \<longleftrightarrow> int n \<le> maxPayloadLength p \<or> int n \<le> maxMessageLength p"

lemma framed_total_less:
  assumes "members_ok p" and "sendable p n"
  shows "framed_total (nat (maxPayloadLength p)) n < term_length p"
proof -
  let ?mx = "nat (maxPayloadLength p)"
  note mx = payload_ok(1-3) [OF assms(1)]
  have L: "65536 \<le> term_length p" by (rule term_length_ge [OF assms(1)])
  show ?thesis
  proof (cases "n \<le> ?mx")
    case True
    obtain c where "?mx = 32 * c" using mx(2) by auto
    then have "?mx + 64 \<le> 65536" using mx(3) by simp
    then show ?thesis using framed_total_le(2) [OF mx(1,2) True] True L by simp
  next
    case False
    then have "int n * 8 \<le> int (term_length p)" using assms by (auto simp: sendable_def members_ok_def)
    then have "n * 8 \<le> term_length p" by linarith
    then show ?thesis using framed_total_le(1) [OF mx(1,2), of n] L by linarith
  qed
qed

text \<open>
  The two ways a message is taken: in the current term, with the position behind it, or not at all,
  when the term has not enough room: then the term is filled up and the log moves on, or ends.
\<close>

definition appends_message ::
  "endian \<Rightarrow> publication \<Rightarrow> nat \<Rightarrow> nat \<Rightarrow> u8 list \<Rightarrow> u8 list \<Rightarrow> (publication \<times> s64) cpp \<Rightarrow> bool" where
  "appends_message e p n k A msg res \<longleftrightarrow>
     (let mx = nat (maxPayloadLength p); L = term_length p; i = initialTermId p + word_of_nat n; a = framed_total mx (length msg)
      in if k + a \<le> L
         then \<exists>p' fs. res = Inr (p', word_of_nat (n * L + (k + a))) \<and> same_members p p' \<and> pub_ok p' n (k + a) \<and>
           is_fragments (headerWriter p) mx i BEGIN_FRAG k msg fs \<and> length (frames_image e fs) = a \<and>
           map m_buffer (logBuffers p') = (map m_buffer (logBuffers p))
             [n mod 3 := A @ frames_image e fs @ replicate (L - (k + a)) 0]
         else \<exists>p'. res = Inr (p', if n + 1 = 2 ^ 31 then MAX_POSITION_EXCEEDED else ADMIN_ACTION) \<and> same_members p p' \<and>
           (n + 1 < 2 ^ 31 \<longrightarrow> pub_ok p' (n + 1) 0) \<and>
           map m_buffer (logBuffers p') = (map m_buffer (logBuffers p))[n mod 3 := A @ frames_image e (padding (headerWriter p) i L k)])"

lemma positive_position:
  assumes "pub_ok p n k" and "k + a \<le> term_length p" and "0 < a"
  shows "(0 :: s64) <s word_of_nat (n * term_length p + (k + a))"
proof -
  have m: "members_ok p" "n < 2 ^ 31" using assms(1) by (simp_all add: pub_ok_def tails_ok_def Let_def)
  have "k + a < 2 ^ 31" using assms(2) term_length_le [OF m(1)] by simp
  then have "n * term_length p + (k + a) < 2 ^ 63" using position_beyond(2) [OF m(2), of "pub_bitsToShift p" "k + a"] m(1) by (simp add: members_ok_def)
  then have "sint (word_of_nat (n * term_length p + (k + a)) :: s64) = int (n * term_length p + (k + a))" by (rule sint_of_nat(2))
  then show ?thesis using assms(3) by (simp add: word_sless_alt del: of_nat_add of_nat_mult)
qed

lemma refusal_codes: "\<not> 0 <s PUBLICATION_CLOSED" "\<not> 0 <s ADMIN_ACTION" "\<not> 0 <s MAX_POSITION_EXCEEDED" "\<not> 0 <s backPressureStatus p x len"
  by (simp_all add: PUBLICATION_CLOSED_def ADMIN_ACTION_def backPressureStatus_def MAX_POSITION_EXCEEDED_def BACK_PRESSURED_def NOT_CONNECTED_def word_sless_alt)

lemma reserving_appends:
  assumes ok: "pub_ok p n k" and "sendable p (length msg)"
    and b: "m_buffer (logBuffers p ! (n mod 3)) = A @ replicate (term_length p - k) 0" "length A = k"
    and w: "writes_message e (headerWriter p) (nat (maxPayloadLength p)) msg append_at"
  shows "appends_message e p n k A msg
    (reserving e p (int (n mod 3)) (int (framed_total (nat (maxPayloadLength p)) (length msg))) append_at)"
proof -
  let ?mx = "nat (maxPayloadLength p)" and ?L = "term_length p" and ?i = "initialTermId p + word_of_nat n"
  define a where "a = framed_total ?mx (length msg)"
  have m: "members_ok p" and k: "k \<le> ?L" "32 dvd k" using ok by (simp_all add: pub_ok_def)
  have lb: "length (logBuffers p) = 3" "sound (logBuffers p ! (n mod 3))" using m by (simp_all add: members_ok_def)
  have less: "a < ?L" unfolding a_def by (rule framed_total_less [OF m assms(2)])
  show ?thesis
  proof (cases "k + a \<le> ?L")
    case True
    then have "framed_total ?mx (length msg) \<le> ?L - k" by (simp add: a_def)
    from w [unfolded writes_message_def, rule_format, OF lb(2) b(1) this, of ?i] obtain fs b' where
      f: "append_at (logBuffers p ! (n mod 3)) (int k) ?i = Inr b'" "sound b'"
        "is_fragments (headerWriter p) ?mx ?i BEGIN_FRAG k msg fs" "length (frames_image e fs) = a"
        "m_buffer b' = A @ frames_image e fs @ replicate (?L - k - a) 0"
      unfolding a_def b(2) by blast
    have "length (m_buffer b') = ?L" using f(4,5) b(2) True by simp
    moreover have "32 dvd k + a"
      using k(2) framed_total_le(3) [OF payload_ok(1,2) [OF m]] by (simp add: a_def)
    ultimately have "pub_ok (appended p n (k + a) b') n (k + a)" by (intro pub_ok_appended [OF ok True]) (use f(2) in simp_all)
    then show ?thesis
      using f True reserving_ok [OF ok less, of e append_at] same_members_appended(1) [of p n "k + a" b'] appended_buffers [OF lb(1)]
      unfolding appends_message_def Let_def a_def [symmetric]
      by (auto intro!: exI [of _ fs])
  next
    case False
    then show ?thesis
      using reserving_ok [OF ok less, of e append_at] end_of_log_ok [OF ok _ less b, of e]
      unfolding appends_message_def Let_def a_def [symmetric] by simp
  qed
qed

lemma aligned_total:
  "length msg \<le> mx \<Longrightarrow> align (int (length msg) + DATA_FRAME_LENGTH) FRAME_ALIGNMENT = int (framed_total mx (length msg))"
  using align_frame [of "length msg + 32"] by (simp add: framed_total_def DATA_FRAME_LENGTH_def)

lemma fragmented_total:
  "members_ok p \<Longrightarrow> nat (maxPayloadLength p) < n \<Longrightarrow>
   computeFragmentedFrameLength (int n) (maxPayloadLength p) = int (framed_total (nat (maxPayloadLength p)) n)"
  using framed_total_eq [of "nat (maxPayloadLength p)" n] payload_ok [of p] by simp

text \<open>The four appending operations.\<close>

lemma append_ok:
  assumes ok: "pub_ok p n k" and "sendable p (length msg)"
    and b: "m_buffer (logBuffers p ! (n mod 3)) = A @ replicate (term_length p - k) 0" "length A = k"
  shows "feeds_from src from msg \<Longrightarrow> int (length msg) \<le> maxPayloadLength p \<Longrightarrow>
      appends_message e p n k A msg (appendUnfragmentedMessage e p (int (n mod 3)) src from (int (length msg)) supplier)"
    and "feeds_from src from msg \<Longrightarrow> maxPayloadLength p < int (length msg) \<Longrightarrow>
      appends_message e p n k A msg (appendFragmentedMessage e p (int (n mod 3)) src from (int (length msg)) supplier)"
    and "\<forall>b\<in>set bufs. sound b \<Longrightarrow> msg = concat (map m_buffer bufs) \<Longrightarrow> int (length msg) \<le> maxPayloadLength p \<Longrightarrow>
      appends_message e p n k A msg (appendUnfragmentedMessage_vectored e p (int (n mod 3)) bufs (int (length msg)) supplier)"
    and "\<forall>b\<in>set bufs. sound b \<Longrightarrow> msg = concat (map m_buffer bufs) \<Longrightarrow> maxPayloadLength p < int (length msg) \<Longrightarrow>
      appends_message e p n k A msg (appendFragmentedMessage_vectored e p (int (n mod 3)) bufs (int (length msg)) supplier)"
proof -
  have m: "members_ok p" using ok by (simp add: pub_ok_def)
  note mx = payload_ok [OF m] and app = reserving_appends [OF ok assms(2) b, of e]
  have small: "length msg \<le> nat (maxPayloadLength p)" if "int (length msg) \<le> maxPayloadLength p" using that by linarith
  have large: "nat (maxPayloadLength p) < length msg" "maxPayloadLength p \<noteq> 0" "msg \<noteq> []" if "maxPayloadLength p < int (length msg)"
  proof -
    show "nat (maxPayloadLength p) < length msg" "maxPayloadLength p \<noteq> 0" using that mx(1) by linarith+
    then show "msg \<noteq> []" by auto
  qed
  show "appends_message e p n k A msg (appendUnfragmentedMessage e p (int (n mod 3)) src from (int (length msg)) supplier)"
    if "feeds_from src from msg" "int (length msg) \<le> maxPayloadLength p"
    using app [OF unfragmented_writes [OF small puts_all_buffer]] that aligned_total [OF small]
    by (simp add: appendUnfragmentedMessage_def Let_def)
  show "appends_message e p n k A msg (appendUnfragmentedMessage_vectored e p (int (n mod 3)) bufs (int (length msg)) supplier)"
    if "\<forall>b\<in>set bufs. sound b" "msg = concat (map m_buffer bufs)" "int (length msg) \<le> maxPayloadLength p"
    using app [OF unfragmented_writes [OF small puts_all_buffers]] that aligned_total [OF small]
    by (simp add: appendUnfragmentedMessage_vectored_def Let_def)
  show "appends_message e p n k A msg (appendFragmentedMessage e p (int (n mod 3)) src from (int (length msg)) supplier)"
    if "feeds_from src from msg" "maxPayloadLength p < int (length msg)"
    using app [OF from_buffer.fragmented_writes [OF mx(1) _ that(1)]] large [OF that(2)] fragmented_total [OF m] mx(4)
    by (simp add: appendFragmentedMessage_def)
  show "appends_message e p n k A msg (appendFragmentedMessage_vectored e p (int (n mod 3)) bufs (int (length msg)) supplier)"
    if "\<forall>b\<in>set bufs. sound b" "msg = concat (map m_buffer bufs)" "maxPayloadLength p < int (length msg)"
  proof -
    have "bufs \<noteq> []" using large(1) [OF that(3)] that(2) by auto
    then have "feeds_gathered (bufs, 0) msg" using that(1,2) by (auto simp: feeds_gathered_def split: list.split)
    from app [OF from_buffers.fragmented_writes [OF mx(1) _ this]] show ?thesis
      using large [OF that(3)] fragmented_total [OF m] mx(4) by (simp add: appendFragmentedMessage_vectored_def)
  qed
qed

lemma total_length_ok:
  "\<forall>b\<in>set bufs. sound b \<Longrightarrow> x + length (concat (map m_buffer bufs)) < 2 ^ 31 \<Longrightarrow>
   total_length (word_of_nat x) bufs = Inr (word_of_nat (x + length (concat (map m_buffer bufs))))"
proof (induction bufs arbitrary: x)
  case (Cons buf rest)
  have l: "word_of_nat x + m_length buf = (word_of_nat (x + length (m_buffer buf)) :: s32)"
    using Cons.prems(1) by (simp add: sound_def)
  have "\<not> (word_of_nat (x + length (m_buffer buf)) :: s32) <s 0"
    using Cons.prems(2) sint_of_nat(1) [of "x + length (m_buffer buf)"] by (simp add: word_sless_alt del: of_nat_add)
  then show ?case
    using Cons.prems Cons.IH [of "x + length (m_buffer buf)"] unfolding total_length.simps l by (simp add: add.assoc)
qed simp

lemma sendable_check: "sendable p n \<Longrightarrow> maxPayloadLength p < int n \<Longrightarrow> checkMaxMessageLength p (int n) = Inr ()"
  by (auto simp: sendable_def checkMaxMessageLength_def)

lemma offer_ok:
  assumes "pub_ok p n k" and "\<not> pub_isClosed p" and "int (n * term_length p + k) < sint (pub_limit p)"
    and "sendable p (length msg)"
    and "m_buffer (logBuffers p ! (n mod 3)) = A @ replicate (term_length p - k) 0" and "length A = k"
    and "feeds_from src from msg"
  shows "appends_message e p n k A msg (offer e p src from (int (length msg)) supplier)"
  using append_ok(1,2) [OF assms(1,4-7)] assms(2,3) sendable_check [OF assms(4)]
  by (simp add: offer_def on_active_term_ok [OF assms(1)])

lemma offer_vectored_ok:
  assumes "pub_ok p n k" and "\<not> pub_isClosed p" and "int (n * term_length p + k) < sint (pub_limit p)"
    and "sendable p (length msg)"
    and "m_buffer (logBuffers p ! (n mod 3)) = A @ replicate (term_length p - k) 0" and "length A = k"
    and bufs: "\<forall>b\<in>set bufs. sound b" "msg = concat (map m_buffer bufs)"
  shows "appends_message e p n k A msg (offer_vectored e p bufs supplier)"
proof -
  have m: "members_ok p" using assms(1) by (simp add: pub_ok_def)
  have "length msg < 2 ^ 31"
  proof -
    have "length msg \<le> framed_total (nat (maxPayloadLength p)) (length msg)"
      using framed_total_room [OF payload_ok(1) [OF m]] by (rule le_trans [rotated]) simp
    then show ?thesis using framed_total_less [OF m assms(4)] term_length_le [OF m] by simp
  qed
  then have "total_length 0 bufs = Inr (word_of_nat (length msg))" "sint (word_of_nat (length msg) :: s32) = int (length msg)"
    using total_length_ok [of bufs 0] bufs sint_of_nat(1) by simp_all
  then show ?thesis
    using append_ok(3,4) [OF assms(1,4-6) bufs] assms(2,3) sendable_check [OF assms(4)]
    by (simp add: offer_vectored_def on_active_term_ok [OF assms(1)] Let_def)
qed

text \<open>
  C6. A publication below its limit, whose active term is zero from its tail on, takes every message of a
  permitted length, offered from one buffer or gathered from several: when the term has room, exactly the
  frames of the message are added behind the content, cut at the maximum payload, with begin and end
  flags, offsets and ids, and the answer is the position behind them; when it has not, the term is
  filled up by a padding frame and the log moves on to the next term, or has reached its last position.
  The rest of the log and the members of the publication stay as they were.
\<close>

theorem offer_appends_message:
  assumes "pub_ok p n k" and "\<not> pub_isClosed p" and "int (n * term_length p + k) < sint (pub_limit p)"
    and "sendable p (length msg)"
    and "m_buffer (logBuffers p ! (n mod 3)) = A @ replicate (term_length p - k) 0" and "length A = k"
  shows "(feeds_from src from msg \<longrightarrow>
      appends_message e p n k A msg (offer e p src from (int (length msg)) supplier)) \<and>
    ((\<forall>b\<in>set bufs. sound b) \<and> msg = concat (map m_buffer bufs) \<longrightarrow>
      appends_message e p n k A msg (offer_vectored e p bufs supplier))"
  using offer_ok [OF assms] offer_vectored_ok [OF assms] by blast

text \<open>
  C39. What \<open>offer\<close> answers without touching the log: the closed publication and the one at its limit,
  where it tells the end of the last term from a connected and an unconnected stream; a message above
  the permitted lengths is refused by an exception.
\<close>

theorem offer_refused:
  assumes "pub_ok p n k" and "0 \<le> len" and "len + 64 < 2 ^ 31"
  shows "(pub_isClosed p \<longrightarrow> offer e p src from len supplier = Inr (p, PUBLICATION_CLOSED)) \<and>
    (\<not> pub_isClosed p \<and> sint (pub_limit p) \<le> int (n * term_length p + k) \<longrightarrow>
      offer e p src from len supplier = Inr (p,
        if term_length p * 2 ^ 31 \<le> n * term_length p + k + align_up (nat len + 32) 32 then MAX_POSITION_EXCEEDED
        else if lm_is_connected (logMetaData p) = 1 then BACK_PRESSURED else NOT_CONNECTED)) \<and>
    (\<not> pub_isClosed p \<and> int (n * term_length p + k) < sint (pub_limit p) \<and> maxPayloadLength p < len \<and> maxMessageLength p < len \<longrightarrow>
      offer e p src from len supplier = Inl IllegalArgumentException)"
proof -
  have m: "members_ok p" and n: "n < 2 ^ 31" and k: "k \<le> term_length p" using assms(1) by (simp_all add: pub_ok_def tails_ok_def Let_def)
  let ?L = "term_length p" and ?a = "align_up (nat len + 32) 32"
  have L: "?L \<le> 2 ^ 30" by (rule term_length_le [OF m])
  have "?a < nat len + 64" using align_up_bounds(2) [of 32 "nat len + 32"] by simp
  then have a: "?a < 2 ^ 31" using assms(2,3) by simp
  have al: "align (len + DATA_FRAME_LENGTH) FRAME_ALIGNMENT = int ?a"
    using align_frame [of "nat len + 32"] assms(2) by (simp add: DATA_FRAME_LENGTH_def)
  have "n * ?L \<le> 2 ^ 31 * 2 ^ 30" using n L by (intro mult_le_mono) simp_all
  then have s1: "sint (word_of_nat (n * ?L + k + ?a) :: s64) = int (n * ?L + k + ?a)"
    using k L a by (intro sint_of_nat(2)) simp
  have "?L * 2 ^ 31 \<le> 2 ^ 30 * 2 ^ 31" by (rule mult_le_mono1) (rule L)
  then have s2: "sint (word_of_nat (?L * 2 ^ 31) :: s64) = int (?L * 2 ^ 31)" by (intro sint_of_nat(2)) simp
  have "word_of_nat (n * ?L + k) + word_of_int (int ?a) = (word_of_nat (n * ?L + k + ?a) :: s64)" by simp
  then have "maxPossiblePosition p \<le>s word_of_nat (n * ?L + k) + word_of_int (int ?a) \<longleftrightarrow> ?L * 2 ^ 31 \<le> n * ?L + k + ?a"
    using m s1 s2 unfolding members_ok_def word_sle_eq by (simp only: of_nat_le_iff)
  then have "backPressureStatus p (word_of_nat (n * ?L + k)) len =
      (if ?L * 2 ^ 31 \<le> n * ?L + k + ?a then MAX_POSITION_EXCEEDED
       else if lm_is_connected (logMetaData p) = 1 then BACK_PRESSURED else NOT_CONNECTED)"
    unfolding backPressureStatus_def al isConnected_def by simp
  then show ?thesis
    by (simp add: offer_def on_active_term_ok [OF assms(1)] checkMaxMessageLength_def)
qed

section \<open>A small publication\<close>

definition example_term :: atomic_buffer where
  "example_term = \<lparr>m_buffer = replicate 65536 0, m_length = 65536\<rparr>"

definition example_publication :: publication where
  "example_publication =
     \<lparr>logBuffers = [example_term, example_term, example_term],
      logMetaData = new_metadata\<lparr>lm_term_tail_counters := [tail_of 7 0, tail_of 5 0, tail_of 6 0]\<rparr>,
      maxPossiblePosition = word_of_nat (65536 * 2 ^ 31), initialTermId = 7, maxPayloadLength = 1376,
      maxMessageLength = 8192, pub_bitsToShift = 16, pub_limit = 32768, pub_isClosed = False,
      headerWriter = \<lparr>hw_sessionId = 11, hw_streamId = 1001\<rparr>\<rparr>"

definition example_message :: atomic_buffer where
  "example_message = \<lparr>m_buffer = replicate 2000 42, m_length = 2000\<rparr>"

lemma example_publication_ok: "pub_ok example_publication 0 0"
proof -
  have "sound example_term" "length (m_buffer example_term) = 65536" by (simp_all add: sound_def example_term_def)
  then have "members_ok example_publication" by (simp add: members_ok_def example_publication_def)
  moreover have "tails_ok example_publication 0 0"
    by (simp add: tails_ok_def example_publication_def new_metadata_def termId_tail_of numeral_2_eq_2)
  ultimately show ?thesis by (simp add: pub_ok_def)
qed

lemma example_message_feeds: "feeds_from example_message 0 (replicate 2000 42)"
  by (simp add: feeds_from_def example_message_def sound_def)

lemma example_framed_total: "framed_total 1376 2000 = 2080"
  by (simp add: framed_total_def payloads_eq align_up_def)

lemma example_content:
  "m_buffer (logBuffers example_publication ! (0 mod 3)) = [] @ replicate (term_length example_publication - 0) 0"
  by (simp add: example_publication_def example_term_def)

theorem offer_appends_message_witness:
  "appends_message Little example_publication 0 0 [] (replicate 2000 42)
     (offer Little example_publication example_message 0 2000 DEFAULT_RESERVED_VALUE_SUPPLIER)"
  using offer_appends_message [OF example_publication_ok _ _ _ example_content, of "replicate 2000 42" example_message 0 Little] example_message_feeds
  by (simp add: example_publication_def sendable_def)

theorem offer_refused_witness:
  "offer Big (close example_publication) example_message 0 2000 DEFAULT_RESERVED_VALUE_SUPPLIER = Inr (close example_publication, PUBLICATION_CLOSED) \<and>
   offer Big example_publication example_message 0 9000 DEFAULT_RESERVED_VALUE_SUPPLIER = Inl IllegalArgumentException"
proof -
  have "pub_ok (close example_publication) 0 0"
    using example_publication_ok by (simp add: pub_ok_def members_ok_def tails_ok_def close_def)
  from offer_refused [OF this, of 2000] offer_refused [OF example_publication_ok, of 9000] show ?thesis
    by (simp add: close_def example_publication_def)
qed

end
