(* ===== verification/ClaimedMessages.thy ===== *)
theory ClaimedMessages
  imports PublicationAppends
begin

text \<open>
  Claiming a range of the log with \<open>tryClaim\<close>, filling it in through the \<open>BufferClaim\<close> and committing it:
  the log is left as by an offer of the same bytes.
\<close>

section \<open>Working through a claim\<close>

text \<open>The claim's operations on the term buffer it was wrapped around, and the use the header documents.\<close>

definition in_claim :: "(buffer_claim \<Rightarrow> atomic_buffer \<Rightarrow> atomic_buffer cpp) \<Rightarrow> buffer_claim \<Rightarrow> publication \<Rightarrow> publication cpp" where
  "in_claim access c p =
     andThen (access c (term_buffer p (claim_partition c))) (\<lambda>b. Inr (put_term p (claim_partition c) b))"

definition publish_claimed :: "endian \<Rightarrow> publication \<Rightarrow> u8 list \<Rightarrow> buffer_claim \<Rightarrow> (publication \<times> s64) cpp" where
  "publish_claimed e p msg bufferClaim =
     andThen (tryClaim e p (int (length msg)) bufferClaim) (\<lambda>(p, c, position).
       if 0 <s position
       then andThen (in_claim (claim_fill msg) c p) (\<lambda>p. andThen (in_claim (claim_commit e) c p) (\<lambda>p. Inr (p, position)))
       else Inr (p, position))"

lemma patch_view:
  assumes "off + m \<le> length buf" and "x + length bs \<le> m"
  shows "patch buf off (patch (take m (drop off buf)) x bs) = patch buf (off + x) bs"
proof -
  define P X Y Z R where "P = take off buf" and "X = take x (drop off buf)" and "Y = take (length bs) (drop (off + x) buf)"
    and "Z = take (m - (x + length bs)) (drop (off + x + length bs) buf)" and "R = drop (m + off) buf"
  have len: "length P = off" "length X = x" "length Y = length bs" "length Z = m - (x + length bs)"
    using assms by (simp_all add: P_def X_def Y_def Z_def)
  have "drop (off + x + length bs) buf = Z @ R"
    using assms append_take_drop_id [of "m - (x + length bs)" "drop (off + x + length bs) buf"] by (simp add: Z_def R_def)
  moreover have "drop (off + x) buf = Y @ drop (off + x + length bs) buf"
    using append_take_drop_id [of "length bs" "drop (off + x) buf"] by (simp add: Y_def add.commute)
  moreover have "drop off buf = X @ drop (off + x) buf"
    using append_take_drop_id [of x "drop off buf"] by (simp add: X_def add.commute)
  ultimately have "buf = P @ X @ Y @ Z @ R" by (metis P_def append_take_drop_id)
  then show ?thesis using len assms by (simp add: patch_def)
qed

lemma through_claim_ok:
  assumes "sound b" and "off + m \<le> length (m_buffer b)" and "x + length bs \<le> m"
    and "\<And>v. sound v \<Longrightarrow> length (m_buffer v) = m \<Longrightarrow> access v = Inr (v\<lparr>m_buffer := patch (m_buffer v) x bs\<rparr>)"
  shows "through_claim access (claim_wrap j (int off) (int m)) b = Inr (b\<lparr>m_buffer := patch (m_buffer b) (off + x) bs\<rparr>)"
proof -
  let ?v = "claim_view (claim_wrap j (int off) (int m)) b"
  have "m_buffer ?v = take m (drop off (m_buffer b))" by (simp add: claim_view_def claim_wrap_def)
  moreover have "m \<le> INT32_MAX" using assms(1,2) by (simp add: sound_def)
  then have "sound ?v" "length (m_buffer ?v) = m"
    using assms(2) by (simp_all add: sound_def claim_view_def claim_wrap_def unsigned_of_nat take_bit_nat_eq_self)
  ultimately show ?thesis
    using assms patch_view [OF assms(2,3)] by (simp add: through_claim_def claim_wrap_def store_inside)
qed

lemma claim_fill_ok:
  assumes "frame_fits b o1 l t r y p" and "length p = length msg"
  shows "claim_fill msg (claim_wrap j (int o1) (int (length msg) + DATA_FRAME_LENGTH)) (framed b o1 l v f t r y p) =
    Inr (framed b o1 l v f t r y msg)"
proof -
  have fits: "o1 + (length msg + 32) \<le> length (m_buffer (framed b o1 l v f t r y p))"
    using assms framed_length [OF assms(1), of v f] by (simp add: frame_fits_def)
  have "claim_fill msg (claim_wrap j (int o1) (int (length msg + 32))) (framed b o1 l v f t r y p) =
      Inr ((framed b o1 l v f t r y p)\<lparr>m_buffer := patch (m_buffer (framed b o1 l v f t r y p)) (o1 + 32) msg\<rparr>)"
    unfolding claim_fill_def
    by (rule through_claim_ok [OF framed_sound [OF assms(1)] fits])
      (simp_all add: DATA_FRAME_LENGTH_def boundsCheck_inside store_inside)
  then show ?thesis using framed_patch(5) [OF assms(1), of msg v f] assms(2) by (simp add: DATA_FRAME_LENGTH_def)
qed

lemma claim_commit_ok:
  assumes "frame_fits b o1 l t r y p"
  shows "claim_commit e (claim_wrap j (int o1) (int (length p) + DATA_FRAME_LENGTH)) (framed b o1 l v f t r y p) =
    Inr (framed b o1 (host_bytes e 4 (word_of_nat (length p + 32) :: s32)) v f t r y p)"
proof -
  have fits: "o1 + (length p + 32) \<le> length (m_buffer (framed b o1 l v f t r y p))"
    using assms framed_length [OF assms, of v f] by (simp add: frame_fits_def)
  have "claim_commit e (claim_wrap j (int o1) (int (length p + 32))) (framed b o1 l v f t r y p) =
      Inr ((framed b o1 l v f t r y p)\<lparr>m_buffer := patch (m_buffer (framed b o1 l v f t r y p)) (o1 + 0)
        (host_bytes e 4 (word_of_nat (length p + 32) :: s32))\<rparr>)"
    unfolding claim_commit_def
    by (rule through_claim_ok [OF framed_sound [OF assms] fits])
      (simp_all add: ordered_access int32.put_inside capacity_sound)
  then show ?thesis
    using framed_patch(1) [OF assms, of "host_bytes e 4 (word_of_nat (length p + 32) :: s32)" v f] by (simp add: DATA_FRAME_LENGTH_def)
qed

section \<open>Filling and committing\<close>

lemma stores_all: "puts_all msg (\<lambda>b off. store_bytes b off msg)"
  unfolding puts_all_def
proof (intro allI impI)
  fix b o1 l v f t r y and p :: "u8 list"
  assume a: "frame_fits b o1 l t r y p" "length p = length msg"
  then have "store_bytes (framed b o1 l v f t r y p) (int o1 + DATA_FRAME_LENGTH) msg =
      Inr ((framed b o1 l v f t r y p)\<lparr>m_buffer := patch (m_buffer (framed b o1 l v f t r y p)) (o1 + 32) msg\<rparr>)"
    using framed_length [OF a(1), of v f] by (subst store_inside) (simp_all add: DATA_FRAME_LENGTH_def frame_fits_def nat_add_distrib)
  then show "store_bytes (framed b o1 l v f t r y p) (int o1 + DATA_FRAME_LENGTH) msg = Inr (framed b o1 l v f t r y msg)"
    using framed_patch(5) [OF a(1), of msg v f] a(2) by simp
qed

text \<open>On a zero log the reserved value need not be stored.\<close>

lemma claim_as_append:
  assumes "sound b" and b: "m_buffer b = A @ replicate r 0" and "length msg + 32 \<le> r" and put_all: "puts_all msg put_all"
  shows "andThen (write_header e hw b (int (length A)) (int (length msg) + DATA_FRAME_LENGTH) i) (\<lambda>b.
      andThen (claim_fill msg (claim_wrap j (int (length A)) (int (length msg) + DATA_FRAME_LENGTH)) b)
        (claim_commit e (claim_wrap j (int (length A)) (int (length msg) + DATA_FRAME_LENGTH)))) =
    andThen (write_header e hw b (int (length A)) (int (length msg) + DATA_FRAME_LENGTH) i) (\<lambda>b.
      andThen (put_all b (int (length A) + DATA_FRAME_LENGTH))
        (finish_frame e DEFAULT_RESERVED_VALUE_SUPPLIER (int (length A)) (int (length msg) + DATA_FRAME_LENGTH)))"
proof -
  let ?n = "length msg" and ?o = "length A" and ?t = "host_bytes e 2 HDR_TYPE_DATA" and ?r = "header_numbers e hw (length A) i"
  define l where "l = host_bytes e 4 (word_of_int (- (int ?n + DATA_FRAME_LENGTH)) :: s32)"
  have room: "?o + 32 + ?n \<le> length (m_buffer b)" using assms(3) by (simp add: b)
  have y: "take 8 (drop (?o + 24) (m_buffer b)) = host_bytes e 8 (0 :: s64)"
    using assms(3) by (simp add: b host_bytes_zero)
  have hdr: "write_header e hw b (int ?o) (int ?n + DATA_FRAME_LENGTH) i =
      Inr (framed b ?o l CURRENT_VERSION UNFRAGMENTED ?t ?r (host_bytes e 8 (0 :: s64)) (take ?n (drop (?o + 32) (m_buffer b))))"
    using framed_header_put [OF assms(1) room, of e hw "int ?n + DATA_FRAME_LENGTH" i] by (simp only: y l_def)
  have fits: "frame_fits b ?o l ?t ?r (host_bytes e 8 (0 :: s64)) q" if "length q = ?n" for q
    using that room assms(1) by (simp add: frame_fits_def l_def)
  have p: "length (take ?n (drop (?o + 32) (m_buffer b))) = ?n" using room by simp
  note put = put_all [unfolded puts_all_def, rule_format, OF fits [OF p] p]
  have "finish_frame e DEFAULT_RESERVED_VALUE_SUPPLIER (int ?o) (int ?n + DATA_FRAME_LENGTH)
      (framed b ?o l CURRENT_VERSION UNFRAGMENTED ?t ?r (host_bytes e 8 (0 :: s64)) msg) =
      Inr (framed b ?o (host_bytes e 4 (word_of_nat (?n + 32) :: s32)) CURRENT_VERSION UNFRAGMENTED ?t ?r (host_bytes e 8 (0 :: s64)) msg)"
    by (simp add: finish_frame_def framed_reserved_put [OF fits] framed_length_put [OF fits] DEFAULT_RESERVED_VALUE_SUPPLIER_def)
      (simp add: DATA_FRAME_LENGTH_def)
  then show ?thesis by (simp add: hdr put claim_fill_ok [OF fits [OF p] p] claim_commit_ok [OF fits])
qed

lemma claiming_writes:
  assumes "length msg \<le> mx"
  shows "writes_message e hw mx msg (\<lambda>b frameOffset i.
    andThen (write_header e hw b frameOffset (int (length msg) + DATA_FRAME_LENGTH) i) (\<lambda>b.
      andThen (claim_fill msg (claim_wrap j frameOffset (int (length msg) + DATA_FRAME_LENGTH)) b)
        (claim_commit e (claim_wrap j frameOffset (int (length msg) + DATA_FRAME_LENGTH)))))"
  unfolding writes_message_def
proof (intro allI impI)
  fix b A r i
  assume b: "sound b" "m_buffer b = A @ replicate r 0" "framed_total mx (length msg) \<le> r"
  then have "length msg + 32 \<le> r" using assms align_up_bounds(1) [of 32 "length msg + 32"] by (simp add: framed_total_def)
  from claim_as_append [OF b(1,2) this stores_all, of e hw i j]
    unfragmented_writes [OF assms stores_all, of e hw DEFAULT_RESERVED_VALUE_SUPPLIER, unfolded writes_message_def, rule_format, OF b, of i]
  show "\<exists>fs b'. andThen (write_header e hw b (int (length A)) (int (length msg) + DATA_FRAME_LENGTH) i) (\<lambda>b.
      andThen (claim_fill msg (claim_wrap j (int (length A)) (int (length msg) + DATA_FRAME_LENGTH)) b)
        (claim_commit e (claim_wrap j (int (length A)) (int (length msg) + DATA_FRAME_LENGTH)))) = Inr b' \<and> sound b' \<and>
      is_fragments hw mx i BEGIN_FRAG (length A) msg fs \<and> length (frames_image e fs) = framed_total mx (length msg) \<and>
      m_buffer b' = A @ frames_image e fs @ replicate (r - framed_total mx (length msg)) 0"
    by (simp only:)
qed

lemma andThen_assoc: "andThen (andThen x f) g = andThen x (\<lambda>y. andThen (f y) g)"
  by (cases x) simp_all

text \<open>A claimed term buffer is the one just written.\<close>

lemma in_claim_appended:
  assumes "length (logBuffers p) = 3"
  shows "in_claim access (claim_wrap (int (n mod 3)) off len) (appended p n t b) =
    andThen (access (claim_wrap (int (n mod 3)) off len) b) (\<lambda>b'. Inr (appended p n t b'))"
proof -
  have "term_buffer (appended p n t b) (int (n mod 3)) = b" "put_term (appended p n t b) (int (n mod 3)) b' = appended p n t b'" for b'
    using assms by (simp_all add: appended_def term_buffer_def put_term_def)
  then show ?thesis by (simp add: in_claim_def claim_wrap_def)
qed

lemma tryClaim_ok:
  assumes ok: "pub_ok p n k" and "\<not> pub_isClosed p" and "int (n * term_length p + k) < sint (pub_limit p)"
    and len: "int m \<le> maxPayloadLength p" and a: "a = framed_total (nat (maxPayloadLength p)) m"
  shows "tryClaim e p (int m) c =
    andThen (reserving e p (int (n mod 3)) (int a)
        (\<lambda>b off i. write_header e (headerWriter p) b off (int m + DATA_FRAME_LENGTH) i))
      (\<lambda>(p', position). Inr (p', if k + a \<le> term_length p then claim_wrap (int (n mod 3)) (int k) (int m + DATA_FRAME_LENGTH) else c, position))"
proof -
  have m: "members_ok p" and k: "k \<le> term_length p" "k < 2 ^ 32" using ok by (simp_all add: pub_ok_def tails_ok_def Let_def)
  have "m \<le> nat (maxPayloadLength p)" using len by linarith
  then have "align (int m + DATA_FRAME_LENGTH) FRAME_ALIGNMENT = int a"
    using aligned_total [of "replicate m 0"] by (simp add: a)
  moreover have "termOffset (rawTail (logMetaData p) (int (n mod 3))) (capacity (term_buffer p (int (n mod 3)))) = int k"
  proof -
    have "rawTail (logMetaData p) (int (n mod 3)) = tail_of (initialTermId p + word_of_nat n) k"
      using ok by (simp add: pub_ok_def tails_ok_def rawTail_def Let_def)
    moreover have "capacity (term_buffer p (int (n mod 3))) = int (term_length p)" by (rule capacity_term [OF m]) simp
    ultimately show ?thesis using k(1) by (simp only: termOffset_tail_of [OF k(2)] min.absorb1)
  qed
  moreover have "2 ^ pub_bitsToShift p < int k + int a \<longleftrightarrow> \<not> k + a \<le> term_length p"
  proof -
    have "int (term_length p) < int (k + a) \<longleftrightarrow> \<not> k + a \<le> term_length p" by (simp only: of_nat_less_iff not_le)
    then show ?thesis by simp
  qed
  ultimately show ?thesis
    using assms(2,3) len capacity_term [OF m, of "n mod 3"]
    by (simp add: tryClaim_def checkPayloadLength_def on_active_term_ok [OF ok] claim_def Let_def not_less)
qed

lemma publish_claimed_ok:
  assumes ok: "pub_ok p n k" and "\<not> pub_isClosed p" and "int (n * term_length p + k) < sint (pub_limit p)"
    and len: "int (length msg) \<le> maxPayloadLength p"
    and b: "m_buffer (logBuffers p ! (n mod 3)) = A @ replicate (term_length p - k) 0" "length A = k"
  shows "appends_message e p n k A msg (publish_claimed e p msg c)"
proof -
  let ?mx = "nat (maxPayloadLength p)" and ?L = "term_length p" and ?c = "claim_wrap (int (n mod 3)) (int k) (int (length msg) + DATA_FRAME_LENGTH)"
  define a where "a = framed_total ?mx (length msg)"
  have m: "members_ok p" using ok by (simp add: pub_ok_def)
  then have three: "length (logBuffers p) = 3" by (simp add: members_ok_def)
  have s: "sendable p (length msg)" using len by (simp add: sendable_def)
  have less: "a < ?L" unfolding a_def by (rule framed_total_less [OF m s])
  have small: "length msg \<le> ?mx" using len by linarith
  note tried = tryClaim_ok [OF assms(1-4) a_def, of e c] and res = reserving_ok [OF ok less, of e]
    and app = reserving_appends [OF ok s b claiming_writes [OF small], of e "int (n mod 3)", folded a_def]
  show ?thesis
  proof (cases "k + a \<le> ?L")
    case True
    have "0 < a" using framed_total_room [OF payload_ok(1) [OF m], of "length msg"] by (simp add: a_def)
    from positive_position [OF ok True this] show ?thesis
      using True app unfolding publish_claimed_def tried res
      by (cases "write_header e (headerWriter p) (logBuffers p ! (n mod 3)) (int k) (int (length msg) + DATA_FRAME_LENGTH) (initialTermId p + word_of_nat n)")
        (simp_all add: in_claim_appended [OF three] andThen_assoc)
  next
    case False
    then show ?thesis
      using app unfolding publish_claimed_def tried res appends_message_def Let_def a_def [symmetric] by (auto simp: refusal_codes)
  qed
qed

section \<open>Claiming is offering\<close>

lemma publish_claimed_eq:
  assumes ok: "pub_ok p n k" and open_: "\<not> pub_isClosed p" and limit: "int (n * term_length p + k) < sint (pub_limit p)"
    and len: "int (length msg) \<le> maxPayloadLength p"
    and b: "m_buffer (logBuffers p ! (n mod 3)) = A @ replicate (term_length p - k) 0" "length A = k" and src: "feeds_from src from msg"
  shows "publish_claimed e p msg c = offer e p src from (int (length msg)) DEFAULT_RESERVED_VALUE_SUPPLIER"
proof -
  let ?mx = "nat (maxPayloadLength p)" and ?L = "term_length p"
  let ?b = "logBuffers p ! (n mod 3)" and ?n = "int (length msg) + DATA_FRAME_LENGTH" and ?i = "initialTermId p + word_of_nat n"
  define a where "a = framed_total ?mx (length msg)"
  have m: "members_ok p" using ok by (simp add: pub_ok_def)
  then have lb: "length (logBuffers p) = 3" "sound ?b" by (simp_all add: members_ok_def)
  have small: "length msg \<le> ?mx" using len by linarith
  have less: "a < ?L" unfolding a_def by (rule framed_total_less [OF m]) (simp add: sendable_def len)
  note tried = tryClaim_ok [OF ok open_ limit len a_def, of e c] and res = reserving_ok [OF ok less, of e]
  have offer: "offer e p src from (int (length msg)) DEFAULT_RESERVED_VALUE_SUPPLIER =
      reserving e p (int (n mod 3)) (int a) (\<lambda>b off i. andThen (write_header e (headerWriter p) b off ?n i) (\<lambda>b.
        andThen (putBytes b (off + DATA_FRAME_LENGTH) src from (int (length msg)))
          (finish_frame e DEFAULT_RESERVED_VALUE_SUPPLIER off ?n)))"
    using open_ limit len aligned_total [OF small]
    by (simp add: offer_def on_active_term_ok [OF ok] appendUnfragmentedMessage_def a_def Let_def)
  show ?thesis
  proof (cases "k + a \<le> ?L")
    case True
    have "0 < a" using framed_total_room [OF payload_ok(1) [OF m], of "length msg"] by (simp add: a_def)
    note pos = positive_position [OF ok True this]
    have "length msg + 32 \<le> ?L - k"
      using framed_total_room [OF payload_ok(1) [OF m], of "length msg"] True by (simp add: a_def)
    note eq = claim_as_append [OF lb(2) b(1) this puts_all_buffer [OF src], of e "headerWriter p" ?i "int (n mod 3)", unfolded b(2)]
    show ?thesis
    proof (cases "write_header e (headerWriter p) ?b (int k) ?n ?i")
      case (Inr b')
      then show ?thesis
        using True pos eq unfolding publish_claimed_def tried offer res
        by (simp add: in_claim_appended [OF lb(1)] andThen_assoc) (simp flip: andThen_assoc)
    qed (use True in \<open>simp add: publish_claimed_def tried offer res\<close>)
  next
    case False
    from end_of_log_ok [OF ok _ less b, of e] False obtain p' where
      "handleEndOfLogCondition e (moved p n (k + a)) (int (n mod 3)) (int k) (int ?L) ?i (word_of_nat (n * ?L + (k + a))) =
        Inr (p', if n + 1 = 2 ^ 31 then MAX_POSITION_EXCEEDED else ADMIN_ACTION)"
      by auto
    then show ?thesis using False unfolding publish_claimed_def tried offer res by (auto simp: refusal_codes)
  qed
qed

text \<open>
  C29. Below the limit, claiming a range for a message that fits one frame, filling it in and committing it
  is the same as offering the message with the reserved value the default supplier gives: the same log,
  byte for byte, the same metadata and the same answer, whether the term has room or is left.
\<close>

theorem claiming_is_offering:
  assumes "pub_ok p n k" and "\<not> pub_isClosed p" and "int (n * term_length p + k) < sint (pub_limit p)"
    and "int (length msg) \<le> maxPayloadLength p"
    and "m_buffer (logBuffers p ! (n mod 3)) = A @ replicate (term_length p - k) 0" and "length A = k" and "feeds_from src from msg"
  shows "publish_claimed e p msg c = offer e p src from (int (length msg)) DEFAULT_RESERVED_VALUE_SUPPLIER"
  using assms by (rule publish_claimed_eq)

definition short_message :: atomic_buffer where
  "short_message = \<lparr>m_buffer = replicate 100 42, m_length = 100\<rparr>"

theorem claiming_is_offering_witness:
  "publish_claimed Big example_publication (replicate 100 42) (claim_wrap 0 0 0) =
     offer Big example_publication short_message 0 100 DEFAULT_RESERVED_VALUE_SUPPLIER"
proof -
  have "feeds_from short_message 0 (replicate 100 42)" by (simp add: feeds_from_def short_message_def sound_def)
  from claiming_is_offering [OF example_publication_ok _ _ _ example_content _ this, of Big "claim_wrap 0 0 0"]
  show ?thesis by (simp add: example_publication_def)
qed

end
