(* ===== verification/CppImage.thy ===== *)
theory CppImage
  imports CppLogBuffer
begin

text \<open>
  The reading side of the C++ client: the frame header view of \<open>concurrent/logbuffer/Header.h\<close>, the loops of
  \<open>TermReader.h\<close> and \<open>TermBlockScanner.h\<close>, and \<open>Image.h\<close>, which polls the terms of one stream from the
  subscriber's position on. A handler is a function on a state of the user's; it may throw, and every
  exception thrown in a polling loop, by the handler or by a check of the buffer, goes to the exception
  handler and ends the loop. The opaque context pointer of a header is left out.
\<close>

section \<open>The header of a frame\<close>

definition NULL_VALUE :: int where "NULL_VALUE = - 1"

record header =
  hd_buffer :: atomic_buffer
  hd_offset :: int
  hd_initialTermId :: s32
  hd_positionBitsToShift :: nat
  hd_fragmentedFrameLength :: int

definition Header :: "s32 \<Rightarrow> nat \<Rightarrow> header" where
  "Header i bitsToShift = \<lparr>hd_buffer = \<lparr>m_buffer = [], m_length = 0\<rparr>, hd_offset = 0, hd_initialTermId = i,
     hd_positionBitsToShift = bitsToShift, hd_fragmentedFrameLength = NULL_VALUE\<rparr>"

definition hd_copyFrom :: "header \<Rightarrow> header \<Rightarrow> header cpp" where
  "hd_copyFrom h from =
     andThen (load_bytes (hd_buffer from) (hd_offset from) (nat DATA_FRAME_LENGTH)) (\<lambda>bs.
     andThen (store_bytes (hd_buffer h) (hd_offset h) bs) (\<lambda>b.
       Inr (h\<lparr>hd_buffer := b, hd_initialTermId := hd_initialTermId from,
              hd_positionBitsToShift := hd_positionBitsToShift from\<rparr>)))"

definition hd_frameLength :: "endian \<Rightarrow> header \<Rightarrow> s32 cpp" where
  "hd_frameLength e h = getInt32 e (hd_buffer h) (hd_offset h)"

definition hd_sessionId :: "endian \<Rightarrow> header \<Rightarrow> s32 cpp" where
  "hd_sessionId e h = getInt32 e (hd_buffer h) (hd_offset h + SESSION_ID_FIELD_OFFSET)"

definition hd_streamId :: "endian \<Rightarrow> header \<Rightarrow> s32 cpp" where
  "hd_streamId e h = getInt32 e (hd_buffer h) (hd_offset h + STREAM_ID_FIELD_OFFSET)"

definition hd_termId :: "endian \<Rightarrow> header \<Rightarrow> s32 cpp" where
  "hd_termId e h = getInt32 e (hd_buffer h) (hd_offset h + TERM_ID_FIELD_OFFSET)"

definition hd_termOffset :: "endian \<Rightarrow> header \<Rightarrow> s32 cpp" where
  "hd_termOffset e h = getInt32 e (hd_buffer h) (hd_offset h + TERM_OFFSET_FIELD_OFFSET)"

definition hd_type :: "endian \<Rightarrow> header \<Rightarrow> 16 word cpp" where
  "hd_type e h = getUInt16 e (hd_buffer h) (hd_offset h + TYPE_FIELD_OFFSET)"

definition hd_flags :: "endian \<Rightarrow> header \<Rightarrow> u8 cpp" where
  "hd_flags e h = getUInt8 e (hd_buffer h) (hd_offset h + FLAGS_FIELD_OFFSET)"

definition hd_reservedValue :: "endian \<Rightarrow> header \<Rightarrow> s64 cpp" where
  "hd_reservedValue e h = getInt64 e (hd_buffer h) (hd_offset h + RESERVED_VALUE_FIELD_OFFSET)"

definition hd_termOccupancyLength :: "endian \<Rightarrow> header \<Rightarrow> int cpp" where
  "hd_termOccupancyLength e h =
     (if NULL_VALUE = hd_fragmentedFrameLength h then andThen (hd_frameLength e h) (\<lambda>len. Inr (sint len))
      else Inr (hd_fragmentedFrameLength h))"

definition hd_nextTermOffset :: "endian \<Rightarrow> header \<Rightarrow> int cpp" where
  "hd_nextTermOffset e h =
     andThen (hd_termOffset e h) (\<lambda>offset.
     andThen (hd_termOccupancyLength e h) (\<lambda>len.
       Inr (align (sint offset + len) FRAME_ALIGNMENT)))"

definition hd_position :: "endian \<Rightarrow> header \<Rightarrow> s64 cpp" where
  "hd_position e h =
     andThen (hd_termId e h) (\<lambda>i.
     andThen (hd_nextTermOffset e h) (\<lambda>offset.
       Inr (computePosition i (word_of_int offset) (hd_positionBitsToShift h) (hd_initialTermId h))))"

section \<open>Reading a term\<close>

text \<open>A handler gives back the user's state, and the exception if it has thrown one.\<close>

type_synonym 's handler = "'s \<Rightarrow> atomic_buffer \<Rightarrow> int \<Rightarrow> int \<Rightarrow> header \<Rightarrow> 's \<times> cpp_error option"

text \<open>What a loop does with an exception of the buffer; undefined behaviour is none.\<close>

definition catching :: "'a cpp \<Rightarrow> (cpp_error \<Rightarrow> 'b cpp) \<Rightarrow> ('a \<Rightarrow> 'b cpp) \<Rightarrow> 'b cpp" where
  "catching r onError f =
     (case r of Inl UndefinedBehaviour \<Rightarrow> Inl UndefinedBehaviour | Inl err \<Rightarrow> onError err | Inr x \<Rightarrow> f x)"

lemma catching_simps [simp]: "catching (Inr x) onError f = f x" "catching (Inl OutOfBoundsException) onError f = onError OutOfBoundsException"
  by (simp_all add: catching_def)

lemma align_pos: "0 < x \<Longrightarrow> 0 < align x FRAME_ALIGNMENT"
  using align_frame [of "nat x"] align_up_bounds(1) [of 32 "nat x"] by simp

text \<open>
  The loop of \<open>TermReader::read\<close>, and of \<open>boundedPoll\<close>, which stops at a limit offset instead of the
  capacity: the resulting offset, the number of fragments read, and the user's state.
\<close>

function read_loop ::
  "endian \<Rightarrow> atomic_buffer \<Rightarrow> int \<Rightarrow> 's handler \<Rightarrow> (cpp_error \<Rightarrow> 's \<Rightarrow> 's) \<Rightarrow> int \<Rightarrow> header \<Rightarrow> int \<Rightarrow> int \<Rightarrow> 's
   \<Rightarrow> (int \<times> int \<times> 's) cpp" where
  "read_loop e b limitOffset handler onError fragmentsLimit hdr fragmentsRead offset s =
     (if fragmentsRead < fragmentsLimit \<and> offset < limitOffset
      then catching (frameLengthVolatile e b offset) (\<lambda>err. Inr (offset, fragmentsRead, onError err s)) (\<lambda>len.
        let frameLength = sint len
        in if frameLength \<le> 0 then Inr (offset, fragmentsRead, s)
           else let nextOffset = offset + align frameLength FRAME_ALIGNMENT
                in catching (isPaddingFrame e b offset) (\<lambda>err. Inr (nextOffset, fragmentsRead, onError err s)) (\<lambda>isPadding.
                   if isPadding
                   then read_loop e b limitOffset handler onError fragmentsLimit hdr fragmentsRead nextOffset s
                   else case handler s b (offset + DATA_FRAME_LENGTH) (frameLength - DATA_FRAME_LENGTH)
                               (hdr\<lparr>hd_buffer := b, hd_offset := offset\<rparr>) of
                          (s', None) \<Rightarrow>
                            read_loop e b limitOffset handler onError fragmentsLimit hdr (fragmentsRead + 1) nextOffset s'
                        | (s', Some err) \<Rightarrow> Inr (nextOffset, fragmentsRead + 1, onError err s')))
      else Inr (offset, fragmentsRead, s))"
  by pat_completeness auto
termination
  by (relation "measure (\<lambda>(_, _, limitOffset, _, _, _, _, _, offset, _). nat (limitOffset - offset))") (auto intro!: align_pos)

declare read_loop.simps [simp del]

definition TermReader_read ::
  "endian \<Rightarrow> atomic_buffer \<Rightarrow> int \<Rightarrow> 's handler \<Rightarrow> (cpp_error \<Rightarrow> 's \<Rightarrow> 's) \<Rightarrow> int \<Rightarrow> header \<Rightarrow> 's \<Rightarrow> (int \<times> int \<times> 's) cpp" where
  "TermReader_read e termBuffer offset handler onError fragmentsLimit hdr s =
     read_loop e termBuffer (capacity termBuffer) handler onError fragmentsLimit hdr 0 offset s"

section \<open>Controlled reading\<close>

datatype ControlledPollAction = ABORT | BREAK | COMMIT | CONTINUE

type_synonym 's controlled_handler = "'s \<Rightarrow> atomic_buffer \<Rightarrow> int \<Rightarrow> int \<Rightarrow> header \<Rightarrow> 's \<times> (cpp_error + ControlledPollAction)"

text \<open>
  The variables of the loop of the controlled polls: fragments read, the offset, the offset and position
  up to which the fragments have been committed, and the subscriber position.
\<close>

record controlled_vars =
  cv_fragmentsRead :: int
  cv_offset :: int
  cv_initialOffset :: int
  cv_initialPosition :: s64
  cv_subscriberPosition :: s64

definition commit :: "controlled_vars \<Rightarrow> controlled_vars" where
  "commit v = (let position = cv_initialPosition v + word_of_int (cv_offset v - cv_initialOffset v)
     in v\<lparr>cv_initialPosition := position, cv_initialOffset := cv_offset v, cv_subscriberPosition := position\<rparr>)"

function controlled_loop ::
  "endian \<Rightarrow> atomic_buffer \<Rightarrow> int \<Rightarrow> 's controlled_handler \<Rightarrow> (cpp_error \<Rightarrow> 's \<Rightarrow> 's) \<Rightarrow> int \<Rightarrow> header \<Rightarrow> controlled_vars \<Rightarrow> 's
   \<Rightarrow> (controlled_vars \<times> 's) cpp" where
  "controlled_loop e b limitOffset handler onError fragmentLimit hdr v s =
     (if cv_fragmentsRead v < fragmentLimit \<and> cv_offset v < limitOffset
      then catching (frameLengthVolatile e b (cv_offset v)) (\<lambda>err. Inr (v, onError err s)) (\<lambda>len.
        let frameLength = sint len
        in if frameLength \<le> 0 then Inr (v, s)
           else let frameOffset = cv_offset v;
                    alignedLength = align frameLength FRAME_ALIGNMENT;
                    v = v\<lparr>cv_offset := frameOffset + alignedLength\<rparr>
                in catching (isPaddingFrame e b frameOffset) (\<lambda>err. Inr (v, onError err s)) (\<lambda>isPadding.
                   if isPadding then controlled_loop e b limitOffset handler onError fragmentLimit hdr v s
                   else let v = v\<lparr>cv_fragmentsRead := cv_fragmentsRead v + 1\<rparr>
                        in case handler s b (frameOffset + DATA_FRAME_LENGTH) (frameLength - DATA_FRAME_LENGTH)
                                  (hdr\<lparr>hd_buffer := b, hd_offset := frameOffset\<rparr>) of
                             (s', Inl err) \<Rightarrow> Inr (v, onError err s')
                           | (s', Inr ABORT) \<Rightarrow>
                               Inr (v\<lparr>cv_fragmentsRead := cv_fragmentsRead v - 1, cv_offset := cv_offset v - alignedLength\<rparr>, s')
                           | (s', Inr BREAK) \<Rightarrow> Inr (v, s')
                           | (s', Inr COMMIT) \<Rightarrow> controlled_loop e b limitOffset handler onError fragmentLimit hdr (commit v) s'
                           | (s', Inr CONTINUE) \<Rightarrow> controlled_loop e b limitOffset handler onError fragmentLimit hdr v s'))
      else Inr (v, s))"
  by pat_completeness auto
termination
  by (relation "measure (\<lambda>(_, _, limitOffset, _, _, _, _, v, _). nat (limitOffset - cv_offset v))")
    (auto intro!: align_pos simp: commit_def Let_def)

declare controlled_loop.simps [simp del]

text \<open>
  The loop of \<open>controlledPeek\<close>: position, the offset and position reached so far, and the position behind
  the last whole message.
\<close>

function peek_loop ::
  "endian \<Rightarrow> atomic_buffer \<Rightarrow> int \<Rightarrow> 's controlled_handler \<Rightarrow> (cpp_error \<Rightarrow> 's \<Rightarrow> 's) \<Rightarrow> header \<Rightarrow> int \<Rightarrow> int \<Rightarrow> s64 \<Rightarrow> s64 \<Rightarrow> 's
   \<Rightarrow> (s64 \<times> 's) cpp" where
  "peek_loop e b limitOffset handler onError hdr offset initialOffset position resultingPosition s =
     (if offset < limitOffset
      then catching (frameLengthVolatile e b offset) (\<lambda>err. Inr (resultingPosition, onError err s)) (\<lambda>len.
        let frameLength = sint len
        in if frameLength \<le> 0 then Inr (resultingPosition, s)
           else let frameOffset = offset;
                    offset = offset + align frameLength FRAME_ALIGNMENT
                in catching (isPaddingFrame e b frameOffset) (\<lambda>err. Inr (resultingPosition, onError err s)) (\<lambda>isPadding.
                   let reached = position + word_of_int (offset - initialOffset)
                   in if isPadding then peek_loop e b limitOffset handler onError hdr offset offset reached reached s
                      else let hdr' = hdr\<lparr>hd_buffer := b, hd_offset := frameOffset\<rparr>
                           in case handler s b (frameOffset + DATA_FRAME_LENGTH) (frameLength - DATA_FRAME_LENGTH) hdr' of
                                (s', Inl err) \<Rightarrow> Inr (resultingPosition, onError err s')
                              | (s', Inr action) \<Rightarrow>
                                  if action = ABORT then Inr (resultingPosition, s')
                                  else catching (hd_flags e hdr') (\<lambda>err. Inr (resultingPosition, onError err s')) (\<lambda>flags.
                                    let resulting = (if flags AND END_FRAG \<noteq> 0 then reached else resultingPosition)
                                    in if action = BREAK then Inr (resulting, s')
                                       else peek_loop e b limitOffset handler onError hdr offset offset reached resulting s')))
      else Inr (resultingPosition, s))"
  by pat_completeness auto
termination
  by (relation "measure (\<lambda>(_, _, limitOffset, _, _, _, offset, _). nat (limitOffset - offset))") (auto intro!: align_pos)

declare peek_loop.simps [simp del]

section \<open>Scanning a block\<close>

function scan_loop :: "endian \<Rightarrow> atomic_buffer \<Rightarrow> int \<Rightarrow> int \<Rightarrow> int \<Rightarrow> int cpp" where
  "scan_loop e b startOffset limitOffset offset =
     (if offset < limitOffset
      then andThen (frameLengthVolatile e b offset) (\<lambda>len.
        let frameLength = sint len
        in if frameLength \<le> 0 then Inr offset
           else let alignedFrameLength = align frameLength FRAME_ALIGNMENT
                in andThen (isPaddingFrame e b offset) (\<lambda>isPadding.
                   if isPadding then Inr (if startOffset = offset then offset + alignedFrameLength else offset)
                   else if limitOffset < offset + alignedFrameLength then Inr offset
                   else scan_loop e b startOffset limitOffset (offset + alignedFrameLength)))
      else Inr offset)"
  by pat_completeness auto
termination
  by (relation "measure (\<lambda>(_, _, _, limitOffset, offset). nat (limitOffset - offset))") (auto intro!: align_pos)

declare scan_loop.simps [simp del]

definition TermBlockScanner_scan :: "endian \<Rightarrow> atomic_buffer \<Rightarrow> int \<Rightarrow> int \<Rightarrow> int cpp" where
  "TermBlockScanner_scan e termBuffer offset limitOffset = scan_loop e termBuffer offset limitOffset offset"

section \<open>Images\<close>

record image =
  im_termBuffers :: "atomic_buffer list"
  im_logMetaData :: logbuffer_metadata
  im_subscriberPosition :: s64
  im_header :: header
  im_isClosed :: bool
  im_isEos :: bool
  im_termLengthMask :: s32
  im_positionBitsToShift :: nat
  im_sessionId :: s32
  im_joinPosition :: s64
  im_finalPosition :: s64
  im_eosPosition :: s64

text \<open>\<open>__builtin_ctz\<close> of a number that is not zero; for zero the source answers \<open>sizeof (value) * 4\<close>.\<close>

definition numberOfTrailingZeroes :: "s32 \<Rightarrow> nat" where
  "numberOfTrailingZeroes value = (if value = 0 then 4 * 4 else length (takeWhile (\<lambda>k. \<not> bit value k) [0..<32]))"

definition Image :: "s32 \<Rightarrow> s64 \<Rightarrow> logbuffer_metadata \<Rightarrow> atomic_buffer list \<Rightarrow> image cpp" where
  "Image sessionId subscriberPosition m logBuffers =
     andThen (positionBitsToShift (capacity (logBuffers ! 0))) (\<lambda>bitsToShift.
       let cap = m_length (logBuffers ! 0)
       in Inr \<lparr>im_termBuffers = take 3 logBuffers, im_logMetaData = m, im_subscriberPosition = subscriberPosition,
            im_header = Header (lm_initial_term_id m) bitsToShift, im_isClosed = False, im_isEos = False,
            im_termLengthMask = cap - 1, im_positionBitsToShift = numberOfTrailingZeroes cap, im_sessionId = sessionId,
            im_joinPosition = subscriberPosition, im_finalPosition = subscriberPosition, im_eosPosition = 2 ^ 63 - 1\<rparr>)"

text \<open>Copying leaves the end of stream position at its initial value.\<close>

definition copy_image :: "image \<Rightarrow> image" where
  "copy_image im = im\<lparr>im_eosPosition := 2 ^ 63 - 1\<rparr>"

definition im_position :: "image \<Rightarrow> s64" where
  "im_position im = (if im_isClosed im then im_finalPosition im else im_subscriberPosition im)"

definition im_isEndOfStream :: "image \<Rightarrow> bool" where
  "im_isEndOfStream im =
     (if im_isClosed im then im_isEos im else endOfStreamPosition (im_logMetaData im) \<le>s im_subscriberPosition im)"

definition im_endOfStreamPosition :: "image \<Rightarrow> s64" where
  "im_endOfStreamPosition im = (if im_isClosed im then im_eosPosition im else endOfStreamPosition (im_logMetaData im))"

definition im_activeTransportCount :: "image \<Rightarrow> s32" where
  "im_activeTransportCount im = (if im_isClosed im then 0 else activeTransportCount (im_logMetaData im))"

definition im_close :: "image \<Rightarrow> image" where
  "im_close im =
     (if im_isClosed im then im
      else let final = im_subscriberPosition im; eos = endOfStreamPosition (im_logMetaData im)
           in im\<lparr>im_finalPosition := final, im_eosPosition := eos, im_isEos := (eos \<le>s final), im_isClosed := True\<rparr>)"

definition validatePosition :: "image \<Rightarrow> s64 \<Rightarrow> unit cpp" where
  "validatePosition im newPosition =
     (let position = im_subscriberPosition im; msk = scast (im_termLengthMask im);
          limitPosition = (position - (position AND msk)) + msk + 1
      in if newPosition <s position \<or> limitPosition <s newPosition then Inl IllegalArgumentException
         else if newPosition AND word_of_int (FRAME_ALIGNMENT - 1) \<noteq> 0 then Inl IllegalArgumentException
         else Inr ())"

definition set_position :: "image \<Rightarrow> s64 \<Rightarrow> image cpp" where
  "set_position im newPosition =
     (if im_isClosed im then Inr im
      else andThen (validatePosition im newPosition) (\<lambda>_. Inr (im\<lparr>im_subscriberPosition := newPosition\<rparr>)))"

text \<open>The offset in its term of a position, and the term buffer it is in.\<close>

definition offset_of :: "image \<Rightarrow> s64 \<Rightarrow> int" where
  "offset_of im position = sint (ucast (position AND scast (im_termLengthMask im)) :: s32)"

definition im_termBuffer :: "image \<Rightarrow> s64 \<Rightarrow> atomic_buffer" where
  "im_termBuffer im position = im_termBuffers im ! nat (indexByPosition position (im_positionBitsToShift im))"

text \<open>The end of every poll: the position moves when it has grown.\<close>

definition move_to :: "image \<Rightarrow> s64 \<Rightarrow> s64 \<Rightarrow> image" where
  "move_to im position newPosition = (if position <s newPosition then im\<lparr>im_subscriberPosition := newPosition\<rparr> else im)"

definition poll :: "endian \<Rightarrow> image \<Rightarrow> 's handler \<Rightarrow> (cpp_error \<Rightarrow> 's \<Rightarrow> 's) \<Rightarrow> int \<Rightarrow> 's \<Rightarrow> (image \<times> int \<times> 's) cpp" where
  "poll e im handler onError fragmentLimit s =
     (if im_isClosed im then Inr (im, 0, s)
      else let position = im_subscriberPosition im; offset = offset_of im position
           in andThen (TermReader_read e (im_termBuffer im position) offset handler onError fragmentLimit (im_header im) s)
                (\<lambda>(resultingOffset, fragmentsRead, s).
                  Inr (move_to im position (position + word_of_int (resultingOffset - offset)), fragmentsRead, s)))"

text \<open>The offset a limit position stands for, at most the end of the term.\<close>

definition limit_offset :: "image \<Rightarrow> s64 \<Rightarrow> s64 \<Rightarrow> int" where
  "limit_offset im initialPosition limitPosition =
     min (capacity (im_termBuffer im initialPosition))
       (sint (limitPosition - initialPosition + word_of_int (offset_of im initialPosition)))"

definition boundedPoll ::
  "endian \<Rightarrow> image \<Rightarrow> 's handler \<Rightarrow> (cpp_error \<Rightarrow> 's \<Rightarrow> 's) \<Rightarrow> s64 \<Rightarrow> int \<Rightarrow> 's \<Rightarrow> (image \<times> int \<times> 's) cpp" where
  "boundedPoll e im handler onError limitPosition fragmentLimit s =
     (let initialPosition = im_subscriberPosition im; initialOffset = offset_of im initialPosition
      in if im_isClosed im \<or> limitPosition \<le>s initialPosition then Inr (im, 0, s)
         else andThen (read_loop e (im_termBuffer im initialPosition) (limit_offset im initialPosition limitPosition)
                handler onError fragmentLimit (im_header im) 0 initialOffset s)
              (\<lambda>(resultingOffset, fragmentsRead, s).
                Inr (move_to im initialPosition (initialPosition + word_of_int (resultingOffset - initialOffset)), fragmentsRead, s)))"

text \<open>The common part of the two controlled polls, up to a limit offset.\<close>

definition controlled_poll_to ::
  "endian \<Rightarrow> image \<Rightarrow> int \<Rightarrow> 's controlled_handler \<Rightarrow> (cpp_error \<Rightarrow> 's \<Rightarrow> 's) \<Rightarrow> int \<Rightarrow> 's \<Rightarrow> (image \<times> int \<times> 's) cpp" where
  "controlled_poll_to e im limitOffset handler onError fragmentLimit s =
     (let position = im_subscriberPosition im; offset = offset_of im position
      in andThen (controlled_loop e (im_termBuffer im position) limitOffset handler onError fragmentLimit (im_header im)
            \<lparr>cv_fragmentsRead = 0, cv_offset = offset, cv_initialOffset = offset, cv_initialPosition = position,
             cv_subscriberPosition = position\<rparr> s)
          (\<lambda>(v, s). Inr (move_to (im\<lparr>im_subscriberPosition := cv_subscriberPosition v\<rparr>) (cv_initialPosition v)
             (cv_initialPosition v + word_of_int (cv_offset v - cv_initialOffset v)), cv_fragmentsRead v, s)))"

definition controlledPoll ::
  "endian \<Rightarrow> image \<Rightarrow> 's controlled_handler \<Rightarrow> (cpp_error \<Rightarrow> 's \<Rightarrow> 's) \<Rightarrow> int \<Rightarrow> 's \<Rightarrow> (image \<times> int \<times> 's) cpp" where
  "controlledPoll e im handler onError fragmentLimit s =
     (if im_isClosed im then Inr (im, 0, s)
      else controlled_poll_to e im (capacity (im_termBuffer im (im_subscriberPosition im))) handler onError fragmentLimit s)"

definition boundedControlledPoll ::
  "endian \<Rightarrow> image \<Rightarrow> 's controlled_handler \<Rightarrow> (cpp_error \<Rightarrow> 's \<Rightarrow> 's) \<Rightarrow> s64 \<Rightarrow> int \<Rightarrow> 's \<Rightarrow> (image \<times> int \<times> 's) cpp" where
  "boundedControlledPoll e im handler onError limitPosition fragmentLimit s =
     (if im_isClosed im \<or> limitPosition \<le>s im_subscriberPosition im then Inr (im, 0, s)
      else controlled_poll_to e im (limit_offset im (im_subscriberPosition im) limitPosition) handler onError fragmentLimit s)"

definition controlledPeek ::
  "endian \<Rightarrow> image \<Rightarrow> s64 \<Rightarrow> 's controlled_handler \<Rightarrow> (cpp_error \<Rightarrow> 's \<Rightarrow> 's) \<Rightarrow> s64 \<Rightarrow> 's \<Rightarrow> (s64 \<times> 's) cpp" where
  "controlledPeek e im initialPosition handler onError limitPosition s =
     (if im_isClosed im then Inr (initialPosition, s)
      else andThen (validatePosition im initialPosition) (\<lambda>_.
        if limitPosition \<le>s initialPosition then Inr (initialPosition, s)
        else let initialOffset = offset_of im initialPosition
             in peek_loop e (im_termBuffer im initialPosition) (limit_offset im initialPosition limitPosition) handler onError
                  (im_header im) initialOffset initialOffset initialPosition initialPosition s))"

type_synonym 's block_handler = "'s \<Rightarrow> atomic_buffer \<Rightarrow> int \<Rightarrow> int \<Rightarrow> s32 \<Rightarrow> s32 \<Rightarrow> 's \<times> cpp_error option"

definition blockPoll ::
  "endian \<Rightarrow> image \<Rightarrow> 's block_handler \<Rightarrow> (cpp_error \<Rightarrow> 's \<Rightarrow> 's) \<Rightarrow> int \<Rightarrow> 's \<Rightarrow> (image \<times> int \<times> 's) cpp" where
  "blockPoll e im handler onError blockLengthLimit s =
     (if im_isClosed im then Inr (im, 0, s)
      else let position = im_subscriberPosition im;
               offset = offset_of im position;
               termBuffer = im_termBuffer im position;
               limitOffset = min (offset + blockLengthLimit) (capacity termBuffer)
           in andThen (TermBlockScanner_scan e termBuffer offset limitOffset) (\<lambda>resultingOffset.
              let len = resultingOffset - offset
              in if offset < resultingOffset
                 then catching (getInt32 e termBuffer (offset + TERM_ID_FIELD_OFFSET))
                        (\<lambda>err. Inr (im\<lparr>im_subscriberPosition := position + word_of_int len\<rparr>, len, onError err s))
                        (\<lambda>i. let s' = (case handler s termBuffer offset len (im_sessionId im) i of
                                 (s', None) \<Rightarrow> s' | (s', Some err) \<Rightarrow> onError err s')
                             in Inr (im\<lparr>im_subscriberPosition := position + word_of_int len\<rparr>, len, s'))
                 else Inr (im, len, s)))"

end
