(* ===== verification/FragmentAssembler.thy ===== *)
theory FragmentAssembler
  imports CppImage
begin

text \<open>
  \<open>BufferBuilder.h\<close> and \<open>FragmentAssembler.h\<close> of the C++ client: the fragments of a message are copied
  together in a buffer that grows as needed, one for each session, and the message is handed on when its
  last fragment has come. Freshly allocated memory, whose content nothing reads before it is written,
  is zero here. The map from sessions to builders is a finite function.
\<close>

section \<open>Buffer builders\<close>

definition BUFFER_BUILDER_MAX_CAPACITY :: u32 where "BUFFER_BUILDER_MAX_CAPACITY = 2147483647 - 8"
definition BUFFER_BUILDER_INIT_MIN_CAPACITY :: u32 where "BUFFER_BUILDER_INIT_MIN_CAPACITY = 4096"

record buffer_builder =
  bb_capacity :: u32
  bb_limit :: u32
  bb_nextTermOffset :: int
  bb_buffer :: "u8 list"
  bb_header :: header

definition BufferBuilder :: "u32 \<Rightarrow> buffer_builder cpp" where
  "BufferBuilder initialCapacity =
     (if BUFFER_BUILDER_MAX_CAPACITY < initialCapacity then Inl IllegalArgumentException
      else Inr \<lparr>bb_capacity = initialCapacity, bb_limit = 0, bb_nextTermOffset = NULL_VALUE,
             bb_buffer = replicate (unat initialCapacity) 0,
             bb_header = (Header 0 0)\<lparr>hd_buffer := \<lparr>m_buffer = replicate 32 0, m_length = 32\<rparr>\<rparr>\<rparr>)"

definition set_limit :: "buffer_builder \<Rightarrow> u32 \<Rightarrow> buffer_builder cpp" where
  "set_limit bb limit = (if bb_capacity bb \<le> limit then Inl IllegalArgumentException else Inr (bb\<lparr>bb_limit := limit\<rparr>))"

definition bb_reset :: "buffer_builder \<Rightarrow> buffer_builder" where
  "bb_reset bb = bb\<lparr>bb_limit := 0, bb_nextTermOffset := NULL_VALUE,
     bb_header := (bb_header bb)\<lparr>hd_fragmentedFrameLength := NULL_VALUE\<rparr>\<rparr>"

text \<open>\<open>memcpy\<close> of the bytes up to the limit into new memory.\<close>

definition bb_resize :: "buffer_builder \<Rightarrow> u32 \<Rightarrow> buffer_builder cpp" where
  "bb_resize bb newCapacity =
     (case mem_read (bb_buffer bb) 0 (unat (bb_limit bb)) of
        None \<Rightarrow> Inl UndefinedBehaviour
      | Some bs \<Rightarrow>
          (case mem_write (replicate (unat newCapacity) 0) 0 bs of
             None \<Rightarrow> Inl UndefinedBehaviour
           | Some buffer \<Rightarrow> Inr (bb\<lparr>bb_buffer := buffer, bb_capacity := newCapacity\<rparr>)))"

definition bb_compact :: "buffer_builder \<Rightarrow> buffer_builder cpp" where
  "bb_compact bb =
     (let newCapacity = (if BUFFER_BUILDER_INIT_MIN_CAPACITY < bb_limit bb then bb_limit bb else BUFFER_BUILDER_INIT_MIN_CAPACITY)
      in if newCapacity < bb_capacity bb then bb_resize bb newCapacity else Inr bb)"

text \<open>The loop of \<open>findSuitableCapacity\<close>; \<open>None\<close> when it never ends.\<close>

partial_function (option) grow_capacity :: "u32 \<Rightarrow> u32 \<Rightarrow> u32 option" where
  "grow_capacity newCapacity requiredCapacity =
     (if newCapacity < requiredCapacity
      then let grown = newCapacity + newCapacity div 2;
               grown = (if BUFFER_BUILDER_MAX_CAPACITY < grown then BUFFER_BUILDER_MAX_CAPACITY else grown)
           in grow_capacity grown requiredCapacity
      else Some newCapacity)"

definition findSuitableCapacity :: "u32 \<Rightarrow> u32 \<Rightarrow> u32 option" where
  "findSuitableCapacity currentCapacity requiredCapacity =
     grow_capacity (if currentCapacity < BUFFER_BUILDER_INIT_MIN_CAPACITY then BUFFER_BUILDER_INIT_MIN_CAPACITY else currentCapacity)
       requiredCapacity"

definition ensureCapacity :: "buffer_builder \<Rightarrow> u32 \<Rightarrow> buffer_builder cpp" where
  "ensureCapacity bb additionalCapacity =
     (let requiredCapacity = bb_limit bb + additionalCapacity
      in if bb_capacity bb < requiredCapacity
         then if BUFFER_BUILDER_MAX_CAPACITY < requiredCapacity then Inl IllegalStateException
              else case findSuitableCapacity (bb_capacity bb) requiredCapacity of
                     None \<Rightarrow> Inl UndefinedBehaviour
                   | Some newCapacity \<Rightarrow> bb_resize bb newCapacity
         else Inr bb)"

definition bb_append :: "buffer_builder \<Rightarrow> atomic_buffer \<Rightarrow> int \<Rightarrow> int \<Rightarrow> buffer_builder cpp" where
  "bb_append bb buffer offset len =
     andThen (ensureCapacity bb (word_of_int len)) (\<lambda>bb.
     andThen (load_bytes buffer offset (unat (word_of_int len :: u32))) (\<lambda>bs.
       case mem_write (bb_buffer bb) (unat (bb_limit bb)) bs of
         None \<Rightarrow> Inl UndefinedBehaviour
       | Some bytes \<Rightarrow> Inr (bb\<lparr>bb_buffer := bytes, bb_limit := bb_limit bb + word_of_int len\<rparr>)))"

definition captureHeader :: "buffer_builder \<Rightarrow> header \<Rightarrow> buffer_builder cpp" where
  "captureHeader bb hdr = andThen (hd_copyFrom (bb_header bb) hdr) (\<lambda>h. Inr (bb\<lparr>bb_header := h\<rparr>))"

definition completeHeader :: "endian \<Rightarrow> buffer_builder \<Rightarrow> header \<Rightarrow> buffer_builder cpp" where
  "completeHeader e bb hdr =
     andThen (hd_frameLength e (bb_header bb)) (\<lambda>firstFrameLength.
       if sint firstFrameLength - DATA_FRAME_LENGTH = 0 then Inl UndefinedBehaviour
       else let fragmentedFrameLength =
                  computeFragmentedFrameLength (sint (bb_limit bb)) (sint firstFrameLength - DATA_FRAME_LENGTH);
                h = (bb_header bb)\<lparr>hd_fragmentedFrameLength := fragmentedFrameLength\<rparr>
            in andThen (putInt32 e (hd_buffer h) (FRAME_LENGTH_FIELD_OFFSET + hd_offset h)
                 (word_of_int (DATA_FRAME_LENGTH + sint (bb_limit bb)))) (\<lambda>b.
               let h = h\<lparr>hd_buffer := b\<rparr>
               in andThen (hd_flags e h) (\<lambda>flags.
                  andThen (hd_flags e hdr) (\<lambda>flags'.
                  andThen (putUInt8 e (hd_buffer h) (FLAGS_FIELD_OFFSET + hd_offset h) (flags OR flags')) (\<lambda>b.
                    Inr (bb\<lparr>bb_header := h\<lparr>hd_buffer := b\<rparr>\<rparr>))))))"

section \<open>The assembler\<close>

type_synonym builders = "s32 \<rightharpoonup> buffer_builder"

definition getBuffer :: "u32 \<Rightarrow> builders \<Rightarrow> s32 \<Rightarrow> buffer_builder cpp" where
  "getBuffer initialBufferLength m sessionId =
     (case m sessionId of Some bb \<Rightarrow> Inr bb | None \<Rightarrow> BufferBuilder initialBufferLength)"

definition deleteSessionBuffer :: "builders \<Rightarrow> s32 \<Rightarrow> builders" where
  "deleteSessionBuffer m sessionId = m(sessionId := None)"

text \<open>
  The result of a handler: the state at the point an exception was thrown at, with the exception. A
  reference to a builder is the entry of the map.
\<close>

definition or_throw :: "'a cpp \<Rightarrow> 'st \<Rightarrow> ('a \<Rightarrow> 'st \<times> cpp_error option) \<Rightarrow> 'st \<times> cpp_error option" where
  "or_throw r st f = (case r of Inl err \<Rightarrow> (st, Some err) | Inr x \<Rightarrow> f x)"

lemma or_throw_simps [simp]: "or_throw (Inr x) st f = f x" "or_throw (Inl err) st f = (st, Some err)"
  by (simp_all add: or_throw_def)

definition begin_fragment :: "endian \<Rightarrow> u32 \<Rightarrow> ('s \<times> builders) handler" where
  "begin_fragment e initialBufferLength st buffer offset len hdr =
     (case st of (s, m) \<Rightarrow>
        or_throw (hd_sessionId e hdr) st (\<lambda>sessionId.
        or_throw (getBuffer initialBufferLength m sessionId) st (\<lambda>builder.
          let builder = bb_reset builder
          in or_throw (captureHeader builder hdr) (s, m(sessionId \<mapsto> builder)) (\<lambda>builder.
             or_throw (bb_append builder buffer offset len) (s, m(sessionId \<mapsto> builder)) (\<lambda>builder.
             or_throw (hd_nextTermOffset e hdr) (s, m(sessionId \<mapsto> builder)) (\<lambda>next.
               ((s, m(sessionId \<mapsto> builder\<lparr>bb_nextTermOffset := next\<rparr>)), None)))))))"

definition deliver_assembled :: "endian \<Rightarrow> 's handler \<Rightarrow> 's \<Rightarrow> builders \<Rightarrow> s32 \<Rightarrow> buffer_builder \<Rightarrow> header \<Rightarrow> ('s \<times> builders) \<times> cpp_error option" where
  "deliver_assembled e delegate s m sessionId builder hdr =
     or_throw (wrap (take (unat (bb_limit builder)) (bb_buffer builder)) (unat (bb_limit builder))) (s, m(sessionId \<mapsto> builder)) (\<lambda>msgBuffer.
     or_throw (completeHeader e builder hdr) (s, m(sessionId \<mapsto> builder)) (\<lambda>builder.
       case delegate s msgBuffer 0 (sint (bb_limit builder)) (bb_header builder) of
         (s, None) \<Rightarrow> ((s, m(sessionId \<mapsto> bb_reset builder)), None)
       | (s, Some err) \<Rightarrow> ((s, m(sessionId \<mapsto> builder)), Some err)))"

definition next_fragment :: "endian \<Rightarrow> 's handler \<Rightarrow> u8 \<Rightarrow> ('s \<times> builders) handler" where
  "next_fragment e delegate flags st buffer offset len hdr =
     (case st of (s, m) \<Rightarrow>
        or_throw (hd_sessionId e hdr) st (\<lambda>sessionId.
          case m sessionId of
            None \<Rightarrow> (st, None)
          | Some builder \<Rightarrow>
              or_throw (hd_termOffset e hdr) st (\<lambda>offsetInTerm.
                if sint offsetInTerm = bb_nextTermOffset builder
                then or_throw (bb_append builder buffer offset len) st (\<lambda>builder.
                  if flags AND END_FRAG = END_FRAG then deliver_assembled e delegate s m sessionId builder hdr
                  else or_throw (hd_nextTermOffset e hdr) (s, m(sessionId \<mapsto> builder)) (\<lambda>next.
                    ((s, m(sessionId \<mapsto> builder\<lparr>bb_nextTermOffset := next\<rparr>)), None)))
                else ((s, m(sessionId \<mapsto> bb_reset builder)), None))))"

definition handleFragment :: "endian \<Rightarrow> u32 \<Rightarrow> 's handler \<Rightarrow> ('s \<times> builders) handler" where
  "handleFragment e initialBufferLength delegate st buffer offset len hdr =
     or_throw (hd_flags e hdr) st (\<lambda>flags.
       if flags AND BEGIN_FRAG = BEGIN_FRAG then begin_fragment e initialBufferLength st buffer offset len hdr
       else next_fragment e delegate flags st buffer offset len hdr)"

definition onFragment :: "endian \<Rightarrow> u32 \<Rightarrow> 's handler \<Rightarrow> ('s \<times> builders) handler" where
  "onFragment e initialBufferLength delegate st buffer offset len hdr =
     or_throw (hd_flags e hdr) st (\<lambda>flags.
       if flags AND UNFRAGMENTED = UNFRAGMENTED
       then (case delegate (fst st) buffer offset len hdr of (s, x) \<Rightarrow> ((s, snd st), x))
       else handleFragment e initialBufferLength delegate st buffer offset len hdr)"

end
