(* ===== verification/ImageReads.thy ===== *)
theory ImageReads
  imports CppPublication CppImage
begin

text \<open>
  What the polls of an image deliver: the loops over a term buffer refine the walk over the list of
  frames it holds.
\<close>

section \<open>Frames in a buffer\<close>

definition is_padding :: "frame \<Rightarrow> bool" where
  "is_padding f \<longleftrightarrow> frame_type (dh_frame_header (fst f)) = HDR_TYPE_PAD"

definition readable :: "frame \<Rightarrow> bool" where
  "readable f \<longleftrightarrow> frame_length (dh_frame_header (fst f)) = word_of_nat (length (snd f) + 32) \<and> length (snd f) + 32 < 2 ^ 31"

text \<open>Where nothing has been written: the end of the buffer or a zero length.\<close>

definition unwritten :: "u8 list \<Rightarrow> bool" where
  "unwritten B \<longleftrightarrow> B = [] \<or> (4 \<le> length B \<and> take 4 B = replicate 4 0)"

lemma unwritten_zeros: "32 dvd n \<Longrightarrow> unwritten (replicate n 0)"
proof -
  assume "32 dvd n"
  then have "n = 0 \<or> 4 \<le> n" by (auto elim!: dvdE)
  then show ?thesis by (auto simp: unwritten_def)
qed

lemma frame_bytes_at:
  assumes "sound b" and b: "m_buffer b = A @ frame_image e f @ B"
  shows "frameLengthVolatile e b (int (length A)) = Inr (frame_length (dh_frame_header (fst f)))"
    and "isPaddingFrame e b (int (length A)) = Inr (is_padding f)"
proof -
  have len: "length A + 32 \<le> length (m_buffer b)"
    using align_up_bounds(1) [of 32 "length (snd f) + 32"] by (simp add: b)
  show "frameLengthVolatile e b (int (length A)) = Inr (frame_length (dh_frame_header (fst f)))"
    using assms(1) len
    by (simp add: frameLengthVolatile_def ordered_access int32.get_inside lengthOffset_def field_offsets)
      (simp add: b frame_image_def data_header_bytes_def of_host_bytes)
  show "isPaddingFrame e b (int (length A)) = Inr (is_padding f)"
    using assms(1) len
    by (simp add: isPaddingFrame_def uint16.get_inside typeOffset_def field_offsets)
      (simp add: b frame_image_def data_header_bytes_def of_host_bytes is_padding_def)
qed

lemma unwritten_at:
  assumes "sound b" and "m_buffer b = A @ B" and "unwritten B" and "B \<noteq> []"
  shows "frameLengthVolatile e b (int (length A)) = Inr 0"
  using assms
  by (simp add: frameLengthVolatile_def ordered_access int32.get_inside lengthOffset_def field_offsets unwritten_def of_host_zero)

section \<open>Delivering frames\<close>

text \<open>
  The specification of the plain polls: frames are consumed until \<open>n\<close> data frames have been handled, an
  exception has been thrown, or none is left.
\<close>

fun deliver_frames ::
  "('s \<Rightarrow> frame \<Rightarrow> 's \<times> cpp_error option) \<Rightarrow> (cpp_error \<Rightarrow> 's \<Rightarrow> 's) \<Rightarrow> nat \<Rightarrow> frame list \<Rightarrow> 's \<Rightarrow> frame list \<times> nat \<times> 's" where
  "deliver_frames g onError n [] s = ([], 0, s)"
| "deliver_frames g onError 0 (f # fs) s = ([], 0, s)"
| "deliver_frames g onError (Suc n) (f # fs) s =
     (if is_padding f then (case deliver_frames g onError (Suc n) fs s of (c, k, s') \<Rightarrow> (f # c, k, s'))
      else case g s f of
             (s', None) \<Rightarrow> (case deliver_frames g onError n fs s' of (c, k, s'') \<Rightarrow> (f # c, Suc k, s''))
           | (s', Some err) \<Rightarrow> ([f], 1, onError err s'))"

lemma deliver_frames_prefix:
  "deliver_frames g onError n fs s = (c, k, s') \<Longrightarrow> \<exists>rest. fs = c @ rest"
proof (induction g onError n fs s arbitrary: c k s' rule: deliver_frames.induct)
  case (3 g onError n f fs s)
  then show ?case by (force split: if_splits prod.splits option.splits)
qed simp_all

text \<open>
  A handler that follows a step \<open>g\<close> on frames: \<open>R\<close> relates its state to that of the step, given the
  frames still to come.
\<close>

definition follows ::
  "endian \<Rightarrow> 'a handler \<Rightarrow> (cpp_error \<Rightarrow> 'a \<Rightarrow> 'a) \<Rightarrow> ('b \<Rightarrow> frame \<Rightarrow> 'b \<times> cpp_error option) \<Rightarrow> (cpp_error \<Rightarrow> 'b \<Rightarrow> 'b)
   \<Rightarrow> (frame list \<Rightarrow> 'a \<Rightarrow> 'b \<Rightarrow> bool) \<Rightarrow> bool" where
  "follows e handler onError g onError' R \<longleftrightarrow>
     (\<forall>f fs s t. is_padding f \<longrightarrow> R (f # fs) s t \<longrightarrow> R fs s t) \<and>
     (\<forall>f fs s t t' x b A B hdr. \<not> is_padding f \<longrightarrow> R (f # fs) s t \<longrightarrow> g t f = (t', x) \<longrightarrow>
        sound b \<longrightarrow> m_buffer b = A @ frame_image e f @ B \<longrightarrow> readable f \<longrightarrow> hd_fragmentedFrameLength hdr = NULL_VALUE \<longrightarrow>
        (\<exists>s'. handler s b (int (length A) + DATA_FRAME_LENGTH) (int (length (snd f)))
            (hdr\<lparr>hd_buffer := b, hd_offset := int (length A)\<rparr>) = (s', x) \<and>
          (case x of None \<Rightarrow> R fs s' t' | Some err \<Rightarrow> R fs (onError err s') (onError' err t'))))"

text \<open>A handler that looks at nothing but the frame it is given.\<close>

definition sees :: "endian \<Rightarrow> 's handler \<Rightarrow> ('s \<Rightarrow> frame \<Rightarrow> 's \<times> cpp_error option) \<Rightarrow> bool" where
  "sees e handler g \<longleftrightarrow> (\<forall>s b A f B hdr. sound b \<longrightarrow> m_buffer b = A @ frame_image e f @ B \<longrightarrow> readable f \<longrightarrow> hd_fragmentedFrameLength hdr = NULL_VALUE \<longrightarrow>
     handler s b (int (length A) + DATA_FRAME_LENGTH) (int (length (snd f))) (hdr\<lparr>hd_buffer := b, hd_offset := int (length A)\<rparr>) = g s f)"

lemma sees_follows: "sees e handler g \<Longrightarrow> follows e handler onError g onError (\<lambda>_ s t. s = t)"
  by (simp add: sees_def follows_def split: option.split)

text \<open>One pass of the loop, at a frame.\<close>

lemma read_loop_step:
  assumes "sound b" and b: "m_buffer b = A @ frame_image e f @ B" and "readable f" and "0 < n"
  shows "read_loop e b (capacity b) handler onError (r + int n) hdr r (int (length A)) s =
     (if is_padding f then read_loop e b (capacity b) handler onError (r + int n) hdr r (int (length (A @ frame_image e f))) s
      else case handler s b (int (length A) + DATA_FRAME_LENGTH) (int (length (snd f))) (hdr\<lparr>hd_buffer := b, hd_offset := int (length A)\<rparr>) of
             (s', None) \<Rightarrow> read_loop e b (capacity b) handler onError (r + int n) hdr (r + 1) (int (length (A @ frame_image e f))) s'
           | (s', Some err) \<Rightarrow> Inr (int (length (A @ frame_image e f)), r + 1, onError err s'))"
proof -
  have len: "sint (frame_length (dh_frame_header (fst f))) = int (length (snd f) + 32)"
    using assms(3) sint_of_nat(1) unfolding readable_def by metis
  have "align (int (length (snd f) + 32)) FRAME_ALIGNMENT = int (length (frame_image e f))"
    using align_frame [of "length (snd f) + 32"] by simp
  then have nxt: "int (length A) + align (int (length (snd f) + 32)) FRAME_ALIGNMENT = int (length (A @ frame_image e f))"
    by simp
  have inside: "int (length A) < capacity b"
    using align_up_bounds(1) [of 32 "length (snd f) + 32"] by (simp add: capacity_sound assms(1) b)
  have "int (length (snd f) + 32) - DATA_FRAME_LENGTH = int (length (snd f))" by (simp add: DATA_FRAME_LENGTH_def)
  then show ?thesis
    using frame_bytes_at [OF assms(1) b] len assms(4) inside nxt by (subst read_loop.simps) (simp add: Let_def)
qed

lemma read_loop_ends:
  assumes "sound b" and "m_buffer b = A @ B" and "unwritten B"
  shows "read_loop e b (capacity b) handler onError limit hdr r (int (length A)) s = Inr (int (length A), r, s)"
proof (cases "B = []")
  case True
  then show ?thesis using assms(1,2) by (subst read_loop.simps) (simp add: capacity_sound)
next
  case False
  then show ?thesis
    using assms(2) unwritten_at [OF assms(1,2,3) False, of e] assms(1) by (subst read_loop.simps) (simp add: capacity_sound)
qed

lemma read_loop_follows:
  assumes "follows e handler onError g onError' R" and "sound b" and "hd_fragmentedFrameLength hdr = NULL_VALUE"
    and "m_buffer b = A @ frames_image e fs @ B" and "\<forall>f\<in>set fs. readable f" and "unwritten B" and "R fs s t"
    and "deliver_frames g onError' n fs t = (c, k, t')"
  shows "\<exists>s' rest. read_loop e b (capacity b) handler onError (r + int n) hdr r (int (length A)) s =
    Inr (int (length A + length (frames_image e c)), r + int k, s') \<and> fs = c @ rest \<and> R rest s' t'"
  using assms(4-)
proof (induction fs arbitrary: A n r s t c k t')
  case Nil
  have "m_buffer b = A @ B" using Nil.prems(1) by simp
  from read_loop_ends [OF assms(2) this Nil.prems(3), of e handler onError "r + int n" hdr r s]
  show ?case using Nil.prems(4,5) by auto
next
  case (Cons f fs)
  have b: "m_buffer b = A @ frame_image e f @ frames_image e fs @ B" using Cons.prems(1) by simp
  have b': "m_buffer b = (A @ frame_image e f) @ frames_image e fs @ B" using Cons.prems(1) by simp
  have f: "readable f" and fs: "\<forall>f\<in>set fs. readable f" using Cons.prems(2) by simp_all
  show ?case
  proof (cases n)
    case 0
    then show ?thesis using Cons.prems(4,5) by (subst read_loop.simps) simp
  next
    case (Suc m)
    note step = read_loop_step [OF assms(2) b f, of n handler onError r hdr s, unfolded Suc, simplified]
    show ?thesis
    proof (cases "is_padding f")
      case True
      then obtain c' where c: "c = f # c'" "deliver_frames g onError' n fs t = (c', k, t')"
        using Cons.prems(5) Suc by (auto split: prod.splits)
      have "R fs s t" using assms(1) True Cons.prems(4) unfolding follows_def by blast
      then show ?thesis using Cons.IH [OF b' fs Cons.prems(3) _ c(2), of s r] step True Suc c(1) by (auto simp: add.assoc)
    next
      case False
      obtain t1 x where g: "g t f = (t1, x)" by (cases "g t f")
      from assms(1) False Cons.prems(4) g assms(2) b f assms(3) obtain s1 where
        h: "handler s b (int (length A) + DATA_FRAME_LENGTH) (int (length (snd f))) (hdr\<lparr>hd_buffer := b, hd_offset := int (length A)\<rparr>) = (s1, x)"
          "case x of None \<Rightarrow> R fs s1 t1 | Some err \<Rightarrow> R fs (onError err s1) (onError' err t1)"
        unfolding follows_def by blast
      show ?thesis
      proof (cases x)
        case None
        then obtain c' k' where c: "c = f # c'" "k = Suc k'" "deliver_frames g onError' m fs t1 = (c', k', t')"
          using Cons.prems(5) Suc False g by (auto split: prod.splits)
        show ?thesis using Cons.IH [OF b' fs Cons.prems(3) _ c(3), of s1 "r + 1"] step False h None c Suc by (auto simp: add.assoc)
      next
        case (Some err)
        then show ?thesis using Cons.prems(5) step Suc False g h by auto
      qed
    qed
  qed
qed

section \<open>Polling an image\<close>

abbreviation image_term_length :: "image \<Rightarrow> nat" where
  "image_term_length im \<equiv> 2 ^ im_positionBitsToShift im"

text \<open>An image at offset \<open>k\<close> of the term number \<open>n\<close>, with its members as the constructor sets them.\<close>

definition image_ok :: "image \<Rightarrow> nat \<Rightarrow> nat \<Rightarrow> bool" where
  "image_ok im n k \<longleftrightarrow> length (im_termBuffers im) = 3 \<and>
     (\<forall>b\<in>set (im_termBuffers im). sound b \<and> length (m_buffer b) = image_term_length im) \<and>
     16 \<le> im_positionBitsToShift im \<and> im_positionBitsToShift im \<le> 30 \<and>
     im_termLengthMask im = word_of_nat (image_term_length im - 1) \<and> \<not> im_isClosed im \<and>
     hd_fragmentedFrameLength (im_header im) = NULL_VALUE \<and>
     n \<le> 2 ^ 31 \<and> k < image_term_length im \<and> im_subscriberPosition im = word_of_nat (n * image_term_length im + k)"

lemma take_bit_word_of_nat: "n < 2 ^ 64 \<Longrightarrow> take_bit b (word_of_nat n :: s64) = word_of_nat (n mod 2 ^ b)"
proof -
  assume "n < 2 ^ 64"
  then have "unat (take_bit b (word_of_nat n :: s64)) = n mod 2 ^ b" by (simp only: unat_take_bit_mod unat_of_nat_u64)
  then have "word_of_nat (unat (take_bit b (word_of_nat n :: s64))) = (word_of_nat (n mod 2 ^ b) :: s64)" by (simp only:)
  then show ?thesis by simp
qed

lemma image_at:
  assumes "image_ok im n k"
  shows "offset_of im (im_subscriberPosition im) = int k"
    and "im_termBuffer im (im_subscriberPosition im) = im_termBuffers im ! (n mod 3)"
    and "(n + 1) * image_term_length im < 2 ^ 62"
proof -
  let ?b = "im_positionBitsToShift im" and ?L = "image_term_length im" and ?x = "n * image_term_length im + k"
  have ok: "?b \<le> 30" "n \<le> 2 ^ 31" "k < ?L" "im_subscriberPosition im = word_of_nat ?x"
    "im_termLengthMask im = word_of_nat (?L - 1)" using assms by (simp_all add: image_ok_def)
  have L: "?L \<le> 2 ^ 30" using ok(1) by (rule power_increasing) simp
  have "(n + 1) * ?L \<le> (2 ^ 31 + 1) * 2 ^ 30" using ok(2) L by (intro mult_le_mono) simp_all
  then show big: "(n + 1) * ?L < 2 ^ 62" by simp
  have x: "?x < 2 ^ 63" using big ok(3) by simp
  have "?x mod ?L = k" "?x div ?L = n" using ok(3) by simp_all
  then show "im_termBuffer im (im_subscriberPosition im) = im_termBuffers im ! (n mod 3)"
    using indexByPosition_of_nat [OF x, of ?b] by (simp add: im_termBuffer_def ok(4))
  have "scast (word_of_nat (?L - 1) :: s32) = (word_of_nat (?L - 1) :: s64)" using L by (intro scast_of_nat) simp
  moreover have "word_of_nat (?L - 1) = (mask ?b :: s64)" by (simp add: mask_eq_exp_minus_1 of_nat_diff)
  ultimately have "word_of_nat ?x AND scast (im_termLengthMask im) = take_bit ?b (word_of_nat ?x :: s64)"
    by (simp only: ok(5) take_bit_eq_mask)
  also have "\<dots> = word_of_nat (?x mod ?L)"
    using x by (intro take_bit_word_of_nat) simp
  finally have "offset_of im (im_subscriberPosition im) = sint (ucast (word_of_nat k :: s64) :: s32)"
    using ok(3) by (simp add: offset_of_def ok(4))
  also have "(ucast (word_of_nat k :: s64) :: s32) = word_of_nat k" using ucast_of_int [of "int k"] by simp
  finally show "offset_of im (im_subscriberPosition im) = int k" using ok(3) L by (simp add: sint_of_nat(1))
qed

text \<open>The constructor makes such an image, of a log with three terms of the same power of two.\<close>

lemma term_bits: "16 \<le> b \<Longrightarrow> b \<le> 30 \<Longrightarrow> b \<in> {16, 17, 18, 19, 20, 21, 22, 23, 24, 25, 26, 27, 28, 29, 30 :: nat}"
  unfolding insert_iff empty_iff by presburger

lemma trailing_zeroes_power:
  assumes "b < 32"
  shows "numberOfTrailingZeroes (2 ^ b) = b"
proof -
  have "[0..<32] = [0..<b] @ b # [Suc b..<32]" using assms upt_add_eq_append [of 0 b "32 - b"] by (simp add: upt_conv_Cons)
  then have "takeWhile (\<lambda>k. \<not> bit (2 ^ b :: s32) k) [0..<32] = [0..<b]"
    using assms by (simp add: takeWhile_append bit_exp_iff)
  moreover have "(2 ^ b :: s32) \<noteq> 0" using assms by (simp add: exp_eq_zero_iff)
  ultimately show ?thesis by (simp add: numberOfTrailingZeroes_def)
qed

lemma positionBitsToShift_power: "16 \<le> b \<Longrightarrow> b \<le> 30 \<Longrightarrow> positionBitsToShift (int (2 ^ b)) = Inr b"
  by (drule (1) term_bits) (elim insertE; simp add: positionBitsToShift_def)

lemma Image_ok:
  assumes bufs: "length bufs = 3" "\<forall>b\<in>set bufs. sound b \<and> length (m_buffer b) = 2 ^ bits" and bits: "16 \<le> bits" "bits \<le> 30"
    and n: "n \<le> 2 ^ 31" "k < 2 ^ bits"
  shows "\<exists>im. Image sessionId (word_of_nat (n * 2 ^ bits + k)) m bufs = Inr im \<and> image_ok im n k \<and> im_termBuffers im = bufs"
proof -
  have b: "sound (bufs ! 0)" "length (m_buffer (bufs ! 0)) = 2 ^ bits" using bufs by simp_all
  then have len: "m_length (bufs ! 0) = word_of_nat (2 ^ bits)" by (simp add: sound_def)
  have "positionBitsToShift (capacity (bufs ! 0)) = Inr bits" using b positionBitsToShift_power [OF bits] by (simp add: capacity_sound)
  then show ?thesis
    using assms trailing_zeroes_power [of bits]
    by (simp add: Image_def len Let_def image_ok_def Header_def of_nat_diff)
qed

lemma poll_follows:
  assumes "image_ok im n k" and "follows e handler onError g onError' R"
    and "m_buffer (im_termBuffers im ! (n mod 3)) = A @ frames_image e fs @ B" and "length A = k"
    and "\<forall>f\<in>set fs. readable f" and "unwritten B" and "R fs s t"
    and "deliver_frames g onError' limit fs t = (c, count, t')"
  shows "\<exists>s' rest. poll e im handler onError (int limit) s =
    Inr (im\<lparr>im_subscriberPosition := word_of_nat (n * image_term_length im + k + length (frames_image e c))\<rparr>, int count, s') \<and>
    fs = c @ rest \<and> R rest s' t'"
proof -
  let ?L = "image_term_length im" and ?b = "im_termBuffers im ! (n mod 3)" and ?a = "length (frames_image e c)"
  have ok: "sound ?b" "length (m_buffer ?b) = ?L" "\<not> im_isClosed im" "hd_fragmentedFrameLength (im_header im) = NULL_VALUE"
    "k < ?L" "im_subscriberPosition im = word_of_nat (n * ?L + k)"
    using assms(1) by (simp_all add: image_ok_def)
  obtain s' rest where read: "TermReader_read e ?b (int k) handler onError (int limit) (im_header im) s = Inr (int (k + ?a), int count, s')"
      "fs = c @ rest" "R rest s' t'"
    using read_loop_follows [OF assms(2) ok(1,4) assms(3,5-8), of 0] by (auto simp: TermReader_read_def assms(4))
  then have "k + ?a \<le> ?L" using ok(2) assms(3,4) by simp
  then have lt: "n * ?L + k + ?a < 2 ^ 63" using image_at(3) [OF assms(1)] by (simp add: algebra_simps)
  have "sint (word_of_nat (n * ?L + k) :: s64) = int (n * ?L + k)" "sint (word_of_nat (n * ?L + k + ?a) :: s64) = int (n * ?L + k + ?a)"
    using lt by (intro sint_of_nat(2); simp)+
  then have less: "word_of_nat (n * ?L + k) <s (word_of_nat (n * ?L + k + ?a) :: s64) \<longleftrightarrow> 0 < ?a"
    unfolding word_sless_alt by (simp only: of_nat_less_iff) simp
  have "word_of_nat (n * ?L + k) + word_of_int (int (k + ?a) - int k) = (word_of_nat (n * ?L + k + ?a) :: s64)" by simp
  moreover have "im = im\<lparr>im_subscriberPosition := word_of_nat (n * ?L + k + ?a)\<rparr>" if "?a = 0"
    using that ok(6) by (cases im) simp
  ultimately have "move_to im (im_subscriberPosition im) (im_subscriberPosition im + word_of_int (int (k + ?a) - int k)) =
      im\<lparr>im_subscriberPosition := word_of_nat (n * ?L + k + ?a)\<rparr>"
    unfolding ok(6) move_to_def using less by (cases "?a = 0") simp_all
  then show ?thesis
    using read image_at [OF assms(1)] ok(3) by (simp add: poll_def Let_def)
qed

text \<open>
  C7. A poll hands its handler, in order and as often as the limit allows, the frames of the term from the
  subscriber's position on, skipping padding, and moves the position behind the last frame consumed; an
  exception ends it behind the frame that caused it.
\<close>

theorem poll_delivers:
  assumes "image_ok im n k" and "sees e handler g"
    and "m_buffer (im_termBuffers im ! (n mod 3)) = A @ frames_image e fs @ B" and "length A = k"
    and "\<forall>f\<in>set fs. readable f" and "unwritten B"
    and "deliver_frames g onError limit fs s = (c, count, s')"
  shows "poll e im handler onError (int limit) s =
    Inr (im\<lparr>im_subscriberPosition := word_of_nat (n * image_term_length im + k + length (frames_image e c))\<rparr>, int count, s')"
  using poll_follows [OF assms(1) sees_follows [OF assms(2)] assms(3-6) refl assms(7)] by auto

section \<open>A small image\<close>

text \<open>Two frames of one byte in the first term, and a handler that collects the payloads.\<close>

definition example_frame :: "nat \<Rightarrow> u8 \<Rightarrow> frame" where
  "example_frame off x = (frame_hdr \<lparr>hw_sessionId = 11, hw_streamId = 1001\<rparr> 33 UNFRAGMENTED HDR_TYPE_DATA off 7 0, [x])"

definition example_log :: "u8 list" where
  "example_log = frames_image Little [example_frame 0 1, example_frame 64 2]"

definition example_terms :: "atomic_buffer list" where
  "example_terms = replicate 3 \<lparr>m_buffer = example_log @ replicate (65536 - length example_log) 0, m_length = 65536\<rparr>"

definition collect :: "u8 list list handler" where
  "collect s b off len hdr = (s @ [take (nat len) (drop (nat off) (m_buffer b))], None)"

lemma collect_sees: "sees e collect (\<lambda>s f. (s @ [snd f], None))"
  by (simp add: sees_def collect_def DATA_FRAME_LENGTH_def frame_image_def nat_add_distrib)

abbreviation example_frames :: "frame list" where
  "example_frames \<equiv> [example_frame 0 1, example_frame 64 2]"

lemma example_frames_facts:
  "length (frames_image Little example_frames) = 128" "\<forall>f\<in>set example_frames. readable f" "unwritten (replicate (65536 - 128) 0)"
  "deliver_frames (\<lambda>s f. (s @ [snd f], None)) (\<lambda>_ s. s) 10 example_frames [] = (example_frames, 2, [[1], [2]])"
proof -
  show "length (frames_image Little example_frames) = 128" by (simp add: example_frame_def align_up_def)
  show "\<forall>f\<in>set example_frames. readable f" by (simp add: readable_def example_frame_def frame_hdr_def)
  show "unwritten (replicate (65536 - 128) 0)" by (rule unwritten_zeros) simp
  show "deliver_frames (\<lambda>s f. (s @ [snd f], None)) (\<lambda>_ s. s) 10 example_frames [] = (example_frames, 2, [[1], [2]])"
    by (simp add: numeral_eq_Suc is_padding_def example_frame_def frame_hdr_def HDR_TYPE_DATA_def HDR_TYPE_PAD_def)
qed

lemma example_image:
  obtains im where "Image 11 0 new_metadata example_terms = Inr im" "image_ok im 0 0"
    "m_buffer (im_termBuffers im ! (0 mod 3)) = [] @ frames_image Little example_frames @ replicate (65536 - 128) 0"
proof -
  have l: "length example_log = 128" using example_frames_facts(1) by (simp add: example_log_def)
  then have "\<forall>b\<in>set example_terms. sound b \<and> length (m_buffer b) = 2 ^ 16" by (auto simp: example_terms_def sound_def)
  then obtain im where im: "Image 11 (word_of_nat (0 * 2 ^ 16 + 0)) new_metadata example_terms = Inr im" "image_ok im 0 0"
      "im_termBuffers im = example_terms"
    using Image_ok [of example_terms 16 0 0 11 new_metadata] by (auto simp: example_terms_def)
  have "m_buffer (im_termBuffers im ! (0 mod 3)) = [] @ frames_image Little example_frames @ replicate (65536 - 128) 0"
    unfolding im(3) by (simp add: example_terms_def l) (simp add: example_log_def)
  then show ?thesis using im(1,2) that by simp
qed

theorem poll_delivers_witness:
  "\<exists>im. Image 11 0 new_metadata example_terms = Inr im \<and>
     poll Little im collect (\<lambda>_ s. s) 10 [] = Inr (im\<lparr>im_subscriberPosition := 128\<rparr>, 2, [[1], [2]])"
proof -
  obtain im where im: "Image 11 0 new_metadata example_terms = Inr im" "image_ok im 0 0"
      "m_buffer (im_termBuffers im ! (0 mod 3)) = [] @ frames_image Little example_frames @ replicate (65536 - 128) 0"
    by (rule example_image)
  have "poll Little im collect (\<lambda>_ s. s) (int 10) [] =
      Inr (im\<lparr>im_subscriberPosition := word_of_nat (0 * image_term_length im + 0 + length (frames_image Little example_frames))\<rparr>, int 2, [[1], [2]])"
    by (rule poll_delivers [OF im(2) collect_sees im(3) _ example_frames_facts(2-4)]) simp
  then show ?thesis using im(1) unfolding example_frames_facts(1) by simp
qed

end
