(* ===== verification/AssembledMessages.thy ===== *)
theory AssembledMessages
  imports FragmentAssembler ImageReads
begin

text \<open>
  What a fragment assembler delivers: buffer builders grow as needed and keep the bytes appended to
  them, and the assembler refines the abstract reassembly that keeps, for each session, the bytes of the
  message begun and the offset at which its next fragment must stand.
\<close>

section \<open>Buffer builders\<close>

abbreviation MAX_CAPACITY :: nat where
  "MAX_CAPACITY \<equiv> 2147483639"

lemma unat_MAX_CAPACITY [simp]: "unat BUFFER_BUILDER_MAX_CAPACITY = MAX_CAPACITY"
  by (simp add: BUFFER_BUILDER_MAX_CAPACITY_def)

lemma grow_capacity_ends:
  assumes "unat required \<le> MAX_CAPACITY" and "2 \<le> unat c" and "unat c \<le> MAX_CAPACITY"
  shows "\<exists>c'. grow_capacity c required = Some c' \<and> unat required \<le> unat c' \<and> unat c \<le> unat c' \<and> unat c' \<le> MAX_CAPACITY"
  using assms(2,3)
proof (induction "unat required - unat c" arbitrary: c rule: less_induct)
  case less
  show ?case
  proof (cases "c < required")
    case False
    then show ?thesis using less.prems by (subst grow_capacity.simps) (simp add: word_less_nat_alt)
  next
    case True
    define g where "g = (if BUFFER_BUILDER_MAX_CAPACITY < c + c div 2 then BUFFER_BUILDER_MAX_CAPACITY else c + c div 2)"
    have sum: "unat (c + c div 2) = unat c + unat c div 2"
      using less.prems by (subst unat_add_lem [THEN iffD1]) (simp_all add: unat_div_distrib)
    have c: "unat c < unat required" using True by (simp add: word_less_nat_alt)
    have g: "unat c < unat g" "unat g \<le> MAX_CAPACITY"
      using sum c assms(1) less.prems by (auto simp: g_def word_less_nat_alt)
    have "\<exists>c'. grow_capacity g required = Some c' \<and> unat required \<le> unat c' \<and> unat g \<le> unat c' \<and> unat c' \<le> MAX_CAPACITY"
      using c g less.prems by (intro less.hyps) simp_all
    then show ?thesis using True g by (subst grow_capacity.simps) (auto simp: g_def Let_def)
  qed
qed

text \<open>The state of a builder, and the bytes it holds.\<close>

definition bb_ok :: "buffer_builder \<Rightarrow> bool" where
  "bb_ok bb \<longleftrightarrow> length (bb_buffer bb) = unat (bb_capacity bb) \<and> unat (bb_limit bb) \<le> unat (bb_capacity bb) \<and>
     unat (bb_capacity bb) \<le> MAX_CAPACITY \<and> hd_offset (bb_header bb) = 0 \<and>
     sound (hd_buffer (bb_header bb)) \<and> length (m_buffer (hd_buffer (bb_header bb))) = 32"

definition bb_bytes :: "buffer_builder \<Rightarrow> u8 list" where
  "bb_bytes bb = take (unat (bb_limit bb)) (bb_buffer bb)"

lemma bb_resize_ok:
  assumes "bb_ok bb" and "unat (bb_limit bb) \<le> unat c" and "unat c \<le> MAX_CAPACITY"
  shows "\<exists>bytes. bb_resize bb c = Inr (bb\<lparr>bb_buffer := bytes, bb_capacity := c\<rparr>) \<and> length bytes = unat c \<and>
    take (unat (bb_limit bb)) bytes = bb_bytes bb"
  using assms
  by (intro exI [of _ "take (unat (bb_limit bb)) (bb_buffer bb) @ replicate (unat c - unat (bb_limit bb)) 0"])
    (simp add: bb_resize_def bb_ok_def mem_read_def mem_write_def bb_bytes_def)

text \<open>Making room keeps the bytes; only a limit above the greatest capacity is refused.\<close>

lemma ensureCapacity_ok:
  assumes ok: "bb_ok bb" and n: "unat (bb_limit bb) + n \<le> MAX_CAPACITY"
  shows "\<exists>bytes c. ensureCapacity bb (word_of_nat n) = Inr (bb\<lparr>bb_buffer := bytes, bb_capacity := c\<rparr>) \<and>
    length bytes = unat c \<and> unat (bb_limit bb) + n \<le> unat c \<and> unat c \<le> MAX_CAPACITY \<and> take (unat (bb_limit bb)) bytes = bb_bytes bb"
proof -
  have "unat (word_of_nat n :: u32) = n" using n by (simp add: unsigned_of_nat take_bit_nat_eq_self)
  then have req: "unat (bb_limit bb + word_of_nat n) = unat (bb_limit bb) + n"
    using n by (subst unat_add_lem [THEN iffD1]) simp_all
  show ?thesis
  proof (cases "bb_capacity bb < bb_limit bb + word_of_nat n")
    case False
    then show ?thesis
      using ok req by (intro exI [of _ "bb_buffer bb"] exI [of _ "bb_capacity bb"])
        (auto simp: ensureCapacity_def bb_ok_def bb_bytes_def word_less_nat_alt Let_def)
  next
    case True
    define c where "c = (if bb_capacity bb < BUFFER_BUILDER_INIT_MIN_CAPACITY then BUFFER_BUILDER_INIT_MIN_CAPACITY else bb_capacity bb)"
    have "2 \<le> unat c" "unat c \<le> MAX_CAPACITY"
      using ok by (auto simp: c_def bb_ok_def BUFFER_BUILDER_INIT_MIN_CAPACITY_def word_less_nat_alt)
    with n req obtain c' where c': "grow_capacity c (bb_limit bb + word_of_nat n) = Some c'"
        "unat (bb_limit bb) + n \<le> unat c'" "unat c' \<le> MAX_CAPACITY"
      using grow_capacity_ends [of "bb_limit bb + word_of_nat n" c] by auto
    then have "\<exists>bytes. bb_resize bb c' = Inr (bb\<lparr>bb_buffer := bytes, bb_capacity := c'\<rparr>) \<and> length bytes = unat c' \<and>
        take (unat (bb_limit bb)) bytes = bb_bytes bb"
      using ok by (intro bb_resize_ok) simp_all
    then show ?thesis
      using True n req c' by (auto simp: ensureCapacity_def findSuitableCapacity_def c_def word_less_nat_alt Let_def)
  qed
qed

lemma bb_append_ok:
  assumes ok: "bb_ok bb" and n: "unat (bb_limit bb) + n \<le> MAX_CAPACITY" and src: "off + n \<le> length (m_buffer b)"
  shows "\<exists>bb'. bb_append bb b (int off) (int n) = Inr bb' \<and> bb_ok bb' \<and> bb_bytes bb' = bb_bytes bb @ take n (drop off (m_buffer b)) \<and>
    bb_header bb' = bb_header bb \<and> bb_nextTermOffset bb' = bb_nextTermOffset bb"
proof -
  obtain bytes c where e: "ensureCapacity bb (word_of_nat n) = Inr (bb\<lparr>bb_buffer := bytes, bb_capacity := c\<rparr>)"
    "length bytes = unat c" "unat (bb_limit bb) + n \<le> unat c" "unat c \<le> MAX_CAPACITY" "take (unat (bb_limit bb)) bytes = bb_bytes bb"
    using ensureCapacity_ok [OF ok n] by blast
  have u: "unat (word_of_nat n :: u32) = n" using n by (simp add: unsigned_of_nat take_bit_nat_eq_self)
  then have lim: "unat (bb_limit bb + word_of_nat n) = unat (bb_limit bb) + n"
    using n by (subst unat_add_lem [THEN iffD1]) simp_all
  define q where "q = take n (drop off (m_buffer b))"
  define bb' where "bb' = bb\<lparr>bb_capacity := c, bb_buffer := patch bytes (unat (bb_limit bb)) q, bb_limit := bb_limit bb + word_of_nat n\<rparr>"
  have q: "length q = n" using src by (simp add: q_def)
  have "bb_append bb b (int off) (int n) = Inr bb'"
    using e(1-3) u src q by (simp add: bb_append_def load_inside mem_write_def bb'_def patch_def flip: q_def)
  moreover have "bb_ok bb'" using ok e(2-4) lim q by (simp add: bb_ok_def bb'_def)
  moreover have "bb_bytes bb' = bb_bytes bb @ q"
  proof -
    have "length (bb_bytes bb) = unat (bb_limit bb)" using ok by (simp add: bb_bytes_def bb_ok_def)
    moreover have "bb_bytes bb' = take (unat (bb_limit bb) + n) (patch bytes (unat (bb_limit bb)) q)"
      by (simp add: bb_bytes_def bb'_def lim)
    ultimately show ?thesis using e(5) q by (simp add: patch_def)
  qed
  ultimately show ?thesis by (auto simp: bb'_def q_def)
qed

section \<open>Headers of frames\<close>

lemma header_at:
  assumes "sound b" and b: "m_buffer b = A @ frame_image e f @ B" and f: "readable f" and "hd_fragmentedFrameLength hdr = NULL_VALUE"
  defines "h \<equiv> hdr\<lparr>hd_buffer := b, hd_offset := int (length A)\<rparr>"
  shows "hd_flags e h = Inr (frame_flags (dh_frame_header (fst f)))" and "hd_sessionId e h = Inr (dh_session_id (fst f))"
    and "hd_termOffset e h = Inr (dh_term_offset (fst f))"
    and "hd_nextTermOffset e h = Inr (align (sint (dh_term_offset (fst f)) + int (length (snd f) + 32)) FRAME_ALIGNMENT)"
    and "load_bytes b (int (length A)) 32 = Inr (data_header_bytes e (fst f))"
proof -
  have len: "length A + 32 \<le> length (m_buffer b)"
    using align_up_bounds(1) [of 32 "length (snd f) + 32"] by (simp add: b)
  show "hd_flags e h = Inr (frame_flags (dh_frame_header (fst f)))"
    using assms(1) len by (simp add: hd_flags_def uint8.get_inside h_def field_offsets)
      (simp add: b frame_image_def data_header_bytes_def)
  show "hd_sessionId e h = Inr (dh_session_id (fst f))"
    using assms(1) len by (simp add: hd_sessionId_def int32.get_inside h_def field_offsets)
      (simp add: b frame_image_def data_header_bytes_def of_host_bytes)
  show toff: "hd_termOffset e h = Inr (dh_term_offset (fst f))"
    using assms(1) len by (simp add: hd_termOffset_def int32.get_inside h_def field_offsets)
      (simp add: b frame_image_def data_header_bytes_def of_host_bytes)
  have "hd_frameLength e h = Inr (word_of_nat (length (snd f) + 32))"
    using assms(1) len f by (simp add: hd_frameLength_def int32.get_inside h_def field_offsets readable_def)
      (simp add: b frame_image_def data_header_bytes_def of_host_bytes)
  moreover have "sint (word_of_nat (length (snd f) + 32) :: s32) = int (length (snd f) + 32)"
    using f by (intro sint_of_nat(1)) (simp add: readable_def)
  moreover have "hd_fragmentedFrameLength h = NULL_VALUE" using assms(4) by (simp add: h_def)
  ultimately show "hd_nextTermOffset e h = Inr (align (sint (dh_term_offset (fst f)) + int (length (snd f) + 32)) FRAME_ALIGNMENT)"
    by (simp only: hd_nextTermOffset_def hd_termOccupancyLength_def toff andThen_simps refl if_True)
  show "load_bytes b (int (length A)) 32 = Inr (data_header_bytes e (fst f))"
    using len by (simp add: load_inside) (simp add: b frame_image_def)
qed

lemma payload_at: "m_buffer b = A @ frame_image e f @ B \<Longrightarrow> take (length (snd f)) (drop (length A + 32) (m_buffer b)) = snd f"
  "m_buffer b = A @ frame_image e f @ B \<Longrightarrow> length A + 32 + length (snd f) \<le> length (m_buffer b)"
  using align_up_bounds(1) [of 32 "length (snd f) + 32"] by (simp_all add: frame_image_def)

section \<open>Reassembly\<close>

abbreviation flags_of :: "frame \<Rightarrow> u8" where "flags_of f \<equiv> frame_flags (dh_frame_header (fst f))"
abbreviation session_of :: "frame \<Rightarrow> s32" where "session_of f \<equiv> dh_session_id (fst f)"
abbreviation offset_in_term :: "frame \<Rightarrow> int" where "offset_in_term f \<equiv> sint (dh_term_offset (fst f))"

definition next_offset :: "frame \<Rightarrow> int" where
  "next_offset f = align (offset_in_term f + int (length (snd f) + 32)) FRAME_ALIGNMENT"

text \<open>The specification, with \<open>d\<close> taking the whole messages with their sessions.\<close>

type_synonym partial_messages = "s32 \<rightharpoonup> u8 list \<times> int"

fun reassemble :: "('s \<Rightarrow> s32 \<Rightarrow> u8 list \<Rightarrow> 's) \<Rightarrow> 's \<times> partial_messages \<Rightarrow> frame \<Rightarrow> 's \<times> partial_messages" where
  "reassemble d (s, M) f =
     (if flags_of f AND UNFRAGMENTED = UNFRAGMENTED then (d s (session_of f) (snd f), M)
      else if flags_of f AND BEGIN_FRAG = BEGIN_FRAG then (s, M(session_of f \<mapsto> (snd f, next_offset f)))
      else case M (session_of f) of
             None \<Rightarrow> (s, M)
           | Some (bs, off) \<Rightarrow>
               if offset_in_term f \<noteq> off then (s, M(session_of f := None))
               else if flags_of f AND END_FRAG = END_FRAG then (d s (session_of f) (bs @ snd f), M(session_of f := None))
               else (s, M(session_of f \<mapsto> (bs @ snd f, next_offset f))))"

text \<open>A delegate that takes the bytes it is given and the session of the header.\<close>

definition takes_messages :: "endian \<Rightarrow> 's handler \<Rightarrow> ('s \<Rightarrow> s32 \<Rightarrow> u8 list \<Rightarrow> 's) \<Rightarrow> bool" where
  "takes_messages e delegate d \<longleftrightarrow> (\<forall>s b off n hdr sid. off + n \<le> length (m_buffer b) \<longrightarrow> hd_sessionId e hdr = Inr sid \<longrightarrow>
     delegate s b (int off) (int n) hdr = (d s sid (take n (drop off (m_buffer b))), None))"

definition builder_for :: "endian \<Rightarrow> s32 \<Rightarrow> buffer_builder \<Rightarrow> (u8 list \<times> int) option \<Rightarrow> bool" where
  "builder_for e sid bb x \<longleftrightarrow> bb_ok bb \<and> (case x of
     None \<Rightarrow> bb_nextTermOffset bb = NULL_VALUE
   | Some (bs, next) \<Rightarrow> bb_bytes bb = bs \<and> bb_nextTermOffset bb = next \<and>
       (\<exists>h. m_buffer (hd_buffer (bb_header bb)) = data_header_bytes e h \<and> dh_session_id h = sid \<and> 32 < sint (frame_length (dh_frame_header h))))"

definition assembles :: "endian \<Rightarrow> builders \<Rightarrow> partial_messages \<Rightarrow> bool" where
  "assembles e m M \<longleftrightarrow> (\<forall>sid. (m sid = None \<longrightarrow> M sid = None) \<and> (\<forall>bb. m sid = Some bb \<longrightarrow> builder_for e sid bb (M sid)))"

lemma assembles_update: "assembles e m M \<Longrightarrow> builder_for e sid bb x \<Longrightarrow> assembles e (m(sid \<mapsto> bb)) (M(sid := x))"
  by (simp add: assembles_def)

lemma assembles_at: "assembles e m M \<Longrightarrow> m sid = Some bb \<Longrightarrow> builder_for e sid bb (M sid)"
  "assembles e m M \<Longrightarrow> m sid = None \<Longrightarrow> M sid = None"
  by (simp_all add: assembles_def)

lemma builder_for_reset: "bb_ok bb \<Longrightarrow> builder_for e sid (bb_reset bb) None"
  by (simp add: builder_for_def bb_reset_def bb_ok_def)

lemma getBuffer_ok: "assembles e m M \<Longrightarrow> unat initial \<le> MAX_CAPACITY \<Longrightarrow> \<exists>bb. getBuffer initial m sid = Inr bb \<and> bb_ok bb"
  by (auto simp: getBuffer_def assembles_def builder_for_def BufferBuilder_def bb_ok_def Header_def sound_def word_less_nat_alt
      split: option.splits dest: spec [of _ sid])

lemma captureHeader_ok:
  assumes "bb_ok bb" and "load_bytes (hd_buffer hdr) (hd_offset hdr) 32 = Inr bs" and "length bs = 32"
  shows "\<exists>bb'. captureHeader (bb_reset bb) hdr = Inr bb' \<and> bb_ok bb' \<and> bb_bytes bb' = [] \<and> unat (bb_limit bb') = 0 \<and>
    m_buffer (hd_buffer (bb_header bb')) = bs"
  using assms
  by (auto simp: captureHeader_def hd_copyFrom_def bb_ok_def bb_bytes_def bb_reset_def DATA_FRAME_LENGTH_def store_inside sound_def patch_def)

text \<open>The completed header is of the first fragment, with the whole length and the flags of both.\<close>

lemma completeHeader_ok:
  assumes ok: "bb_ok bb" and h: "m_buffer (hd_buffer (bb_header bb)) = data_header_bytes e h"
    and len: "32 < sint (frame_length (dh_frame_header h))" and flags: "hd_flags e hdr = Inr flags"
  shows "\<exists>bb'. completeHeader e bb hdr = Inr bb' \<and> bb_ok bb' \<and> bb_limit bb' = bb_limit bb \<and> bb_buffer bb' = bb_buffer bb \<and>
    m_buffer (hd_buffer (bb_header bb')) = data_header_bytes e (h\<lparr>dh_frame_header := (dh_frame_header h)
      \<lparr>frame_length := word_of_int (32 + sint (bb_limit bb)), frame_flags := frame_flags (dh_frame_header h) OR flags\<rparr>\<rparr>)"
proof -
  define b where "b = hd_buffer (bb_header bb)"
  have b: "sound b" "length (m_buffer b) = 32" "hd_offset (bb_header bb) = 0" "m_buffer b = data_header_bytes e h"
    using ok h by (simp_all add: bb_ok_def b_def)
  define b1 where "b1 = b\<lparr>m_buffer := patch (m_buffer b) 0 (host_bytes e 4 (word_of_int (32 + sint (bb_limit bb)) :: s32))\<rparr>"
  define b2 where "b2 = b1\<lparr>m_buffer := patch (m_buffer b1) 5 [frame_flags (dh_frame_header h) OR flags]\<rparr>"
  have s1: "sound b1" "length (m_buffer b1) = 32" using b by (simp_all add: b1_def sound_def)
  have s2: "sound b2" "length (m_buffer b2) = 32" using s1 by (simp_all add: b2_def sound_def)
  have fl: "hd_frameLength e (bb_header bb) = Inr (frame_length (dh_frame_header h))"
    using b by (simp add: hd_frameLength_def int32.get_inside data_header_bytes_def of_host_bytes flip: b_def)
  have put1: "putInt32 e b 0 (word_of_int (DATA_FRAME_LENGTH + sint (bb_limit bb))) = Inr b1"
    using b by (simp add: int32.put_inside b1_def DATA_FRAME_LENGTH_def)
  have fl1: "getUInt8 e b1 5 = Inr (frame_flags (dh_frame_header h))"
    using s1 by (simp add: uint8.get_inside) (simp add: b1_def b data_header_bytes_def patch_def)
  have put2: "putUInt8 e b1 5 (frame_flags (dh_frame_header h) OR flags) = Inr b2"
    using s1 by (simp add: uint8.put_inside b2_def)
  have "m_buffer b2 = data_header_bytes e (h\<lparr>dh_frame_header := (dh_frame_header h)
      \<lparr>frame_length := word_of_int (32 + sint (bb_limit bb)), frame_flags := frame_flags (dh_frame_header h) OR flags\<rparr>\<rparr>)"
    by (simp add: b2_def b1_def b patch_def data_header_bytes_def)
  then show ?thesis
    using ok fl len put1 fl1 put2 flags s2 b(3)
    by (simp add: completeHeader_def hd_flags_def field_offsets Let_def bb_ok_def flip: b_def)
qed

text \<open>
  The frames an assembler can take: data at an offset of a term, and, for the first of several fragments,
  not empty; together with what has been collected not above the greatest capacity.
\<close>

definition assemblable :: "partial_messages \<Rightarrow> frame \<Rightarrow> bool" where
  "assemblable M f \<longleftrightarrow> readable f \<and> 0 \<le> offset_in_term f \<and> (snd f = [] \<longrightarrow> flags_of f AND UNFRAGMENTED = UNFRAGMENTED) \<and>
     (\<forall>bs off. M (session_of f) = Some (bs, off) \<longrightarrow> length bs + length (snd f) \<le> MAX_CAPACITY)"

lemma append_payload:
  assumes b: "m_buffer b = A @ frame_image e f @ B" and ok: "bb_ok bb" and n: "length (bb_bytes bb) + length (snd f) \<le> MAX_CAPACITY"
  shows "\<exists>bb'. bb_append bb b (int (length A) + DATA_FRAME_LENGTH) (int (length (snd f))) = Inr bb' \<and> bb_ok bb' \<and>
    bb_bytes bb' = bb_bytes bb @ snd f \<and> bb_header bb' = bb_header bb \<and> bb_nextTermOffset bb' = bb_nextTermOffset bb"
proof -
  have "length (bb_bytes bb) = unat (bb_limit bb)" using ok by (simp add: bb_bytes_def bb_ok_def)
  moreover have "int (length A) + DATA_FRAME_LENGTH = int (length A + 32)" by (simp add: DATA_FRAME_LENGTH_def)
  ultimately show ?thesis using bb_append_ok [OF ok _ payload_at(2) [OF b]] n payload_at(1) [OF b] by simp
qed

lemma deliver_assembled_ok:
  assumes d: "takes_messages e delegate d" and bb: "builder_for e sid bb (Some (bs, off))" and flags: "hd_flags e hdr = Inr flags"
  shows "\<exists>bb'. deliver_assembled e delegate s m sid bb hdr = ((d s sid bs, m(sid \<mapsto> bb')), None) \<and> builder_for e sid bb' None"
proof -
  obtain h where h: "bb_ok bb" "bb_bytes bb = bs" "m_buffer (hd_buffer (bb_header bb)) = data_header_bytes e h"
      "dh_session_id h = sid" "32 < sint (frame_length (dh_frame_header h))"
    using bb by (auto simp: builder_for_def)
  then obtain bb' where bb': "completeHeader e bb hdr = Inr bb'" "bb_ok bb'" "bb_limit bb' = bb_limit bb"
      "m_buffer (hd_buffer (bb_header bb')) = data_header_bytes e (h\<lparr>dh_frame_header := (dh_frame_header h)
        \<lparr>frame_length := word_of_int (32 + sint (bb_limit bb)), frame_flags := frame_flags (dh_frame_header h) OR flags\<rparr>\<rparr>)"
    using completeHeader_ok [OF h(1,3,5) flags] by blast
  have len: "length bs = unat (bb_limit bb)" "unat (bb_limit bb) \<le> MAX_CAPACITY" using h(1,2) by (auto simp: bb_ok_def bb_bytes_def)
  then have "sint (bb_limit bb) = int (length bs)" using sint_of_nat(1) [of "unat (bb_limit bb)"] by simp
  moreover have "hd_sessionId e (bb_header bb') = Inr sid"
    using bb'(2,4) h(4) by (simp add: hd_sessionId_def int32.get_inside field_offsets bb_ok_def)
      (simp add: data_header_bytes_def of_host_bytes)
  moreover obtain msg where msg: "wrap (take (unat (bb_limit bb)) (bb_buffer bb)) (unat (bb_limit bb)) = Inr msg" "m_buffer msg = bs"
    using h(2) len by (auto simp: wrap_def bb_bytes_def)
  ultimately have "delegate s msg 0 (sint (bb_limit bb)) (bb_header bb') = (d s sid bs, None)"
    using d [unfolded takes_messages_def, rule_format, of 0 "length bs" msg "bb_header bb'" sid s] by simp
  then show ?thesis
    using msg(1) bb'(1,3) builder_for_reset [OF bb'(2)] by (auto simp: deliver_assembled_def)
qed

lemma begin_fragment_refines:
  assumes m: "assembles e m M" and init: "unat initial \<le> MAX_CAPACITY"
    and b: "sound b" "m_buffer b = A @ frame_image e f @ B" and hdr: "hd_fragmentedFrameLength hdr = NULL_VALUE"
    and f: "assemblable M f" and no: "flags_of f AND UNFRAGMENTED \<noteq> UNFRAGMENTED"
  shows "\<exists>m'. begin_fragment e initial (s, m) b (int (length A) + DATA_FRAME_LENGTH) (int (length (snd f)))
      (hdr\<lparr>hd_buffer := b, hd_offset := int (length A)\<rparr>) = ((s, m'), None) \<and>
    assembles e m' (M(session_of f \<mapsto> (snd f, next_offset f)))"
proof -
  let ?h = "hdr\<lparr>hd_buffer := b, hd_offset := int (length A)\<rparr>" and ?sid = "session_of f" and ?n = "length (snd f)"
  have f': "readable f" "0 < ?n" "?n + 32 < 2 ^ 31" using f no by (auto simp: assemblable_def readable_def)
  note H = header_at [OF b f'(1) hdr]
  obtain bb where bb: "getBuffer initial m ?sid = Inr bb" "bb_ok bb" using getBuffer_ok [OF m init] by blast
  obtain bb1 where bb1: "captureHeader (bb_reset bb) ?h = Inr bb1" "bb_ok bb1" "bb_bytes bb1 = []"
      "m_buffer (hd_buffer (bb_header bb1)) = data_header_bytes e (fst f)"
    using captureHeader_ok [OF bb(2), of ?h "data_header_bytes e (fst f)"] H(5) by auto
  obtain bb2 where bb2: "bb_append bb1 b (int (length A) + DATA_FRAME_LENGTH) (int ?n) = Inr bb2" "bb_ok bb2" "bb_bytes bb2 = snd f" "bb_header bb2 = bb_header bb1"
    using append_payload [OF b(2) bb1(2)] bb1(3) f'(3) by auto
  let ?bb = "bb2\<lparr>bb_nextTermOffset := next_offset f\<rparr>"
  have "sint (frame_length (dh_frame_header (fst f))) = int (?n + 32)" using f'(1) sint_of_nat(1) unfolding readable_def by metis
  then have "builder_for e ?sid ?bb (Some (snd f, next_offset f))"
    using bb2 bb1(4) f'(2) by (auto simp: builder_for_def bb_ok_def bb_bytes_def)
  then have "assembles e (m(?sid \<mapsto> ?bb)) (M(?sid := Some (snd f, next_offset f)))" by (rule assembles_update [OF m])
  then show ?thesis
    using H bb(1) bb1(1) bb2(1) by (auto simp: begin_fragment_def next_offset_def Let_def)
qed

lemma next_fragment_refines:
  assumes d: "takes_messages e delegate d" and m: "assembles e m M"
    and b: "sound b" "m_buffer b = A @ frame_image e f @ B" and hdr: "hd_fragmentedFrameLength hdr = NULL_VALUE"
    and f: "assemblable M f" and no: "flags_of f AND UNFRAGMENTED \<noteq> UNFRAGMENTED" "flags_of f AND BEGIN_FRAG \<noteq> BEGIN_FRAG"
    and r: "reassemble d (s, M) f = (s', M')"
  shows "\<exists>m'. next_fragment e delegate (flags_of f) (s, m) b (int (length A) + DATA_FRAME_LENGTH) (int (length (snd f)))
      (hdr\<lparr>hd_buffer := b, hd_offset := int (length A)\<rparr>) = ((s', m'), None) \<and> assembles e m' M'"
proof -
  let ?h = "hdr\<lparr>hd_buffer := b, hd_offset := int (length A)\<rparr>" and ?sid = "session_of f" and ?n = "length (snd f)"
    and ?at = "int (length A) + DATA_FRAME_LENGTH"
  have f': "readable f" "0 \<le> offset_in_term f" using f by (simp_all add: assemblable_def)
  note H = header_at [OF b f'(1) hdr]
  consider (none) "m ?sid = None" | (unknown) bb where "m ?sid = Some bb" "M ?sid = None"
    | (partial) bb bs off where "m ?sid = Some bb" "M ?sid = Some (bs, off)" by (cases "m ?sid"; cases "M ?sid") auto
  then show ?thesis
  proof cases
    case none
    then show ?thesis using r no m assembles_at(2) [OF m none] H by (auto simp: next_fragment_def)
  next
    case unknown
    then have bb: "bb_ok bb" "bb_nextTermOffset bb = NULL_VALUE" using assembles_at(1) [OF m unknown(1)] by (simp_all add: builder_for_def)
    then have "offset_in_term f \<noteq> bb_nextTermOffset bb" using f'(2) by (simp add: NULL_VALUE_def)
    moreover have "M(?sid := None) = M" using unknown(2) by auto
    ultimately show ?thesis
      using r no unknown assembles_update [OF m builder_for_reset [OF bb(1)], of ?sid] H by (simp add: next_fragment_def)
  next
    case partial
    have old: "builder_for e ?sid bb (Some (bs, off))" using assembles_at(1) [OF m partial(1)] partial(2) by simp
    then have bb: "bb_ok bb" "bb_bytes bb = bs" "bb_nextTermOffset bb = off" by (simp_all add: builder_for_def)
    show ?thesis
    proof (cases "offset_in_term f = off")
      case False
      then show ?thesis
        using r no partial bb(3) assembles_update [OF m builder_for_reset [OF bb(1)], of ?sid] H by (auto simp: next_fragment_def)
    next
      case True
      obtain bb1 where bb1: "bb_append bb b ?at (int ?n) = Inr bb1" "bb_ok bb1" "bb_bytes bb1 = bs @ snd f" "bb_header bb1 = bb_header bb"
        using append_payload [OF b(2) bb(1)] bb(2) f partial(2) by (auto simp: assemblable_def)
      have new: "builder_for e ?sid (bb1\<lparr>bb_nextTermOffset := x\<rparr>) (Some (bs @ snd f, x))" for x
        using old bb1(2-) by (auto simp: builder_for_def bb_ok_def bb_bytes_def)
      show ?thesis
      proof (cases "flags_of f AND END_FRAG = END_FRAG")
        case True
        have "builder_for e ?sid bb1 (Some (bs @ snd f, bb_nextTermOffset bb1))" using new [of "bb_nextTermOffset bb1"] by simp
        then obtain bb2 where "deliver_assembled e delegate s m ?sid bb1 ?h = ((d s ?sid (bs @ snd f), m(?sid \<mapsto> bb2)), None)"
            "builder_for e ?sid bb2 None"
          using deliver_assembled_ok [OF d _ H(1)] by blast
        then show ?thesis
          using r no partial True \<open>offset_in_term f = off\<close> bb(3) bb1(1) assembles_update [OF m, of ?sid bb2 None] H
          by (auto simp: next_fragment_def)
      next
        case False
        then show ?thesis
          using r no partial \<open>offset_in_term f = off\<close> bb(3) bb1(1) assembles_update [OF m new] H
          by (auto simp: next_fragment_def next_offset_def)
      qed
    qed
  qed
qed

text \<open>The assembler refines the reassembly.\<close>

lemma onFragment_refines:
  assumes d: "takes_messages e delegate d" and m: "assembles e m M" and init: "unat initial \<le> MAX_CAPACITY"
    and b: "sound b" "m_buffer b = A @ frame_image e f @ B" and hdr: "hd_fragmentedFrameLength hdr = NULL_VALUE"
    and f: "assemblable M f" and r: "reassemble d (s, M) f = (s', M')"
  shows "\<exists>m'. onFragment e initial delegate (s, m) b (int (length A) + DATA_FRAME_LENGTH) (int (length (snd f)))
      (hdr\<lparr>hd_buffer := b, hd_offset := int (length A)\<rparr>) = ((s', m'), None) \<and> assembles e m' M'"
proof -
  let ?h = "hdr\<lparr>hd_buffer := b, hd_offset := int (length A)\<rparr>"
  have f': "readable f" using f by (simp add: assemblable_def)
  note H = header_at [OF b f' hdr] and P = payload_at [OF b(2)]
  consider (whole) "flags_of f AND UNFRAGMENTED = UNFRAGMENTED"
    | (first) "flags_of f AND UNFRAGMENTED \<noteq> UNFRAGMENTED" "flags_of f AND BEGIN_FRAG = BEGIN_FRAG"
    | (rest) "flags_of f AND UNFRAGMENTED \<noteq> UNFRAGMENTED" "flags_of f AND BEGIN_FRAG \<noteq> BEGIN_FRAG" by blast
  then show ?thesis
  proof cases
    case whole
    have "delegate s b (int (length A) + DATA_FRAME_LENGTH) (int (length (snd f))) ?h = (d s (session_of f) (snd f), None)"
      using d [unfolded takes_messages_def, rule_format, OF P(2) H(2), of s] P(1) by (simp add: DATA_FRAME_LENGTH_def)
    then show ?thesis using whole r m H(1) by (simp add: onFragment_def)
  next
    case first
    then show ?thesis
      using begin_fragment_refines [OF m init b hdr f first(1), of s] r H(1) by (auto simp: onFragment_def handleFragment_def)
  next
    case rest
    then show ?thesis
      using next_fragment_refines [OF d m b hdr f rest r] H(1) by (simp add: onFragment_def handleFragment_def)
  qed
qed

section \<open>Streams of frames\<close>

text \<open>
  The frames an assembler can take one after the other: even all of them together stay below the
  greatest capacity.
\<close>

definition collectable :: "partial_messages \<Rightarrow> frame list \<Rightarrow> bool" where
  "collectable M fs \<longleftrightarrow>
     (\<forall>f\<in>set fs. \<not> is_padding f \<longrightarrow> 0 \<le> offset_in_term f \<and> (snd f = [] \<longrightarrow> flags_of f AND UNFRAGMENTED = UNFRAGMENTED)) \<and>
     (let n = sum_list (map (\<lambda>f. length (snd f)) fs)
      in n \<le> MAX_CAPACITY \<and> (\<forall>sid bs off. M sid = Some (bs, off) \<longrightarrow> length bs + n \<le> MAX_CAPACITY))"

lemma collectable_assemblable: "collectable M (f # fs) \<Longrightarrow> readable f \<Longrightarrow> \<not> is_padding f \<Longrightarrow> assemblable M f"
  by (fastforce simp: collectable_def assemblable_def Let_def)

lemma collectable_padding: "collectable M (f # fs) \<Longrightarrow> collectable M fs"
  by (fastforce simp: collectable_def Let_def)

lemma collectable_step:
  assumes "collectable M (f # fs)" and "reassemble d (s, M) f = (s', M')"
  shows "collectable M' fs"
proof -
  have "length bs + sum_list (map (\<lambda>f. length (snd f)) fs) \<le> MAX_CAPACITY" if "M' sid = Some (bs, off)" for sid bs off
  proof -
    have "M' sid = M sid \<or> M' sid = Some (snd f, next_offset f) \<or>
        (\<exists>bs0 off0. M (session_of f) = Some (bs0, off0) \<and> M' sid = Some (bs0 @ snd f, next_offset f)) \<or> M' sid = None"
      using assms(2) by (auto split: if_splits option.splits)
    then show ?thesis using assms(1) that by (fastforce simp: collectable_def Let_def)
  qed
  then show ?thesis using assms(1) by (auto simp: collectable_def Let_def)
qed

definition assembling :: "endian \<Rightarrow> frame list \<Rightarrow> 's \<times> builders \<Rightarrow> 's \<times> partial_messages \<Rightarrow> bool" where
  "assembling e fs st t \<longleftrightarrow> fst st = fst t \<and> assembles e (snd st) (snd t) \<and> collectable (snd t) fs"

lemma assembler_follows:
  assumes d: "takes_messages e delegate d" and init: "unat initial \<le> MAX_CAPACITY"
  shows "follows e (onFragment e initial delegate) onError (\<lambda>t f. (reassemble d t f, None)) onError' (assembling e)"
  unfolding follows_def
proof (intro conjI allI impI)
  show "assembling e fs s t" if "assembling e (f # fs) s t" for f fs and s :: "'a \<times> builders" and t
    using that collectable_padding [of "snd t" f fs] by (simp add: assembling_def)
next
  fix f fs st t t' b A B and x :: "cpp_error option" and hdr :: header
  assume f: "\<not> is_padding f" "assembling e (f # fs) st t" "(reassemble d t f, None) = (t', x)"
    and b: "sound b" "m_buffer b = A @ frame_image e f @ B" "readable f" "hd_fragmentedFrameLength hdr = NULL_VALUE"
  obtain s m where st: "st = (s, m)" by (cases st)
  obtain M where t: "t = (s, M)" "assembles e m M" "collectable M (f # fs)" using f(2) st by (cases t) (auto simp: assembling_def)
  obtain s' M' where r: "reassemble d (s, M) f = (s', M')" by (cases "reassemble d (s, M) f")
  obtain m' where "onFragment e initial delegate (s, m) b (int (length A) + DATA_FRAME_LENGTH) (int (length (snd f)))
      (hdr\<lparr>hd_buffer := b, hd_offset := int (length A)\<rparr>) = ((s', m'), None)" "assembles e m' M'"
    using onFragment_refines [OF d t(2) init b(1,2,4) collectable_assemblable [OF t(3) b(3) f(1)] r] by blast
  then show "\<exists>s'. onFragment e initial delegate st b (int (length A) + DATA_FRAME_LENGTH) (int (length (snd f)))
      (hdr\<lparr>hd_buffer := b, hd_offset := int (length A)\<rparr>) = (s', x) \<and>
    (case x of None \<Rightarrow> assembling e fs s' t' | Some err \<Rightarrow> assembling e fs (onError err s') (onError' err t'))"
    using f(3) st t(1) r collectable_step [OF t(3) r] by (auto simp: assembling_def)
qed

text \<open>What the data frames of a list make of the state.\<close>

definition reassembled :: "('s \<Rightarrow> s32 \<Rightarrow> u8 list \<Rightarrow> 's) \<Rightarrow> frame list \<Rightarrow> 's \<times> partial_messages \<Rightarrow> 's \<times> partial_messages" where
  "reassembled d fs t = foldl (reassemble d) t (filter (\<lambda>f. \<not> is_padding f) fs)"

lemma reassembled_append [simp]: "reassembled d (fs @ gs) t = reassembled d gs (reassembled d fs t)"
  by (simp add: reassembled_def)

lemma reassembled_simps:
  "reassembled d [] t = t" "reassembled d (f # fs) t = reassembled d fs (if is_padding f then t else reassemble d t f)"
  by (simp_all add: reassembled_def)

lemma deliver_frames_reassembled:
  "deliver_frames (\<lambda>t f. (reassemble d t f, None)) onError n fs t = (c, k, t') \<Longrightarrow> t' = reassembled d c t"
proof (induction n arbitrary: fs t c k t')
  case 0
  then show ?case by (cases fs) (simp_all add: reassembled_def)
next
  case (Suc n)
  show ?case using Suc.prems
  proof (induction fs arbitrary: c k)
    case (Cons f fs)
    then show ?case by (auto simp: reassembled_def split: if_splits prod.splits dest: Suc.IH)
  qed (simp add: reassembled_def)
qed

text \<open>With a limit that is large enough nothing is left.\<close>

lemma deliver_frames_all:
  "length fs < n \<Longrightarrow> \<exists>k t'. deliver_frames (\<lambda>t f. (reassemble d t f, None)) onError n fs t = (fs, k, t')"
proof (induction fs arbitrary: n t)
  case (Cons f fs)
  then obtain m where n: "n = Suc m" "length fs < m" by (cases n) auto
  show ?case using Cons.IH [of n t] Cons.IH [of m "reassemble d t f"] n by (auto split: prod.split)
qed simp

subsection \<open>The fragments of a message\<close>

lemma flag_values: "UNFRAGMENTED = 192" "BEGIN_FRAG = 128" "END_FRAG = 64"
  by (simp_all add: UNFRAGMENTED_def BEGIN_FRAG_def END_FRAG_def)

lemma align_up_add: "32 dvd o1 \<Longrightarrow> align_up (o1 + n) 32 = o1 + align_up n 32"
proof -
  assume "32 dvd o1"
  then obtain k where "o1 = k * 32" by (metis dvd_def mult.commute)
  then have "(31 + (o1 + n)) div 32 = k + (31 + n) div 32" using div_mult_self1 [of 32 "n + 31" k] by (simp add: ac_simps)
  then show ?thesis using \<open>o1 = k * 32\<close> by (simp add: align_up_def)
qed

text \<open>A frame as the publication writes it.\<close>

lemma written_frame:
  assumes "o1 < 2 ^ 31"
  shows "offset_in_term (frame_hdr hw n fl HDR_TYPE_DATA o1 i rv, p) = int o1"
    and "\<not> is_padding (frame_hdr hw n fl HDR_TYPE_DATA o1 i rv, p)"
    and "32 dvd o1 \<Longrightarrow> next_offset (frame_hdr hw n fl HDR_TYPE_DATA o1 i rv, p) = int (o1 + align_up (length p + 32) 32)"
proof -
  show o1: "offset_in_term (frame_hdr hw n fl HDR_TYPE_DATA o1 i rv, p) = int o1"
    using assms by (simp add: frame_hdr_def sint_of_nat(1))
  show "\<not> is_padding (frame_hdr hw n fl HDR_TYPE_DATA o1 i rv, p)"
    by (simp add: is_padding_def frame_hdr_def HDR_TYPE_DATA_def HDR_TYPE_PAD_def)
  show "next_offset (frame_hdr hw n fl HDR_TYPE_DATA o1 i rv, p) = int (o1 + align_up (length p + 32) 32)" if "32 dvd o1"
    using o1 align_frame [of "o1 + (length p + 32)"] align_up_add [OF that, of "length p + 32"]
    by (simp add: next_offset_def add.assoc)
qed

lemma written_frame_fields [simp]:
  "dh_session_id (frame_hdr hw n fl ty o1 i rv) = hw_sessionId hw" "frame_flags (dh_frame_header (frame_hdr hw n fl ty o1 i rv)) = fl"
  by (simp_all add: frame_hdr_def)

lemma first_fragment:
  assumes "is_fragments hw mx i flags o1 msg fs" and "0 < mx" and "o1 + framed_total mx (length msg) < 2 ^ 31"
  obtains f fs' where "fs = f # fs'" "snd f = take mx msg" "readable f" "\<not> is_padding f" "offset_in_term f = int o1"
    "session_of f = hw_sessionId hw" "flags_of f = (if length msg \<le> mx then flags OR END_FRAG else flags)"
    "32 dvd o1 \<Longrightarrow> next_offset f = int (o1 + align_up (length (snd f) + 32) 32)"
    "length msg \<le> mx \<Longrightarrow> fs' = []"
    "mx < length msg \<Longrightarrow> is_fragments hw mx i 0 (o1 + align_up (length (snd f) + 32) 32) (drop mx msg) fs' \<and>
      o1 + align_up (length (snd f) + 32) 32 + framed_total mx (length (drop mx msg)) < 2 ^ 31"
proof -
  define fl where "fl = (if length msg \<le> mx then flags OR END_FRAG else flags)"
  obtain h p fs' where fs: "fs = (h, p) # fs'" using assms(1) by (cases fs) auto
  obtain rv where h: "h = frame_hdr hw (length p + 32) fl HDR_TYPE_DATA o1 i rv" and p: "p = take mx msg"
    and rest: "if length msg \<le> mx then fs' = [] else is_fragments hw mx i 0 (o1 + align_up (length p + 32) 32) (drop mx msg) fs'"
    using assms(1) unfolding fs is_fragments.simps fl_def by blast
  have total: "framed_total mx (length msg) = align_up (length p + 32) 32 + (if mx < length msg then framed_total mx (length msg - mx) else 0)"
    using framed_total_step [OF assms(2), of "length msg"] p by simp
  moreover have "length p + 32 \<le> align_up (length p + 32) 32" by (rule align_up_bounds) simp
  ultimately have lt: "o1 < 2 ^ 31" "length p + 32 < 2 ^ 31" using assms(3) by linarith+
  note w = written_frame [OF lt(1), of hw "length p + 32" fl i rv p]
  show ?thesis
  proof (rule that [of "(h, p)" fs'])
    show "readable (h, p)" using lt(2) by (simp add: h readable_def) (simp add: frame_hdr_def)
  qed (use fs p w rest total assms(3) in \<open>simp_all add: h fl_def\<close>)
qed

lemma fragments_facts:
  assumes "is_fragments hw mx i flags o1 msg fs" and "0 < mx" and "o1 + framed_total mx (length msg) < 2 ^ 31"
  shows "\<forall>f\<in>set fs. readable f \<and> \<not> is_padding f \<and> 0 \<le> offset_in_term f \<and> (snd f = [] \<longrightarrow> msg = [] \<and> flags_of f = flags OR END_FRAG)"
  using assms
proof (induction "length msg" arbitrary: flags o1 msg fs rule: less_induct)
  case less
  obtain f fs' where f: "fs = f # fs'" "snd f = take mx msg" "readable f" "\<not> is_padding f" "offset_in_term f = int o1"
    "flags_of f = (if length msg \<le> mx then flags OR END_FRAG else flags)" "length msg \<le> mx \<Longrightarrow> fs' = []"
    "mx < length msg \<Longrightarrow> is_fragments hw mx i 0 (o1 + align_up (length (snd f) + 32) 32) (drop mx msg) fs' \<and>
      o1 + align_up (length (snd f) + 32) 32 + framed_total mx (length (drop mx msg)) < 2 ^ 31"
    by (rule first_fragment [OF less.prems]) blast
  have "\<forall>f\<in>set fs'. readable f \<and> \<not> is_padding f \<and> 0 \<le> offset_in_term f \<and> snd f \<noteq> []"
  proof (cases "length msg \<le> mx")
    case False
    then have rest: "is_fragments hw mx i 0 (o1 + align_up (length (snd f) + 32) 32) (drop mx msg) fs'"
      "o1 + align_up (length (snd f) + 32) 32 + framed_total mx (length (drop mx msg)) < 2 ^ 31" "drop mx msg \<noteq> []"
      using f(8) by simp_all
    have "length (drop mx msg) < length msg" using False less.prems(2) by simp
    from less.hyps [OF this rest(1) less.prems(2) rest(2)] rest(3) show ?thesis by blast
  qed (use f(7) in simp)
  then show ?case using f(1-6) less.prems(2) by auto
qed

lemma rest_reassembled:
  assumes "is_fragments hw mx i 0 o1 msg fs" and "0 < mx" and "32 dvd o1" and "o1 + framed_total mx (length msg) < 2 ^ 31"
    and "M (hw_sessionId hw) = Some (bs, int o1)"
  shows "reassembled d fs (s, M) = (d s (hw_sessionId hw) (bs @ msg), M(hw_sessionId hw := None))"
  using assms
proof (induction "length msg" arbitrary: o1 msg fs M bs rule: less_induct)
  case less
  obtain f fs' where f: "fs = f # fs'" "snd f = take mx msg" "\<not> is_padding f" "offset_in_term f = int o1" "session_of f = hw_sessionId hw"
    "flags_of f = (if length msg \<le> mx then 0 OR END_FRAG else 0)" "next_offset f = int (o1 + align_up (length (snd f) + 32) 32)"
    "length msg \<le> mx \<Longrightarrow> fs' = []"
    "mx < length msg \<Longrightarrow> is_fragments hw mx i 0 (o1 + align_up (length (snd f) + 32) 32) (drop mx msg) fs' \<and>
      o1 + align_up (length (snd f) + 32) 32 + framed_total mx (length (drop mx msg)) < 2 ^ 31"
    by (rule first_fragment [OF less.prems(1,2,4)]) (use less.prems(3) in blast)
  have fl: "flags_of f AND UNFRAGMENTED \<noteq> UNFRAGMENTED" "flags_of f AND BEGIN_FRAG \<noteq> BEGIN_FRAG"
      "flags_of f AND END_FRAG = END_FRAG \<longleftrightarrow> length msg \<le> mx"
    by (simp_all add: f(6) flag_values)
  show ?case
  proof (cases "length msg \<le> mx")
    case True
    then show ?thesis using f(1-5,8) fl less.prems(5) by (simp add: reassembled_def)
  next
    case False
    let ?M = "M(hw_sessionId hw \<mapsto> (bs @ snd f, next_offset f))"
    have rest: "is_fragments hw mx i 0 (o1 + align_up (length (snd f) + 32) 32) (drop mx msg) fs'"
        "o1 + align_up (length (snd f) + 32) 32 + framed_total mx (length (drop mx msg)) < 2 ^ 31"
        "32 dvd o1 + align_up (length (snd f) + 32) 32"
      using f(9) False less.prems(3) by (simp_all add: align_up_def)
    have "reassemble d (s, M) f = (s, ?M)" using less.prems(5) f(4,5) fl False by simp
    then have "reassembled d fs (s, M) = reassembled d fs' (s, ?M)" using f(1,3) by (simp add: reassembled_def)
    also have "\<dots> = (d s (hw_sessionId hw) ((bs @ snd f) @ drop mx msg), ?M(hw_sessionId hw := None))"
      using False less.prems(2) f(7) by (intro less.hyps [OF _ rest(1) less.prems(2) rest(3,2)]) simp_all
    finally show ?thesis using f(2) by simp
  qed
qed

text \<open>The frames of a message make it whole again.\<close>

lemma message_reassembled:
  assumes "is_fragments hw mx i BEGIN_FRAG o1 msg fs" and "0 < mx" and "32 dvd o1" and "o1 + framed_total mx (length msg) < 2 ^ 31"
    and "M (hw_sessionId hw) = None"
  shows "reassembled d fs (s, M) = (d s (hw_sessionId hw) msg, M)"
proof -
  obtain f fs' where f: "fs = f # fs'" "snd f = take mx msg" "\<not> is_padding f" "offset_in_term f = int o1" "session_of f = hw_sessionId hw"
    "flags_of f = (if length msg \<le> mx then BEGIN_FRAG OR END_FRAG else BEGIN_FRAG)" "next_offset f = int (o1 + align_up (length (snd f) + 32) 32)"
    "length msg \<le> mx \<Longrightarrow> fs' = []"
    "mx < length msg \<Longrightarrow> is_fragments hw mx i 0 (o1 + align_up (length (snd f) + 32) 32) (drop mx msg) fs' \<and>
      o1 + align_up (length (snd f) + 32) 32 + framed_total mx (length (drop mx msg)) < 2 ^ 31"
    by (rule first_fragment [OF assms(1,2,4)]) (use assms(3) in blast)
  have fl: "flags_of f AND UNFRAGMENTED = UNFRAGMENTED \<longleftrightarrow> length msg \<le> mx" "flags_of f AND BEGIN_FRAG = BEGIN_FRAG"
    by (simp_all add: f(6) flag_values)
  show ?thesis
  proof (cases "length msg \<le> mx")
    case True
    then show ?thesis using f(1-5,8) fl by (simp add: reassembled_def)
  next
    case False
    let ?M = "M(hw_sessionId hw \<mapsto> (snd f, next_offset f))"
    have rest: "is_fragments hw mx i 0 (o1 + align_up (length (snd f) + 32) 32) (drop mx msg) fs'"
        "o1 + align_up (length (snd f) + 32) 32 + framed_total mx (length (drop mx msg)) < 2 ^ 31"
        "32 dvd o1 + align_up (length (snd f) + 32) 32"
      using f(9) False assms(3) by (simp_all add: align_up_def)
    have "reassembled d fs' (s, ?M) = (d s (hw_sessionId hw) (snd f @ drop mx msg), ?M(hw_sessionId hw := None))"
      by (rule rest_reassembled [OF rest(1) assms(2) rest(3,2)]) (simp add: f(7))
    moreover have "reassemble d (s, M) f = (s, ?M)" using f(5) fl False by simp
    moreover have "M(hw_sessionId hw := None) = M" using assms(5) by auto
    ultimately show ?thesis using f(1-3) by (simp add: reassembled_def)
  qed
qed

section \<open>Polling through the assembler\<close>

text \<open>
  C8. A poll whose handler is a fragment assembler, with a limit that reaches over the frames written
  behind the subscriber's position, hands the delegate exactly the whole messages these frames complete,
  in the order of their last fragments and each with the bytes of all its fragments, whatever sessions
  the frames belong to; messages begun and not ended are kept for the next poll, in buffers that grow as
  needed, and fragments that do not continue the message of their session are dropped with it.
\<close>

theorem poll_assembles:
  assumes "image_ok im n k" and "takes_messages e delegate d" and "unat initial \<le> MAX_CAPACITY"
    and "m_buffer (im_termBuffers im ! (n mod 3)) = A @ frames_image e fs @ B" and "length A = k"
    and "\<forall>f\<in>set fs. readable f" and "unwritten B" and "assembles e m M" and "collectable M fs" and "length fs < limit"
    and "reassembled d fs (s, M) = (s', M')"
  shows "\<exists>count m'. poll e im (onFragment e initial delegate) onError (int limit) (s, m) =
      Inr (im\<lparr>im_subscriberPosition := word_of_nat (n * image_term_length im + k + length (frames_image e fs))\<rparr>, count, (s', m')) \<and>
    assembles e m' M'"
proof -
  obtain count t' where d: "deliver_frames (\<lambda>t f. (reassemble d t f, None)) (\<lambda>_ t. t) limit fs (s, M) = (fs, count, t')"
    using deliver_frames_all [OF assms(10)] by blast
  then have "t' = (s', M')" using deliver_frames_reassembled [OF d] assms(11) by simp
  moreover have "assembling e fs (s, m) (s, M)" using assms(8,9) by (simp add: assembling_def)
  ultimately show ?thesis
    using poll_follows [OF assms(1) assembler_follows [OF assms(2,3), where onError = onError] assms(4-7) _ d, of "(s, m)"]
    by (fastforce simp: assembling_def)
qed

text \<open>A message in two fragments.\<close>

definition example_fragments :: "frame list" where
  "example_fragments =
     [(frame_hdr \<lparr>hw_sessionId = 11, hw_streamId = 1001\<rparr> 33 BEGIN_FRAG HDR_TYPE_DATA 0 7 0, [1]),
      (frame_hdr \<lparr>hw_sessionId = 11, hw_streamId = 1001\<rparr> 33 END_FRAG HDR_TYPE_DATA 64 7 0, [2])]"

definition fragment_terms :: "atomic_buffer list" where
  "fragment_terms = replicate 3 \<lparr>m_buffer = frames_image Little example_fragments @ replicate (65536 - 128) 0, m_length = 65536\<rparr>"

lemma collect_takes: "takes_messages e collect (\<lambda>s sid msg. s @ [msg])"
  by (simp add: takes_messages_def collect_def)

lemma example_fragments_facts:
  "length (frames_image e example_fragments) = 128" "\<forall>f\<in>set example_fragments. readable f" "collectable Map.empty example_fragments"
  "reassembled (\<lambda>s sid msg. s @ [msg]) example_fragments ([], Map.empty) = ([[1, 2]], Map.empty)"
  by (simp_all add: example_fragments_def align_up_def readable_def collectable_def frame_hdr_def reassembled_simps is_padding_def
      HDR_TYPE_DATA_def HDR_TYPE_PAD_def flag_values next_offset_def align_def FRAME_ALIGNMENT_def fun_upd_idem)

theorem poll_assembles_witness:
  "\<exists>im count m'. Image 11 0 new_metadata fragment_terms = Inr im \<and>
     poll Little im (onFragment Little 4096 collect) (\<lambda>_ s. s) 10 ([], Map.empty) =
       Inr (im\<lparr>im_subscriberPosition := 128\<rparr>, count, ([[1, 2]], m'))"
proof -
  let ?fs = example_fragments
  have "\<forall>b\<in>set fragment_terms. sound b \<and> length (m_buffer b) = 2 ^ 16"
    using example_fragments_facts(1) by (auto simp: fragment_terms_def sound_def)
  then obtain im where im: "Image 11 (word_of_nat (0 * 2 ^ 16 + 0)) new_metadata fragment_terms = Inr im" "image_ok im 0 0"
      "im_termBuffers im = fragment_terms"
    using Image_ok [of fragment_terms 16 0 0 11 new_metadata] by (auto simp: fragment_terms_def)
  have "m_buffer (im_termBuffers im ! (0 mod 3)) = [] @ frames_image Little ?fs @ replicate (65536 - 128) 0"
    unfolding im(3) by (simp add: fragment_terms_def)
  moreover have "unwritten (replicate (65536 - 128) 0)" by (rule unwritten_zeros) simp
  moreover have "assembles Little Map.empty Map.empty" by (simp add: assembles_def)
  moreover have "length ?fs < 10" by (simp add: example_fragments_def)
  ultimately obtain count m' where "poll Little im (onFragment Little 4096 collect) (\<lambda>_ s. s) (int 10) ([], Map.empty) =
      Inr (im\<lparr>im_subscriberPosition := word_of_nat (0 * image_term_length im + 0 + length (frames_image Little ?fs))\<rparr>, count, ([[1, 2]], m'))"
    using poll_assembles [OF im(2) collect_takes, of 4096 "[]" Little ?fs "replicate (65536 - 128) 0" Map.empty Map.empty 10 "[]" "[[1, 2]]" Map.empty "\<lambda>_ s. s"]
      example_fragments_facts(2-4) by auto
  then show ?thesis using im(1) example_fragments_facts(1) by auto
qed

end
