(* ===== verification/LogStream.thy ===== *)
theory LogStream
  imports ClaimedMessages AssembledMessages "HOL-Library.Sublist"
begin

text \<open>
  Publication, log, image and fragment assembler together: a step relation in which messages are
  offered or claimed and committed, the image is polled and the driver cleans the log and moves the publication limit, in any
  order, and the invariant from which delivery of every accepted message, once and in order, follows.
\<close>

section \<open>The system\<close>

text \<open>
  The log is shared: its term buffers are those of the publication. Kept beside the objects are the
  messages accepted so far and those handed on by the assembler.
\<close>

record log_state =
  ls_pub :: publication
  ls_image :: image
  ls_builders :: builders
  ls_accepted :: "u8 list list"
  ls_delivered :: "u8 list list"

definition shared_image :: "log_state \<Rightarrow> image" where
  "shared_image st = (ls_image st)\<lparr>im_termBuffers := logBuffers (ls_pub st)\<rparr>"

definition take_answer :: "log_state \<Rightarrow> u8 list \<Rightarrow> publication \<times> s64 \<Rightarrow> log_state" where
  "take_answer st msg answer =
     st\<lparr>ls_pub := fst answer, ls_accepted := (if 0 <s snd answer then ls_accepted st @ [msg] else ls_accepted st)\<rparr>"

definition poll_log :: "endian \<Rightarrow> u32 \<Rightarrow> int \<Rightarrow> log_state \<Rightarrow> log_state cpp" where
  "poll_log e initial fragmentLimit st =
     andThen (poll e (shared_image st) (onFragment e initial collect) (\<lambda>_ s. s) fragmentLimit (ls_delivered st, ls_builders st))
       (\<lambda>(im, _, delivered, builders). Inr (st\<lparr>ls_image := im, ls_delivered := delivered, ls_builders := builders\<rparr>))"

text \<open>
  What the media driver, which is not part of the client, promises with \<open>n\<close>, \<open>k\<close> the tail of the log and
  \<open>n'\<close>, \<open>k'\<close> the position of the subscriber: it raises the limit, to half a term length past the
  subscriber at most; the bytes not yet read stay as they are; and the partitions free for the terms to
  come are zero.
\<close>

definition driver_updates :: "publication \<Rightarrow> nat \<Rightarrow> nat \<Rightarrow> nat \<Rightarrow> atomic_buffer list \<Rightarrow> s64 \<Rightarrow> bool" where
  "driver_updates p n n' k' bufs limit \<longleftrightarrow>
     (let L = term_length p
      in length bufs = 3 \<and> (\<forall>b\<in>set bufs. sound b \<and> length (m_buffer b) = L) \<and>
         sint (pub_limit p) \<le> sint limit \<and> sint limit \<le> int (n' * L + k' + L div 2) \<and>
         (\<forall>j. n' \<le> j \<and> j \<le> n \<longrightarrow> drop (if j = n' then k' else 0) (m_buffer (bufs ! (j mod 3))) =
            drop (if j = n' then k' else 0) (m_buffer (logBuffers p ! (j mod 3)))) \<and>
         (\<forall>j. n < j \<and> n' \<le> j \<and> j \<le> n' + 2 \<longrightarrow> m_buffer (bufs ! (j mod 3)) = replicate L 0))"

text \<open>A stream that has used up its terms is over, so no step answers that.\<close>

inductive log_step :: "endian \<Rightarrow> u32 \<Rightarrow> log_state \<Rightarrow> log_state \<Rightarrow> bool" for e initial where
  offered: "feeds_from src from msg \<Longrightarrow> offer e (ls_pub st) src from (int (length msg)) supplier = Inr answer \<Longrightarrow>
    snd answer \<noteq> MAX_POSITION_EXCEEDED \<Longrightarrow> log_step e initial st (take_answer st msg answer)"
| gathered: "\<forall>b\<in>set bufs. sound b \<Longrightarrow> msg = concat (map m_buffer bufs) \<Longrightarrow> offer_vectored e (ls_pub st) bufs supplier = Inr answer \<Longrightarrow>
    snd answer \<noteq> MAX_POSITION_EXCEEDED \<Longrightarrow> log_step e initial st (take_answer st msg answer)"
| claimed: "publish_claimed e (ls_pub st) msg bufferClaim = Inr answer \<Longrightarrow>
    snd answer \<noteq> MAX_POSITION_EXCEEDED \<Longrightarrow> log_step e initial st (take_answer st msg answer)"
| polled: "poll_log e initial (int limit) st = Inr st' \<Longrightarrow> log_step e initial st st'"
| driven: "pub_ok (ls_pub st) n k \<Longrightarrow> image_ok (shared_image st) n' k' \<Longrightarrow> driver_updates (ls_pub st) n n' k' bufs lim \<Longrightarrow>
    log_step e initial st (st\<lparr>ls_pub := (ls_pub st)\<lparr>logBuffers := bufs, pub_limit := lim\<rparr>\<rparr>)"

definition fresh_log :: "log_state \<Rightarrow> bool" where
  "fresh_log st \<longleftrightarrow> pub_ok (ls_pub st) 0 0 \<and> image_ok (shared_image st) 0 0 \<and>
     im_positionBitsToShift (ls_image st) = pub_bitsToShift (ls_pub st) \<and>
     sint (pub_limit (ls_pub st)) \<le> int (term_length (ls_pub st) div 2) \<and>
     (\<forall>b\<in>set (logBuffers (ls_pub st)). m_buffer b = replicate (term_length (ls_pub st)) 0) \<and>
     ls_builders st = Map.empty \<and> ls_accepted st = [] \<and> ls_delivered st = []"

abbreviation log_run :: "endian \<Rightarrow> u32 \<Rightarrow> log_state \<Rightarrow> log_state \<Rightarrow> bool" where
  "log_run e initial \<equiv> (log_step e initial)\<^sup>*\<^sup>*"

section \<open>The invariant\<close>

abbreviation keep_message :: "u8 list list \<Rightarrow> s32 \<Rightarrow> u8 list \<Rightarrow> u8 list list" where
  "keep_message s sid msg \<equiv> s @ [msg]"

text \<open>Frames that hold whole messages.\<close>

definition whole :: "frame list \<Rightarrow> u8 list list \<Rightarrow> bool" where
  "whole fs msgs \<longleftrightarrow> (\<forall>s. reassembled keep_message fs (s, Map.empty) = (s @ msgs, Map.empty))"

definition sound_frame :: "frame \<Rightarrow> bool" where
  "sound_frame f \<longleftrightarrow> readable f \<and>
     (\<not> is_padding f \<longrightarrow> 0 \<le> offset_in_term f \<and> (snd f = [] \<longrightarrow> flags_of f AND UNFRAGMENTED = UNFRAGMENTED))"

definition filled :: "nat \<Rightarrow> nat \<Rightarrow> nat \<Rightarrow> nat \<Rightarrow> nat" where
  "filled L n k j = (if j < n then L else if j = n then k else 0)"

text \<open>
  \<open>T j\<close> are the frames of the term \<open>j\<close> from its beginning, \<open>C\<close> those of the term \<open>n'\<close> the image has
  consumed. A term matters from the subscriber's on, up to the last the limit allows to enter.
\<close>

definition matters :: "publication \<Rightarrow> nat \<Rightarrow> nat \<Rightarrow> nat \<Rightarrow> bool" where
  "matters p n n' j \<longleftrightarrow> n' \<le> j \<and> (j \<le> n \<or> int ((j - 1) * term_length p) < sint (pub_limit p))"

definition log_holds :: "endian \<Rightarrow> publication \<Rightarrow> nat \<Rightarrow> nat \<Rightarrow> frame list \<Rightarrow> (nat \<Rightarrow> frame list) \<Rightarrow> nat \<Rightarrow> bool" where
  "log_holds e p n' k' C T j \<longleftrightarrow> (\<exists>A. length A = (if j = n' then k' else 0) \<and>
     m_buffer (logBuffers p ! (j mod 3)) = A @ frames_image e (if j = n' then drop (length C) (T j) else T j) @
       replicate (term_length p - length (frames_image e (T j))) 0)"

definition positions_ok :: "log_state \<Rightarrow> nat \<Rightarrow> nat \<Rightarrow> nat \<Rightarrow> nat \<Rightarrow> bool" where
  "positions_ok st n k n' k' \<longleftrightarrow>
     (let p = ls_pub st; L = term_length p
      in pub_ok p n k \<and> image_ok (shared_image st) n' k' \<and> im_positionBitsToShift (ls_image st) = pub_bitsToShift p \<and>
         n' \<le> n + 1 \<and> n \<le> n' + 2 \<and> (n' = n + 1 \<longrightarrow> k = L) \<and> sint (pub_limit p) \<le> int (n' * L + k' + L div 2) \<and>
         (0 < k \<longrightarrow> int (n * L) < sint (pub_limit p)))"

definition terms_ok :: "endian \<Rightarrow> publication \<Rightarrow> nat \<Rightarrow> nat \<Rightarrow> nat \<Rightarrow> frame list \<Rightarrow> (nat \<Rightarrow> frame list) \<Rightarrow> (nat \<Rightarrow> u8 list list) \<Rightarrow> bool" where
  "terms_ok e p n k n' C T W \<longleftrightarrow> (\<exists>F. T n' = C @ F) \<and>
     (\<forall>j. matters p n n' j \<longrightarrow> log_holds e p n' (length (frames_image e C)) C T j) \<and>
     (\<forall>j\<ge>n'. length (frames_image e (T j)) = filled (term_length p) n k j \<and> (\<forall>f\<in>set (T j). sound_frame f) \<and> whole (T j) (W j))"

definition messages_ok :: "endian \<Rightarrow> log_state \<Rightarrow> nat \<Rightarrow> nat \<Rightarrow> frame list \<Rightarrow> (nat \<Rightarrow> u8 list list) \<Rightarrow> bool" where
  "messages_ok e st n n' C W \<longleftrightarrow> (\<exists>s0 M. reassembled keep_message C (s0, Map.empty) = (ls_delivered st, M) \<and>
     assembles e (ls_builders st) M \<and> ls_accepted st = s0 @ concat (map W [n'..<n + 1]))"

definition stream_ok :: "endian \<Rightarrow> log_state \<Rightarrow> nat \<Rightarrow> nat \<Rightarrow> nat \<Rightarrow> frame list \<Rightarrow> (nat \<Rightarrow> frame list) \<Rightarrow> (nat \<Rightarrow> u8 list list) \<Rightarrow> bool" where
  "stream_ok e st n k n' C T W \<longleftrightarrow> positions_ok st n k n' (length (frames_image e C)) \<and>
     terms_ok e (ls_pub st) n k n' C T W \<and> messages_ok e st n n' C W"

lemma whole_simps: "whole [] [] " "whole fs ms \<Longrightarrow> whole gs ns \<Longrightarrow> whole (fs @ gs) (ms @ ns)"
  by (simp_all add: whole_def reassembled_def)

lemma frames_image_empty: "length (frames_image e fs) = 0 \<longleftrightarrow> fs = []"
proof (cases fs)
  case (Cons f fs')
  then show ?thesis using align_up_bounds(1) [of 32 "length (snd f) + 32"] by simp
qed simp

lemma payloads_le_image: "sum_list (map (\<lambda>f. length (snd f)) fs) \<le> length (frames_image e fs)"
proof (induction fs)
  case (Cons f fs)
  then show ?case using align_up_bounds(1) [of 32 "length (snd f) + 32"] by simp
qed simp

text \<open>A message begun is no longer than the frames that were read.\<close>

lemma reassembled_bound:
  assumes "\<And>sid bs off. M sid = Some (bs, off) \<Longrightarrow> length bs \<le> x" and "reassembled d C (s, M) = (s', M')" and "M' sid = Some (bs, off)"
  shows "length bs \<le> x + sum_list (map (\<lambda>f. length (snd f)) C)"
  using assms
proof (induction C arbitrary: x s M)
  case Nil
  then show ?case by (auto simp: reassembled_def)
next
  case (Cons f C)
  define sM where "sM = (if is_padding f then (s, M) else reassemble d (s, M) f)"
  have "reassembled d C (fst sM, snd sM) = (s', M')" using Cons.prems(2) by (simp only: reassembled_simps sM_def prod.collapse)
  moreover have "length bs \<le> x + length (snd f)" if "snd sM sid = Some (bs, off)" for sid bs off
    using that Cons.prems(1) by (fastforce simp: sM_def split: if_splits option.splits)
  ultimately show ?case using Cons.IH [of "snd sM" "x + length (snd f)" "fst sM"] Cons.prems(3) by simp
qed

lemma fresh_log_ok: "fresh_log st \<Longrightarrow> stream_ok e st 0 0 0 [] (\<lambda>_. []) (\<lambda>_. [])"
proof -
  assume f: "fresh_log st"
  have "length (logBuffers (ls_pub st)) = 3" using f by (simp add: fresh_log_def pub_ok_def members_ok_def)
  then have "m_buffer (logBuffers (ls_pub st) ! (j mod 3)) = replicate (term_length (ls_pub st)) 0" for j
    using f by (simp add: fresh_log_def)
  then have "terms_ok e (ls_pub st) 0 0 0 [] (\<lambda>_. []) (\<lambda>_. [])"
    by (simp add: terms_ok_def log_holds_def filled_def whole_simps)
  moreover have "positions_ok st 0 0 0 0" using f by (simp add: positions_ok_def fresh_log_def Let_def)
  moreover have "messages_ok e st 0 0 [] (\<lambda>_. [])"
    using f by (auto simp: messages_ok_def fresh_log_def reassembled_def assembles_def)
  ultimately show ?thesis by (simp add: stream_ok_def)
qed

section \<open>Offering\<close>

lemma positions_okD:
  assumes "positions_ok st n k n' k'"
  shows "pub_ok (ls_pub st) n k" and "members_ok (ls_pub st)" and "k \<le> term_length (ls_pub st)" and "length (logBuffers (ls_pub st)) = 3"
    and "image_ok (shared_image st) n' k'" and "im_positionBitsToShift (ls_image st) = pub_bitsToShift (ls_pub st)"
    and "k' < term_length (ls_pub st)" and "n' \<le> n + 1" and "n \<le> n' + 2" and "n' = n + 1 \<Longrightarrow> k = term_length (ls_pub st)"
    and "sint (pub_limit (ls_pub st)) \<le> int (n' * term_length (ls_pub st) + k' + term_length (ls_pub st) div 2)"
    and "0 < k \<Longrightarrow> int (n * term_length (ls_pub st)) < sint (pub_limit (ls_pub st))"
proof -
  show bits: "im_positionBitsToShift (ls_image st) = pub_bitsToShift (ls_pub st)" and im: "image_ok (shared_image st) n' k'"
    using assms by (simp_all only: positions_ok_def Let_def)
  have "k' < 2 ^ im_positionBitsToShift (ls_image st)" using im by (simp add: image_ok_def shared_image_def)
  then show "k' < term_length (ls_pub st)" by (simp only: bits)
qed (use assms in \<open>simp_all add: positions_ok_def pub_ok_def members_ok_def Let_def\<close>)

lemma matters_range:
  assumes "positions_ok st n k n' k'" and "matters (ls_pub st) n n' j"
  shows "n' \<le> j" and "j \<le> n' + 2"
proof -
  let ?L = "term_length (ls_pub st)"
  show "n' \<le> j" using assms(2) by (simp add: matters_def)
  have k': "k' < ?L" and lim: "sint (pub_limit (ls_pub st)) \<le> int (n' * ?L + k' + ?L div 2)" and n: "n \<le> n' + 2"
    by (rule positions_okD [OF assms(1)])+
  show "j \<le> n' + 2"
  proof (cases "j \<le> n")
    case False
    then have "int ((j - 1) * ?L) < int (n' * ?L + k' + ?L div 2)" using assms(2) lim by (simp add: matters_def)
    then have "(j - 1) * ?L < n' * ?L + k' + ?L div 2" by (simp only: of_nat_less_iff)
    also have "\<dots> \<le> (n' + 2) * ?L" using k' by simp
    finally have "j - 1 < n' + 2" by (rule mult_less_cancel2 [THEN iffD1, THEN conjunct2])
    then show ?thesis by simp
  qed (use n in simp)
qed

lemma entering:
  assumes "positions_ok st n k n' k'" and "int (n * term_length (ls_pub st)) < sint (pub_limit (ls_pub st))"
  shows "n \<le> n' + 1"
proof (cases "n' \<le> n")
  case True
  then have "matters (ls_pub st) n n' (n + 1)" using assms(2) by (simp add: matters_def)
  from matters_range(2) [OF assms(1) this] show ?thesis by simp
qed simp

lemma matters_distinct:
  assumes "positions_ok st n k n' k'" and "matters (ls_pub st) n n' j" and "n' \<le> n" and "j \<noteq> n"
  shows "j mod 3 \<noteq> n mod 3"
proof -
  have "n' \<le> j" "j \<le> n' + 2" "n \<le> n' + 2" using matters_range [OF assms(1,2)] assms(1) by (simp_all add: positions_ok_def Let_def)
  then have "j = n + 1 \<or> j = n + 2 \<or> n = j + 1 \<or> n = j + 2" using assms(3,4) by linarith
  then show ?thesis using mod_3_distinct(1,2) by metis
qed

lemma image_ok_shared:
  assumes "image_ok (im\<lparr>im_termBuffers := bufs\<rparr>) n' k'" and "members_ok p'" and "im_positionBitsToShift im = pub_bitsToShift p'"
  shows "image_ok (im\<lparr>im_termBuffers := logBuffers p'\<rparr>) n' k'"
  using assms by (simp add: image_ok_def members_ok_def)

lemma positions_ok_pub:
  assumes "positions_ok st n k n' k'" and "pub_ok p' m l" and "same_members (ls_pub st) p'"
    and "n' \<le> m + 1" and "m \<le> n' + 2" and "n' = m + 1 \<longrightarrow> l = term_length (ls_pub st)"
    and "0 < l \<longrightarrow> int (m * term_length (ls_pub st)) < sint (pub_limit (ls_pub st))"
  shows "positions_ok (st\<lparr>ls_pub := p', ls_accepted := acc\<rparr>) m l n' k'"
proof -
  have "members_ok p'" using assms(2) by (simp add: pub_ok_def)
  then have "image_ok (shared_image (st\<lparr>ls_pub := p', ls_accepted := acc\<rparr>)) n' k'"
    using image_ok_shared [of "logBuffers (ls_pub st)" "ls_image st" n' k' p'] assms(1,3)
    by (simp add: positions_ok_def same_members_def shared_image_def Let_def)
  then show ?thesis using assms by (simp add: positions_ok_def same_members_def Let_def)
qed

text \<open>The active term: its frames and the zeros behind the tail.\<close>

lemma active_term:
  assumes "stream_ok e st n k n' C T W"
  obtains A where "m_buffer (logBuffers (ls_pub st) ! (n mod 3)) = A @ replicate (term_length (ls_pub st) - k) 0" "length A = k"
    "n' \<le> n \<Longrightarrow> \<exists>A0. length A0 = (if n = n' then length (frames_image e C) else 0) \<and>
       A = A0 @ frames_image e (if n = n' then drop (length C) (T n) else T n)"
proof (cases "n' \<le> n")
  case True
  have t: "terms_ok e (ls_pub st) n k n' C T W" using assms by (simp add: stream_ok_def)
  have len: "length (frames_image e (T n)) = k" using t True by (simp add: terms_ok_def filled_def)
  have "log_holds e (ls_pub st) n' (length (frames_image e C)) C T n" using t True by (simp add: terms_ok_def matters_def)
  then obtain A0 where A: "length A0 = (if n = n' then length (frames_image e C) else 0)"
      "m_buffer (logBuffers (ls_pub st) ! (n mod 3)) = A0 @ frames_image e (if n = n' then drop (length C) (T n) else T n) @ replicate (term_length (ls_pub st) - k) 0"
    unfolding log_holds_def len by blast
  moreover have "length (frames_image e C) + length (frames_image e (drop (length C) (T n))) = k" if "n = n'"
    using t that len by (auto simp: terms_ok_def)
  ultimately show ?thesis using len by (intro that [of "A0 @ frames_image e (if n = n' then drop (length C) (T n) else T n)"]) auto
next
  case False
  have pos: "positions_ok st n k n' (length (frames_image e C))" using assms by (simp add: stream_ok_def)
  then have "n' = n + 1" using False positions_okD(8) by fastforce
  then have "k = term_length (ls_pub st)" by (rule positions_okD(10) [OF pos])
  moreover have "length (m_buffer (logBuffers (ls_pub st) ! (n mod 3))) = term_length (ls_pub st)"
    using positions_okD(2) [OF pos] by (simp add: members_ok_def)
  ultimately show ?thesis using False by (intro that [of "m_buffer (logBuffers (ls_pub st) ! (n mod 3))"]) simp_all
qed

lemma terms_update:
  assumes "positions_ok st n k n' k'" and "terms_ok e (ls_pub st) n k n' C T W" and "n' \<le> n"
    and p': "map m_buffer (logBuffers p') = (map m_buffer (logBuffers (ls_pub st)))[n mod 3 := X]" "same_members (ls_pub st) p'" "length (logBuffers (ls_pub st)) = 3"
    and "matters (ls_pub st) n n' j" and "j \<noteq> n" and "k' = length (frames_image e C)"
  shows "log_holds e p' n' k' C (T(n := Z)) j"
proof -
  have "j mod 3 \<noteq> n mod 3" by (rule matters_distinct [OF assms(1,7,3,8)])
  moreover have "length (logBuffers p') = 3" using arg_cong [OF p'(1), of length] p'(3) by simp
  ultimately have "m_buffer (logBuffers p' ! (j mod 3)) = m_buffer (logBuffers (ls_pub st) ! (j mod 3))"
    using arg_cong [OF p'(1), of "\<lambda>xs. xs ! (j mod 3)"] p'(3) by simp
  moreover have "log_holds e (ls_pub st) n' k' C T j" using assms(2,7,9) by (simp add: terms_ok_def)
  moreover have "pub_bitsToShift p' = pub_bitsToShift (ls_pub st)" using p'(2) by (simp add: same_members_def)
  ultimately show ?thesis using assms(8) unfolding log_holds_def by (simp only: fun_upd_other [OF assms(8)])
qed

lemma same_members_matters: "same_members p p' \<Longrightarrow> matters p' n n' j = matters p n n' j"
  by (simp add: same_members_def matters_def)

text \<open>Appended frames.\<close>

lemma appended_terms:
  assumes pos: "positions_ok st n k n' k'" and t: "terms_ok e (ls_pub st) n k n' C T W" and n: "n' \<le> n" and k': "k' = length (frames_image e C)"
    and A: "length A0 = (if n = n' then k' else 0)" "A = A0 @ frames_image e (if n = n' then drop (length C) (T n) else T n)"
    and fs: "length (frames_image e fs) = a" "\<forall>f\<in>set fs. sound_frame f" "whole fs ms" "k + a \<le> term_length (ls_pub st)"
    and p': "map m_buffer (logBuffers p') = (map m_buffer (logBuffers (ls_pub st)))
      [n mod 3 := A @ frames_image e fs @ replicate (term_length (ls_pub st) - (k + a)) 0]" "same_members (ls_pub st) p'"
  shows "terms_ok e p' n (k + a) n' C (T(n := T n @ fs)) (W(n := W n @ ms))"
proof -
  let ?T = "T(n := T n @ fs)" and ?L = "term_length (ls_pub st)"
  note three = positions_okD(4) [OF pos]
  have L: "term_length p' = ?L" using p'(2) by (simp add: same_members_def)
  obtain F where F: "T n' = C @ F" using t by (auto simp: terms_ok_def)
  have tn: "length (frames_image e (T n)) = k" "\<forall>f\<in>set (T n). sound_frame f" "whole (T n) (W n)"
    using t n by (simp_all add: terms_ok_def filled_def)
  have here: "log_holds e p' n' k' C ?T n"
  proof -
    have "length (logBuffers p') = 3" using arg_cong [OF p'(1), of length] three by simp
    then have "m_buffer (logBuffers p' ! (n mod 3)) = A @ frames_image e fs @ replicate (?L - (k + a)) 0"
      using arg_cong [OF p'(1), of "\<lambda>xs. xs ! (n mod 3)"] three by simp
    then show ?thesis using A fs(1) tn(1) F unfolding log_holds_def L by (intro exI [of _ A0]) auto
  qed
  have "log_holds e p' n' k' C ?T j" if "matters p' n n' j" for j
    using that here terms_update [OF pos t n p'(1,2) three _ _ k'] same_members_matters [OF p'(2)] by (cases "j = n") simp_all
  moreover have "length (frames_image e (?T j)) = filled ?L n (k + a) j \<and> (\<forall>f\<in>set (?T j). sound_frame f) \<and> whole (?T j) ((W(n := W n @ ms)) j)"
    if "n' \<le> j" for j
    using that t tn fs(1-3) whole_simps(2) [OF tn(3) fs(3)] by (auto simp: terms_ok_def filled_def)
  moreover have "\<exists>F. ?T n' = C @ F" using F by auto
  ultimately show ?thesis unfolding terms_ok_def k' L by blast
qed

lemma concat_upd: "n' \<le> n \<Longrightarrow> concat (map (W(n := W n @ ms)) [n'..<n + 1]) = concat (map W [n'..<n + 1]) @ ms"
proof -
  assume "n' \<le> n"
  moreover have "map (W(n := W n @ ms)) [n'..<n] = map W [n'..<n]" by simp
  ultimately show ?thesis by simp
qed

lemma message_frames:
  assumes "members_ok p" and "is_fragments (headerWriter p) (nat (maxPayloadLength p)) i BEGIN_FRAG k msg fs" and "32 dvd k"
    and "k + framed_total (nat (maxPayloadLength p)) (length msg) \<le> term_length p"
  shows "\<forall>f\<in>set fs. sound_frame f" and "whole fs [msg]"
proof -
  have mx: "0 < nat (maxPayloadLength p)" using payload_ok(1) [OF assms(1)] .
  have lt: "k + framed_total (nat (maxPayloadLength p)) (length msg) < 2 ^ 31" using assms(4) term_length_le [OF assms(1)] by simp
  show "\<forall>f\<in>set fs. sound_frame f"
    using fragments_facts [OF assms(2) mx lt] by (auto simp: sound_frame_def flag_values)
  show "whole fs [msg]"
    using message_reassembled [OF assms(2) mx assms(3) lt, of Map.empty keep_message] by (simp add: whole_def)
qed

lemma appended_ok:
  assumes ok: "stream_ok e st n k n' C T W" and lt: "int (n * term_length (ls_pub st) + k) < sint (pub_limit (ls_pub st))"
    and app: "appends_message e (ls_pub st) n k A msg (Inr answer)"
    and A: "length A = k" "n' \<le> n \<Longrightarrow> \<exists>A0. length A0 = (if n = n' then length (frames_image e C) else 0) \<and>
       A = A0 @ frames_image e (if n = n' then drop (length C) (T n) else T n)"
    and fits: "k + framed_total (nat (maxPayloadLength (ls_pub st))) (length msg) \<le> term_length (ls_pub st)"
  shows "\<exists>k T W. stream_ok e (take_answer st msg answer) n k n' C T W"
proof -
  let ?p = "ls_pub st" and ?L = "term_length (ls_pub st)" and ?a = "framed_total (nat (maxPayloadLength (ls_pub st))) (length msg)"
  have pos: "positions_ok st n k n' (length (frames_image e C))" and t: "terms_ok e ?p n k n' C T W" and ms: "messages_ok e st n n' C W"
    using ok by (simp_all add: stream_ok_def)
  have m: "members_ok ?p" and k: "32 dvd k" using positions_okD(1) [OF pos] by (simp_all add: pub_ok_def)
  have a: "32 \<le> ?a" using framed_total_room [OF payload_ok(1) [OF m], of "length msg"] by simp
  have n: "n' \<le> n" using positions_okD(8,10) [OF pos] fits a by (cases "n' = n + 1") auto
  obtain A0 where A0: "length A0 = (if n = n' then length (frames_image e C) else 0)"
      "A = A0 @ frames_image e (if n = n' then drop (length C) (T n) else T n)" using A(2) n by blast
  obtain p' fs where app': "answer = (p', word_of_nat (n * ?L + (k + ?a)))" "same_members ?p p'" "pub_ok p' n (k + ?a)"
      "is_fragments (headerWriter ?p) (nat (maxPayloadLength ?p)) (initialTermId ?p + word_of_nat n) BEGIN_FRAG k msg fs"
      "length (frames_image e fs) = ?a"
      "map m_buffer (logBuffers p') = (map m_buffer (logBuffers ?p))[n mod 3 := A @ frames_image e fs @ replicate (?L - (k + ?a)) 0]"
    using app fits by (auto simp: appends_message_def Let_def)
  note fr = message_frames [OF m app'(4) k fits]
  have "terms_ok e p' n (k + ?a) n' C (T(n := T n @ fs)) (W(n := W n @ [msg]))"
    by (rule appended_terms [OF pos t n refl A0 app'(5) fr fits app'(6,2)])
  moreover have acc: "take_answer st msg answer = st\<lparr>ls_pub := p', ls_accepted := ls_accepted st @ [msg]\<rparr>"
    using positive_position [OF positions_okD(1) [OF pos] fits] a by (simp add: take_answer_def app'(1) del: of_nat_add of_nat_mult)
  moreover have "positions_ok (st\<lparr>ls_pub := p', ls_accepted := ls_accepted st @ [msg]\<rparr>) n (k + ?a) n' (length (frames_image e C))"
    using positions_okD(9) [OF pos] n lt by (intro positions_ok_pub [OF pos app'(3,2)]) auto
  moreover have "messages_ok e (st\<lparr>ls_pub := p', ls_accepted := ls_accepted st @ [msg]\<rparr>) n n' C (W(n := W n @ [msg]))"
    using ms unfolding messages_ok_def concat_upd [OF n] by auto
  ultimately show ?thesis unfolding acc stream_ok_def by auto
qed

text \<open>The move to the next term.\<close>

lemma padding_frames:
  assumes "32 dvd k" and "32 dvd L" and "k \<le> L" and "L \<le> 2 ^ 30"
  shows "length (frames_image e (padding hw i L k)) = L - k" and "\<forall>f\<in>set (padding hw i L k). sound_frame f" and "whole (padding hw i L k) []"
proof -
  have d: "32 dvd L - k" by (rule dvd_diff_nat [OF assms(2,1)])
  then have pad: "L - k - 32 + 32 = L - k" "align_up (L - k) 32 = L - k" if "k < L"
    using that d by (auto simp: align_up_def dest: dvd_imp_le)
  show "length (frames_image e (padding hw i L k)) = L - k" using pad assms(3) by (auto simp: padding_def padding_frame_def)
  have "is_padding (padding_frame hw i x k)" for x by (simp add: is_padding_def padding_frame_def frame_hdr_def)
  then show "\<forall>f\<in>set (padding hw i L k). sound_frame f" "whole (padding hw i L k) []"
    using pad assms(3,4)
    by (auto simp: padding_def sound_frame_def whole_def reassembled_simps) (simp add: padding_frame_def readable_def frame_hdr_def)
qed

lemma next_term:
  assumes "terms_ok e p n (term_length p) n' C T W" and "n' \<le> n + 1" and "int (n * term_length p) < sint (pub_limit p)"
  shows "terms_ok e p (n + 1) 0 n' C T W" and "W (n + 1) = []"
proof -
  have "matters p n n' j" if "matters p (n + 1) n' j" for j
    using that assms(3) by (cases "j = n + 1") (auto simp: matters_def)
  moreover have "filled (term_length p) n (term_length p) j = filled (term_length p) (n + 1) 0 j" for j by (auto simp: filled_def)
  ultimately show "terms_ok e p (n + 1) 0 n' C T W" using assms(1) by (simp add: terms_ok_def)
  have "length (frames_image e (T (n + 1))) = 0" "whole (T (n + 1)) (W (n + 1))" using assms(1,2) by (simp_all add: terms_ok_def filled_def)
  then show "W (n + 1) = []" unfolding frames_image_empty by (simp add: whole_def reassembled_simps)
qed

lemma rotated_terms:
  assumes pos: "positions_ok st n k n' k'" and t: "terms_ok e (ls_pub st) n k n' C T W" and k': "k' = length (frames_image e C)"
    and A: "m_buffer (logBuffers (ls_pub st) ! (n mod 3)) = A @ replicate (term_length (ls_pub st) - k) 0" "length A = k"
      "n' \<le> n \<Longrightarrow> \<exists>A0. length A0 = (if n = n' then k' else 0) \<and> A = A0 @ frames_image e (if n = n' then drop (length C) (T n) else T n)"
    and p': "map m_buffer (logBuffers p') = (map m_buffer (logBuffers (ls_pub st)))
      [n mod 3 := A @ frames_image e (padding hw i (term_length (ls_pub st)) k)]" "same_members (ls_pub st) p'"
  shows "\<exists>T. terms_ok e p' n (term_length p') n' C T W"
proof -
  let ?L = "term_length (ls_pub st)" and ?fs = "padding hw i (term_length (ls_pub st)) k"
  note m = positions_okD(2) [OF pos] and k = positions_okD(3) [OF pos]
  have L: "term_length p' = ?L" using p'(2) by (simp add: same_members_def)
  have "(2 :: nat) ^ 5 dvd ?L" using m by (intro le_imp_power_dvd) (simp add: members_ok_def)
  then have "32 dvd ?L" by simp
  moreover have "32 dvd k" using positions_okD(1) [OF pos] by (simp add: pub_ok_def)
  ultimately have fr: "length (frames_image e ?fs) = ?L - k" "\<forall>f\<in>set ?fs. sound_frame f" "whole ?fs []"
    using padding_frames [of k ?L] k term_length_le [OF m] by blast+
  show ?thesis
  proof (cases "n' \<le> n")
    case True
    then obtain A0 where A0: "length A0 = (if n = n' then k' else 0)" "A = A0 @ frames_image e (if n = n' then drop (length C) (T n) else T n)"
      using A(3) by blast
    have "terms_ok e p' n (k + (?L - k)) n' C (T(n := T n @ ?fs)) (W(n := W n @ []))"
      using k p' by (intro appended_terms [OF pos t True k' A0 fr]) simp_all
    then show ?thesis using k L by auto
  next
    case False
    then have kL: "k = ?L" using positions_okD(8,10) [OF pos] by simp
    then have bufs: "map m_buffer (logBuffers p') = map m_buffer (logBuffers (ls_pub st))"
      using p'(1) A(1) positions_okD(4) [OF pos] list_update_id [of "map m_buffer (logBuffers (ls_pub st))" "n mod 3"] by (simp add: padding_def)
    then have "length (logBuffers p') = 3" using positions_okD(4) [OF pos] by (metis length_map)
    then have "m_buffer (logBuffers p' ! (j mod 3)) = m_buffer (logBuffers (ls_pub st) ! (j mod 3))" for j
      using arg_cong [OF bufs, of "\<lambda>xs. xs ! (j mod 3)"] positions_okD(4) [OF pos] by simp
    then have "log_holds e p' n' x C T j = log_holds e (ls_pub st) n' x C T j" for x j
      unfolding log_holds_def L by simp
    then show ?thesis using t kL L same_members_matters [OF p'(2)] by (intro exI [of _ T]) (simp add: terms_ok_def)
  qed
qed

lemma rotated_ok:
  assumes ok: "stream_ok e st n k n' C T W" and lt: "int (n * term_length (ls_pub st) + k) < sint (pub_limit (ls_pub st))"
    and app: "appends_message e (ls_pub st) n k A msg (Inr answer)" and "snd answer \<noteq> MAX_POSITION_EXCEEDED"
    and A: "m_buffer (logBuffers (ls_pub st) ! (n mod 3)) = A @ replicate (term_length (ls_pub st) - k) 0" "length A = k"
      "n' \<le> n \<Longrightarrow> \<exists>A0. length A0 = (if n = n' then length (frames_image e C) else 0) \<and>
         A = A0 @ frames_image e (if n = n' then drop (length C) (T n) else T n)"
    and fits: "\<not> k + framed_total (nat (maxPayloadLength (ls_pub st))) (length msg) \<le> term_length (ls_pub st)"
  shows "\<exists>T. stream_ok e (take_answer st msg answer) (n + 1) 0 n' C T W"
proof -
  let ?p = "ls_pub st" and ?L = "term_length (ls_pub st)"
  have pos: "positions_ok st n k n' (length (frames_image e C))" and t: "terms_ok e ?p n k n' C T W" and ms: "messages_ok e st n n' C W"
    using ok by (simp_all add: stream_ok_def)
  have "n < 2 ^ 31" using positions_okD(1) [OF pos] by (simp add: pub_ok_def tails_ok_def Let_def)
  then obtain p' where p': "answer = (p', ADMIN_ACTION)" "same_members ?p p'" "pub_ok p' (n + 1) 0"
      "map m_buffer (logBuffers p') = (map m_buffer (logBuffers ?p))
        [n mod 3 := A @ frames_image e (padding (headerWriter ?p) (initialTermId ?p + word_of_nat n) ?L k)]"
    using app fits assms(4) by (auto simp: appends_message_def Let_def split: if_splits)
  obtain T' where "terms_ok e p' n (term_length p') n' C T' W" using rotated_terms [OF pos t refl A p'(4,2)] by blast
  moreover have L: "term_length p' = ?L" "pub_limit p' = pub_limit ?p" using p'(2) by (simp_all add: same_members_def)
  moreover have nL: "int (n * ?L) < sint (pub_limit ?p)" using lt by simp
  ultimately have "terms_ok e p' (n + 1) 0 n' C T' W" "W (n + 1) = []"
    using next_term [of e p' n n' C T' W] positions_okD(8) [OF pos] by simp_all
  moreover have acc: "take_answer st msg answer = st\<lparr>ls_pub := p', ls_accepted := ls_accepted st\<rparr>"
    by (simp add: take_answer_def p'(1) ADMIN_ACTION_def word_sless_alt)
  moreover have "positions_ok (st\<lparr>ls_pub := p', ls_accepted := ls_accepted st\<rparr>) (n + 1) 0 n' (length (frames_image e C))"
    using positions_okD(8,9) [OF pos] entering [OF pos nL] by (intro positions_ok_pub [OF pos p'(3,2)]) auto
  ultimately show ?thesis
    using ms positions_okD(8) [OF pos] unfolding acc stream_ok_def by (auto simp: messages_ok_def)
qed

text \<open>Every answer of an offer keeps the invariant.\<close>

definition stream_inv :: "endian \<Rightarrow> log_state \<Rightarrow> bool" where
  "stream_inv e st \<longleftrightarrow> (\<exists>n k n' C T W. stream_ok e st n k n' C T W)"

definition answers :: "endian \<Rightarrow> publication \<Rightarrow> nat \<Rightarrow> nat \<Rightarrow> u8 list \<Rightarrow> publication \<times> s64 \<Rightarrow> bool" where
  "answers e p n k msg answer \<longleftrightarrow> fst answer = p \<and> \<not> 0 <s snd answer \<or>
     int (n * term_length p + k) < sint (pub_limit p) \<and>
     (\<forall>A. m_buffer (logBuffers p ! (n mod 3)) = A @ replicate (term_length p - k) 0 \<longrightarrow> length A = k \<longrightarrow>
        appends_message e p n k A msg (Inr answer))"

lemma answer_ok:
  assumes ok: "stream_ok e st n k n' C T W" and "snd answer \<noteq> MAX_POSITION_EXCEEDED" and "answers e (ls_pub st) n k msg answer"
  shows "stream_inv e (take_answer st msg answer)"
  using assms(3) unfolding answers_def
proof (elim disjE)
  assume "fst answer = ls_pub st \<and> \<not> 0 <s snd answer"
  then have "take_answer st msg answer = st" by (simp add: take_answer_def)
  then show ?thesis using ok unfolding stream_inv_def by metis
next
  assume app: "int (n * term_length (ls_pub st) + k) < sint (pub_limit (ls_pub st)) \<and>
      (\<forall>A. m_buffer (logBuffers (ls_pub st) ! (n mod 3)) = A @ replicate (term_length (ls_pub st) - k) 0 \<longrightarrow> length A = k \<longrightarrow>
         appends_message e (ls_pub st) n k A msg (Inr answer))"
  obtain A where A: "m_buffer (logBuffers (ls_pub st) ! (n mod 3)) = A @ replicate (term_length (ls_pub st) - k) 0" "length A = k"
      "n' \<le> n \<Longrightarrow> \<exists>A0. length A0 = (if n = n' then length (frames_image e C) else 0) \<and>
         A = A0 @ frames_image e (if n = n' then drop (length C) (T n) else T n)"
    using active_term [OF ok] by blast
  show ?thesis
    using appended_ok [OF ok _ _ A(2,3)] rotated_ok [OF ok _ _ assms(2) A] app A(1,2) unfolding stream_inv_def by blast
qed

lemma total_length_throws:
  "\<forall>b\<in>set bufs. sound b \<Longrightarrow> x < 2 ^ 31 \<Longrightarrow> 2 ^ 31 \<le> x + length (concat (map m_buffer bufs)) \<Longrightarrow>
   total_length (word_of_nat x) bufs = Inl IllegalStateException"
proof (induction bufs arbitrary: x)
  case (Cons buf rest)
  define y where "y = x + length (m_buffer buf)"
  have buf: "length (m_buffer buf) < 2 ^ 31" "word_of_nat x + m_length buf = (word_of_nat y :: s32)"
    using Cons.prems(1) by (simp_all add: sound_def y_def)
  show ?case
  proof (cases "y < 2 ^ 31")
    case True
    then have "\<not> (word_of_nat y :: s32) <s 0" using sint_of_nat(1) [of y] by (simp add: word_sless_alt)
    then show ?thesis using Cons.IH [OF _ True] Cons.prems(1,3) buf(2) by (simp add: y_def add.assoc)
  next
    case False
    then have "int y - 2 ^ 32 < 0" "- (2 ^ 31) \<le> int y - 2 ^ 32" using buf(1) Cons.prems(2) by (simp_all add: y_def)
    then have "signed_take_bit 31 (int y - 2 ^ 32) = int y - 2 ^ 32" by (intro signed_take_bit_int_eq_self) simp_all
    moreover have "(word_of_nat y :: s32) = word_of_int (int y - 2 ^ 32)" by simp
    ultimately have "sint (word_of_nat y :: s32) = int y - 2 ^ 32" by (simp only: signed_of_int) simp
    then have "sint (word_of_nat y :: s32) < 0" using \<open>int y - 2 ^ 32 < 0\<close> by (simp only:)
    then have "(word_of_nat y :: s32) <s 0" by (simp add: word_sless_alt)
    then show ?thesis using buf(2) by simp
  qed
qed simp

lemma offer_cases:
  assumes ok: "pub_ok p n k"
    and "feeds_from src from msg \<and> offer e p src from (int (length msg)) supplier = Inr answer \<or>
      (\<forall>b\<in>set bufs. sound b) \<and> msg = concat (map m_buffer bufs) \<and> offer_vectored e p bufs supplier = Inr answer"
  shows "answers e p n k msg answer"
proof (cases "pub_isClosed p \<or> sint (pub_limit p) \<le> int (n * term_length p + k)")
  case True
  have "fst answer = p \<and> \<not> 0 <s snd answer" using assms(2)
  proof
    assume "feeds_from src from msg \<and> offer e p src from (int (length msg)) supplier = Inr answer"
    then show ?thesis
      using True refusal_codes by (auto simp: offer_def on_active_term_ok [OF ok] split: if_splits)
  next
    assume "(\<forall>b\<in>set bufs. sound b) \<and> msg = concat (map m_buffer bufs) \<and> offer_vectored e p bufs supplier = Inr answer"
    then show ?thesis
      using True refusal_codes
      by (cases "total_length 0 bufs") (auto simp: offer_vectored_def on_active_term_ok [OF ok] Let_def split: if_splits)
  qed
  then show ?thesis by (simp add: answers_def)
next
  case False
  have "sendable p (length msg)"
  proof (rule ccontr)
    assume "\<not> sendable p (length msg)"
    then have no: "offer e p src from (int (length msg)) supplier = Inl IllegalArgumentException"
      using False by (simp add: offer_def on_active_term_ok [OF ok] checkMaxMessageLength_def sendable_def)
    then have bufs: "\<forall>b\<in>set bufs. sound b" "msg = concat (map m_buffer bufs)" "offer_vectored e p bufs supplier = Inr answer"
      using assms(2) by auto
    then have "total_length 0 bufs \<noteq> Inl IllegalStateException" by (auto simp: offer_vectored_def)
    then have "length msg < 2 ^ 31" using total_length_throws [OF bufs(1), of 0] bufs(2) not_less by fastforce
    then have "total_length 0 bufs = Inr (word_of_nat (length msg))" "sint (word_of_nat (length msg) :: s32) = int (length msg)"
      using total_length_ok [OF bufs(1), of 0] bufs(2) sint_of_nat(1) by simp_all
    then show False
      using bufs(3) False \<open>\<not> sendable p (length msg)\<close>
      by (simp add: offer_vectored_def on_active_term_ok [OF ok] checkMaxMessageLength_def sendable_def)
  qed
  then show ?thesis
    using False assms(2) offer_ok [OF ok, where msg = msg and e = e and src = src and ?from = "from" and supplier = supplier]
      offer_vectored_ok [OF ok, where msg = msg and e = e and bufs = bufs and supplier = supplier]
    by (auto simp: answers_def)
qed

lemma claim_cases:
  assumes ok: "pub_ok p n k" and "publish_claimed e p msg c = Inr answer"
  shows "answers e p n k msg answer"
proof -
  have len: "int (length msg) \<le> maxPayloadLength p"
    using assms(2) by (auto simp: publish_claimed_def tryClaim_def checkPayloadLength_def split: if_splits)
  show ?thesis
  proof (cases "pub_isClosed p \<or> sint (pub_limit p) \<le> int (n * term_length p + k)")
    case True
    then have "fst answer = p \<and> \<not> 0 <s snd answer"
      using assms(2) len refusal_codes
      by (auto simp: publish_claimed_def tryClaim_def checkPayloadLength_def on_active_term_ok [OF ok] split: if_splits)
    then show ?thesis by (simp add: answers_def)
  next
    case False
    then show ?thesis using publish_claimed_ok [OF ok _ _ len, of _ e c] assms(2) by (auto simp: answers_def)
  qed
qed

section \<open>Polling\<close>

lemma frames_image_dvd: "32 dvd length (frames_image e fs)"
  by (induction fs) (simp_all add: align_up_bounds(3))

text \<open>What the image finds at its position, and that the assembler can take it.\<close>

lemma subscriber_term:
  assumes ok: "stream_ok e st n k n' C T W"
  obtains A F r where "T n' = C @ F" "m_buffer (im_termBuffers (shared_image st) ! (n' mod 3)) = A @ frames_image e F @ replicate r 0"
    "length A = length (frames_image e C)" "unwritten (replicate r 0)" "\<forall>f\<in>set F. sound_frame f"
    "length (frames_image e C) + length (frames_image e F) \<le> term_length (ls_pub st)"
proof -
  have pos: "positions_ok st n k n' (length (frames_image e C))" and t: "terms_ok e (ls_pub st) n k n' C T W"
    using ok by (simp_all add: stream_ok_def)
  obtain F where F: "T n' = C @ F" using t by (auto simp: terms_ok_def)
  have "matters (ls_pub st) n n' n'"
  proof (cases "n' \<le> n")
    case False
    then have "n' = n + 1" using positions_okD(8) [OF pos] by simp
    then show ?thesis using positions_okD(10,12) [OF pos] by (simp add: matters_def)
  qed (simp add: matters_def)
  then have "log_holds e (ls_pub st) n' (length (frames_image e C)) C T n'" using t by (simp add: terms_ok_def)
  then obtain A r where A: "length A = length (frames_image e C)" "r = term_length (ls_pub st) - length (frames_image e (T n'))"
      "m_buffer (logBuffers (ls_pub st) ! (n' mod 3)) = A @ frames_image e F @ replicate r 0"
    by (auto simp: log_holds_def F)
  have "length (m_buffer (logBuffers (ls_pub st) ! (n' mod 3))) = term_length (ls_pub st)"
    using positions_okD(2) [OF pos] by (simp add: members_ok_def)
  then have le: "length (frames_image e C) + length (frames_image e F) \<le> term_length (ls_pub st)" using A by simp
  have "(2 :: nat) ^ 5 dvd term_length (ls_pub st)" using positions_okD(2) [OF pos] by (intro le_imp_power_dvd) (simp add: members_ok_def)
  then have "32 dvd r" unfolding A(2) using frames_image_dvd by (intro dvd_diff_nat) simp_all
  then have "unwritten (replicate r 0)" by (rule unwritten_zeros)
  moreover have "\<forall>f\<in>set F. sound_frame f" using t by (auto simp: terms_ok_def F)
  ultimately show ?thesis using that [OF F _ A(1) _ _ le] A(3) by (simp add: shared_image_def)
qed

lemma in_flight_collectable:
  assumes "reassembled keep_message C (s0, Map.empty) = (s, M)" and "\<forall>f\<in>set F. sound_frame f"
    and "length (frames_image e C) + length (frames_image e F) \<le> 2 ^ 30"
  shows "collectable M F"
proof -
  have "length bs \<le> length (frames_image e C)" if "M sid = Some (bs, off)" for sid bs off
    using reassembled_bound [OF _ assms(1) that, of 0] payloads_le_image [of C e] by simp
  then show ?thesis using assms(2,3) payloads_le_image [of F e] by (fastforce simp: collectable_def sound_frame_def Let_def)
qed

lemma poll_log_follows:
  assumes ok: "stream_ok e st n k n' C T W" and init: "unat initial \<le> MAX_CAPACITY"
    and d: "T n' = C @ F" "deliver_frames (\<lambda>t f. (reassemble keep_message t f, None)) (\<lambda>_ t. t) limit F (ls_delivered st, M) = (c, count, (s', M'))"
    and M: "reassembled keep_message C (s0, Map.empty) = (ls_delivered st, M)" "assembles e (ls_builders st) M"
  shows "\<exists>b' rest. poll_log e initial (int limit) st =
      Inr (st\<lparr>ls_image := (shared_image st)\<lparr>im_subscriberPosition :=
          word_of_nat (n' * term_length (ls_pub st) + length (frames_image e C) + length (frames_image e c))\<rparr>,
        ls_delivered := s', ls_builders := b'\<rparr>) \<and> F = c @ rest \<and> assembles e b' M'"
proof -
  have pos: "positions_ok st n k n' (length (frames_image e C))" using ok by (simp add: stream_ok_def)
  obtain A r where A: "m_buffer (im_termBuffers (shared_image st) ! (n' mod 3)) = A @ frames_image e F @ replicate r 0"
    "length A = length (frames_image e C)" "unwritten (replicate r 0)" "\<forall>f\<in>set F. sound_frame f"
    "length (frames_image e C) + length (frames_image e F) \<le> term_length (ls_pub st)"
    by (rule subscriber_term [OF ok]) (use d(1) in auto)
  have "length (frames_image e C) + length (frames_image e F) \<le> 2 ^ 30"
    using A(5) term_length_le [OF positions_okD(2) [OF pos]] by simp
  from in_flight_collectable [OF M(1) A(4) this]
  have "assembling e F (ls_delivered st, ls_builders st) (ls_delivered st, M)" using M(2) by (simp add: assembling_def)
  moreover have "\<forall>f\<in>set F. readable f" using A(4) by (simp add: sound_frame_def)
  moreover have "im_positionBitsToShift (shared_image st) = pub_bitsToShift (ls_pub st)"
    using positions_okD(6) [OF pos] by (simp add: shared_image_def)
  ultimately show ?thesis
    using poll_follows [OF positions_okD(5) [OF pos] assembler_follows [OF collect_takes init, where onError = "\<lambda>_ s. s"] A(1,2) _ A(3) _ d(2)]
    by (fastforce simp: poll_log_def assembling_def)
qed

lemma polled_inside:
  assumes ok: "stream_ok e st n k n' C T W" and F: "T n' = C @ c @ rest"
    and st': "st' = st\<lparr>ls_image := (shared_image st)\<lparr>im_subscriberPosition := word_of_nat (n' * term_length (ls_pub st) + length (frames_image e C) + length (frames_image e c))\<rparr>,
        ls_delivered := s', ls_builders := b'\<rparr>"
    and r: "reassembled keep_message (C @ c) (s0, Map.empty) = (s', M')" "assembles e b' M'" "ls_accepted st = s0 @ concat (map W [n'..<n + 1])"
    and lt: "length (frames_image e (C @ c)) < term_length (ls_pub st)"
  shows "stream_ok e st' n k n' (C @ c) T W"
proof -
  have pos: "positions_ok st n k n' (length (frames_image e C))" and t: "terms_ok e (ls_pub st) n k n' C T W"
    using ok by (simp_all add: stream_ok_def)
  have "image_ok (shared_image st') n' (length (frames_image e (C @ c)))"
    using positions_okD(5,6) [OF pos] lt by (simp add: image_ok_def shared_image_def st' ac_simps)
  then have "positions_ok st' n k n' (length (frames_image e (C @ c)))"
    using pos by (simp add: positions_ok_def Let_def st' shared_image_def)
  moreover have "log_holds e (ls_pub st) n' (length (frames_image e (C @ c))) (C @ c) T j" if "matters (ls_pub st) n n' j" for j
  proof -
    have "log_holds e (ls_pub st) n' (length (frames_image e C)) C T j" using t that by (simp add: terms_ok_def)
    then obtain A where A: "length A = (if j = n' then length (frames_image e C) else 0)"
        "m_buffer (logBuffers (ls_pub st) ! (j mod 3)) = A @ frames_image e (if j = n' then drop (length C) (T j) else T j) @
          replicate (term_length (ls_pub st) - length (frames_image e (T j))) 0"
      unfolding log_holds_def by blast
    show ?thesis
    proof (cases "j = n'")
      case True
      then show ?thesis using A F by (auto simp: log_holds_def intro!: exI [of _ "A @ frames_image e c"])
    qed (use A in \<open>auto simp: log_holds_def\<close>)
  qed
  then have "terms_ok e (ls_pub st) n k n' (C @ c) T W" using t F by (simp add: terms_ok_def)
  moreover have "messages_ok e st' n n' (C @ c) W" using r by (auto simp: messages_ok_def st')
  ultimately show ?thesis by (simp add: stream_ok_def st')
qed

text \<open>A term read to its end: the subscriber stands at the beginning of the next.\<close>

lemma next_term_positions:
  assumes pos: "positions_ok st n k n' k'" and n: "n' < n \<or> n' = n \<and> k = term_length (ls_pub st)" and k: "k' + a = term_length (ls_pub st)"
    and st': "st' = st\<lparr>ls_image := (shared_image st)\<lparr>im_subscriberPosition := word_of_nat (n' * term_length (ls_pub st) + k' + a)\<rparr>,
        ls_delivered := s', ls_builders := b'\<rparr>"
  shows "positions_ok st' n k (n' + 1) 0"
proof -
  let ?L = "term_length (ls_pub st)"
  have nb: "n < 2 ^ 31" using positions_okD(1) [OF pos] by (simp add: pub_ok_def tails_ok_def Let_def)
  have bits: "im_positionBitsToShift (shared_image st) = pub_bitsToShift (ls_pub st)"
    using positions_okD(6) [OF pos] by (simp add: shared_image_def)
  have "word_of_nat (n' * ?L + k' + a) = (word_of_nat ((n' + 1) * ?L + 0) :: s64)" using k by (simp only: add.assoc) simp
  then have "image_ok (shared_image st') (n' + 1) 0"
    using positions_okD(5) [OF pos] n nb bits by (auto simp: image_ok_def st' shared_image_def)
  moreover have "sint (pub_limit (ls_pub st)) \<le> int ((n' + 1) * ?L + 0 + ?L div 2)"
  proof -
    have "n' * ?L + k' + ?L div 2 \<le> (n' + 1) * ?L + 0 + ?L div 2" using positions_okD(7) [OF pos] by simp
    then show ?thesis using positions_okD(11) [OF pos] by (meson of_nat_le_iff order_trans)
  qed
  ultimately show ?thesis using pos n by (auto simp: positions_ok_def Let_def st' shared_image_def)
qed

lemma next_term_frames:
  assumes "terms_ok e p n k n' C T W"
  shows "terms_ok e p n k (n' + 1) [] T W"
proof -
  have "log_holds e p (n' + 1) 0 [] T j" if "matters p n (n' + 1) j" for j
  proof -
    have "matters p n n' j" "j \<noteq> n'" using that by (auto simp: matters_def)
    then have "log_holds e p n' (length (frames_image e C)) C T j" using assms by (simp add: terms_ok_def)
    then show ?thesis using \<open>j \<noteq> n'\<close> by (auto simp: log_holds_def)
  qed
  moreover have "\<forall>j\<ge>n' + 1. length (frames_image e (T j)) = filled (term_length p) n k j \<and> (\<forall>f\<in>set (T j). sound_frame f) \<and> whole (T j) (W j)"
    using assms unfolding terms_ok_def by (meson add_leD1)
  ultimately show ?thesis unfolding terms_ok_def by simp
qed

lemma polled_to_end:
  assumes ok: "stream_ok e st n k n' C T W" and F: "T n' = C @ c @ rest"
    and st': "st' = st\<lparr>ls_image := (shared_image st)\<lparr>im_subscriberPosition := word_of_nat (n' * term_length (ls_pub st) + length (frames_image e C) + length (frames_image e c))\<rparr>,
        ls_delivered := s', ls_builders := b'\<rparr>"
    and r: "reassembled keep_message (C @ c) (s0, Map.empty) = (s', M')" "assembles e b' M'" "ls_accepted st = s0 @ concat (map W [n'..<n + 1])"
    and L: "length (frames_image e (C @ c)) = term_length (ls_pub st)"
  shows "stream_ok e st' n k (n' + 1) [] T W" and "n' \<le> n"
proof -
  have pos: "positions_ok st n k n' (length (frames_image e C))" and t: "terms_ok e (ls_pub st) n k n' C T W"
    using ok by (simp_all add: stream_ok_def)
  let ?L = "term_length (ls_pub st)"
  have whole: "length (frames_image e (T n')) = filled ?L n k n'" "whole (T n') (W n')" using t by (simp_all add: terms_ok_def)
  have le: "filled ?L n k n' \<le> ?L" using positions_okD(3) [OF pos] by (simp add: filled_def)
  moreover have "length (frames_image e (T n')) = length (frames_image e (C @ c)) + length (frames_image e rest)" by (simp add: F)
  ultimately have "length (frames_image e rest) = 0" using whole(1) L by linarith
  then have Tn: "T n' = C @ c" using F frames_image_empty by auto
  have "0 < ?L" by simp
  then have n: "n' < n \<or> n' = n \<and> k = ?L" using whole(1) L Tn by (auto simp: filled_def split: if_splits)
  then show "n' \<le> n" by auto
  have "length (frames_image e C) + length (frames_image e c) = ?L" using L by simp
  from next_term_positions [OF pos n this st'] have pos': "positions_ok st' n k (n' + 1) 0" .
  have "messages_ok e st' n (n' + 1) [] W"
  proof -
    have "s' = s0 @ W n'" "M' = Map.empty" using whole(2) r(1) Tn by (simp_all add: whole_def)
    moreover have "[n'..<n + 1] = n' # [n' + 1..<n + 1]" using n upt_conv_Cons [of n' "n + 1"] by (auto simp del: upt_Suc)
    ultimately show ?thesis using r(2,3) by (auto simp: messages_ok_def st' reassembled_simps)
  qed
  then show "stream_ok e st' n k (n' + 1) [] T W" using pos' next_term_frames [OF t] by (simp add: stream_ok_def st')
qed

lemma polled_ok:
  assumes ok: "stream_ok e st n k n' C T W" and init: "unat initial \<le> MAX_CAPACITY"
  obtains st' c rest where "poll_log e initial (int limit) st = Inr st'" "ls_pub st' = ls_pub st" "ls_accepted st' = ls_accepted st"
    "T n' = C @ c @ rest" "length (T n') < limit \<Longrightarrow> rest = []"
    "stream_ok e st' n k n' (C @ c) T W \<or> rest = [] \<and> n' \<le> n \<and> stream_ok e st' n k (n' + 1) [] T W"
proof -
  obtain F where F: "T n' = C @ F" using ok by (auto simp: stream_ok_def terms_ok_def)
  obtain s0 M where M: "reassembled keep_message C (s0, Map.empty) = (ls_delivered st, M)" "assembles e (ls_builders st) M"
      "ls_accepted st = s0 @ concat (map W [n'..<n + 1])"
    using ok by (auto simp: stream_ok_def messages_ok_def)
  obtain c count s' M' where d: "deliver_frames (\<lambda>t f. (reassemble keep_message t f, None)) (\<lambda>_ t. t) limit F (ls_delivered st, M) = (c, count, (s', M'))"
    by (metis surj_pair)
  obtain b' rest where p: "poll_log e initial (int limit) st =
      Inr (st\<lparr>ls_image := (shared_image st)\<lparr>im_subscriberPosition :=
          word_of_nat (n' * term_length (ls_pub st) + length (frames_image e C) + length (frames_image e c))\<rparr>,
        ls_delivered := s', ls_builders := b'\<rparr>)" and rest: "F = c @ rest" and b': "assembles e b' M'"
    using poll_log_follows [OF ok init F d M(1,2)] by blast
  have r: "reassembled keep_message (C @ c) (s0, Map.empty) = (s', M')" using deliver_frames_reassembled [OF d] M(1) by simp
  have all: "rest = []" if "length (T n') < limit"
    using that deliver_frames_all [of F limit keep_message "\<lambda>_ t. t" "(ls_delivered st, M)"] d rest F by auto
  have Tn: "T n' = C @ c @ rest" using F rest by simp
  have "length (frames_image e (T n')) \<le> term_length (ls_pub st)"
    using ok by (auto simp: stream_ok_def terms_ok_def filled_def positions_ok_def pub_ok_def Let_def)
  moreover have "length (frames_image e (T n')) = length (frames_image e (C @ c)) + length (frames_image e rest)" by (simp add: Tn)
  ultimately consider "length (frames_image e (C @ c)) < term_length (ls_pub st)"
    | "length (frames_image e (C @ c)) = term_length (ls_pub st)" "length (frames_image e rest) = 0" by linarith
  then show ?thesis
  proof cases
    case 1
    from polled_inside [OF ok Tn refl r b' M(3) this] show ?thesis using that [OF p _ _ Tn all] by simp
  next
    case 2
    from polled_to_end [OF ok Tn refl r b' M(3) 2(1)] frames_image_empty [THEN iffD1, OF 2(2)]
    show ?thesis using that [OF p _ _ Tn all] by simp
  qed
qed

section \<open>The driver\<close>

lemma pub_ok_unique: "pub_ok p n k \<Longrightarrow> pub_ok p m l \<Longrightarrow> m = n \<and> l = k"
proof -
  assume "pub_ok p n k" "pub_ok p m l"
  then have ok: "n < 2 ^ 31" "m < 2 ^ 31" "word_of_nat n = (word_of_nat m :: s32)" "k < 2 ^ 32" "l < 2 ^ 32"
      "lm_term_tail_counters (logMetaData p) ! (n mod 3) = tail_of (initialTermId p + word_of_nat n) k"
      "lm_term_tail_counters (logMetaData p) ! (m mod 3) = tail_of (initialTermId p + word_of_nat m) l"
    by (simp_all add: pub_ok_def tails_ok_def Let_def)
  have "m = n" using ok(1-3) sint_of_nat(1) by (metis of_nat_eq_iff)
  then show ?thesis using ok(4-) tail_of_low by metis
qed

lemma image_ok_unique:
  assumes "image_ok im n k" and "image_ok im m l"
  shows "m = n \<and> l = k"
proof -
  have ok: "k < image_term_length im" "l < image_term_length im"
      "word_of_nat (n * image_term_length im + k) = (word_of_nat (m * image_term_length im + l) :: s64)"
    using assms by (simp_all add: image_ok_def)
  have "n * image_term_length im + k < 2 ^ 63" "m * image_term_length im + l < 2 ^ 63"
    using image_at(3) [OF assms(1)] image_at(3) [OF assms(2)] ok(1,2) by simp_all
  then have "n * image_term_length im + k = m * image_term_length im + l" using ok(3) sint_of_nat(2) by (metis of_nat_eq_iff)
  then have "(n * image_term_length im + k) div image_term_length im = (m * image_term_length im + l) div image_term_length im"
      "(n * image_term_length im + k) mod image_term_length im = (m * image_term_length im + l) mod image_term_length im" by simp_all
  then show ?thesis using ok(1,2) by simp
qed

lemma driven_ok:
  assumes ok: "stream_ok e st n k n' C T W" and d: "driver_updates (ls_pub st) n n' (length (frames_image e C)) bufs lim"
  shows "stream_ok e (st\<lparr>ls_pub := (ls_pub st)\<lparr>logBuffers := bufs, pub_limit := lim\<rparr>\<rparr>) n k n' C T W"
proof -
  let ?p = "ls_pub st" and ?L = "term_length (ls_pub st)" and ?k' = "length (frames_image e C)"
  define p' where "p' = ?p\<lparr>logBuffers := bufs, pub_limit := lim\<rparr>"
  have pos: "positions_ok st n k n' ?k'" and t: "terms_ok e ?p n k n' C T W" and ms: "messages_ok e st n n' C W"
    using ok by (simp_all add: stream_ok_def)
  note d' = d [unfolded driver_updates_def Let_def]
  have "pub_ok p' n k" using positions_okD(1) [OF pos] d' by (simp add: p'_def pub_ok_def members_ok_def tails_ok_def)
  moreover have "image_ok (shared_image (st\<lparr>ls_pub := p'\<rparr>)) n' ?k'"
    using image_ok_shared [of "logBuffers ?p" "ls_image st" n' ?k' p'] positions_okD(5,6) [OF pos] \<open>pub_ok p' n k\<close>
    by (simp add: shared_image_def pub_ok_def) (simp add: p'_def)
  ultimately have pos': "positions_ok (st\<lparr>ls_pub := p'\<rparr>) n k n' ?k'"
    using pos d' by (auto simp: positions_ok_def p'_def Let_def)
  have "log_holds e p' n' ?k' C T j" if m: "matters p' n n' j" for j
  proof (cases "j \<le> n")
    case True
    have "log_holds e ?p n' ?k' C T j" using t m True by (simp add: terms_ok_def matters_def)
    then obtain A where A: "length A = (if j = n' then ?k' else 0)" "m_buffer (logBuffers ?p ! (j mod 3)) =
        A @ frames_image e (if j = n' then drop (length C) (T j) else T j) @ replicate (?L - length (frames_image e (T j))) 0"
      unfolding log_holds_def by blast
    from A(2) have dr: "drop (length A) (m_buffer (logBuffers ?p ! (j mod 3))) =
        frames_image e (if j = n' then drop (length C) (T j) else T j) @ replicate (?L - length (frames_image e (T j))) 0"
      by (metis append_eq_conv_conj)
    have "drop (length A) (m_buffer (bufs ! (j mod 3))) = drop (length A) (m_buffer (logBuffers ?p ! (j mod 3)))"
      using d' m True A(1) by (simp add: matters_def)
    then have eq: "m_buffer (bufs ! (j mod 3)) = take (length A) (m_buffer (bufs ! (j mod 3))) @
        frames_image e (if j = n' then drop (length C) (T j) else T j) @ replicate (?L - length (frames_image e (T j))) 0"
      using append_take_drop_id [of "length A" "m_buffer (bufs ! (j mod 3))"] unfolding dr by metis
    have "length A \<le> length (m_buffer (bufs ! (j mod 3)))" using d' A(1) positions_okD(7) [OF pos] by simp
    then have "length (take (length A) (m_buffer (bufs ! (j mod 3)))) = (if j = n' then ?k' else 0)" using A(1) by simp
    moreover have "m_buffer (logBuffers p' ! (j mod 3)) = m_buffer (bufs ! (j mod 3))" "term_length p' = ?L" by (simp_all add: p'_def)
    ultimately show ?thesis using eq unfolding log_holds_def by metis
  next
    case False
    then have j: "n' \<le> j" "j \<le> n' + 2" using matters_range [OF pos'] m by simp_all
    then have "length (frames_image e (T j)) = 0" using t False by (simp add: terms_ok_def filled_def)
    then have Tj: "T j = []" by (simp only: frames_image_empty)
    then have "?k' = 0" if "j = n'" using t that by (auto simp: terms_ok_def)
    moreover have "m_buffer (bufs ! (j mod 3)) = replicate ?L 0" using d' j False by simp
    ultimately show ?thesis using Tj by (cases "j = n'") (simp_all add: log_holds_def p'_def)
  qed
  then have "terms_ok e p' n k n' C T W" using t by (simp add: terms_ok_def p'_def)
  then show ?thesis using pos' ms by (simp add: stream_ok_def messages_ok_def p'_def)
qed

section \<open>Every run\<close>

lemma log_step_inv: "log_step e initial st st' \<Longrightarrow> unat initial \<le> MAX_CAPACITY \<Longrightarrow> stream_inv e st \<Longrightarrow> stream_inv e st'"
proof (induction rule: log_step.induct)
  case (offered src "from" msg st supplier answer)
  then obtain n k n' C T W where ok: "stream_ok e st n k n' C T W" by (auto simp: stream_inv_def)
  then have "pub_ok (ls_pub st) n k" by (auto simp: stream_ok_def dest: positions_okD(1))
  from offer_cases [OF this, of src "from" msg e supplier answer] show ?case using offered(1-3) answer_ok [OF ok] by blast
next
  case (gathered bufs msg st supplier answer)
  then obtain n k n' C T W where ok: "stream_ok e st n k n' C T W" by (auto simp: stream_inv_def)
  then have "pub_ok (ls_pub st) n k" by (auto simp: stream_ok_def dest: positions_okD(1))
  from offer_cases [OF this, where bufs = bufs and msg = msg and e = e and supplier = supplier and answer = answer]
  show ?case using gathered(1-4) answer_ok [OF ok] by blast
next
  case (claimed st msg bufferClaim answer)
  then obtain n k n' C T W where ok: "stream_ok e st n k n' C T W" by (auto simp: stream_inv_def)
  then have "pub_ok (ls_pub st) n k" by (auto simp: stream_ok_def dest: positions_okD(1))
  then show ?case using claim_cases claimed(1,2) answer_ok [OF ok] by blast
next
  case (polled limit st st')
  then obtain n k n' C T W where "stream_ok e st n k n' C T W" by (auto simp: stream_inv_def)
  from polled_ok [OF this polled(2), of limit] show ?case using polled(1) unfolding stream_inv_def by (metis Inr_inject)
next
  case (driven st m l m' l' bufs lim)
  then obtain n k n' C T W where ok: "stream_ok e st n k n' C T W" by (auto simp: stream_inv_def)
  then have pos: "positions_ok st n k n' (length (frames_image e C))" by (simp add: stream_ok_def)
  have "m = n" "m' = n'" "l' = length (frames_image e C)"
    using pub_ok_unique [OF positions_okD(1) [OF pos] driven(1)] image_ok_unique [OF positions_okD(5) [OF pos] driven(2)] by simp_all
  then show ?case using driven_ok [OF ok] driven(3) unfolding stream_inv_def by blast
qed

lemma log_run_inv: "log_run e initial st st' \<Longrightarrow> unat initial \<le> MAX_CAPACITY \<Longrightarrow> stream_inv e st \<Longrightarrow> stream_inv e st'"
  by (induction rule: rtranclp_induct) (auto intro: log_step_inv)

text \<open>A delivery only adds to what was delivered.\<close>

lemma reassembled_prefix: "\<exists>ms. fst (reassembled keep_message fs t) = fst t @ ms"
proof (induction fs arbitrary: t)
  case (Cons f fs)
  obtain s M where t: "t = (s, M)" by (cases t)
  have "\<exists>ms. fst (reassemble keep_message (s, M) f) = s @ ms" by (auto split: option.split)
  then show ?case using Cons.IH [of "if is_padding f then t else reassemble keep_message t f"] t by (auto simp: reassembled_simps)
qed (simp add: reassembled_def)

lemma stream_prefix:
  assumes ok: "stream_ok e st n k n' C T W" and n: "n' \<le> n"
  shows "\<exists>ms. ls_accepted st = ls_delivered st @ ms"
proof -
  obtain F where F: "T n' = C @ F" "whole (T n') (W n')" using ok by (auto simp: stream_ok_def terms_ok_def)
  obtain s0 M where M: "reassembled keep_message C (s0, Map.empty) = (ls_delivered st, M)" "ls_accepted st = s0 @ concat (map W [n'..<n + 1])"
    using ok by (auto simp: stream_ok_def messages_ok_def)
  have "reassembled keep_message F (ls_delivered st, M) = (s0 @ W n', Map.empty)"
    using F(2) M(1) unfolding F(1) whole_def reassembled_append by metis
  then obtain ms where "s0 @ W n' = ls_delivered st @ ms" using reassembled_prefix [of F "(ls_delivered st, M)"] by auto
  moreover have "concat (map W [n'..<n + 1]) = W n' @ concat (map W [n' + 1..<n + 1])" using n by (simp add: upt_conv_Cons del: upt_Suc)
  ultimately show ?thesis using M(2) by (metis append.assoc)
qed

lemma stream_done:
  assumes ok: "stream_ok e st n k n' C T W" and "n' = n + 1 \<or> n' = n \<and> T n' = C"
  shows "ls_accepted st = ls_delivered st"
proof -
  obtain s0 M where M: "reassembled keep_message C (s0, Map.empty) = (ls_delivered st, M)" "ls_accepted st = s0 @ concat (map W [n'..<n + 1])"
    using ok by (auto simp: stream_ok_def messages_ok_def)
  have t: "\<exists>F. T n' = C @ F" "length (frames_image e (T n')) = filled (term_length (ls_pub st)) n k n'" "whole (T n') (W n')"
    using ok by (auto simp: stream_ok_def terms_ok_def)
  show ?thesis using assms(2)
  proof
    assume n: "n' = n + 1"
    then have "length (frames_image e (T n')) = 0" using t(2) by (simp add: filled_def)
    then have "T n' = []" by (simp only: frames_image_empty)
    then have "C = []" using t(1) by simp
    then show ?thesis using M n by (simp add: reassembled_simps)
  next
    assume n: "n' = n \<and> T n' = C"
    then have "reassembled keep_message C (s0, Map.empty) = (s0 @ W n, Map.empty)" using t(3) unfolding whole_def by blast
    then show ?thesis using M n by simp
  qed
qed

text \<open>Polls with a limit above the number of frames in a term reach the tail in three steps at most.\<close>

fun poll_often :: "endian \<Rightarrow> u32 \<Rightarrow> int \<Rightarrow> nat \<Rightarrow> log_state \<Rightarrow> log_state cpp" where
  "poll_often e initial limit 0 st = Inr st"
| "poll_often e initial limit (Suc i) st = andThen (poll_log e initial limit st) (poll_often e initial limit i)"

lemma frames_count: "length fs * 32 \<le> length (frames_image e fs)"
proof (induction fs)
  case (Cons f fs)
  then show ?case using align_up_bounds(1) [of 32 "length (snd f) + 32"] by simp
qed simp

lemma poll_whole:
  assumes ok: "stream_ok e st n k n' C T W" and init: "unat initial \<le> MAX_CAPACITY" and limit: "2 ^ 25 < limit"
  obtains st' n'' C' where "poll_log e initial (int limit) st = Inr st'" "ls_accepted st' = ls_accepted st" "stream_ok e st' n k n'' C' T W"
    "n'' = n' + 1 \<or> n \<le> n' \<and> n'' = n'" "n \<le> n' \<Longrightarrow> n'' = n + 1 \<or> n'' = n \<and> T n'' = C'"
proof -
  obtain st' c rest where p: "poll_log e initial (int limit) st = Inr st'" "ls_accepted st' = ls_accepted st" "T n' = C @ c @ rest"
      "length (T n') < limit \<Longrightarrow> rest = []" "stream_ok e st' n k n' (C @ c) T W \<or> rest = [] \<and> n' \<le> n \<and> stream_ok e st' n k (n' + 1) [] T W"
    and pub: "ls_pub st' = ls_pub st"
    using polled_ok [OF ok init, of limit] by blast
  have pos: "positions_ok st n k n' (length (frames_image e C))" using ok by (simp add: stream_ok_def)
  have full: "length (frames_image e (T n')) = filled (term_length (ls_pub st)) n k n'" using ok by (simp add: stream_ok_def terms_ok_def)
  then have "length (frames_image e (T n')) \<le> 2 ^ 30"
    using positions_okD(3) [OF pos] term_length_le [OF positions_okD(2) [OF pos]] by (simp add: filled_def)
  then have rest: "rest = []" using frames_count [of "T n'" e] limit by (intro p(4)) simp
  show ?thesis using p(5)
  proof
    assume ok': "stream_ok e st' n k n' (C @ c) T W"
    then have "length (frames_image e (C @ c)) < term_length (ls_pub st)"
      using positions_okD(7) [of st' n k n' "length (frames_image e (C @ c))"] pub by (simp only: stream_ok_def)
    then have "n \<le> n'" using full rest p(3) by (simp add: filled_def split: if_splits)
    moreover have "n' \<le> n + 1" by (rule positions_okD(8) [OF pos])
    ultimately have "n' = n + 1 \<or> n' = n" by linarith
    then show ?thesis using that [OF p(1,2) ok'] \<open>n \<le> n'\<close> rest p(3) by simp
  next
    assume "rest = [] \<and> n' \<le> n \<and> stream_ok e st' n k (n' + 1) [] T W"
    then show ?thesis using that [OF p(1,2), of "n' + 1" "[]"] by auto
  qed
qed

lemma poll_often_drains:
  assumes "stream_ok e st n k n' C T W" and init: "unat initial \<le> MAX_CAPACITY" and limit: "2 ^ 25 < limit" and "n \<le> n' + i"
  shows "\<exists>st'. poll_often e initial (int limit) (Suc i) st = Inr st' \<and> ls_accepted st' = ls_accepted st \<and> ls_delivered st' = ls_accepted st"
  using assms(1,4)
proof (induction i arbitrary: st n' C)
  case 0
  then have "n \<le> n'" by simp
  obtain st' n'' C' where p: "poll_log e initial (int limit) st = Inr st'" "ls_accepted st' = ls_accepted st" "stream_ok e st' n k n'' C' T W"
      "n'' = n + 1 \<or> n'' = n \<and> T n'' = C'"
    by (rule poll_whole [OF 0(1) init limit]) (use \<open>n \<le> n'\<close> in blast)
  then show ?case using stream_done [OF p(3,4)] by simp
next
  case (Suc i)
  obtain st' n'' C' where p: "poll_log e initial (int limit) st = Inr st'" "ls_accepted st' = ls_accepted st" "stream_ok e st' n k n'' C' T W"
      "n'' = n' + 1 \<or> n \<le> n' \<and> n'' = n'"
    by (rule poll_whole [OF Suc.prems(1) init limit])
  have "n \<le> n'' + i" using p(4) Suc.prems(2) by auto
  from Suc.IH [OF p(3) this] show ?case using p(1,2) by auto
qed

section \<open>Delivery\<close>

text \<open>A new log, and a run that offers it one message in two fragments.\<close>

definition example_stream :: "image \<Rightarrow> log_state" where
  "example_stream im = \<lparr>ls_pub = example_publication, ls_image = im, ls_builders = Map.empty, ls_accepted = [], ls_delivered = []\<rparr>"

lemma example_stream_fresh:
  obtains im where "Image 11 0 new_metadata (logBuffers example_publication) = Inr im" "fresh_log (example_stream im)"
proof -
  have m: "members_ok example_publication" using example_publication_ok by (simp add: pub_ok_def)
  have bits: "pub_bitsToShift example_publication = 16" by (simp add: example_publication_def)
  obtain im where im: "Image 11 (word_of_nat (0 * 2 ^ 16 + 0)) new_metadata (logBuffers example_publication) = Inr im" "image_ok im 0 0"
      "im_termBuffers im = logBuffers example_publication"
    using Image_ok [of "logBuffers example_publication" 16 0 0 11 new_metadata] m bits by (auto simp: members_ok_def)
  have "length (m_buffer (logBuffers example_publication ! 0)) = 2 ^ 16" using m bits by (simp add: members_ok_def)
  moreover have "length (m_buffer (im_termBuffers im ! 0)) = 2 ^ im_positionBitsToShift im" using im(2) by (simp add: image_ok_def)
  ultimately have "(2::nat) ^ 16 = 2 ^ im_positionBitsToShift im" by (simp only: im(3))
  then have shift: "im_positionBitsToShift im = 16" by (metis numeral_less_iff power_inject_exp one_less_numeral_iff semiring_norm(76))
  have "shared_image (example_stream im) = im" using im(3) by (simp add: shared_image_def example_stream_def flip: im(3))
  then have "fresh_log (example_stream im)"
    using im(2) shift bits example_publication_ok by (simp add: fresh_log_def example_stream_def) (simp add: example_publication_def example_term_def)
  then show ?thesis using im(1) by (intro that [of im]) simp_all
qed

lemma example_stream_runs:
  obtains im st' where "Image 11 0 new_metadata (logBuffers example_publication) = Inr im" "fresh_log (example_stream im)"
    "log_run Little 4096 (example_stream im) st'" "ls_accepted st' = [replicate 2000 42]"
proof -
  obtain im where im: "Image 11 0 new_metadata (logBuffers example_publication) = Inr im" "fresh_log (example_stream im)"
    by (rule example_stream_fresh)
  let ?msg = "replicate 2000 42 :: u8 list"
  have "appends_message Little example_publication 0 0 [] ?msg
      (offer Little example_publication example_message 0 (int (length ?msg)) DEFAULT_RESERVED_VALUE_SUPPLIER)"
    by (rule offer_ok [OF example_publication_ok _ _ _ example_content _ example_message_feeds])
      (simp_all add: example_publication_def sendable_def)
  then obtain p' where p': "offer Little example_publication example_message 0 (int (length ?msg)) DEFAULT_RESERVED_VALUE_SUPPLIER = Inr (p', 2080)"
    by (auto simp: appends_message_def example_publication_def example_framed_total Let_def)
  have "log_step Little 4096 (example_stream im) (take_answer (example_stream im) ?msg (p', 2080))"
    using log_step.offered [OF example_message_feeds, of Little "example_stream im" DEFAULT_RESERVED_VALUE_SUPPLIER "(p', 2080)"] p'
    by (simp add: example_stream_def MAX_POSITION_EXCEEDED_def)
  moreover have "ls_accepted (take_answer (example_stream im) ?msg (p', 2080)) = [?msg]"
    by (simp add: take_answer_def example_stream_def word_sless_alt)
  ultimately show ?thesis using im by (intro that) auto
qed

text \<open>
  C2. However offers, committed claims, polls and the driver's updates follow each other, starting from a new log, what the
  assembler has handed on is at all times a prefix of the messages whose offer or claim was answered with a
  position: every message arrives whole, once and in the order of acceptance, through fragments,
  padding, term changes and partial polls.
\<close>

theorem delivered_in_order:
  assumes "fresh_log st" and "unat initial \<le> MAX_CAPACITY" and "log_run e initial st st'"
  shows "prefix (ls_delivered st') (ls_accepted st')"
proof -
  have "stream_inv e st'"
    using log_run_inv [OF assms(3,2)] fresh_log_ok [OF assms(1)] unfolding stream_inv_def by blast
  then obtain n k n' C T W where ok: "stream_ok e st' n k n' C T W" by (auto simp: stream_inv_def)
  then have "n' \<le> n + 1" by (auto simp: stream_ok_def dest: positions_okD(8))
  then show ?thesis using stream_prefix [OF ok] stream_done [OF ok] by (cases "n' \<le> n") (auto simp: prefix_def)
qed

theorem delivered_in_order_witness:
  "\<exists>im st'. Image 11 0 new_metadata (logBuffers example_publication) = Inr im \<and> log_run Little 4096 (example_stream im) st' \<and>
     ls_accepted st' = [replicate 2000 42] \<and> prefix (ls_delivered st') (ls_accepted st')"
proof -
  obtain im st' where "Image 11 0 new_metadata (logBuffers example_publication) = Inr im" "fresh_log (example_stream im)"
      "log_run Little 4096 (example_stream im) st'" "ls_accepted st' = [replicate 2000 42]"
    by (rule example_stream_runs)
  with delivered_in_order [of "example_stream im" 4096 Little st'] show ?thesis by auto
qed

text \<open>
  C3. In every state a run from a new log can reach, three polls with a limit above the number of frames
  a term can hold return and have delivered every message accepted so far.
\<close>

theorem delivered_in_the_end:
  assumes "fresh_log st" and "unat initial \<le> MAX_CAPACITY" and "log_run e initial st st'" and "2 ^ 25 < limit"
  shows "\<exists>st''. poll_often e initial (int limit) 3 st' = Inr st'' \<and> ls_accepted st'' = ls_accepted st' \<and>
    ls_delivered st'' = ls_accepted st'"
proof -
  have "stream_inv e st'"
    using log_run_inv [OF assms(3,2)] fresh_log_ok [OF assms(1)] unfolding stream_inv_def by blast
  then obtain n k n' C T W where ok: "stream_ok e st' n k n' C T W" by (auto simp: stream_inv_def)
  then have "n \<le> n' + 2" by (auto simp: stream_ok_def dest: positions_okD(9))
  from poll_often_drains [OF ok assms(2,4) this] show ?thesis by (simp add: numeral_3_eq_3)
qed

theorem delivered_in_the_end_witness:
  "\<exists>im st' st''. Image 11 0 new_metadata (logBuffers example_publication) = Inr im \<and> log_run Little 4096 (example_stream im) st' \<and>
     poll_often Little 4096 40000000 3 st' = Inr st'' \<and> ls_delivered st'' = [replicate 2000 42]"
proof -
  obtain im st' where "Image 11 0 new_metadata (logBuffers example_publication) = Inr im" "fresh_log (example_stream im)"
      "log_run Little 4096 (example_stream im) st'" "ls_accepted st' = [replicate 2000 42]"
    by (rule example_stream_runs)
  with delivered_in_the_end [of "example_stream im" 4096 Little st' 40000000] show ?thesis by auto
qed

end
