(* ===== verification/RingBuffer.thy ===== *)
theory RingBuffer
  imports CppLogBuffer
begin

text \<open>
  \<open>aeron-lib/include/concurrent/ringbuffer\<close>: the records and the trailer of a ring buffer
  (\<open>RecordDescriptor.h\<close>, \<open>RingBufferDescriptor.h\<close>) and \<open>OneToOneRingBuffer.h\<close>, over which a client sends
  commands to the media driver. The operations run one at a time.
\<close>

section \<open>Records\<close>

definition RECORD_HEADER_LENGTH :: int where "RECORD_HEADER_LENGTH = 8"
definition RECORD_ALIGNMENT :: int where "RECORD_ALIGNMENT = RECORD_HEADER_LENGTH"
definition PADDING_MSG_TYPE_ID :: s32 where "PADDING_MSG_TYPE_ID = - 1"

definition encodedMsgOffset :: "int \<Rightarrow> int" where
  "encodedMsgOffset recordOffset = recordOffset + RECORD_HEADER_LENGTH"

definition makeHeader :: "s32 \<Rightarrow> s32 \<Rightarrow> s64" where
  "makeHeader len msgTypeId = push_bit 32 (scast msgTypeId AND 0xFFFFFFFF) OR ucast len"

definition recordLength :: "s64 \<Rightarrow> s32" where
  "recordLength header = ucast header"

definition messageTypeId :: "s64 \<Rightarrow> s32" where
  "messageTypeId header = ucast (signed_drop_bit 32 header)"

definition checkMsgTypeId :: "s32 \<Rightarrow> unit cpp" where
  "checkMsgTypeId msgTypeId = (if msgTypeId <s 1 then Inl IllegalArgumentException else Inr ())"

section \<open>The trailer\<close>

definition CACHE_LINE_LENGTH :: int where "CACHE_LINE_LENGTH = 64"
definition TAIL_POSITION_OFFSET :: int where "TAIL_POSITION_OFFSET = CACHE_LINE_LENGTH * 2"
definition HEAD_CACHE_POSITION_OFFSET :: int where "HEAD_CACHE_POSITION_OFFSET = CACHE_LINE_LENGTH * 4"
definition HEAD_POSITION_OFFSET :: int where "HEAD_POSITION_OFFSET = CACHE_LINE_LENGTH * 6"
definition CORRELATION_COUNTER_OFFSET :: int where "CORRELATION_COUNTER_OFFSET = CACHE_LINE_LENGTH * 8"
definition CONSUMER_HEARTBEAT_OFFSET :: int where "CONSUMER_HEARTBEAT_OFFSET = CACHE_LINE_LENGTH * 10"
definition TRAILER_LENGTH :: int where "TRAILER_LENGTH = CACHE_LINE_LENGTH * 12"

definition checkCapacity :: "int \<Rightarrow> unit cpp" where
  "checkCapacity cap = (if \<not> isPowerOfTwo cap then Inl IllegalArgumentException else Inr ())"

section \<open>The ring buffer of one producer and one consumer\<close>

record ring_buffer =
  rb_buffer :: atomic_buffer
  rb_capacity :: int
  rb_maxMsgLength :: int
  rb_headPositionIndex :: int
  rb_headCachePositionIndex :: int
  rb_tailPositionIndex :: int
  rb_correlationIdCounterIndex :: int
  rb_consumerHeartbeatIndex :: int

definition OneToOneRingBuffer :: "atomic_buffer \<Rightarrow> ring_buffer cpp" where
  "OneToOneRingBuffer buffer =
     (let cap = capacity buffer - TRAILER_LENGTH
      in andThen (checkCapacity cap) (\<lambda>_. Inr
           \<lparr>rb_buffer = buffer, rb_capacity = cap, rb_maxMsgLength = cap sdiv 8,
            rb_headPositionIndex = cap + HEAD_POSITION_OFFSET, rb_headCachePositionIndex = cap + HEAD_CACHE_POSITION_OFFSET,
            rb_tailPositionIndex = cap + TAIL_POSITION_OFFSET, rb_correlationIdCounterIndex = cap + CORRELATION_COUNTER_OFFSET,
            rb_consumerHeartbeatIndex = cap + CONSUMER_HEARTBEAT_OFFSET\<rparr>))"

definition checkMsgLength :: "ring_buffer \<Rightarrow> int \<Rightarrow> unit cpp" where
  "checkMsgLength rb len = (if rb_maxMsgLength rb < len then Inl IllegalArgumentException else Inr ())"

text \<open>A position, or a difference of positions, cast to an index.\<close>

abbreviation to_index :: "s64 \<Rightarrow> int" where
  "to_index x \<equiv> sint (ucast x :: s32)"

definition position_index :: "ring_buffer \<Rightarrow> s64 \<Rightarrow> int" where
  "position_index rb position = to_index (position AND word_of_int (rb_capacity rb - 1))"

text \<open>
  The first condition of \<open>write\<close>: room for the record according to the cached head or, if there is none,
  according to the head, which is then cached. The head it goes on with, or \<open>None\<close> for \<open>return false\<close>.
\<close>

definition find_room :: "endian \<Rightarrow> ring_buffer \<Rightarrow> int \<Rightarrow> s64 \<Rightarrow> s64 \<Rightarrow> (ring_buffer \<times> s64 option) cpp" where
  "find_room e rb requiredCapacity head tail =
     (if rb_capacity rb - to_index (tail - head) < requiredCapacity
      then andThen (getInt64Volatile e (rb_buffer rb) (rb_headPositionIndex rb)) (\<lambda>head.
           if rb_capacity rb - to_index (tail - head) < requiredCapacity then Inr (rb, None)
           else andThen (putInt64 e (rb_buffer rb) (rb_headCachePositionIndex rb) head) (\<lambda>b.
                Inr (rb\<lparr>rb_buffer := b\<rparr>, Some head)))
      else Inr (rb, Some head))"

text \<open>
  The second: a record that does not fit before the end of the buffer goes to its beginning, if there is
  room before the head. The padding, or \<open>None\<close> for \<open>return false\<close>.
\<close>

definition find_padding :: "endian \<Rightarrow> ring_buffer \<Rightarrow> int \<Rightarrow> s64 \<Rightarrow> s64 \<Rightarrow> (ring_buffer \<times> int option) cpp" where
  "find_padding e rb requiredCapacity head tail =
     (let toBufferEndLength = rb_capacity rb - position_index rb tail
      in if toBufferEndLength < requiredCapacity
         then if position_index rb head < requiredCapacity
              then andThen (getInt64Volatile e (rb_buffer rb) (rb_headPositionIndex rb)) (\<lambda>head.
                   if position_index rb head < requiredCapacity then Inr (rb, None)
                   else andThen (putInt64Ordered e (rb_buffer rb) (rb_headCachePositionIndex rb) head) (\<lambda>b.
                        Inr (rb\<lparr>rb_buffer := b\<rparr>, Some toBufferEndLength)))
              else Inr (rb, Some toBufferEndLength)
         else Inr (rb, Some 0))"

text \<open>The rest of \<open>write\<close>: padding, message, header and tail.\<close>

definition put_padding :: "endian \<Rightarrow> atomic_buffer \<Rightarrow> int \<Rightarrow> int \<Rightarrow> (atomic_buffer \<times> int) cpp" where
  "put_padding e b recordIndex padding =
     (if padding \<noteq> 0
      then andThen (putInt64Ordered e b recordIndex (makeHeader (word_of_int padding) PADDING_MSG_TYPE_ID)) (\<lambda>b. Inr (b, 0))
      else Inr (b, recordIndex))"

definition put_record ::
  "endian \<Rightarrow> ring_buffer \<Rightarrow> s32 \<Rightarrow> atomic_buffer \<Rightarrow> int \<Rightarrow> int \<Rightarrow> int \<Rightarrow> s64 \<Rightarrow> int \<Rightarrow> ring_buffer cpp" where
  "put_record e rb msgTypeId srcBuffer srcIndex len requiredCapacity tail padding =
     andThen (put_padding e (rb_buffer rb) (position_index rb tail) padding) (\<lambda>(b, recordIndex).
     andThen (putBytes b (encodedMsgOffset recordIndex) srcBuffer srcIndex len) (\<lambda>b.
     andThen (putInt64Ordered e b recordIndex (makeHeader (word_of_int (len + RECORD_HEADER_LENGTH)) msgTypeId)) (\<lambda>b.
     andThen (putInt64Ordered e b (rb_tailPositionIndex rb) (tail + word_of_int requiredCapacity + word_of_int padding)) (\<lambda>b.
       Inr (rb\<lparr>rb_buffer := b\<rparr>)))))"

definition rb_write :: "endian \<Rightarrow> ring_buffer \<Rightarrow> s32 \<Rightarrow> atomic_buffer \<Rightarrow> int \<Rightarrow> int \<Rightarrow> (ring_buffer \<times> bool) cpp" where
  "rb_write e rb msgTypeId srcBuffer srcIndex len =
     andThen (checkMsgTypeId msgTypeId) (\<lambda>_.
     andThen (checkMsgLength rb len) (\<lambda>_.
       let requiredCapacity = align (len + RECORD_HEADER_LENGTH) RECORD_ALIGNMENT
       in andThen (getInt64 e (rb_buffer rb) (rb_headCachePositionIndex rb)) (\<lambda>head.
          andThen (getInt64 e (rb_buffer rb) (rb_tailPositionIndex rb)) (\<lambda>tail.
          andThen (find_room e rb requiredCapacity head tail) (\<lambda>(rb, room). case room of None \<Rightarrow> Inr (rb, False) | Some head \<Rightarrow>
          andThen (find_padding e rb requiredCapacity head tail) (\<lambda>(rb, padding). case padding of None \<Rightarrow> Inr (rb, False) | Some padding \<Rightarrow>
          andThen (put_record e rb msgTypeId srcBuffer srcIndex len requiredCapacity tail padding) (\<lambda>rb. Inr (rb, True))))))))"

text \<open>A handler gives back the user's state, and the exception if it has thrown one.\<close>

type_synonym 's record_handler = "'s \<Rightarrow> s32 \<Rightarrow> atomic_buffer \<Rightarrow> int \<Rightarrow> int \<Rightarrow> 's \<times> cpp_error option"

lemma align_8: "align (int n) RECORD_ALIGNMENT = int (align_up n 8)"
proof -
  have "align (int n) RECORD_ALIGNMENT = (int n + 7) div 8 * 8"
    using clear_low_bits_int [of "int n + 7" 3] by (simp add: align_def RECORD_ALIGNMENT_def RECORD_HEADER_LENGTH_def mask_eq_exp_minus_1)
  also have "\<dots> = int ((n + 7) div 8 * 8)" by (simp add: zdiv_int)
  finally show ?thesis by (simp add: align_up_def)
qed

lemma align_8_pos: "0 < x \<Longrightarrow> 0 < align x RECORD_ALIGNMENT"
  using align_8 [of "nat x"] align_up_bounds(1) [of 8 "nat x"] by simp

text \<open>
  The loop of \<open>read\<close>: bytes and messages read, the user's state, and the exception that has ended it; the
  destructor of \<open>cleanup\<close> runs in every case.
\<close>

function rb_read_loop ::
  "endian \<Rightarrow> atomic_buffer \<Rightarrow> int \<Rightarrow> int \<Rightarrow> 's record_handler \<Rightarrow> int \<Rightarrow> int \<Rightarrow> int \<Rightarrow> 's \<Rightarrow> int \<times> int \<times> 's \<times> cpp_error option" where
  "rb_read_loop e b headIndex contiguousBlockLength handler messageCountLimit bytesRead messagesRead s =
     (if bytesRead < contiguousBlockLength \<and> messagesRead < messageCountLimit
      then let recordIndex = headIndex + bytesRead
           in case getInt64Volatile e b recordIndex of Inl err \<Rightarrow> (bytesRead, messagesRead, s, Some err)
              | Inr header \<Rightarrow>
                  let len = sint (recordLength header)
                  in if len \<le> 0 then (bytesRead, messagesRead, s, None)
                     else let bytesRead = bytesRead + align len RECORD_ALIGNMENT;
                              msgTypeId = messageTypeId header
                          in if msgTypeId = PADDING_MSG_TYPE_ID
                             then rb_read_loop e b headIndex contiguousBlockLength handler messageCountLimit bytesRead messagesRead s
                             else case handler s msgTypeId b (encodedMsgOffset recordIndex) (len - RECORD_HEADER_LENGTH) of
                                    (s, None) \<Rightarrow>
                                      rb_read_loop e b headIndex contiguousBlockLength handler messageCountLimit bytesRead (messagesRead + 1) s
                                  | (s, Some err) \<Rightarrow> (bytesRead, messagesRead + 1, s, Some err)
      else (bytesRead, messagesRead, s, None))"
  by pat_completeness auto
termination
  by (relation "measure (\<lambda>(_, _, _, contiguousBlockLength, _, _, bytesRead, _). nat (contiguousBlockLength - bytesRead))")
    (auto intro!: align_8_pos)

declare rb_read_loop.simps [simp del]

definition cleanup :: "endian \<Rightarrow> ring_buffer \<Rightarrow> s64 \<Rightarrow> int \<Rightarrow> int \<Rightarrow> ring_buffer cpp" where
  "cleanup e rb head headIndex bytesRead =
     (if bytesRead \<noteq> 0
      then andThen (setMemory (rb_buffer rb) headIndex (nat bytesRead) 0) (\<lambda>b.
           andThen (putInt64Ordered e b (rb_headPositionIndex rb) (head + word_of_int bytesRead)) (\<lambda>b. Inr (rb\<lparr>rb_buffer := b\<rparr>)))
      else Inr rb)"

text \<open>The answer of \<open>read\<close> is the number of messages or the exception of the handler.\<close>

definition rb_read :: "endian \<Rightarrow> ring_buffer \<Rightarrow> 's record_handler \<Rightarrow> int \<Rightarrow> 's \<Rightarrow> (ring_buffer \<times> 's \<times> int cpp) cpp" where
  "rb_read e rb handler messageCountLimit s =
     andThen (getInt64 e (rb_buffer rb) (rb_headPositionIndex rb)) (\<lambda>head.
       let headIndex = position_index rb head;
           (bytesRead, messagesRead, s, err) =
             rb_read_loop e (rb_buffer rb) headIndex (rb_capacity rb - headIndex) handler messageCountLimit 0 0 s
       in andThen (cleanup e rb head headIndex bytesRead) (\<lambda>rb.
            Inr (rb, s, case err of None \<Rightarrow> Inr messagesRead | Some err \<Rightarrow> Inl err)))"

definition rb_read_all :: "endian \<Rightarrow> ring_buffer \<Rightarrow> 's record_handler \<Rightarrow> 's \<Rightarrow> (ring_buffer \<times> 's \<times> int cpp) cpp" where
  "rb_read_all e rb handler s = rb_read e rb handler 2147483647 s"

definition rb_nextCorrelationId :: "endian \<Rightarrow> ring_buffer \<Rightarrow> (ring_buffer \<times> s64) cpp" where
  "rb_nextCorrelationId e rb =
     andThen (getAndAddInt64 e (rb_buffer rb) (rb_correlationIdCounterIndex rb) 1) (\<lambda>(b, i). Inr (rb\<lparr>rb_buffer := b\<rparr>, i))"

definition set_consumerHeartbeatTime :: "endian \<Rightarrow> ring_buffer \<Rightarrow> s64 \<Rightarrow> ring_buffer cpp" where
  "set_consumerHeartbeatTime e rb time =
     andThen (putInt64Ordered e (rb_buffer rb) (rb_consumerHeartbeatIndex rb) time) (\<lambda>b. Inr (rb\<lparr>rb_buffer := b\<rparr>))"

definition consumerHeartbeatTime :: "endian \<Rightarrow> ring_buffer \<Rightarrow> s64 cpp" where
  "consumerHeartbeatTime e rb = getInt64Volatile e (rb_buffer rb) (rb_consumerHeartbeatIndex rb)"

definition producerPosition :: "endian \<Rightarrow> ring_buffer \<Rightarrow> s64 cpp" where
  "producerPosition e rb = getInt64Volatile e (rb_buffer rb) (rb_tailPositionIndex rb)"

definition consumerPosition :: "endian \<Rightarrow> ring_buffer \<Rightarrow> s64 cpp" where
  "consumerPosition e rb = getInt64Volatile e (rb_buffer rb) (rb_headPositionIndex rb)"

text \<open>No other thread moves the head between its two reads, so the loop of \<open>size\<close> runs once.\<close>

definition rb_size :: "endian \<Rightarrow> ring_buffer \<Rightarrow> int cpp" where
  "rb_size e rb =
     andThen (getInt64Volatile e (rb_buffer rb) (rb_tailPositionIndex rb)) (\<lambda>tail.
     andThen (getInt64Volatile e (rb_buffer rb) (rb_headPositionIndex rb)) (\<lambda>headAfter.
       let size = sint (tail - headAfter)
       in Inr (if size < 0 then 0 else if rb_capacity rb < size then rb_capacity rb else size)))"

lemmas ring_layout = CACHE_LINE_LENGTH_def TAIL_POSITION_OFFSET_def HEAD_CACHE_POSITION_OFFSET_def HEAD_POSITION_OFFSET_def
  CORRELATION_COUNTER_OFFSET_def CONSUMER_HEARTBEAT_OFFSET_def TRAILER_LENGTH_def

end
