(* ===== verification/RingQueue.thy ===== *)
theory RingQueue
  imports RingBuffer "HOL-Library.Sublist"
begin

text \<open>
  The ring buffer is a queue: the layout of the records in the buffer, what a write and a read make of
  it, and every sequence of operations.
\<close>

section \<open>Headers, positions and memory\<close>

lemma makeHeader_parts [simp]: "recordLength (makeHeader l t) = l" "messageTypeId (makeHeader l t) = t"
proof -
  have m: "(0xFFFFFFFF :: s64) = mask 32" by (simp add: mask_eq_exp_minus_1)
  have "\<not> bit l (32 + n)" for n using bit_imp_le_length [of l "32 + n"] by auto
  then show "recordLength (makeHeader l t) = l" "messageTypeId (makeHeader l t) = t"
    unfolding makeHeader_def recordLength_def messageTypeId_def m by (auto intro!: bit_word_eqI simp: bit_simps)
qed

lemma zero_header [simp]: "recordLength 0 = 0"
  by (simp add: recordLength_def)

lemma to_index_of_nat: "n < 2 ^ 31 \<Longrightarrow> to_index (word_of_nat n) = int n"
proof -
  assume "n < 2 ^ 31"
  moreover have "(ucast (word_of_nat n :: s64) :: s32) = word_of_nat n" by (rule bit_word_eqI) (simp add: bit_simps)
  ultimately show ?thesis using sint_of_nat(1) [of n] by simp
qed

lemma position_mask: "c \<le> 30 \<Longrightarrow> word_of_nat x AND word_of_int (int (2 ^ c) - 1) = (word_of_nat (x mod 2 ^ c) :: s64)"
proof -
  assume "c \<le> 30"
  have "word_of_int (int (2 ^ c) - 1) = (mask c :: s64)" by (simp add: mask_eq_exp_minus_1)
  moreover have "take_bit c (word_of_nat x :: s64) = word_of_nat (take_bit c x)"
    using \<open>c \<le> 30\<close> by (intro bit_word_eqI) (simp add: bit_simps)
  ultimately show ?thesis by (simp add: take_bit_eq_mask flip: take_bit_eq_mod)
qed

text \<open>The memory of a ring of \<open>2 ^ c\<close> bytes: the bytes \<open>R\<close>, and behind them head, tail and cached head.\<close>

definition trailer_ok :: "endian \<Rightarrow> u8 list \<Rightarrow> nat \<Rightarrow> nat \<Rightarrow> nat \<Rightarrow> bool" where
  "trailer_ok e T h t hc \<longleftrightarrow> length T = 768 \<and> take 8 (drop 128 T) = host_bytes e 8 (word_of_nat t :: s64) \<and>
     take 8 (drop 256 T) = host_bytes e 8 (word_of_nat hc :: s64) \<and> take 8 (drop 384 T) = host_bytes e 8 (word_of_nat h :: s64)"

definition ring_mem :: "endian \<Rightarrow> ring_buffer \<Rightarrow> nat \<Rightarrow> u8 list \<Rightarrow> nat \<Rightarrow> nat \<Rightarrow> nat \<Rightarrow> bool" where
  "ring_mem e rb c R h t hc \<longleftrightarrow> 3 \<le> c \<and> c \<le> 30 \<and> length R = 2 ^ c \<and>
     sound (rb_buffer rb) \<and> (\<exists>T. m_buffer (rb_buffer rb) = R @ T \<and> trailer_ok e T h t hc) \<and>
     rb_capacity rb = int (2 ^ c) \<and> rb_maxMsgLength rb = int (2 ^ c div 8) \<and>
     rb_headPositionIndex rb = int (2 ^ c + 384) \<and> rb_headCachePositionIndex rb = int (2 ^ c + 256) \<and>
     rb_tailPositionIndex rb = int (2 ^ c + 128) \<and> rb_correlationIdCounterIndex rb = int (2 ^ c + 512) \<and>
     rb_consumerHeartbeatIndex rb = int (2 ^ c + 640)"

lemma patch_append:
  "patch (R @ T) (length R + k) bs = R @ patch T k bs"
  "k + length bs \<le> length R \<Longrightarrow> patch (R @ T) k bs = patch R k bs @ T"
  by (simp_all add: patch_def)

lemma ring_mem_index: "ring_mem e rb c R h t hc \<Longrightarrow> position_index rb (word_of_nat x) = int (x mod 2 ^ c)"
proof -
  assume m: "ring_mem e rb c R h t hc"
  then have "c \<le> 30" by (simp add: ring_mem_def)
  then have "(2 :: nat) ^ c \<le> 2 ^ 30" by (intro power_increasing) simp_all
  then have "x mod 2 ^ c < 2 ^ 31" using less_le_trans [of "x mod 2 ^ c" "2 ^ c" "2 ^ 30"] by simp
  moreover have "word_of_nat x AND word_of_int (rb_capacity rb - 1) = (word_of_nat (x mod 2 ^ c) :: s64)"
    using m position_mask [OF \<open>c \<le> 30\<close>, of x] by (simp only: ring_mem_def)
  ultimately show ?thesis using to_index_of_nat [of "x mod 2 ^ c"] by (simp only: position_index_def)
qed

lemma ring_mem_gets:
  assumes "ring_mem e rb c R h t hc"
  shows "getInt64 e (rb_buffer rb) (rb_tailPositionIndex rb) = Inr (word_of_nat t)"
    and "getInt64 e (rb_buffer rb) (rb_headCachePositionIndex rb) = Inr (word_of_nat hc)"
    and "getInt64 e (rb_buffer rb) (rb_headPositionIndex rb) = Inr (word_of_nat h)"
    and "getInt64Volatile e (rb_buffer rb) (rb_tailPositionIndex rb) = Inr (word_of_nat t)"
    and "getInt64Volatile e (rb_buffer rb) (rb_headPositionIndex rb) = Inr (word_of_nat h)"
proof -
  obtain T where T: "m_buffer (rb_buffer rb) = R @ T" "trailer_ok e T h t hc" and s: "sound (rb_buffer rb)" "length R = 2 ^ c"
      "rb_headPositionIndex rb = int (2 ^ c + 384)" "rb_headCachePositionIndex rb = int (2 ^ c + 256)" "rb_tailPositionIndex rb = int (2 ^ c + 128)"
    using assms unfolding ring_mem_def by blast
  have at: "get_number e 8 (rb_buffer rb) (int (2 ^ c + k)) = Inr (of_host_bytes e (take 8 (drop k T)) :: s64)" if "k + 8 \<le> 768" for k
    using that T s by (subst get_number_inside) (simp_all only: nat_int, simp_all add: trailer_ok_def)
  show "getInt64 e (rb_buffer rb) (rb_tailPositionIndex rb) = Inr (word_of_nat t)"
    "getInt64 e (rb_buffer rb) (rb_headCachePositionIndex rb) = Inr (word_of_nat hc)"
    "getInt64 e (rb_buffer rb) (rb_headPositionIndex rb) = Inr (word_of_nat h)"
    "getInt64Volatile e (rb_buffer rb) (rb_tailPositionIndex rb) = Inr (word_of_nat t)"
    "getInt64Volatile e (rb_buffer rb) (rb_headPositionIndex rb) = Inr (word_of_nat h)"
    using at [of 128] at [of 256] at [of 384] T(2)
    by (simp_all only: s getInt64_def getInt64Volatile_def trailer_ok_def) (simp_all add: of_host_bytes)
qed

lemma trailer_puts:
  assumes "trailer_ok e T h t hc"
  shows "trailer_ok e (patch T 128 (host_bytes e 8 (word_of_nat x :: s64))) h x hc"
    and "trailer_ok e (patch T 256 (host_bytes e 8 (word_of_nat x :: s64))) h t x"
    and "trailer_ok e (patch T 384 (host_bytes e 8 (word_of_nat x :: s64))) x t hc"
  using assms patch_within [of _ "host_bytes e 8 (word_of_nat x :: s64)" T]
  by (simp_all add: trailer_ok_def patch_before patch_after)

lemma ring_mem_puts:
  assumes "ring_mem e rb c R h t hc"
  shows "\<exists>b. putInt64Ordered e (rb_buffer rb) (rb_tailPositionIndex rb) (word_of_nat x) = Inr b \<and> ring_mem e (rb\<lparr>rb_buffer := b\<rparr>) c R h x hc"
    and "\<exists>b. putInt64 e (rb_buffer rb) (rb_headCachePositionIndex rb) (word_of_nat x) = Inr b \<and>
      putInt64Ordered e (rb_buffer rb) (rb_headCachePositionIndex rb) (word_of_nat x) = Inr b \<and> ring_mem e (rb\<lparr>rb_buffer := b\<rparr>) c R h t x"
    and "\<exists>b. putInt64Ordered e (rb_buffer rb) (rb_headPositionIndex rb) (word_of_nat x) = Inr b \<and> ring_mem e (rb\<lparr>rb_buffer := b\<rparr>) c R x t hc"
proof -
  obtain T where T: "m_buffer (rb_buffer rb) = R @ T" "trailer_ok e T h t hc" and s: "sound (rb_buffer rb)" "length R = 2 ^ c"
      "rb_headPositionIndex rb = int (2 ^ c + 384)" "rb_headCachePositionIndex rb = int (2 ^ c + 256)" "rb_tailPositionIndex rb = int (2 ^ c + 128)"
    using assms unfolding ring_mem_def by blast
  let ?b = "\<lambda>k. (rb_buffer rb)\<lparr>m_buffer := R @ patch T k (host_bytes e 8 (word_of_nat x :: s64))\<rparr>"
  have len: "length T = 768" using T(2) by (simp add: trailer_ok_def)
  have at: "put_number e 8 (rb_buffer rb) (int (2 ^ c + k)) (word_of_nat x :: s64) = Inr (?b k)" if "k + 8 \<le> 768" for k
    using that T(1) s len patch_append(1) [of R T k] by (subst put_number_inside) (simp_all only: nat_int, simp_all)
  have sound: "sound (?b k)" if "k + 8 \<le> 768" for k using that s(1) len by (simp add: sound_def T(1))
  have mem: "ring_mem e (rb\<lparr>rb_buffer := ?b k\<rparr>) c R h' t' hc'"
    if "k + 8 \<le> 768" "trailer_ok e (patch T k (host_bytes e 8 (word_of_nat x :: s64))) h' t' hc'" for k h' t' hc'
    using assms that sound [OF that(1)] by (simp add: ring_mem_def)
  show "\<exists>b. putInt64Ordered e (rb_buffer rb) (rb_tailPositionIndex rb) (word_of_nat x) = Inr b \<and> ring_mem e (rb\<lparr>rb_buffer := b\<rparr>) c R h x hc"
    using mem [OF _ trailer_puts(1) [OF T(2)]] at [of 128] by (simp only: s putInt64Ordered_def) simp
  show "\<exists>b. putInt64 e (rb_buffer rb) (rb_headCachePositionIndex rb) (word_of_nat x) = Inr b \<and>
      putInt64Ordered e (rb_buffer rb) (rb_headCachePositionIndex rb) (word_of_nat x) = Inr b \<and> ring_mem e (rb\<lparr>rb_buffer := b\<rparr>) c R h t x"
    using mem [OF _ trailer_puts(2) [OF T(2)]] at [of 256] by (simp only: s putInt64Ordered_def putInt64_def) simp
  show "\<exists>b. putInt64Ordered e (rb_buffer rb) (rb_headPositionIndex rb) (word_of_nat x) = Inr b \<and> ring_mem e (rb\<lparr>rb_buffer := b\<rparr>) c R x t hc"
    using mem [OF _ trailer_puts(3) [OF T(2)]] at [of 384] by (simp only: s putInt64Ordered_def) simp
qed

lemma ring_mem_patch:
  "ring_mem e rb c R h t hc \<Longrightarrow> off + length bs \<le> 2 ^ c \<Longrightarrow>
   ring_mem e (rb\<lparr>rb_buffer := (rb_buffer rb)\<lparr>m_buffer := patch (m_buffer (rb_buffer rb)) off bs\<rparr>\<rparr>) c (patch R off bs) h t hc"
  by (auto simp: ring_mem_def patch_append(2) sound_def)

section \<open>Circular contents\<close>

lemma nth_patch:
  "off + length bs \<le> length buf \<Longrightarrow> i < length buf \<Longrightarrow>
   patch buf off bs ! i = (if off \<le> i \<and> i < off + length bs then bs ! (i - off) else buf ! i)"
  by (auto simp: patch_def nth_append min_def)

lemma rotate_patch:
  assumes "length R = C" and "d + length bs \<le> C" and "(h + d) mod C + length bs \<le> C" and "0 < C"
  shows "rotate h (patch R ((h + d) mod C) bs) = patch (rotate h R) d bs"
proof (rule nth_equalityI)
  show "length (rotate h (patch R ((h + d) mod C) bs)) = length (patch (rotate h R) d bs)" using assms by simp
  fix i
  assume "i < length (rotate h (patch R ((h + d) mod C) bs))"
  then have i: "i < C" using assms by simp
  let ?k = "(h + i) mod C" and ?o = "(h + d) mod C"
  have inside: "?k = ?o + (i - d)" if "d \<le> i" "i < d + length bs"
  proof -
    have "?k = (h + d + (i - d)) mod C" using that(1) by simp
    also have "\<dots> = (?o + (i - d)) mod C" by (simp only: mod_add_left_eq)
    finally show ?thesis using that assms(3) by simp
  qed
  have "d \<le> i \<and> i < d + length bs" if "?o \<le> ?k" "?k < ?o + length bs"
  proof -
    define j where "j = ?k - ?o"
    have k: "?o + j = ?k" using that(1) by (simp add: j_def)
    have "(h + d + j) mod C = (?o + j) mod C" by (simp only: mod_add_left_eq)
    then have "(h + d + j) mod C = ?k" unfolding k by simp
    moreover have "j < length bs" using that k by linarith
    ultimately have "h + i = h + d + j" using window_mod_eq [of h "h + i" C "h + d + j"] i assms(2) by simp
    then show ?thesis using \<open>j < length bs\<close> by simp
  qed
  then have "?o \<le> ?k \<and> ?k < ?o + length bs \<longleftrightarrow> d \<le> i \<and> i < d + length bs" using inside by auto
  moreover have "?k - ?o = i - d" if "d \<le> i \<and> i < d + length bs" using inside that by simp
  moreover have "rotate h (patch R ?o bs) ! i = (if ?o \<le> ?k \<and> ?k < ?o + length bs then bs ! (?k - ?o) else R ! ?k)"
    using i assms by (simp add: nth_rotate nth_patch)
  moreover have "patch (rotate h R) d bs ! i = (if d \<le> i \<and> i < d + length bs then bs ! (i - d) else R ! ?k)"
    using i assms(1,2) by (simp add: nth_patch nth_rotate)
  ultimately show "rotate h (patch R ?o bs) ! i = patch (rotate h R) d bs ! i" by simp
qed

lemma take_rotate:
  "length R = C \<Longrightarrow> h mod C + i + n \<le> C \<Longrightarrow> take n (drop (h mod C + i) R) = take n (drop i (rotate h R))"
  by (simp add: rotate_drop_take add.commute)

lemma rotate_consumed:
  assumes "length R = C" and "0 < C" and "h mod C + n \<le> C" and "rotate h R = A @ B" and "length A = n"
  shows "rotate (h + n) (patch R (h mod C) (replicate n 0)) = B @ replicate n 0"
proof -
  have "rotate h (patch R (h mod C) (replicate n 0)) = replicate n 0 @ B"
    using rotate_patch [of R C 0 "replicate n 0" h] assms by (simp add: patch_def)
  moreover have "rotate (h + n) (patch R (h mod C) (replicate n 0)) = rotate n (rotate h (patch R (h mod C) (replicate n 0)))"
    by (simp add: rotate_rotate add.commute)
  ultimately show ?thesis using rotate_append [of "replicate n 0" B] by simp
qed

section \<open>Records in the ring\<close>

text \<open>A record is its type and payload. In the ring it takes a multiple of eight bytes, the last ones zero.\<close>

type_synonym ring_record = "s32 \<times> u8 list"

definition record_size :: "ring_record \<Rightarrow> nat" where
  "record_size r = align_up (length (snd r) + 8) 8"

definition record_image :: "endian \<Rightarrow> ring_record \<Rightarrow> u8 list" where
  "record_image e r = host_bytes e 8 (makeHeader (word_of_nat (length (snd r) + 8)) (fst r)) @ snd r @
     replicate (record_size r - (length (snd r) + 8)) 0"

definition records_image :: "endian \<Rightarrow> ring_record list \<Rightarrow> u8 list" where
  "records_image e rs = concat (map (record_image e) rs)"

text \<open>No record continues at the beginning of the buffer.\<close>

fun fits :: "nat \<Rightarrow> nat \<Rightarrow> ring_record list \<Rightarrow> bool" where
  "fits C x [] \<longleftrightarrow> True"
| "fits C x (r # rs) \<longleftrightarrow> x mod C + record_size r \<le> C \<and> fits C (x + record_size r) rs"

definition ring_ok :: "endian \<Rightarrow> ring_buffer \<Rightarrow> nat \<Rightarrow> nat \<Rightarrow> nat \<Rightarrow> nat \<Rightarrow> ring_record list \<Rightarrow> bool" where
  "ring_ok e rb c h t hc rs \<longleftrightarrow> (\<exists>R. ring_mem e rb c R h t hc \<and> hc \<le> h \<and> t \<le> hc + 2 ^ c \<and> 8 dvd h \<and>
     t = h + length (records_image e rs) \<and> rotate h R = records_image e rs @ replicate (2 ^ c - (t - h)) 0 \<and> fits (2 ^ c) h rs)"

lemma record_size_bounds: "length (snd r) + 8 \<le> record_size r" "8 dvd record_size r" "8 \<le> record_size r" "record_size r < length (snd r) + 16"
  using align_up_bounds [of 8 "length (snd r) + 8"] by (simp_all add: record_size_def)

lemma length_record_image [simp]: "length (record_image e r) = record_size r"
  using record_size_bounds(1) [of r] by (simp add: record_image_def)

lemma records_image_simps [simp]:
  "records_image e [] = []" "records_image e (r # rs) = record_image e r @ records_image e rs"
  "records_image e (rs @ ss) = records_image e rs @ records_image e ss"
  by (simp_all add: records_image_def)

lemma records_image_dvd: "8 dvd length (records_image e rs)"
  by (induction rs) (simp_all add: record_size_bounds(2))

lemma fits_append: "fits C x (rs @ ss) \<longleftrightarrow> fits C x rs \<and> fits C (x + length (records_image e rs)) ss"
  by (induction rs arbitrary: x) (auto simp: add.assoc)

lemma ring_okD:
  assumes "ring_ok e rb c h t hc rs"
  shows "hc \<le> h" "h \<le> t" "t \<le> hc + 2 ^ c" "8 dvd h" "8 dvd t" "t - h \<le> 2 ^ c" "(8 :: nat) dvd 2 ^ c" "(2 :: nat) ^ c \<le> 2 ^ 30"
    "(8 :: nat) \<le> 2 ^ c"
proof -
  have c: "3 \<le> c" "c \<le> 30" using assms by (auto simp: ring_ok_def ring_mem_def)
  show eight: "(8 :: nat) dvd 2 ^ c" using le_imp_power_dvd [OF c(1), of "2 :: nat"] by simp
  show "(2 :: nat) ^ c \<le> 2 ^ 30" using c(2) by (rule power_increasing) simp
  show "(8 :: nat) \<le> 2 ^ c" using dvd_imp_le [OF eight] by simp
  show "hc \<le> h" "h \<le> t" "t \<le> hc + 2 ^ c" "8 dvd h" "8 dvd t" "t - h \<le> 2 ^ c"
    using assms records_image_dvd [of e rs] by (auto simp: ring_ok_def)
qed

lemma ring_ok_cache:
  assumes "ring_ok e rb c h t hc rs"
  shows "\<exists>b. putInt64 e (rb_buffer rb) (rb_headCachePositionIndex rb) (word_of_nat h) = Inr b \<and>
    putInt64Ordered e (rb_buffer rb) (rb_headCachePositionIndex rb) (word_of_nat h) = Inr b \<and> ring_ok e (rb\<lparr>rb_buffer := b\<rparr>) c h t h rs"
proof -
  obtain R where R: "ring_mem e rb c R h t hc" and rest: "t \<le> h + 2 ^ c" "8 dvd h" "t = h + length (records_image e rs)"
      "rotate h R = records_image e rs @ replicate (2 ^ c - (t - h)) 0" "fits (2 ^ c) h rs"
    using assms by (auto simp: ring_ok_def)
  from ring_mem_puts(2) [OF R, of h] show ?thesis using rest unfolding ring_ok_def by blast
qed

text \<open>What a write stores behind the records.\<close>

lemma rotate_append_bytes:
  assumes "length R = C" and "0 < C" and "rotate h R = A @ replicate (C - length A) 0"
    and "length A + length bs \<le> C" and "(h + length A) mod C + length bs \<le> C"
  shows "rotate h (patch R ((h + length A) mod C) bs) = A @ bs @ replicate (C - (length A + length bs)) 0"
  using rotate_patch [OF assms(1,4,5,2)] assms(3,4) by (simp add: patch_def)

lemma stored_record:
  "record_size r \<le> z \<Longrightarrow>
   host_bytes e 8 (makeHeader (word_of_nat (length (snd r) + 8)) (fst r)) @ snd r @ replicate (z - (length (snd r) + 8)) 0 =
   record_image e r @ replicate (z - record_size r) 0"
proof -
  assume "record_size r \<le> z"
  then have "z - (length (snd r) + 8) = record_size r - (length (snd r) + 8) + (z - record_size r)"
    using record_size_bounds(1) [of r] by linarith
  then show ?thesis by (simp add: record_image_def replicate_add)
qed

section \<open>Writing\<close>

lemma free_space:
  assumes "ring_ok e rb c h t hc rs" and "x \<le> t" and "t - x \<le> 2 ^ c"
  shows "rb_capacity rb - to_index (word_of_nat t - word_of_nat x) < int n \<longleftrightarrow> x + 2 ^ c < t + n"
proof -
  have "(2 :: nat) ^ c \<le> 2 ^ 30" by (rule ring_okD(8) [OF assms(1)])
  then have "t - x < 2 ^ 31" using assms(3) by simp
  moreover have "word_of_nat t - word_of_nat x = (word_of_nat (t - x) :: s64)" using assms(2) by (simp add: of_nat_diff)
  ultimately have d: "to_index (word_of_nat t - word_of_nat x) = int (t - x)" using to_index_of_nat [of "t - x"] by (simp only:)
  have "rb_capacity rb = int (2 ^ c)" using assms(1) by (auto simp: ring_ok_def ring_mem_def)
  then have "rb_capacity rb - to_index (word_of_nat t - word_of_nat x) < int n \<longleftrightarrow> int (x + 2 ^ c) < int (t + n)"
    unfolding d using assms(2) by (simp add: of_nat_diff) linarith
  then show ?thesis by (simp only: of_nat_less_iff)
qed

lemma find_room_ok:
  assumes ok: "ring_ok e rb c h t hc rs"
  shows "\<exists>rb' room hc'. find_room e rb (int n) (word_of_nat hc) (word_of_nat t) = Inr (rb', room) \<and> ring_ok e rb' c h t hc' rs \<and>
    (case room of None \<Rightarrow> h + 2 ^ c < t + n | Some x \<Rightarrow> x = word_of_nat hc' \<and> t + n \<le> hc' + 2 ^ c)"
proof -
  note d = ring_okD [OF ok]
  have hc: "hc \<le> t" "t - hc \<le> 2 ^ c" using d(1-3) by simp_all
  have get: "getInt64Volatile e (rb_buffer rb) (rb_headPositionIndex rb) = Inr (word_of_nat h)"
    using ok ring_mem_gets(5) by (auto simp: ring_ok_def)
  obtain b where b: "putInt64 e (rb_buffer rb) (rb_headCachePositionIndex rb) (word_of_nat h) = Inr b" "ring_ok e (rb\<lparr>rb_buffer := b\<rparr>) c h t h rs"
    using ring_ok_cache [OF ok] by blast
  consider "t + n \<le> hc + 2 ^ c" | "hc + 2 ^ c < t + n" "h + 2 ^ c < t + n" | "hc + 2 ^ c < t + n" "t + n \<le> h + 2 ^ c" by linarith
  then show ?thesis
    by cases (use ok b get free_space [OF ok hc, of n] free_space [OF ok d(2,6), of n] in \<open>auto simp: find_room_def not_less\<close>)
qed

lemma same_lap:
  fixes C :: nat
  assumes "hc \<le> x" and "x \<le> t" and "t + n \<le> hc + C" and "C < t mod C + n" and "0 < C"
  shows "x mod C + (t - x) = t mod C"
proof -
  have "t - x < t mod C" using assms by linarith
  then have "x = t div C * C + (t mod C - (t - x))" using assms(2) div_mult_mod_eq [of t C] by linarith
  moreover have "t mod C - (t - x) < C" using mod_less_divisor [OF assms(5), of t] by linarith
  ultimately have "x mod C = t mod C - (t - x)" by (metis mod_less mod_mult_self3)
  then show ?thesis using \<open>t - x < t mod C\<close> by simp
qed

text \<open>The padding before a record of \<open>n\<close> bytes.\<close>

definition padding_before :: "nat \<Rightarrow> nat \<Rightarrow> nat \<Rightarrow> nat" where
  "padding_before C t n = (if C < t mod C + n then C - t mod C else 0)"

lemma find_padding_ok:
  assumes ok: "ring_ok e rb c h t hc rs" and n: "t + n \<le> hc + 2 ^ c"
  shows "\<exists>rb' padding hc'. find_padding e rb (int n) (word_of_nat hc) (word_of_nat t) = Inr (rb', padding) \<and> ring_ok e rb' c h t hc' rs \<and>
    (case padding of None \<Rightarrow> h + 2 ^ c < t + padding_before (2 ^ c) t n + n
     | Some p \<Rightarrow> p = int (padding_before (2 ^ c) t n) \<and> t + padding_before (2 ^ c) t n + n \<le> hc' + 2 ^ c)"
proof -
  note d = ring_okD [OF ok]
  obtain R where m: "ring_mem e rb c R h t hc" using ok by (auto simp: ring_ok_def)
  have get: "getInt64Volatile e (rb_buffer rb) (rb_headPositionIndex rb) = Inr (word_of_nat h)" by (rule ring_mem_gets(5) [OF m])
  obtain b where b: "putInt64Ordered e (rb_buffer rb) (rb_headCachePositionIndex rb) (word_of_nat h) = Inr b" "ring_ok e (rb\<lparr>rb_buffer := b\<rparr>) c h t h rs"
    using ring_ok_cache [OF ok] by blast
  have cap: "rb_capacity rb = int (2 ^ c)" using m by (simp add: ring_mem_def)
  have "t mod 2 ^ c \<le> 2 ^ c" by (simp add: less_imp_le)
  then have toEnd: "rb_capacity rb - position_index rb (word_of_nat t) = int (2 ^ c - t mod 2 ^ c)"
    unfolding cap ring_mem_index [OF m] by (simp only: of_nat_diff)
  show ?thesis
  proof (cases "2 ^ c < t mod 2 ^ c + n")
    case False
    then have "\<not> int (2 ^ c - t mod 2 ^ c) < int n" by linarith
    then show ?thesis using False ok n by (auto simp: find_padding_def toEnd padding_before_def Let_def)
  next
    case True
    then have "2 ^ c - t mod 2 ^ c < n" using \<open>t mod 2 ^ c \<le> 2 ^ c\<close> by linarith
    then have less: "int (2 ^ c - t mod 2 ^ c) < int n" by (simp only: of_nat_less_iff)
    have lap: "n \<le> x mod 2 ^ c \<longleftrightarrow> t + (2 ^ c - t mod 2 ^ c) + n \<le> x + 2 ^ c" if "hc \<le> x" "x \<le> t" for x
      using same_lap [OF that n True zero_less_power] that(2) \<open>t mod 2 ^ c \<le> 2 ^ c\<close> by linarith
    have pad: "padding_before (2 ^ c) t n = 2 ^ c - t mod 2 ^ c" using True by (simp add: padding_before_def)
    have idx: "position_index rb (word_of_nat x) < int n \<longleftrightarrow> x mod 2 ^ c < n" for x unfolding ring_mem_index [OF m] by simp
    consider "n \<le> hc mod 2 ^ c" | "hc mod 2 ^ c < n" "h mod 2 ^ c < n" | "hc mod 2 ^ c < n" "n \<le> h mod 2 ^ c" by linarith
    then show ?thesis
      by cases (use less lap [of hc] lap [of h] d(1,2) ok b get in \<open>auto simp: find_padding_def toEnd pad idx Let_def not_less\<close>)
  qed
qed

text \<open>The padding record; with it, the next record goes to the beginning of the buffer.\<close>

definition padding_records :: "nat \<Rightarrow> ring_record list" where
  "padding_records p = (if p = 0 then [] else [(PADDING_MSG_TYPE_ID, replicate (p - 8) 0)])"

lemma padding_size: "8 dvd p \<Longrightarrow> p \<noteq> 0 \<Longrightarrow> record_size (PADDING_MSG_TYPE_ID, replicate (p - 8) 0) = p \<and> p - 8 + 8 = p"
  using dvd_imp_le [of 8 p] align_up_self [of 8 p] by (simp add: record_size_def)

lemma length_padding_records: "8 dvd p \<Longrightarrow> length (records_image e (padding_records p)) = p"
  by (simp add: padding_records_def padding_size)

definition ring_holds :: "endian \<Rightarrow> nat \<Rightarrow> nat \<Rightarrow> u8 list \<Rightarrow> ring_record list \<Rightarrow> bool" where
  "ring_holds e C h R rs \<longleftrightarrow> rotate h R = records_image e rs @ replicate (C - length (records_image e rs)) 0"

text \<open>The header and payload of a record stored at the end of the records.\<close>

lemma ring_holds_stored:
  assumes "length R = C" and "0 < C" and "ring_holds e C h R rs" and "t = h + length (records_image e rs)"
    and "length (records_image e rs) + record_size r \<le> C" and "t mod C + record_size r \<le> C"
    and "bs = host_bytes e 8 (makeHeader (word_of_nat (length (snd r) + 8)) (fst r)) @ p" and "snd r = p @ replicate m 0"
  shows "ring_holds e C h (patch R (t mod C) bs) (rs @ [r])"
proof -
  let ?d = "length (records_image e rs)"
  have bs: "length bs + m = length (snd r) + 8" "length bs \<le> record_size r" using assms(7,8) record_size_bounds(1) [of r] by simp_all
  have "rotate h (patch R (t mod C) bs) = records_image e rs @ bs @ replicate (C - (?d + length bs)) 0"
    unfolding assms(4) by (rule rotate_append_bytes) (use assms bs(2) in \<open>simp_all add: ring_holds_def\<close>)
  moreover have "C - (?d + length bs) = m + (C - ?d - (length (snd r) + 8))"
    using bs assms(5) record_size_bounds(1) [of r] by linarith
  moreover have "bs @ replicate (m + z) 0 = host_bytes e 8 (makeHeader (word_of_nat (length (snd r) + 8)) (fst r)) @ snd r @ replicate z 0" for z
    using assms(7,8) by (simp add: replicate_add)
  ultimately show ?thesis
    using stored_record [of r "C - ?d" e] assms(5) by (simp add: ring_holds_def)
qed

lemma put_padding_ok:
  assumes m: "ring_mem e rb c R h t hc" and held: "ring_holds e (2 ^ c) h R rs" "t = h + length (records_image e rs)" "8 dvd t"
    and p: "p = padding_before (2 ^ c) t n" "t + p \<le> h + 2 ^ c"
  shows "\<exists>b R'. put_padding e (rb_buffer rb) (int (t mod 2 ^ c)) (int p) = Inr (b, int ((t + p) mod 2 ^ c)) \<and>
    ring_mem e (rb\<lparr>rb_buffer := b\<rparr>) c R' h t hc \<and> ring_holds e (2 ^ c) h R' (rs @ padding_records p) \<and> 8 dvd p \<and>
    (p \<noteq> 0 \<longrightarrow> t mod 2 ^ c + p = 2 ^ c)"
proof (cases "p = 0")
  case True
  have "rb\<lparr>rb_buffer := rb_buffer rb\<rparr> = rb" by simp
  then show ?thesis using True m held(1) by (auto simp: put_padding_def padding_records_def)
next
  case False
  let ?r = "(PADDING_MSG_TYPE_ID, replicate (p - 8) 0) :: ring_record"
  let ?bs = "host_bytes e 8 (makeHeader (word_of_nat (length (snd ?r) + 8)) (fst ?r)) @ []"
  have c: "3 \<le> c" "length R = 2 ^ c" "sound (rb_buffer rb)" using m by (simp_all add: ring_mem_def)
  have C: "(8 :: nat) dvd 2 ^ c" using le_imp_power_dvd [OF c(1), of "2 :: nat"] by simp
  have lt: "t mod 2 ^ c < 2 ^ c" by simp
  have peq: "t mod 2 ^ c + p = 2 ^ c" using False p(1) lt by (simp add: padding_before_def split: if_splits)
  have "8 dvd t mod 2 ^ c" using held(3) C by (simp add: dvd_mod)
  then have eight: "8 dvd p" using peq C by (metis dvd_add_right_iff)
  note size = padding_size [OF eight False]
  have hold: "ring_holds e (2 ^ c) h (patch R (t mod 2 ^ c) ?bs) (rs @ [?r])"
    by (rule ring_holds_stored [OF c(2) _ held(1,2) _ _ refl, where m = "p - 8"]) (use size peq p(2) held(2) in simp_all)
  have "8 \<le> p" using dvd_imp_le [OF eight] False by simp
  then have room: "t mod 2 ^ c + length ?bs \<le> 2 ^ c" using peq by simp
  have "length (m_buffer (rb_buffer rb)) = 2 ^ c + 768" using m by (auto simp: ring_mem_def trailer_ok_def)
  moreover have "int p = int (length (snd ?r) + 8)" using size by simp
  then have "(word_of_int (int p) :: s32) = word_of_nat (length (snd ?r) + 8)" by (simp only: of_int_of_nat_eq)
  ultimately have "put_padding e (rb_buffer rb) (int (t mod 2 ^ c)) (int p) =
      Inr ((rb_buffer rb)\<lparr>m_buffer := patch (m_buffer (rb_buffer rb)) (t mod 2 ^ c) ?bs\<rparr>, 0)"
    using room c(3) False unfolding put_padding_def putInt64Ordered_def
    by (simp only: if_True of_nat_eq_0_iff not_False_eq_True) (simp add: put_number_inside)
  moreover have "(t + p) mod 2 ^ c = 0" using peq by (metis mod_add_left_eq mod_self)
  ultimately show ?thesis
    using ring_mem_patch [OF m room] hold False eight peq by (auto simp: padding_records_def)
qed

lemma patch_in_front: "x + length hdr + length p \<le> length buf \<Longrightarrow> patch (patch buf (x + length hdr) p) x hdr = patch buf x (hdr @ p)"
  by (simp add: patch_def add.assoc)

lemma put_message_ok:
  assumes m: "ring_mem e rb c R h t hc" and src: "feeds_from src from msg" and x: "x + 8 + length msg \<le> 2 ^ c"
    and bs: "bs = host_bytes e 8 (makeHeader (word_of_nat (length msg + 8)) ty) @ msg"
  shows "andThen (putBytes (rb_buffer rb) (encodedMsgOffset (int x)) src from (int (length msg))) (\<lambda>b.
      putInt64Ordered e b (int x) (makeHeader (word_of_int (int (length msg) + RECORD_HEADER_LENGTH)) ty)) =
    Inr ((rb_buffer rb)\<lparr>m_buffer := patch (m_buffer (rb_buffer rb)) x bs\<rparr>)"
proof -
  let ?b = "rb_buffer rb" and ?h = "host_bytes e 8 (makeHeader (word_of_nat (length msg + 8)) ty)"
  have b: "sound ?b" "length (m_buffer ?b) = 2 ^ c + 768" using m by (auto simp: ring_mem_def trailer_ok_def)
  have "encodedMsgOffset (int x) = int (x + 8)" by (simp add: encodedMsgOffset_def RECORD_HEADER_LENGTH_def)
  then have "putBytes ?b (encodedMsgOffset (int x)) src from (int (length msg)) = Inr (?b\<lparr>m_buffer := patch (m_buffer ?b) (x + 8) msg\<rparr>)"
    using src x b by (simp only:, subst putBytes_inside) (simp_all add: feeds_from_def)
  moreover have "sound (?b\<lparr>m_buffer := patch (m_buffer ?b) (x + 8) msg\<rparr>)" using b x by (intro sound_patch) simp_all
  moreover have "(word_of_int (int (length msg) + RECORD_HEADER_LENGTH) :: s32) = word_of_nat (length msg + 8)"
    by (simp add: RECORD_HEADER_LENGTH_def)
  ultimately show ?thesis
    using x b patch_in_front [of x ?h msg "m_buffer ?b"] by (simp add: putInt64Ordered_def put_number_inside bs)
qed

lemma put_record_ok:
  assumes m: "ring_mem e rb c R h t hc" and hc: "hc \<le> h" and held: "ring_holds e (2 ^ c) h R rs" "t = h + length (records_image e rs)" "8 dvd h"
    and fit: "fits (2 ^ c) h rs" and src: "feeds_from src from msg"
    and n: "n = record_size (ty, msg)" and p: "p = padding_before (2 ^ c) t n" "t + p + n \<le> hc + 2 ^ c"
  shows "\<exists>rb'. put_record e rb ty src from (int (length msg)) (int n) (word_of_nat t) (int p) = Inr rb' \<and>
    ring_ok e rb' c h (t + p + n) hc (rs @ padding_records p @ [(ty, msg)])"
proof -
  let ?rs = "rs @ padding_records p" and ?x = "(t + p) mod 2 ^ c"
  have t: "8 dvd t" using held(2,3) records_image_dvd [of e rs] by simp
  obtain b R' where b: "put_padding e (rb_buffer rb) (int (t mod 2 ^ c)) (int p) = Inr (b, int ?x)"
      "ring_mem e (rb\<lparr>rb_buffer := b\<rparr>) c R' h t hc" "ring_holds e (2 ^ c) h R' ?rs" "8 dvd p" "p \<noteq> 0 \<longrightarrow> t mod 2 ^ c + p = 2 ^ c"
    using put_padding_ok [OF m held(1,2) t p(1)] p(2) hc by fastforce
  have len: "t + p = h + length (records_image e ?rs)" using held(2) length_padding_records [OF b(4)] by simp
  have nC: "n \<le> 2 ^ c" using p(2) hc len by linarith
  have x: "?x + n \<le> 2 ^ c"
  proof (cases "p = 0")
    case True
    have lt: "t mod 2 ^ c < 2 ^ c" by simp
    have "\<not> 2 ^ c < t mod 2 ^ c + n"
    proof
      assume "2 ^ c < t mod 2 ^ c + n"
      then have "p = 2 ^ c - t mod 2 ^ c" using p(1) by (simp only: padding_before_def if_True)
      then show False using True lt by linarith
    qed
    then show ?thesis using True by simp
  next
    case False
    then have "?x = 0" using b(5) by (metis mod_add_left_eq mod_self)
    then show ?thesis using nC by simp
  qed
  define bs where "bs = host_bytes e 8 (makeHeader (word_of_nat (length msg + 8)) ty) @ msg"
  have lbs: "length bs \<le> n" using record_size_bounds(1) [of "(ty, msg)"] by (simp add: bs_def n)
  have stored: "ring_holds e (2 ^ c) h (patch R' ?x bs) (?rs @ [(ty, msg)])"
    by (rule ring_holds_stored [OF _ _ b(3) len, where m = 0])
      (use b(2) x len p(2) hc in \<open>simp_all add: ring_mem_def bs_def n\<close>)
  define rb1 where "rb1 = rb\<lparr>rb_buffer := b\<lparr>m_buffer := patch (m_buffer b) ?x bs\<rparr>\<rparr>"
  have "ring_mem e rb1 c (patch R' ?x bs) h t hc"
    using ring_mem_patch [OF b(2), of ?x bs] x lbs by (simp add: rb1_def)
  from ring_mem_puts(1) [OF this, of "t + p + n"] obtain b2 where
    b2: "putInt64Ordered e (rb_buffer rb1) (rb_tailPositionIndex rb1) (word_of_nat (t + p + n)) = Inr b2"
      "ring_mem e (rb1\<lparr>rb_buffer := b2\<rparr>) c (patch R' ?x bs) h (t + p + n) hc" by blast
  have put: "andThen (putBytes b (encodedMsgOffset (int ?x)) src from (int (length msg))) (\<lambda>b.
      putInt64Ordered e b (int ?x) (makeHeader (word_of_int (int (length msg) + RECORD_HEADER_LENGTH)) ty)) = Inr (rb_buffer rb1)"
    using put_message_ok [OF b(2) src _ bs_def, of ?x] x record_size_bounds(1) [of "(ty, msg)"] by (simp add: rb1_def n)
  have "word_of_nat t + word_of_int (int n) + word_of_int (int p) = (word_of_nat (t + p + n) :: s64)" by simp
  moreover have "rb_tailPositionIndex rb1 = rb_tailPositionIndex rb" "rb1\<lparr>rb_buffer := b2\<rparr> = rb\<lparr>rb_buffer := b2\<rparr>" by (simp_all add: rb1_def)
  ultimately have "put_record e rb ty src from (int (length msg)) (int n) (word_of_nat t) (int p) = Inr (rb1\<lparr>rb_buffer := b2\<rparr>)"
    using b(1) b2(1) put by (auto simp: put_record_def ring_mem_index [OF m] andThen_eq_Inr ac_simps)
  moreover have "length (records_image e (?rs @ [(ty, msg)])) = t + p + n - h" "h \<le> t" using len held(2) by (simp_all add: n)
  moreover have "fits (2 ^ c) h (?rs @ [(ty, msg)])"
    using fit b(4,5) x held(2) len by (simp add: fits_append [of _ _ _ _ e] length_padding_records) (auto simp: padding_records_def padding_size n)
  ultimately show ?thesis
    using b2(2) stored hc p(2) held(3) unfolding ring_ok_def ring_holds_def by (intro exI [of _ "rb1\<lparr>rb_buffer := b2\<rparr>"]) auto
qed

lemma rb_write_ok:
  assumes ok: "ring_ok e rb c h t hc rs" and src: "feeds_from src from msg" and ty: "\<not> ty <s 1" and len: "length msg \<le> 2 ^ c div 8"
    and n: "n = record_size (ty, msg)" and p: "p = padding_before (2 ^ c) t n"
  shows "\<exists>rb' hc'. if t + p + n \<le> h + 2 ^ c
    then rb_write e rb ty src from (int (length msg)) = Inr (rb', True) \<and> ring_ok e rb' c h (t + p + n) hc' (rs @ padding_records p @ [(ty, msg)])
    else rb_write e rb ty src from (int (length msg)) = Inr (rb', False) \<and> ring_ok e rb' c h t hc' rs"
proof -
  obtain R where m: "ring_mem e rb c R h t hc" using ok by (auto simp: ring_ok_def)
  have "rb_maxMsgLength rb = int (2 ^ c div 8)" using m by (simp only: ring_mem_def)
  then have pass: "checkMsgTypeId ty = Inr ()" "checkMsgLength rb (int (length msg)) = Inr ()"
    using ty len by (simp_all only: checkMsgTypeId_def checkMsgLength_def of_nat_less_iff if_False not_less [symmetric])
  have req: "align (int (length msg) + RECORD_HEADER_LENGTH) RECORD_ALIGNMENT = int n"
    using align_8 [of "length msg + 8"] by (simp add: n record_size_def RECORD_HEADER_LENGTH_def)
  note w = rb_write_def [of e rb ty src "from" "int (length msg)"] pass req ring_mem_gets(1,2) [OF m]
  obtain rb1 room hc1 where r1: "find_room e rb (int n) (word_of_nat hc) (word_of_nat t) = Inr (rb1, room)" "ring_ok e rb1 c h t hc1 rs"
      "case room of None \<Rightarrow> h + 2 ^ c < t + n | Some x \<Rightarrow> x = word_of_nat hc1 \<and> t + n \<le> hc1 + 2 ^ c"
    using find_room_ok [OF ok] by blast
  show ?thesis
  proof (cases room)
    case None
    then show ?thesis using r1 by (auto simp: w Let_def)
  next
    case (Some x)
    then obtain rb2 padding hc2 where r2: "find_padding e rb1 (int n) x (word_of_nat t) = Inr (rb2, padding)" "ring_ok e rb2 c h t hc2 rs"
        "case padding of None \<Rightarrow> h + 2 ^ c < t + p + n | Some q \<Rightarrow> q = int p \<and> t + p + n \<le> hc2 + 2 ^ c"
      using find_padding_ok [OF r1(2), of n] r1(3) p by auto
    show ?thesis
    proof (cases padding)
      case None
      then show ?thesis using r1 r2 Some by (auto simp: w Let_def)
    next
      case (Some q)
      obtain R2 where R2: "ring_mem e rb2 c R2 h t hc2" "hc2 \<le> h" "ring_holds e (2 ^ c) h R2 rs" "t = h + length (records_image e rs)" "8 dvd h" "fits (2 ^ c) h rs"
        using r2(2) by (auto simp: ring_ok_def ring_holds_def)
      have q: "q = int p" "t + p + n \<le> hc2 + 2 ^ c" using r2(3) Some by simp_all
      obtain rb3 where "put_record e rb2 ty src from (int (length msg)) (int n) (word_of_nat t) (int p) = Inr rb3"
          "ring_ok e rb3 c h (t + p + n) hc2 (rs @ padding_records p @ [(ty, msg)])"
        using put_record_ok [OF R2 src n p q(2)] by blast
      then show ?thesis using r1(1) r2(1) q R2(2) Some \<open>room = Some x\<close> by (auto simp: w Let_def)
    qed
  qed
qed

section \<open>Reading\<close>

abbreviation is_pad :: "ring_record \<Rightarrow> bool" where
  "is_pad r \<equiv> fst r = PADDING_MSG_TYPE_ID"

text \<open>
  What a read does with the records: it takes records until the room up to the end of the buffer or the
  limit is used up, hands over those that are not padding, and stops at the first exception.
\<close>

fun take_records :: "('s \<Rightarrow> ring_record \<Rightarrow> 's \<times> cpp_error option) \<Rightarrow> nat \<Rightarrow> nat \<Rightarrow> ring_record list \<Rightarrow> 's
    \<Rightarrow> ring_record list \<times> nat \<times> 's \<times> cpp_error option" where
  "take_records g limit room [] s = ([], 0, s, None)"
| "take_records g limit room (r # rs) s =
     (if room = 0 \<or> limit = 0 then ([], 0, s, None)
      else if is_pad r then let (c, n, s, err) = take_records g limit (room - record_size r) rs s in (r # c, n, s, err)
      else case g s r of
             (s, None) \<Rightarrow> let (c, n, s, err) = take_records g (limit - 1) (room - record_size r) rs s in (r # c, n + 1, s, err)
           | (s, Some err) \<Rightarrow> ([r], 1, s, Some err))"

text \<open>The handler sees a record by its type and its bytes.\<close>

definition sees_record :: "'s record_handler \<Rightarrow> ('s \<Rightarrow> ring_record \<Rightarrow> 's \<times> cpp_error option) \<Rightarrow> bool" where
  "sees_record handler g \<longleftrightarrow> (\<forall>s ty b x p. x + length p \<le> length (m_buffer b) \<longrightarrow> take (length p) (drop x (m_buffer b)) = p \<longrightarrow>
     handler s ty b (int x) (int (length p)) = g s (ty, p))"

lemma record_at:
  assumes "drop i (rotate h R) = record_image e r @ rest" and "length R = C" and "h mod C + i + record_size r \<le> C"
  shows "take 8 (drop (h mod C + i) R) = host_bytes e 8 (makeHeader (word_of_nat (length (snd r) + 8)) (fst r))"
    and "take (length (snd r)) (drop (h mod C + i + 8) R) = snd r"
proof -
  note size = record_size_bounds(1,3) [of r]
  have "take 8 (drop (h mod C + i) R) = take 8 (drop i (rotate h R))" using assms(2,3) size by (intro take_rotate) simp_all
  then show "take 8 (drop (h mod C + i) R) = host_bytes e 8 (makeHeader (word_of_nat (length (snd r) + 8)) (fst r))"
    unfolding assms(1) by (simp add: record_image_def)
  have "take (length (snd r)) (drop (h mod C + (i + 8)) R) = take (length (snd r)) (drop (i + 8) (rotate h R))"
    using assms(2,3) size by (intro take_rotate) simp_all
  moreover have "drop (i + 8) (rotate h R) = drop 8 (drop i (rotate h R))" by (simp add: add.commute)
  ultimately show "take (length (snd r)) (drop (h mod C + i + 8) R) = snd r"
    unfolding assms(1) by (simp add: record_image_def add.assoc)
qed

text \<open>A header in the memory.\<close>

lemma ring_header_at:
  assumes m: "ring_mem e rb c R h t hc" and "x + 8 \<le> 2 ^ c"
  shows "getInt64Volatile e (rb_buffer rb) (int x) = Inr (of_host_bytes e (take 8 (drop x R)))"
proof -
  obtain T where T: "m_buffer (rb_buffer rb) = R @ T" "length R = 2 ^ c" "sound (rb_buffer rb)" using m by (auto simp: ring_mem_def)
  then have "take 8 (drop x (m_buffer (rb_buffer rb))) = take 8 (drop x R)" using assms(2) by simp
  then show ?thesis using assms(2) T by (simp add: getInt64Volatile_def get_number_inside)
qed

lemma ring_loop_step:
  assumes m: "ring_mem e rb c R h t hc" and g: "sees_record handler g" and lim: "j < limit"
    and i: "drop i (rotate h R) = record_image e r @ rest" "h mod 2 ^ c + i + record_size r \<le> 2 ^ c" "(2 :: nat) ^ c \<le> 2 ^ 30"
  shows "rb_read_loop e (rb_buffer rb) (int (h mod 2 ^ c)) (int (2 ^ c - h mod 2 ^ c)) handler (int limit) (int i) (int j) s =
    (if is_pad r
     then rb_read_loop e (rb_buffer rb) (int (h mod 2 ^ c)) (int (2 ^ c - h mod 2 ^ c)) handler (int limit) (int (i + record_size r)) (int j) s
     else case g s r of
       (s, None) \<Rightarrow> rb_read_loop e (rb_buffer rb) (int (h mod 2 ^ c)) (int (2 ^ c - h mod 2 ^ c)) handler (int limit) (int (i + record_size r)) (int (j + 1)) s
     | (s, Some err) \<Rightarrow> (int (i + record_size r), int (j + 1), s, Some err))"
proof -
  let ?x = "h mod 2 ^ c + i"
  note size = record_size_bounds [of r]
  have R: "length R = 2 ^ c" using m by (simp add: ring_mem_def)
  obtain T where T: "m_buffer (rb_buffer rb) = R @ T" using m by (auto simp: ring_mem_def)
  note at = record_at [OF i(1) R i(2)]
  have room: "i < 2 ^ c - h mod 2 ^ c" using i(2) size(3) by linarith
  have get: "getInt64Volatile e (rb_buffer rb) (int ?x) = Inr (makeHeader (word_of_nat (length (snd r) + 8)) (fst r))"
    using ring_header_at [OF m, of ?x] i(2) size(3) at(1) by (simp add: of_host_bytes)
  have "length (snd r) + 8 \<le> 2 ^ 30" using size(1) i(2,3) by linarith
  then have "length (snd r) + 8 < 2 ^ 31" by simp
  then have len: "sint (word_of_nat (length (snd r) + 8) :: s32) = int (length (snd r) + 8)" by (rule sint_of_nat(1))
  have al: "align (int (length (snd r) + 8)) RECORD_ALIGNMENT = int (record_size r)"
    unfolding record_size_def by (rule align_8)
  have "encodedMsgOffset (int ?x) = int (?x + 8)" "int (length (snd r) + 8) - RECORD_HEADER_LENGTH = int (length (snd r))"
    by (simp_all add: encodedMsgOffset_def RECORD_HEADER_LENGTH_def)
  moreover have "?x + 8 + length (snd r) \<le> length (m_buffer (rb_buffer rb))" "take (length (snd r)) (drop (?x + 8) (m_buffer (rb_buffer rb))) = snd r"
    using T R i(2) size(1) at(2) by simp_all
  ultimately have hand: "handler s (fst r) (rb_buffer rb) (encodedMsgOffset (int ?x)) (int (length (snd r) + 8) - RECORD_HEADER_LENGTH) = g s r"
    using g unfolding sees_record_def by (metis prod.collapse)
  have cond: "int i < int (2 ^ c - h mod 2 ^ c)" "int j < int limit" "\<not> int (length (snd r) + 8) \<le> 0"
      "int (h mod 2 ^ c) + int i = int ?x" "int i + int (record_size r) = int (i + record_size r)" "int j + 1 = int (j + 1)"
    using room lim by (simp_all only: of_nat_less_iff)
  show ?thesis
    by (subst rb_read_loop.simps) (simp only: cond get hand len al Let_def simp_thms if_True if_False sum.case makeHeader_parts)
qed

lemma ring_loop_stops:
  assumes m: "ring_mem e rb c R h t hc" and "drop i (rotate h R) = replicate z 0" and "8 \<le> z" and i: "h mod 2 ^ c + i + 8 \<le> 2 ^ c"
  shows "rb_read_loop e (rb_buffer rb) (int (h mod 2 ^ c)) block handler limit (int i) j s = (int i, j, s, None)"
proof -
  have R: "length R = 2 ^ c" using m by (simp add: ring_mem_def)
  have "take 8 (drop (h mod 2 ^ c + i) R) = take 8 (drop i (rotate h R))" using R i by (intro take_rotate) simp_all
  then have "take 8 (drop (h mod 2 ^ c + i) R) = replicate 8 0" using assms(2,3) by (simp add: min_def)
  then have "getInt64Volatile e (rb_buffer rb) (int (h mod 2 ^ c + i)) = Inr 0"
    using ring_header_at [OF m, of "h mod 2 ^ c + i"] i by (simp only: of_host_zero)
  then show ?thesis by (subst rb_read_loop.simps) simp
qed

lemma ring_loop_ok:
  assumes m: "ring_mem e rb c R h t hc" and g: "sees_record handler g" and C: "(2 :: nat) ^ c \<le> 2 ^ 30" "8 dvd h"
  shows "drop i (rotate h R) = records_image e rs @ replicate z 0 \<Longrightarrow> 8 dvd i \<Longrightarrow> i \<le> 2 ^ c - h mod 2 ^ c \<Longrightarrow> fits (2 ^ c) (h + i) rs \<Longrightarrow>
    take_records g (limit - j) (2 ^ c - h mod 2 ^ c - i) rs s = (cs, n, s', err) \<Longrightarrow>
    rb_read_loop e (rb_buffer rb) (int (h mod 2 ^ c)) (int (2 ^ c - h mod 2 ^ c)) handler (int limit) (int i) (int j) s =
      (int (i + length (records_image e cs)), int (j + n), s', err)"
proof (induction rs arbitrary: i j s cs n)
  case Nil
  have c: "3 \<le> c" "length R = 2 ^ c" using m by (simp_all add: ring_mem_def)
  have eight: "(8 :: nat) dvd 2 ^ c" using le_imp_power_dvd [OF c(1), of "2 :: nat"] by simp
  have r: "cs = []" "n = 0" "s' = s" "err = None" using Nil.prems(5) by simp_all
  show ?case
  proof (cases "i < 2 ^ c - h mod 2 ^ c")
    case True
    have "8 dvd 2 ^ c - h mod 2 ^ c - i" using eight C(2) Nil.prems(2) by (simp add: dvd_mod)
    then have room: "h mod 2 ^ c + i + 8 \<le> 2 ^ c" using True dvd_imp_le [of 8 "2 ^ c - h mod 2 ^ c - i"] by linarith
    have "z = 2 ^ c - i" using arg_cong [OF Nil.prems(1), of length] c(2) by simp
    then have "8 \<le> z" using room by linarith
    then show ?thesis using ring_loop_stops [OF m _ _ room, of z] Nil.prems(1) r by simp
  next
    case False
    then have "\<not> int i < int (2 ^ c - h mod 2 ^ c)" by (simp only: of_nat_less_iff) simp
    then show ?thesis using r by (subst rb_read_loop.simps) simp
  qed
next
  case (Cons r rs)
  let ?room = "2 ^ c - h mod 2 ^ c"
  show ?case
  proof (cases "?room - i = 0 \<or> limit - j = 0")
    case True
    then have "\<not> int i < int ?room \<or> \<not> int j < int limit" by (simp only: of_nat_less_iff) auto
    then show ?thesis using True Cons.prems(5) by (subst rb_read_loop.simps) auto
  next
    case False
    then have lt: "i < ?room" "j < limit" by linarith+
    then have "(h + i) mod 2 ^ c = h mod 2 ^ c + i" by (metis less_diff_conv2 mod_add_left_eq mod_less add.commute less_diff_conv)
    then have fit: "h mod 2 ^ c + i + record_size r \<le> 2 ^ c" "fits (2 ^ c) (h + (i + record_size r)) rs"
      using Cons.prems(4) by (simp_all add: add.assoc)
    have "drop (i + record_size r) (rotate h R) = drop (record_size r) (drop i (rotate h R))" by (simp add: add.commute)
    then have rest: "drop (i + record_size r) (rotate h R) = records_image e rs @ replicate z 0" using Cons.prems(1) by simp
    have i': "8 dvd i + record_size r" "i + record_size r \<le> ?room" using Cons.prems(2) record_size_bounds(2) fit(1) by simp_all
    have i1: "drop i (rotate h R) = record_image e r @ (records_image e rs @ replicate z 0)" using Cons.prems(1) by simp
    note step = ring_loop_step [OF m g lt(2) i1 fit(1) C(1), of s] and IH = Cons.IH [OF rest i' fit(2)]
    have sub: "?room - i - record_size r = ?room - (i + record_size r)" "limit - j - 1 = limit - (j + 1)" by simp_all
    show ?thesis
    proof (cases "is_pad r")
      case True
      then obtain cs' where "take_records g (limit - j) (?room - (i + record_size r)) rs s = (cs', n, s', err)" "cs = r # cs'"
        using Cons.prems(5) False by (auto simp: sub add.assoc split: prod.splits)
      then show ?thesis using step IH [of j s cs' n] True by (simp add: add.assoc)
    next
      case no_pad: False
      obtain s1 err1 where g1: "g s r = (s1, err1)" by (cases "g s r")
      show ?thesis
      proof (cases err1)
        case None
        then obtain cs' n' where "take_records g (limit - (j + 1)) (?room - (i + record_size r)) rs s1 = (cs', n', s', err)" "cs = r # cs'" "n = n' + 1"
          using Cons.prems(5) False no_pad g1 by (auto simp: sub add.assoc split: prod.splits)
        then show ?thesis using step IH [of "j + 1" s1 cs' n'] no_pad g1 None by (simp add: add.assoc)
      next
        case (Some x)
        then show ?thesis using step Cons.prems(5) False no_pad g1 by auto
      qed
    qed
  qed
qed

lemma take_records_prefix:
  "take_records g limit room rs s = (cs, n, s', err) \<Longrightarrow> fits C x rs \<Longrightarrow> room = 0 \<or> room = C - x mod C \<Longrightarrow>
   (\<exists>rest. rs = cs @ rest) \<and> length (records_image e cs) \<le> room"
proof (induction g limit room rs s arbitrary: x cs n rule: take_records.induct)
  case (2 g limit room r rs s)
  show ?case
  proof (cases "room = 0 \<or> limit = 0")
    case False
    then have room: "room = C - x mod C" "record_size r \<le> room" using 2(4,5) by auto
    have nxt: "room - record_size r = 0 \<or> room - record_size r = C - (x + record_size r) mod C"
    proof (cases "room - record_size r = 0")
      case False
      then have "x mod C + record_size r < C" using room by linarith
      then have "(x + record_size r) mod C = x mod C + record_size r" by (metis mod_add_left_eq mod_less)
      then show ?thesis using room(1) by simp
    qed simp
    show ?thesis
    proof (cases "is_pad r")
      case True
      then obtain cs' where "take_records g limit (room - record_size r) rs s = (cs', n, s', err)" "cs = r # cs'"
        using 2(3) False by (auto split: prod.splits)
      then show ?thesis using 2(1) [OF False True _ _ nxt, of cs' n] 2(4) room(2) by auto
    next
      case no_pad: False
      obtain s1 err1 where g1: "g s r = (s1, err1)" by (cases "g s r")
      show ?thesis
      proof (cases err1)
        case None
        then obtain cs' n' where "take_records g (limit - 1) (room - record_size r) rs s1 = (cs', n', s', err)" "cs = r # cs'"
          using 2(3) False no_pad g1 by (auto split: prod.splits)
        then show ?thesis using 2(2) [OF False no_pad g1 [symmetric] None _ _ nxt, of cs' n'] 2(4) room(2) by auto
      next
        case (Some y)
        then show ?thesis using 2(3) False no_pad g1 room(2) by auto
      qed
    qed
  qed (use 2(3) in auto)
qed simp

lemma rb_read_ok:
  assumes ok: "ring_ok e rb c h t hc rs" and g: "sees_record handler g"
    and tk: "take_records g limit (2 ^ c - h mod 2 ^ c) rs s = (cs, n, s', err)"
  shows "\<exists>rb' rest. rb_read e rb handler (int limit) s = Inr (rb', s', case err of None \<Rightarrow> Inr (int n) | Some x \<Rightarrow> Inl x) \<and>
    rs = cs @ rest \<and> ring_ok e rb' c (h + length (records_image e cs)) t hc rest"
proof -
  let ?a = "length (records_image e cs)" and ?C = "(2 :: nat) ^ c"
  note d = ring_okD [OF ok]
  obtain R where m: "ring_mem e rb c R h t hc" and held: "t = h + length (records_image e rs)" "fits ?C h rs"
      "rotate h R = records_image e rs @ replicate (?C - (t - h)) 0"
    using ok by (auto simp: ring_ok_def)
  have R: "length R = ?C" "rb_capacity rb = int ?C" using m by (simp_all only: ring_mem_def)
  obtain rest where rest: "rs = cs @ rest" "?a \<le> ?C - h mod ?C" using take_records_prefix [OF tk held(2), of e] by blast
  have lt: "h mod ?C < ?C" by simp
  have room: "h mod ?C + ?a \<le> ?C" using rest(2) lt by linarith
  have "rb_capacity rb - int (h mod ?C) = int (?C - h mod ?C)" unfolding R(2) using lt by (simp only: of_nat_diff less_imp_le)
  moreover have "rb_read_loop e (rb_buffer rb) (int (h mod ?C)) (int (?C - h mod ?C)) handler (int limit) 0 0 s = (int ?a, int n, s', err)"
    using ring_loop_ok [OF m g d(8,4), of 0 rs "?C - (t - h)" limit 0 s cs n] held tk by simp
  ultimately have read: "rb_read e rb handler (int limit) s =
      andThen (cleanup e rb (word_of_nat h) (int (h mod ?C)) (int ?a)) (\<lambda>rb. Inr (rb, s', case err of None \<Rightarrow> Inr (int n) | Some x \<Rightarrow> Inl x))"
    by (simp only: rb_read_def ring_mem_gets(3) [OF m] andThen_simps ring_mem_index [OF m] Let_def split)
  have "fits ?C (h + ?a) rest" "8 dvd h + ?a" using held(2) rest(1) d(4) records_image_dvd [of e cs] by (simp_all add: fits_append [of _ _ _ _ e])
  moreover have tt: "t = h + ?a + length (records_image e rest)" using held(1) rest(1) by simp
  moreover have "rotate (h + ?a) (patch R (h mod ?C) (replicate ?a 0)) = records_image e rest @ replicate (?C - (t - (h + ?a))) 0"
  proof -
    have "rotate (h + ?a) (patch R (h mod ?C) (replicate ?a 0)) = (records_image e rest @ replicate (?C - (t - h)) 0) @ replicate ?a 0"
      by (rule rotate_consumed [OF R(1) _ room]) (use held(3) rest(1) in simp_all)
    moreover have "?C - (t - (h + ?a)) = ?C - (t - h) + ?a" using tt d(6) by linarith
    ultimately show ?thesis by (simp add: replicate_add)
  qed
  ultimately have new: "ring_ok e rb' c (h + ?a) t hc rest" if "ring_mem e rb' c (patch R (h mod ?C) (replicate ?a 0)) (h + ?a) t hc" for rb'
    using that d(1,3) unfolding ring_ok_def by (intro exI [of _ "patch R (h mod ?C) (replicate ?a 0)"]) auto
  show ?thesis
  proof (cases "?a = 0")
    case True
    then show ?thesis using new [of rb] m read rest(1) by (auto simp: cleanup_def patch_def)
  next
    case False
    let ?rb = "rb\<lparr>rb_buffer := (rb_buffer rb)\<lparr>m_buffer := patch (m_buffer (rb_buffer rb)) (h mod ?C) (replicate ?a 0)\<rparr>\<rparr>"
    have b: "sound (rb_buffer rb)" "length (m_buffer (rb_buffer rb)) = ?C + 768" using m by (auto simp: ring_mem_def trailer_ok_def)
    have set: "setMemory (rb_buffer rb) (int (h mod ?C)) (nat (int ?a)) 0 = Inr (rb_buffer ?rb)"
      using b room by (simp add: setMemory_def boundsCheck_inside store_inside)
    have "ring_mem e ?rb c (patch R (h mod ?C) (replicate ?a 0)) h t hc" using ring_mem_patch [OF m, of "h mod ?C" "replicate ?a 0"] room by simp
    from ring_mem_puts(3) [OF this, of "h + ?a"] obtain b2 where
      b2: "putInt64Ordered e (rb_buffer ?rb) (rb_headPositionIndex ?rb) (word_of_nat (h + ?a)) = Inr b2"
        "ring_mem e (?rb\<lparr>rb_buffer := b2\<rparr>) c (patch R (h mod ?C) (replicate ?a 0)) (h + ?a) t hc" by blast
    have "cleanup e rb (word_of_nat h) (int (h mod ?C)) (int ?a) = Inr (?rb\<lparr>rb_buffer := b2\<rparr>)"
      using False set b2(1) by (simp add: cleanup_def)
    then show ?thesis using read rest(1) new [OF b2(2)] by auto
  qed
qed

section \<open>Every run\<close>

text \<open>The other fields of the trailer do not concern the queue.\<close>

lemma trailer_beside: "trailer_ok e T h t hc \<Longrightarrow> 392 \<le> k \<Longrightarrow> k + length bs \<le> 768 \<Longrightarrow> trailer_ok e (patch T k bs) h t hc"
  by (simp add: trailer_ok_def patch_before)

lemma ring_ok_beside:
  assumes ok: "ring_ok e rb c h t hc rs" and k: "392 \<le> k" "k + 8 \<le> 768"
  shows "\<exists>b w. put_number e 8 (rb_buffer rb) (int (2 ^ c + k)) (v :: s64) = Inr b \<and> get_number e 8 (rb_buffer rb) (int (2 ^ c + k)) = Inr (w :: s64) \<and>
    ring_ok e (rb\<lparr>rb_buffer := b\<rparr>) c h t hc rs"
proof -
  obtain R T where m: "ring_mem e rb c R h t hc" "m_buffer (rb_buffer rb) = R @ T" "trailer_ok e T h t hc" "length R = 2 ^ c" "sound (rb_buffer rb)"
    and rest: "hc \<le> h \<and> t \<le> hc + 2 ^ c \<and> 8 dvd h \<and> t = h + length (records_image e rs) \<and>
      rotate h R = records_image e rs @ replicate (2 ^ c - (t - h)) 0 \<and> fits (2 ^ c) h rs"
    using ok by (auto simp: ring_ok_def ring_mem_def)
  let ?b = "(rb_buffer rb)\<lparr>m_buffer := R @ patch T k (host_bytes e 8 v)\<rparr>"
  have len: "length T = 768" using m(3) by (simp add: trailer_ok_def)
  have "put_number e 8 (rb_buffer rb) (int (2 ^ c + k)) v = Inr ?b"
    using k(2) m(2,4,5) len patch_append(1) [of R T k] by (subst put_number_inside) (simp_all only: nat_int, simp_all)
  moreover have "get_number e 8 (rb_buffer rb) (int (2 ^ c + k)) = Inr (of_host_bytes e (take 8 (drop k T)) :: s64)"
    using k(2) m(2,4,5) len by (subst get_number_inside) (simp_all only: nat_int, simp_all)
  moreover have "ring_mem e (rb\<lparr>rb_buffer := ?b\<rparr>) c R h t hc"
    using m k len trailer_beside [OF m(3) k(1), of "host_bytes e 8 v"] by (simp add: ring_mem_def sound_def)
  ultimately show ?thesis using rest unfolding ring_ok_def by blast
qed

text \<open>A ring with the messages it has accepted and those a collecting handler has received.\<close>

definition collect_record :: "ring_record list record_handler" where
  "collect_record s ty b off len = (s @ [(ty, take (nat len) (drop (nat off) (m_buffer b)))], None)"

record ring_state =
  rs_ring :: ring_buffer
  rs_accepted :: "ring_record list"
  rs_received :: "ring_record list"

inductive ring_step :: "endian \<Rightarrow> ring_state \<Rightarrow> ring_state \<Rightarrow> bool" for e where
  written: "feeds_from src from msg \<Longrightarrow> rb_write e (rs_ring st) ty src from (int (length msg)) = Inr (rb, ok) \<Longrightarrow>
    ring_step e st (st\<lparr>rs_ring := rb, rs_accepted := (if ok then rs_accepted st @ [(ty, msg)] else rs_accepted st)\<rparr>)"
| read: "rb_read e (rs_ring st) collect_record (int limit) (rs_received st) = Inr (rb, received, answer) \<Longrightarrow>
    ring_step e st (st\<lparr>rs_ring := rb, rs_received := received\<rparr>)"
| correlated: "rb_nextCorrelationId e (rs_ring st) = Inr (rb, i) \<Longrightarrow> ring_step e st (st\<lparr>rs_ring := rb\<rparr>)"
| alive: "set_consumerHeartbeatTime e (rs_ring st) time = Inr rb \<Longrightarrow> ring_step e st (st\<lparr>rs_ring := rb\<rparr>)"

abbreviation ring_run :: "endian \<Rightarrow> ring_state \<Rightarrow> ring_state \<Rightarrow> bool" where
  "ring_run e \<equiv> (ring_step e)\<^sup>*\<^sup>*"

definition new_ring :: "nat \<Rightarrow> ring_state \<Rightarrow> bool" where
  "new_ring c st \<longleftrightarrow> 3 \<le> c \<and> c \<le> 30 \<and>
     OneToOneRingBuffer \<lparr>m_buffer = replicate (2 ^ c + 768) 0, m_length = word_of_nat (2 ^ c + 768)\<rparr> = Inr (rs_ring st) \<and>
     rs_accepted st = [] \<and> rs_received st = []"

definition messages :: "ring_record list \<Rightarrow> ring_record list" where
  "messages rs = filter (\<lambda>r. \<not> is_pad r) rs"

definition ring_inv :: "endian \<Rightarrow> nat \<Rightarrow> ring_state \<Rightarrow> bool" where
  "ring_inv e c st \<longleftrightarrow> (\<exists>h t hc rs. ring_ok e (rs_ring st) c h t hc rs \<and> rs_accepted st = rs_received st @ messages rs)"

lemma collect_record_sees: "sees_record collect_record (\<lambda>s r. (s @ [r], None))"
  by (simp add: sees_record_def collect_record_def)

lemma messages_simps [simp]: "messages [] = []" "messages (rs @ ss) = messages rs @ messages ss" "messages (r # rs) = (if is_pad r then [] else [r]) @ messages rs"
  "messages (padding_records p) = []"
  by (simp_all add: messages_def padding_records_def)

lemma take_records_collects:
  "take_records (\<lambda>s r. (s @ [r], None)) limit room rs s = (cs, n, s', err) \<Longrightarrow> s' = s @ messages cs \<and> err = None \<and> n = length (messages cs)"
  by (induction "\<lambda>s r :: ring_record. (s @ [r], None :: cpp_error option)" limit room rs s arbitrary: cs n rule: take_records.induct)
    (auto split: if_splits prod.splits)

lemma new_ring_ok: "new_ring c st \<Longrightarrow> ring_ok e (rs_ring st) c 0 0 0 []"
proof -
  assume new: "new_ring c st"
  let ?b = "\<lparr>m_buffer = replicate (2 ^ c + 768) 0, m_length = word_of_nat (2 ^ c + 768)\<rparr> :: atomic_buffer"
  have c: "3 \<le> c" "c \<le> 30" using new by (simp_all add: new_ring_def)
  have "(2 :: nat) ^ c \<le> 2 ^ 30" using c(2) by (rule power_increasing) simp
  then have s: "sound ?b" by (simp add: sound_def unsigned_of_nat take_bit_nat_eq_self del: of_nat_add)
  have cap: "capacity ?b - TRAILER_LENGTH = int (2 ^ c)" using capacity_sound [OF s] by (simp add: ring_layout)
  have "rs_ring st = \<lparr>rb_buffer = ?b, rb_capacity = int (2 ^ c), rb_maxMsgLength = int (2 ^ c) sdiv 8,
      rb_headPositionIndex = int (2 ^ c) + HEAD_POSITION_OFFSET, rb_headCachePositionIndex = int (2 ^ c) + HEAD_CACHE_POSITION_OFFSET,
      rb_tailPositionIndex = int (2 ^ c) + TAIL_POSITION_OFFSET, rb_correlationIdCounterIndex = int (2 ^ c) + CORRELATION_COUNTER_OFFSET,
      rb_consumerHeartbeatIndex = int (2 ^ c) + CONSUMER_HEARTBEAT_OFFSET\<rparr>"
    using new unfolding new_ring_def OneToOneRingBuffer_def Let_def cap by (auto simp: checkCapacity_def split: if_splits)
  moreover have "int (2 ^ c) sdiv 8 = int (2 ^ c div 8)" by (simp add: signed_divide_int_def zdiv_int)
  moreover have "trailer_ok e (replicate 768 0) 0 0 0" by (simp add: trailer_ok_def host_bytes_zero min_def)
  ultimately have "ring_mem e (rs_ring st) c (replicate (2 ^ c) 0) 0 0 0"
    using c s by (auto simp: ring_mem_def ring_layout replicate_add)
  then show ?thesis by (auto simp: ring_ok_def)
qed

lemma rb_read_collects:
  assumes ok: "ring_ok e rb c h t hc rs" and "take_records (\<lambda>s r. (s @ [r], None)) limit (2 ^ c - h mod 2 ^ c) rs s = (cs, n, s', err)"
  shows "\<exists>rb' rest. rb_read e rb collect_record (int limit) s = Inr (rb', s @ messages cs, Inr (int (length (messages cs)))) \<and> rs = cs @ rest \<and>
    ring_ok e rb' c (h + length (records_image e cs)) t hc rest"
  using rb_read_ok [OF ok collect_record_sees assms(2)] take_records_collects [OF assms(2)] by auto

lemma rb_write_accepts:
  assumes ok: "ring_ok e rb c h t hc rs" and src: "feeds_from src from msg" and w: "rb_write e rb ty src from (int (length msg)) = Inr (rb', accepted)"
  shows "\<exists>t' hc' rs'. ring_ok e rb' c h t' hc' rs' \<and> messages rs' = (if accepted then messages rs @ [(ty, msg)] else messages rs)"
proof -
  have ty: "\<not> ty <s 1" and "\<not> rb_maxMsgLength rb < int (length msg)"
    using w by (auto simp: rb_write_def checkMsgTypeId_def checkMsgLength_def split: if_splits)
  moreover have "rb_maxMsgLength rb = int (2 ^ c div 8)" using ok by (auto simp only: ring_ok_def ring_mem_def)
  ultimately have len: "length msg \<le> 2 ^ c div 8" by (simp only: of_nat_less_iff not_less)
  have "\<not> is_pad (ty, msg)" using ty by (auto simp: PADDING_MSG_TYPE_ID_def word_sless_alt)
  then show ?thesis
    using rb_write_ok [OF ok src ty len refl refl] w by (fastforce split: if_splits)
qed

lemma ring_step_inv: "ring_step e st st' \<Longrightarrow> ring_inv e c st \<Longrightarrow> ring_inv e c st'"
proof (induction rule: ring_step.induct)
  case (written src "from" msg st ty rb accepted)
  then obtain h t hc rs where "ring_ok e (rs_ring st) c h t hc rs" "rs_accepted st = rs_received st @ messages rs" by (auto simp: ring_inv_def)
  from rb_write_accepts [OF this(1) written(1,2)] this(2) show ?case by (fastforce simp: ring_inv_def)
next
  case (read st limit rb received answer)
  then obtain h t hc rs where ok: "ring_ok e (rs_ring st) c h t hc rs" "rs_accepted st = rs_received st @ messages rs" by (auto simp: ring_inv_def)
  obtain cs n s' err where "take_records (\<lambda>s r. (s @ [r], None)) limit (2 ^ c - h mod 2 ^ c) rs (rs_received st) = (cs, n, s', err)" by (metis surj_pair)
  from rb_read_collects [OF ok(1) this] read(1) ok(2) show ?case by (fastforce simp: ring_inv_def)
next
  case (correlated st rb i)
  then obtain h t hc rs where ok: "ring_ok e (rs_ring st) c h t hc rs" "rs_accepted st = rs_received st @ messages rs" by (auto simp: ring_inv_def)
  have idx: "rb_correlationIdCounterIndex (rs_ring st) = int (2 ^ c + 512)" using ok(1) by (auto simp only: ring_ok_def ring_mem_def)
  obtain w :: s64 where w: "get_number e 8 (rb_buffer (rs_ring st)) (int (2 ^ c + 512)) = Inr w"
    using ring_ok_beside [OF ok(1), of 512 0] by auto
  obtain b where b: "put_number e 8 (rb_buffer (rs_ring st)) (int (2 ^ c + 512)) (w + 1) = Inr b"
      "ring_ok e ((rs_ring st)\<lparr>rb_buffer := b\<rparr>) c h t hc rs"
    using ring_ok_beside [OF ok(1), of 512 "w + 1"] by auto
  have "rb = (rs_ring st)\<lparr>rb_buffer := b\<rparr>"
    using correlated(1) unfolding rb_nextCorrelationId_def getAndAddInt64_def getInt64Volatile_def putInt64Atomic_def idx w andThen_simps b(1) by simp
  then show ?case using b(2) ok(2) unfolding ring_inv_def by auto
next
  case (alive st time rb)
  then obtain h t hc rs where ok: "ring_ok e (rs_ring st) c h t hc rs" "rs_accepted st = rs_received st @ messages rs" by (auto simp: ring_inv_def)
  have "rb_consumerHeartbeatIndex (rs_ring st) = int (2 ^ c + 640)" using ok(1) by (auto simp only: ring_ok_def ring_mem_def)
  then show ?case
    using alive(1) ok ring_ok_beside [OF ok(1), of 640 time]
    unfolding set_consumerHeartbeatTime_def putInt64Ordered_def ring_inv_def by (fastforce simp: andThen_eq_Inr)
qed

lemma ring_run_inv: "ring_run e st st' \<Longrightarrow> ring_inv e c st \<Longrightarrow> ring_inv e c st'"
  by (induction rule: rtranclp_induct) (auto intro: ring_step_inv)

text \<open>A read whose limit is no obstacle takes everything, or everything up to the end of the buffer.\<close>

lemma take_records_all:
  "take_records (\<lambda>s r. (s @ [r], None)) limit room rs s = (cs, n, s', err) \<Longrightarrow> length rs < limit \<Longrightarrow> fits C x rs \<Longrightarrow>
   room = 0 \<or> room = C - x mod C \<Longrightarrow> cs = rs \<or> length (records_image e cs) = room"
proof (induction "\<lambda>s r :: ring_record. (s @ [r], None :: cpp_error option)" limit room rs s arbitrary: x cs n rule: take_records.induct)
  case (2 limit room r rs s)
  show ?case
  proof (cases "room = 0")
    case False
    then have room: "room = C - x mod C" "record_size r \<le> room" "limit \<noteq> 0" using 2(4-6) by auto
    have nxt: "room - record_size r = 0 \<or> room - record_size r = C - (x + record_size r) mod C"
    proof (cases "room - record_size r = 0")
      case False
      then have "x mod C + record_size r < C" using room by linarith
      then have "(x + record_size r) mod C = x mod C + record_size r" by (metis mod_add_left_eq mod_less)
      then show ?thesis using room(1) by simp
    qed simp
    obtain cs' n' where t: "take_records (\<lambda>s r. (s @ [r], None)) (if is_pad r then limit else limit - 1) (room - record_size r) rs
          (if is_pad r then s else s @ [r]) = (cs', n', s', err)" "cs = r # cs'"
      using 2(3) False room(3) by (auto split: prod.splits if_splits)
    then have "cs' = rs \<or> length (records_image e cs') = room - record_size r"
      using 2(1) [OF _ _ _ _ _ nxt, of cs' n'] 2(2) [OF _ _ refl refl _ _ _ nxt, of cs' n'] 2(4,5) False room(3) by (auto split: if_splits)
    then show ?thesis using t(2) room(2) by auto
  qed (use 2(3) in simp)
qed simp

lemma records_count: "length rs * 8 \<le> length (records_image e rs)"
proof (induction rs)
  case (Cons r rs)
  then show ?case using record_size_bounds(3) [of r] by simp
qed simp

lemma read_all_drains:
  assumes ok: "ring_ok e rb c h t hc rs"
  shows "\<exists>rb1 rb2 received n m. rb_read_all e rb collect_record s = Inr (rb1, received, Inr n) \<and>
    rb_read_all e rb1 collect_record received = Inr (rb2, s @ messages rs, Inr m)"
proof -
  let ?g = "\<lambda>s r :: ring_record. (s @ [r], None :: cpp_error option)" and ?C = "(2 :: nat) ^ c" and ?M = "2147483647 :: nat"
  have few: "length rs' < ?M" if "ring_ok e rb' c h' t' hc' rs'" for rb' h' t' hc' rs'
  proof -
    have "length (records_image e rs') \<le> 2 ^ 30" using ring_okD(6,8) [OF that] that by (auto simp: ring_ok_def)
    then show ?thesis using records_count [of rs' e] by simp
  qed
  have fit: "fits ?C h' rs'" "t' = h' + length (records_image e rs')" if "ring_ok e rb' c h' t' hc' rs'" for rb' h' t' hc' rs'
    using that by (auto simp: ring_ok_def)
  obtain cs n s' err where t1: "take_records ?g ?M (?C - h mod ?C) rs s = (cs, n, s', err)" by (metis surj_pair)
  obtain rb1 rest where r1: "rb_read e rb collect_record (int ?M) s = Inr (rb1, s @ messages cs, Inr (int (length (messages cs))))" "rs = cs @ rest"
      "ring_ok e rb1 c (h + length (records_image e cs)) t hc rest"
    using rb_read_collects [OF ok t1] by blast
  let ?h = "h + length (records_image e cs)"
  obtain cs2 n2 s2 err2 where t2: "take_records ?g ?M (?C - ?h mod ?C) rest (s @ messages cs) = (cs2, n2, s2, err2)" by (metis surj_pair)
  obtain rb2 rest2 where r2: "rb_read e rb1 collect_record (int ?M) (s @ messages cs) =
      Inr (rb2, (s @ messages cs) @ messages cs2, Inr (int (length (messages cs2))))" "rest = cs2 @ rest2"
    using rb_read_collects [OF r1(3) t2] by blast
  have "messages cs2 = messages rest"
  proof (cases "rest = []")
    case False
    then have full: "length (records_image e cs) = ?C - h mod ?C" using take_records_all [OF t1 few [OF ok] fit(1) [OF ok], of e] r1(2) by auto
    have lt: "h mod ?C < ?C" by simp
    have "?h mod ?C = 0" unfolding full using lt by (metis le_add_diff_inverse less_imp_le mod_add_left_eq mod_self)
    then have "cs2 = rest \<or> length (records_image e cs2) = ?C"
      using take_records_all [OF t2 few [OF r1(3)] fit(1) [OF r1(3)], of e] by simp
    moreover have "length (records_image e cs2) < ?C"
    proof -
      have "length (records_image e cs2) \<le> length (records_image e rest)" using r2(2) by simp
      moreover have "length (records_image e cs) + length (records_image e rest) \<le> ?C" using ring_okD(6) [OF ok] fit(2) [OF ok] r1(2) by simp
      ultimately show ?thesis using full lt by linarith
    qed
    ultimately show ?thesis by auto
  qed (use r2(2) in simp)
  then have "(s @ messages cs) @ messages cs2 = s @ messages rs" using r1(2) by simp
  then show ?thesis using r1(1) r2(1) unfolding rb_read_all_def of_nat_numeral by auto
qed

lemma new_ring_inv:
  assumes "new_ring c st"
  shows "ring_inv e c st"
proof -
  have "rs_accepted st = rs_received st @ messages []" using assms by (simp add: new_ring_def)
  then show ?thesis using new_ring_ok [OF assms] unfolding ring_inv_def by blast
qed

text \<open>
  C9. A ring buffer over zero bytes is a first-in first-out queue: after any sequence of writes, reads,
  correlation ids and heart beats, what the handler has received is a prefix of the messages whose
  write returned true, types and bytes included; and two reads without a limit return and deliver the
  rest.
\<close>

theorem ring_buffer_fifo:
  assumes "new_ring c st" and "ring_run e st st'"
  shows "prefix (rs_received st') (rs_accepted st') \<and>
    (\<exists>rb1 rb2 received n m. rb_read_all e (rs_ring st') collect_record (rs_received st') = Inr (rb1, received, Inr n) \<and>
       rb_read_all e rb1 collect_record received = Inr (rb2, rs_accepted st', Inr m))"
proof -
  obtain h t hc rs where ok: "ring_ok e (rs_ring st') c h t hc rs" "rs_accepted st' = rs_received st' @ messages rs"
    using ring_run_inv [OF assms(2) new_ring_inv [OF assms(1)]] by (auto simp: ring_inv_def)
  then show ?thesis using read_all_drains [OF ok(1), of "rs_received st'"] by (simp add: prefix_def)
qed

text \<open>
  C30. What a write to such a ring answers: with the producer's position \<open>t\<close> and the consumer's \<open>h\<close>, whose
  difference is the size, true
  exactly when the record and the padding before it, if the record would not fit at the end of the
  buffer, end at most one capacity after \<open>h\<close>; a type that is not positive and a message longer than an
  eighth of the capacity are refused by an exception.
\<close>

theorem ring_write_answers:
  assumes "new_ring c st" and "ring_run e st st'" and "feeds_from src from msg"
  shows "\<exists>h t. consumerPosition e (rs_ring st') = Inr (word_of_nat h) \<and> producerPosition e (rs_ring st') = Inr (word_of_nat t) \<and>
    h \<le> t \<and> t \<le> h + 2 ^ c \<and> rb_size e (rs_ring st') = Inr (int (t - h)) \<and>
    (let n = align_up (length msg + 8) 8; p = if 2 ^ c < t mod 2 ^ c + n then 2 ^ c - t mod 2 ^ c else 0;
         answer = rb_write e (rs_ring st') ty src from (int (length msg))
     in if ty <s 1 \<or> 2 ^ c div 8 < length msg then answer = Inl IllegalArgumentException
        else \<exists>rb. answer = Inr (rb, t + p + n \<le> h + 2 ^ c))"
proof -
  obtain h t hc rs where ok: "ring_ok e (rs_ring st') c h t hc rs"
    using ring_run_inv [OF assms(2) new_ring_inv [OF assms(1)]] by (auto simp: ring_inv_def)
  then obtain R where m: "ring_mem e (rs_ring st') c R h t hc" by (auto simp: ring_ok_def)
  have max: "rb_maxMsgLength (rs_ring st') = int (2 ^ c div 8)" using m by (simp only: ring_mem_def)
  have "h \<le> t" "t \<le> h + 2 ^ c" using ring_okD(1-3) [OF ok] by simp_all
  moreover have "rb_size e (rs_ring st') = Inr (int (t - h))"
  proof -
    have "t - h \<le> 2 ^ c" "(2 :: nat) ^ c \<le> 2 ^ 30" by (rule ring_okD(6,8) [OF ok])+
    then have "sint (word_of_nat (t - h) :: s64) = int (t - h)" "int (t - h) \<le> rb_capacity (rs_ring st')"
      using m by (auto simp only: ring_mem_def of_nat_le_iff intro!: sint_of_nat(2)) simp
    moreover have "word_of_nat t - word_of_nat h = (word_of_nat (t - h) :: s64)" using ring_okD(2) [OF ok] by (simp add: of_nat_diff)
    ultimately show ?thesis by (simp only: rb_size_def ring_mem_gets(4,5) [OF m] andThen_simps Let_def) simp
  qed
  moreover have "rb_write e (rs_ring st') ty src from (int (length msg)) = Inl IllegalArgumentException" if "ty <s 1 \<or> 2 ^ c div 8 < length msg"
    using that unfolding rb_write_def checkMsgTypeId_def checkMsgLength_def max of_nat_less_iff by auto
  moreover have "\<exists>rb. rb_write e (rs_ring st') ty src from (int (length msg)) =
      Inr (rb, t + padding_before (2 ^ c) t (record_size (ty, msg)) + record_size (ty, msg) \<le> h + 2 ^ c)"
    if "\<not> ty <s 1" "length msg \<le> 2 ^ c div 8"
    using rb_write_ok [OF ok assms(3) that refl refl] by (auto split: if_splits)
  ultimately show ?thesis
    using ring_mem_gets(4,5) [OF m]
    by (intro exI [of _ h] exI [of _ t]) (auto simp: consumerPosition_def producerPosition_def padding_before_def record_size_def Let_def not_less)
qed

text \<open>A ring of 1024 bytes and one message.\<close>

definition example_ring :: atomic_buffer where
  "example_ring = \<lparr>m_buffer = replicate 1792 0, m_length = 1792\<rparr>"

definition command :: atomic_buffer where
  "command = \<lparr>m_buffer = [1, 2, 3], m_length = 3\<rparr>"

lemma command_feeds: "feeds_from command 0 [1, 2, 3]"
  by (simp add: feeds_from_def command_def sound_def)

lemma example_ring_runs:
  obtains rb st' where "OneToOneRingBuffer example_ring = Inr rb" "new_ring 10 \<lparr>rs_ring = rb, rs_accepted = [], rs_received = []\<rparr>"
    "ring_run e \<lparr>rs_ring = rb, rs_accepted = [], rs_received = []\<rparr> st'" "rs_accepted st' = [(5, [1, 2, 3])]"
proof -
  obtain rb where rb: "OneToOneRingBuffer example_ring = Inr rb"
    by (simp add: OneToOneRingBuffer_def example_ring_def capacity_def checkCapacity_def isPowerOfTwo_def ring_layout)
  let ?st = "\<lparr>rs_ring = rb, rs_accepted = [], rs_received = []\<rparr>"
  have new: "new_ring 10 ?st" using rb by (simp add: new_ring_def example_ring_def)
  have "\<not> (5 :: s32) <s 1" "length [1, 2, 3 :: u8] \<le> 2 ^ 10 div 8" by (simp_all add: word_sless_alt)
  from rb_write_ok [OF new_ring_ok [OF new, of e] command_feeds this refl refl]
  obtain rb' where "rb_write e rb 5 command 0 (int (length [1, 2, 3 :: u8])) = Inr (rb', True)"
    by (auto simp: record_size_def align_up_def padding_before_def split: if_splits)
  then have "ring_step e ?st (?st\<lparr>rs_ring := rb', rs_accepted := [(5, [1, 2, 3])]\<rparr>)"
    using ring_step.written [OF command_feeds, of e ?st 5 rb' True] by simp
  then show ?thesis using that [OF rb new, of "?st\<lparr>rs_ring := rb', rs_accepted := [(5, [1, 2, 3])]\<rparr>"] by auto
qed

theorem ring_buffer_fifo_witness:
  "\<exists>rb st'. OneToOneRingBuffer example_ring = Inr rb \<and> ring_run Big \<lparr>rs_ring = rb, rs_accepted = [], rs_received = []\<rparr> st' \<and>
     rs_accepted st' = [(5, [1, 2, 3])] \<and> prefix (rs_received st') (rs_accepted st') \<and>
     (\<exists>rb1 rb2 received n m. rb_read_all Big (rs_ring st') collect_record (rs_received st') = Inr (rb1, received, Inr n) \<and>
        rb_read_all Big rb1 collect_record received = Inr (rb2, [(5, [1, 2, 3])], Inr m))"
proof -
  obtain rb st' where "OneToOneRingBuffer example_ring = Inr rb" "new_ring 10 \<lparr>rs_ring = rb, rs_accepted = [], rs_received = []\<rparr>"
      "ring_run Big \<lparr>rs_ring = rb, rs_accepted = [], rs_received = []\<rparr> st'" "rs_accepted st' = [(5, [1, 2, 3])]"
    by (rule example_ring_runs)
  with ring_buffer_fifo [OF this(2,3)] show ?thesis by metis
qed

theorem ring_write_answers_witness:
  "\<exists>rb st' h t. OneToOneRingBuffer example_ring = Inr rb \<and> ring_run Little \<lparr>rs_ring = rb, rs_accepted = [], rs_received = []\<rparr> st' \<and>
     producerPosition Little (rs_ring st') = Inr (word_of_nat t) \<and> t \<le> h + 1024 \<and>
     rb_write Little (rs_ring st') 0 command 0 3 = Inl IllegalArgumentException"
proof -
  obtain rb st' where r: "OneToOneRingBuffer example_ring = Inr rb" "new_ring 10 \<lparr>rs_ring = rb, rs_accepted = [], rs_received = []\<rparr>"
      "ring_run Little \<lparr>rs_ring = rb, rs_accepted = [], rs_received = []\<rparr> st'"
    by (rule example_ring_runs)
  from ring_write_answers [OF r(2,3) command_feeds, of 0] r show ?thesis by (auto simp: word_sless_alt Let_def)
qed

end
