(* ===== verification/AtomicArray.thy ===== *)
theory AtomicArray
  imports Prelude
begin

text \<open>
  \<open>aeron-lib/include/concurrent/AtomicArrayUpdater.h\<close>: an array and its length that one thread replaces
  and others read. \<open>update\<close> and \<open>load\<close> are machines of their memory accesses, one writer and any number of
  readers interleaved. A pointer is the block of memory it points to, which is not changed once it is
  published.
\<close>

section \<open>Arrays\<close>

definition addToArray :: "'e list \<Rightarrow> nat \<Rightarrow> 'e \<Rightarrow> 'e list \<times> nat" where
  "addToArray oldArray oldLength element = (map ((!) oldArray) [0..<oldLength] @ [element], oldLength + 1)"

definition removeFromArray :: "'e list \<Rightarrow> nat \<Rightarrow> nat \<Rightarrow> 'e list \<times> nat" where
  "removeFromArray oldArray oldLength index = (map ((!) oldArray) (filter (\<lambda>i. i \<noteq> index) [0..<oldLength]), oldLength - 1)"

section \<open>The updater\<close>

record 'e array_updater =
  au_beginChange :: u64
  au_array :: "'e list"
  au_length :: nat
  au_endChange :: u64

definition AtomicArrayUpdater :: "'e array_updater" where
  "AtomicArrayUpdater = \<lparr>au_beginChange = 0, au_array = [], au_length = 0, au_endChange = 0\<rparr>"

text \<open>Where \<open>update\<close> is: before its store of \<open>m_beginChange\<close>, of the array, of the length, of \<open>m_endChange\<close>.\<close>

datatype 'e update_pc = Update_idle | Update_begin "'e list" nat | Update_array "'e list" nat u64 | Update_length nat u64 | Update_end u64

fun update_step :: "'e array_updater \<Rightarrow> 'e update_pc \<Rightarrow> 'e array_updater \<times> 'e update_pc" where
  "update_step m (Update_begin newArray newLength) =
     (let newChangeNumber = au_beginChange m + 1
      in (m\<lparr>au_beginChange := newChangeNumber\<rparr>, Update_array newArray newLength newChangeNumber))"
| "update_step m (Update_array newArray newLength newChangeNumber) = (m\<lparr>au_array := newArray\<rparr>, Update_length newLength newChangeNumber)"
| "update_step m (Update_length newLength newChangeNumber) = (m\<lparr>au_length := newLength\<rparr>, Update_end newChangeNumber)"
| "update_step m (Update_end newChangeNumber) = (m\<lparr>au_endChange := newChangeNumber\<rparr>, Update_idle)"
| "update_step m Update_idle = (m, Update_idle)"

text \<open>And \<open>load\<close>: at its reads of \<open>m_endChange\<close>, the array, the length, \<open>m_beginChange\<close>, or back with its answer.\<close>

datatype 'e load_pc = Load_idle | Load_start | Load_array u64 | Load_length u64 "'e list" | Load_check u64 "'e list" nat | Load_return "'e list" nat

fun load_step :: "'e array_updater \<Rightarrow> 'e load_pc \<Rightarrow> 'e load_pc" where
  "load_step m Load_start = Load_array (au_endChange m)"
| "load_step m (Load_array changeNumber) = Load_length changeNumber (au_array m)"
| "load_step m (Load_length changeNumber array) = Load_check changeNumber array (au_length m)"
| "load_step m (Load_check changeNumber array len) = (if changeNumber = au_beginChange m then Load_return array len else Load_start)"
| "load_step m (Load_return array len) = Load_return array len"
| "load_step m Load_idle = Load_idle"

text \<open>With no other thread at work: the operations that start an \<open>update\<close>, with the arguments they give it.\<close>

definition addElement :: "'e array_updater \<Rightarrow> 'e \<Rightarrow> 'e update_pc" where
  "addElement m element = (case addToArray (au_array m) (au_length m) element of (newArray, newLength) \<Rightarrow> Update_begin newArray newLength)"

definition removeElement :: "'e array_updater \<Rightarrow> ('e \<Rightarrow> bool) \<Rightarrow> ('e update_pc \<times> nat) option" where
  "removeElement m func =
     (case filter (\<lambda>i. func (au_array m ! i)) [0..<au_length m] of [] \<Rightarrow> None
      | i # _ \<Rightarrow> (case removeFromArray (au_array m) (au_length m) i of (newArray, newLength) \<Rightarrow> Some (Update_begin newArray newLength, i)))"

section \<open>One writer, many readers\<close>

text \<open>
  Kept beside the machine: the pairs given to the calls of \<open>update\<close> so far, after the initial one; how many
  of the calls have returned; and for each reader how many had when its \<open>load\<close> began.
\<close>

record 'e array_system =
  as_mem :: "'e array_updater"
  as_writer :: "'e update_pc"
  as_readers :: "nat \<Rightarrow> 'e load_pc"
  as_updates :: "('e list \<times> nat) list"
  as_done :: nat
  as_since :: "nat \<Rightarrow> nat"

inductive array_step :: "'e array_system \<Rightarrow> 'e array_system \<Rightarrow> bool" where
  updating: "as_writer s = Update_idle \<Longrightarrow>
    array_step s (s\<lparr>as_writer := Update_begin newArray newLength, as_updates := as_updates s @ [(newArray, newLength)]\<rparr>)"
| update: "as_writer s \<noteq> Update_idle \<Longrightarrow> update_step (as_mem s) (as_writer s) = (m, pc) \<Longrightarrow>
    array_step s (s\<lparr>as_mem := m, as_writer := pc, as_done := (if pc = Update_idle then as_done s + 1 else as_done s)\<rparr>)"
| loading: "array_step s (s\<lparr>as_readers := (as_readers s)(i := Load_start), as_since := (as_since s)(i := as_done s)\<rparr>)"
| load: "array_step s (s\<lparr>as_readers := (as_readers s)(i := load_step (as_mem s) (as_readers s i))\<rparr>)"

definition new_array_system :: "'e array_system" where
  "new_array_system = \<lparr>as_mem = AtomicArrayUpdater, as_writer = Update_idle, as_readers = \<lambda>_. Load_idle, as_updates = [([], 0)],
     as_done = 0, as_since = \<lambda>_. 0\<rparr>"

section \<open>The invariant\<close>

text \<open>The writer with \<open>n\<close> of the calls back: in memory is the pair of the last of them, or what the call under way has stored.\<close>

definition writer_ok :: "'e array_updater \<Rightarrow> nat \<Rightarrow> ('e list \<times> nat) list \<Rightarrow> 'e update_pc \<Rightarrow> bool" where
  "writer_ok m n updates pc \<longleftrightarrow> au_endChange m = word_of_nat n \<and> length updates = (if pc = Update_idle then n + 1 else n + 2) \<and>
     (case pc of Update_idle \<Rightarrow> au_beginChange m = word_of_nat n \<and> (au_array m, au_length m) = updates ! n
      | Update_begin a l \<Rightarrow> au_beginChange m = word_of_nat n \<and> (au_array m, au_length m) = updates ! n \<and> (a, l) = updates ! (n + 1)
      | Update_array a l c \<Rightarrow> au_beginChange m = word_of_nat (n + 1) \<and> c = word_of_nat (n + 1) \<and> (a, l) = updates ! (n + 1)
      | Update_length l c \<Rightarrow> au_beginChange m = word_of_nat (n + 1) \<and> c = word_of_nat (n + 1) \<and> (au_array m, l) = updates ! (n + 1)
      | Update_end c \<Rightarrow> au_beginChange m = word_of_nat (n + 1) \<and> c = word_of_nat (n + 1) \<and> (au_array m, au_length m) = updates ! (n + 1))"

text \<open>What a reader with the change number \<open>k\<close> has read is good as long as no later update has begun.\<close>

definition reader_ok :: "'e array_updater \<Rightarrow> nat \<Rightarrow> ('e list \<times> nat) list \<Rightarrow> nat \<Rightarrow> 'e load_pc \<Rightarrow> bool" where
  "reader_ok m n updates since pc \<longleftrightarrow> since \<le> n \<and>
     (case pc of Load_idle \<Rightarrow> True | Load_start \<Rightarrow> True
      | Load_array c \<Rightarrow> \<exists>k. c = word_of_nat k \<and> since \<le> k \<and> k \<le> n
      | Load_length c a \<Rightarrow> \<exists>k. c = word_of_nat k \<and> since \<le> k \<and> k \<le> n \<and> (au_beginChange m = c \<longrightarrow> a = fst (updates ! k))
      | Load_check c a l \<Rightarrow> \<exists>k. c = word_of_nat k \<and> since \<le> k \<and> k \<le> n \<and> (au_beginChange m = c \<longrightarrow> (a, l) = updates ! k)
      | Load_return a l \<Rightarrow> \<exists>k. since \<le> k \<and> k \<le> n \<and> (a, l) = updates ! k)"

definition array_inv :: "'e array_system \<Rightarrow> bool" where
  "array_inv s \<longleftrightarrow> writer_ok (as_mem s) (as_done s) (as_updates s) (as_writer s) \<and>
     (\<forall>i. reader_ok (as_mem s) (as_done s) (as_updates s) (as_since s i) (as_readers s i))"

lemma word_of_nat_eq: "k < 2 ^ 64 \<Longrightarrow> n < 2 ^ 64 \<Longrightarrow> (word_of_nat k :: u64) = word_of_nat n \<longleftrightarrow> k = n"
  by (metis unat_of_nat_u64)

text \<open>A change number that is still current belongs to the pair in memory.\<close>

lemma current_pair:
  assumes "writer_ok m n updates pc" and "n + 1 < 2 ^ 64" and "k \<le> n" and "au_beginChange m = word_of_nat k"
  shows "(au_array m, au_length m) = updates ! k"
proof -
  have b: "k < 2 ^ 64" "n < 2 ^ 64" "n + 1 \<noteq> k" using assms(2,3) by simp_all
  then have "au_beginChange m \<noteq> word_of_nat (n + 1)" using assms(2,4) word_of_nat_eq [of k "n + 1"] by auto
  then have idle: "au_beginChange m = word_of_nat n" "(au_array m, au_length m) = updates ! n"
    using assms(1) by (auto simp: writer_ok_def simp del: of_nat_add split: update_pc.splits)
  then have "k = n" using assms(4) word_of_nat_eq [OF b(1,2)] by simp
  then show ?thesis using idle(2) by simp
qed

lemma update_keeps:
  assumes "writer_ok m n updates pc" and "update_step m pc = (m', pc')" and "pc \<noteq> Update_idle"
  shows "writer_ok m' (if pc' = Update_idle then n + 1 else n) updates pc'"
    and "au_beginChange m' = au_beginChange m \<or> au_beginChange m' = word_of_nat (n + 1)"
  using assms by (cases pc; auto simp: writer_ok_def Let_def add.commute)+

lemma reader_keeps:
  assumes "reader_ok m n updates since pc" and "au_beginChange m' = au_beginChange m \<or> au_beginChange m' = word_of_nat (n + 1)"
    and "n + 1 < 2 ^ 64" and "n \<le> n'"
  shows "reader_ok m' n' updates since pc"
proof -
  have "(word_of_nat k :: u64) \<noteq> word_of_nat (n + 1)" if "k \<le> n" for k
    using that assms(3) word_of_nat_eq [of k "n + 1"] by simp
  then show ?thesis using assms(1,2,4) by (cases pc) (fastforce simp: reader_ok_def)+
qed

lemma reader_calls: "reader_ok m n updates since pc \<Longrightarrow> n < length updates \<Longrightarrow> reader_ok m n (updates @ new) since pc"
  by (cases pc) (fastforce simp: reader_ok_def nth_append)+

lemma load_keeps:
  assumes "writer_ok m n updates wpc" and "n + 1 < 2 ^ 64" and "reader_ok m n updates since pc"
  shows "reader_ok m n updates since (load_step m pc)"
proof (cases pc)
  case Load_start
  then show ?thesis using assms(1,3) by (auto simp: reader_ok_def writer_ok_def intro!: exI [of _ n])
next
  case (Load_array c)
  then obtain k where k: "c = word_of_nat k" "since \<le> k" "k \<le> n" using assms(3) by (auto simp: reader_ok_def)
  have "au_beginChange m = c \<longrightarrow> au_array m = fst (updates ! k)" using current_pair [OF assms(1,2) k(3)] k(1) by (metis fst_conv)
  then show ?thesis using Load_array assms(3) k by (auto simp: reader_ok_def)
next
  case (Load_length c a)
  then obtain k where k: "c = word_of_nat k" "since \<le> k" "k \<le> n" "au_beginChange m = c \<longrightarrow> a = fst (updates ! k)"
    using assms(3) by (auto simp: reader_ok_def)
  have "au_beginChange m = c \<longrightarrow> (a, au_length m) = updates ! k" using current_pair [OF assms(1,2) k(3)] k(1,4) by (metis fst_conv)
  then show ?thesis using Load_length assms(3) k by (auto simp: reader_ok_def)
qed (use assms(3) in \<open>auto simp: reader_ok_def\<close>)

lemma done_bound: "writer_ok m n updates pc \<Longrightarrow> n < length updates"
  by (simp add: writer_ok_def split: if_splits)

lemma array_step_keeps:
  "array_step s s' \<Longrightarrow> array_inv s \<Longrightarrow> length (as_updates s') < 2 ^ 64 \<Longrightarrow> array_inv s'"
proof (induction rule: array_step.induct)
  case (updating s newArray newLength)
  then have w: "writer_ok (as_mem s) (as_done s) (as_updates s) Update_idle" by (simp add: array_inv_def)
  then have "writer_ok (as_mem s) (as_done s) (as_updates s @ [(newArray, newLength)]) (Update_begin newArray newLength)"
    by (simp add: writer_ok_def nth_append)
  then show ?case using updating(2) reader_calls [OF _ done_bound [OF w]] by (simp add: array_inv_def)
next
  case (update s m pc)
  have inv: "writer_ok (as_mem s) (as_done s) (as_updates s) (as_writer s)"
      "\<And>i. reader_ok (as_mem s) (as_done s) (as_updates s) (as_since s i) (as_readers s i)" using update(3) by (simp_all add: array_inv_def)
  have len: "as_done s + 1 < 2 ^ 64" using update(1,4) inv(1) by (simp add: writer_ok_def)
  note up = update_keeps [OF inv(1) update(2,1)]
  show ?case using up(1) reader_keeps [OF inv(2) up(2) len] by (simp add: array_inv_def split: if_splits)
next
  case (loading s i)
  then show ?case by (simp add: array_inv_def reader_ok_def)
next
  case (load s i)
  then have w: "writer_ok (as_mem s) (as_done s) (as_updates s) (as_writer s)" by (simp add: array_inv_def)
  have "as_done s + 1 < 2 ^ 64" using load(2) done_bound [OF w] by simp
  from load_keeps [OF w this] show ?case using load(1) by (simp add: array_inv_def)
qed

lemma array_step_updates: "array_step s s' \<Longrightarrow> length (as_updates s) \<le> length (as_updates s')"
  by (induction rule: array_step.induct) simp_all

lemma array_reachable: "array_step\<^sup>*\<^sup>* s s' \<Longrightarrow> array_inv s \<Longrightarrow> length (as_updates s') < 2 ^ 64 \<Longrightarrow> array_inv s'"
proof (induction rule: rtranclp_induct)
  case (step s' s'')
  then show ?case using array_step_updates [of s' s''] array_step_keeps [of s' s''] by linarith
qed

section \<open>What a load returns\<close>

text \<open>
  C14. Under every interleaving of one writer and any number of readers, a \<open>load\<close> returns an array together
  with its own length: the two arguments of one call of \<open>update\<close>, never parts of two calls, of a call that
  has returned, and not older than the last one that had returned when the \<open>load\<close> began. Between calls the
  memory holds the arguments of the last one.
\<close>

theorem load_consistent:
  assumes "array_step\<^sup>*\<^sup>* new_array_system s" and "length (as_updates s) < 2 ^ 64"
  shows "(as_readers s i = Load_return array len \<longrightarrow>
      (\<exists>k. as_since s i \<le> k \<and> k \<le> as_done s \<and> as_done s < length (as_updates s) \<and> (array, len) = as_updates s ! k)) \<and>
    (as_writer s = Update_idle \<longrightarrow> (au_array (as_mem s), au_length (as_mem s)) = last (as_updates s))"
proof -
  have "array_inv new_array_system" by (simp add: array_inv_def new_array_system_def writer_ok_def reader_ok_def AtomicArrayUpdater_def)
  from array_reachable [OF assms(1) this assms(2)]
  have w: "writer_ok (as_mem s) (as_done s) (as_updates s) (as_writer s)"
    and r: "reader_ok (as_mem s) (as_done s) (as_updates s) (as_since s i) (as_readers s i)"
    by (simp_all add: array_inv_def)
  have "(au_array (as_mem s), au_length (as_mem s)) = last (as_updates s)" if "as_writer s = Update_idle"
    using w that by (cases "as_updates s" rule: rev_cases) (auto simp: writer_ok_def nth_append)
  then show ?thesis using r done_bound [OF w] by (auto simp: reader_ok_def)
qed

text \<open>A writer stores an array of one element, then a reader loads it.\<close>

lemma update_run:
  assumes "array_step\<^sup>*\<^sup>* s \<lparr>as_mem = m, as_writer = pc, as_readers = r, as_updates = st, as_done = d, as_since = si\<rparr>" and "pc \<noteq> Update_idle"
  shows "array_step\<^sup>*\<^sup>* s \<lparr>as_mem = fst (update_step m pc), as_writer = snd (update_step m pc), as_readers = r,
    as_updates = st, as_done = (if snd (update_step m pc) = Update_idle then d + 1 else d),
    as_since = si\<rparr>"
  using array_step.update [of "\<lparr>as_mem = m, as_writer = pc, as_readers = r, as_updates = st, as_done = d, as_since = si\<rparr>"] assms
  by (cases "update_step m pc"; cases "snd (update_step m pc) = Update_idle") (simp_all add: rtranclp.rtrancl_into_rtrancl)

lemma load_run:
  "array_step\<^sup>*\<^sup>* s \<lparr>as_mem = m, as_writer = pc, as_readers = r, as_updates = st, as_done = d, as_since = si\<rparr> \<Longrightarrow> load_step m (r i) = l \<Longrightarrow>
   array_step\<^sup>*\<^sup>* s \<lparr>as_mem = m, as_writer = pc, as_readers = r(i := l), as_updates = st, as_done = d, as_since = si\<rparr>"
  using array_step.load [of "\<lparr>as_mem = m, as_writer = pc, as_readers = r, as_updates = st, as_done = d, as_since = si\<rparr>" i]
  by (simp add: rtranclp.rtrancl_into_rtrancl)

lemma loading_run:
  "array_step\<^sup>*\<^sup>* s \<lparr>as_mem = m, as_writer = pc, as_readers = r, as_updates = st, as_done = d, as_since = si\<rparr> \<Longrightarrow>
   array_step\<^sup>*\<^sup>* s \<lparr>as_mem = m, as_writer = pc, as_readers = r(i := Load_start), as_updates = st, as_done = d, as_since = si(i := d)\<rparr>"
  using array_step.loading [of "\<lparr>as_mem = m, as_writer = pc, as_readers = r, as_updates = st, as_done = d, as_since = si\<rparr>" i]
  by (simp add: rtranclp.rtrancl_into_rtrancl)

theorem load_consistent_witness:
  "\<exists>s. array_step\<^sup>*\<^sup>* (new_array_system :: nat array_system) s \<and> as_readers s 0 = Load_return [7] 1 \<and>
     (\<exists>k. as_since s 0 \<le> k \<and> k \<le> as_done s \<and> as_done s < length (as_updates s) \<and> ([7], 1) = as_updates s ! k)"
proof -
  let ?i = "\<lambda>_. Load_idle :: nat load_pc" and ?run = "array_step\<^sup>*\<^sup>* (new_array_system :: nat array_system)"
  let ?m = "\<lparr>au_beginChange = 1, au_array = [7 :: nat], au_length = 1, au_endChange = 1\<rparr>" and ?st = "[([], 0), ([7 :: nat], 1 :: nat)]"
  let ?s = "\<lparr>as_mem = ?m, as_writer = Update_idle, as_readers = ?i, as_updates = ?st, as_done = 1, as_since = \<lambda>_. 0\<rparr>"
  let ?r = "\<lparr>as_mem = ?m, as_writer = Update_idle, as_readers = ?i(0 := Load_return [7] 1), as_updates = ?st, as_done = 1, as_since = (\<lambda>_. 0)(0 := 1)\<rparr>"
  have "?run \<lparr>as_mem = AtomicArrayUpdater, as_writer = Update_begin [7] 1, as_readers = ?i, as_updates = ?st, as_done = 0, as_since = \<lambda>_. 0\<rparr>"
    using array_step.updating [of "new_array_system :: nat array_system" "[7]" 1] by (simp add: new_array_system_def r_into_rtranclp)
  from update_run [OF update_run [OF update_run [OF update_run [OF this]]]] have w: "?run ?s"
    by (simp add: AtomicArrayUpdater_def Let_def)
  have "?run \<lparr>as_mem = ?m, as_writer = Update_idle, as_readers = ?i(0 := Load_start), as_updates = ?st, as_done = 1, as_since = (\<lambda>_. 0)(0 := 1)\<rparr>"
    using loading_run [OF w, of 0] by simp
  from load_run [OF load_run [OF load_run [OF load_run [OF this refl, of 0] refl, of 0] refl, of 0] refl, of 0]
  have r: "?run ?r" by simp
  have answer: "as_readers ?r 0 = Load_return [7] 1" by simp
  have "\<exists>k. as_since ?r 0 \<le> k \<and> k \<le> as_done ?r \<and> as_done ?r < length (as_updates ?r) \<and> ([7], 1) = as_updates ?r ! k"
    using load_consistent [OF r, of 0 "[7]" 1] answer by simp
  then show ?thesis using r answer by (intro exI [of _ ?r] conjI)
qed

end
