(* ===== verification/Subscription.thy ===== *)
theory Subscription
  imports ImageReads AtomicArray
begin

text \<open>
  \<open>aeron-lib/include/Subscription.h\<close>: the images of a subscription, polled in turn. An image is kept with
  its correlation id, a member the model of the image leaves out; the array of images is that of
  \<open>AtomicArray\<close>, with no update under way. The round robin index, a \<open>size_t\<close> that is reset when it reaches
  the number of images, is a natural number.
\<close>

record subscription =
  sub_images :: "(s64 \<times> image) list"
  sub_roundRobinIndex :: nat
  sub_isClosed :: bool

section \<open>Polling\<close>

text \<open>The index a poll starts at, and the index kept for the next.\<close>

definition starting_index :: "subscription \<Rightarrow> nat \<times> subscription" where
  "starting_index sub =
     (let startingIndex = sub_roundRobinIndex sub; sub = sub\<lparr>sub_roundRobinIndex := startingIndex + 1\<rparr>
      in if length (sub_images sub) \<le> startingIndex then (0, sub\<lparr>sub_roundRobinIndex := 0\<rparr>) else (startingIndex, sub))"

text \<open>A loop over images; \<open>poll_one\<close> is the poll of an image with the limit that is left.\<close>

fun poll_range ::
  "(image \<Rightarrow> int \<Rightarrow> 's \<Rightarrow> (image \<times> int \<times> 's) cpp) \<Rightarrow> int \<Rightarrow> nat list \<Rightarrow> (s64 \<times> image) list \<Rightarrow> int \<Rightarrow> 's
   \<Rightarrow> ((s64 \<times> image) list \<times> int \<times> 's) cpp" where
  "poll_range poll_one fragmentLimit [] images fragmentsRead s = Inr (images, fragmentsRead, s)"
| "poll_range poll_one fragmentLimit (i # is) images fragmentsRead s =
     (if fragmentsRead < fragmentLimit
      then andThen (poll_one (snd (images ! i)) (fragmentLimit - fragmentsRead) s) (\<lambda>(im, n, s).
           poll_range poll_one fragmentLimit is (images[i := (fst (images ! i), im)]) (fragmentsRead + n) s)
      else Inr (images, fragmentsRead, s))"

definition poll_round ::
  "(image \<Rightarrow> int \<Rightarrow> 's \<Rightarrow> (image \<times> int \<times> 's) cpp) \<Rightarrow> subscription \<Rightarrow> int \<Rightarrow> 's \<Rightarrow> (subscription \<times> int \<times> 's) cpp" where
  "poll_round poll_one sub fragmentLimit s =
     (let (startingIndex, sub) = starting_index sub; images = sub_images sub
      in andThen (poll_range poll_one fragmentLimit [startingIndex..<length images] images 0 s) (\<lambda>(images, fragmentsRead, s).
         andThen (poll_range poll_one fragmentLimit [0..<startingIndex] images fragmentsRead s) (\<lambda>(images, fragmentsRead, s).
           Inr (sub\<lparr>sub_images := images\<rparr>, fragmentsRead, s))))"

definition sub_poll ::
  "endian \<Rightarrow> subscription \<Rightarrow> 's handler \<Rightarrow> (cpp_error \<Rightarrow> 's \<Rightarrow> 's) \<Rightarrow> int \<Rightarrow> 's \<Rightarrow> (subscription \<times> int \<times> 's) cpp" where
  "sub_poll e sub fragmentHandler onError fragmentLimit s =
     poll_round (\<lambda>im limit s. poll e im fragmentHandler onError limit s) sub fragmentLimit s"

definition sub_controlledPoll ::
  "endian \<Rightarrow> subscription \<Rightarrow> 's controlled_handler \<Rightarrow> (cpp_error \<Rightarrow> 's \<Rightarrow> 's) \<Rightarrow> int \<Rightarrow> 's \<Rightarrow> (subscription \<times> int \<times> 's) cpp" where
  "sub_controlledPoll e sub fragmentHandler onError fragmentLimit s =
     poll_round (\<lambda>im limit s. controlledPoll e im fragmentHandler onError limit s) sub fragmentLimit s"

fun block_range ::
  "endian \<Rightarrow> 's block_handler \<Rightarrow> (cpp_error \<Rightarrow> 's \<Rightarrow> 's) \<Rightarrow> int \<Rightarrow> nat list \<Rightarrow> (s64 \<times> image) list \<Rightarrow> int \<Rightarrow> 's
   \<Rightarrow> ((s64 \<times> image) list \<times> int \<times> 's) cpp" where
  "block_range e blockHandler onError blockLengthLimit [] images bytesConsumed s = Inr (images, bytesConsumed, s)"
| "block_range e blockHandler onError blockLengthLimit (i # is) images bytesConsumed s =
     andThen (blockPoll e (snd (images ! i)) blockHandler onError blockLengthLimit s) (\<lambda>(im, n, s).
       block_range e blockHandler onError blockLengthLimit is (images[i := (fst (images ! i), im)]) (bytesConsumed + n) s)"

definition sub_blockPoll ::
  "endian \<Rightarrow> subscription \<Rightarrow> 's block_handler \<Rightarrow> (cpp_error \<Rightarrow> 's \<Rightarrow> 's) \<Rightarrow> int \<Rightarrow> 's \<Rightarrow> (subscription \<times> int \<times> 's) cpp" where
  "sub_blockPoll e sub blockHandler onError blockLengthLimit s =
     andThen (block_range e blockHandler onError blockLengthLimit [0..<length (sub_images sub)] (sub_images sub) 0 s)
       (\<lambda>(images, bytesConsumed, s). Inr (sub\<lparr>sub_images := images\<rparr>, bytesConsumed, s))"

section \<open>Images\<close>

definition sub_isConnected :: "subscription \<Rightarrow> bool" where
  "sub_isConnected sub \<longleftrightarrow> (\<exists>x\<in>set (sub_images sub). \<not> im_isClosed (snd x))"

definition imageCount :: "subscription \<Rightarrow> nat" where
  "imageCount sub = length (sub_images sub)"

definition imageBySessionId :: "subscription \<Rightarrow> s32 \<Rightarrow> image option" where
  "imageBySessionId sub sessionId = map_option snd (find (\<lambda>x. im_sessionId (snd x) = sessionId) (sub_images sub))"

definition copied_images :: "subscription \<Rightarrow> image list" where
  "copied_images sub = map (\<lambda>x. copy_image (snd x)) (sub_images sub)"

definition hasImage :: "subscription \<Rightarrow> s64 \<Rightarrow> bool" where
  "hasImage sub correlationId \<longleftrightarrow> (\<exists>x\<in>set (sub_images sub). fst x = correlationId)"

definition addImage :: "subscription \<Rightarrow> s64 \<times> image \<Rightarrow> subscription \<times> (s64 \<times> image) list" where
  "addImage sub im =
     (sub\<lparr>sub_images := fst (addToArray (sub_images sub) (length (sub_images sub)) im)\<rparr>, sub_images sub)"

text \<open>The answer is the old array, in which the removed image is closed, with its index, or none.\<close>

definition removeImage :: "subscription \<Rightarrow> s64 \<Rightarrow> subscription \<times> ((s64 \<times> image) list \<times> nat) option" where
  "removeImage sub correlationId =
     (case filter (\<lambda>i. fst (sub_images sub ! i) = correlationId) [0..<length (sub_images sub)] of
        [] \<Rightarrow> (sub, None)
      | i # _ \<Rightarrow>
          (sub\<lparr>sub_images := fst (removeFromArray (sub_images sub) (length (sub_images sub)) i)\<rparr>,
           Some ((sub_images sub)[i := (correlationId, im_close (snd (sub_images sub ! i)))], i)))"

definition closeAndRemoveImages :: "subscription \<Rightarrow> subscription \<times> (s64 \<times> image) list option" where
  "closeAndRemoveImages sub =
     (if sub_isClosed sub then (sub, None) else (sub\<lparr>sub_isClosed := True, sub_images := []\<rparr>, Some (sub_images sub)))"

section \<open>A round of polls\<close>

text \<open>The loop without its test: every image is polled.\<close>

fun poll_each ::
  "(image \<Rightarrow> int \<Rightarrow> 's \<Rightarrow> (image \<times> int \<times> 's) cpp) \<Rightarrow> int \<Rightarrow> nat list \<Rightarrow> (s64 \<times> image) list \<Rightarrow> int \<Rightarrow> 's
   \<Rightarrow> ((s64 \<times> image) list \<times> int \<times> 's) cpp" where
  "poll_each poll_one limit [] images n s = Inr (images, n, s)"
| "poll_each poll_one limit (i # is) images n s =
     andThen (poll_one (snd (images ! i)) (limit - n) s) (\<lambda>(im, m, s).
       poll_each poll_one limit is (images[i := (fst (images ! i), im)]) (n + m) s)"

lemma poll_range_append:
  "poll_range poll_one limit (is @ js) images n s =
   andThen (poll_range poll_one limit is images n s) (\<lambda>(images, n, s). poll_range poll_one limit js images n s)"
proof (induction "is" arbitrary: images n s)
  case Nil
  then show ?case by simp
next
  case (Cons i "is")
  show ?case
  proof (cases "n < limit")
    case True
    then show ?thesis using Cons by (cases "poll_one (snd (images ! i)) (limit - n) s") auto
  next
    case False
    then show ?thesis by (cases js) simp_all
  qed
qed

lemma starting_index_facts: "fst (starting_index sub) \<le> length (sub_images sub)" "sub_images (snd (starting_index sub)) = sub_images sub"
  by (simp_all add: starting_index_def Let_def)

text \<open>The two loops are one over the rotated images.\<close>

lemma poll_round_eq:
  "poll_round poll_one sub limit s =
   andThen (poll_range poll_one limit (rotate (fst (starting_index sub)) [0..<length (sub_images sub)]) (sub_images sub) 0 s)
     (\<lambda>(images, n, s). Inr ((snd (starting_index sub))\<lparr>sub_images := images\<rparr>, n, s))"
proof -
  obtain i sub' where start: "starting_index sub = (i, sub')" by (cases "starting_index sub")
  then have i: "i \<le> length (sub_images sub)" "sub_images sub' = sub_images sub" using starting_index_facts [of sub] by simp_all
  have "rotate i [0..<length (sub_images sub)] = [i..<length (sub_images sub)] @ [0..<i]"
  proof (cases "i = length (sub_images sub)")
    case False
    then show ?thesis using i(1) by (simp add: rotate_drop_take min_def drop_upt take_upt)
  qed simp
  then show ?thesis
    by (cases "poll_range poll_one limit [i..<length (sub_images sub)] (sub_images sub) 0 s")
      (auto simp: poll_round_def start i(2) poll_range_append split: prod.splits)
qed

text \<open>What a poll of one image promises: it reads at most the limit.\<close>

locale bounded_poll =
  fixes poll_one :: "image \<Rightarrow> int \<Rightarrow> 's \<Rightarrow> (image \<times> int \<times> 's) cpp"
  assumes poll_count: "poll_one im limit s = Inr (im', n, s') \<Longrightarrow> 0 < limit \<Longrightarrow> 0 \<le> n \<and> n \<le> limit"
begin

lemma poll_range_count:
  "poll_range poll_one limit is images n s = Inr (images', n', s') \<Longrightarrow> n \<le> limit \<Longrightarrow>
   n \<le> n' \<and> n' \<le> limit \<and> length images' = length images \<and> map fst images' = map fst images \<and>
   (n' < limit \<longrightarrow> poll_each poll_one limit is images n s = Inr (images', n', s'))"
proof (induction "is" arbitrary: images n s)
  case (Cons i "is")
  show ?case
  proof (cases "n < limit")
    case True
    then obtain im m t where one: "poll_one (snd (images ! i)) (limit - n) s = Inr (im, m, t)"
        "poll_range poll_one limit is (images[i := (fst (images ! i), im)]) (n + m) t = Inr (images', n', s')"
      using Cons.prems(1) by (auto simp: andThen_eq_Inr)
    have "0 \<le> m" "m \<le> limit - n" using poll_count [OF one(1)] True by simp_all
    moreover have "map fst (images[i := (fst (images ! i), im)]) = map fst images"
      by (cases "i < length images") (auto intro!: nth_equalityI simp: nth_list_update list_update_beyond)
    ultimately show ?thesis using Cons.IH [OF one(2)] one(1) by auto
  qed (use Cons.prems in auto)
qed auto

lemma poll_round_count:
  assumes "poll_round poll_one sub limit s = Inr (sub', n, s')" and "0 \<le> limit"
  shows "0 \<le> n \<and> n \<le> limit \<and> map fst (sub_images sub') = map fst (sub_images sub) \<and>
    (n < limit \<longrightarrow> poll_each poll_one limit (rotate (fst (starting_index sub)) [0..<length (sub_images sub)]) (sub_images sub) 0 s =
       Inr (sub_images sub', n, s'))"
  using assms poll_range_count unfolding poll_round_eq by (fastforce simp: andThen_eq_Inr)

end

text \<open>The polls of an image keep the promise.\<close>

lemma catching_eq_Inr: "catching r f g = Inr y \<Longrightarrow> (\<exists>err. f err = Inr y) \<or> (\<exists>x. r = Inr x \<and> g x = Inr y)"
  by (auto simp: catching_def split: sum.splits cpp_error.splits)

lemma read_loop_count:
  "read_loop e b limitOffset handler onError limit hdr m offset s = Inr (offset', n, s') \<Longrightarrow> m \<le> n \<and> (n \<le> limit \<or> n = m)"
proof (induction "nat (limitOffset - offset)" arbitrary: m offset s rule: less_induct)
  case less
  show ?case
  proof (cases "m < limit \<and> offset < limitOffset")
    case True
    note loop = less.prems [unfolded read_loop.simps [of e b limitOffset handler onError limit hdr m offset s], simplified True, simplified]
    then consider "n = m" | len where "frameLengthVolatile e b offset = Inr len" "0 < sint len"
        "catching (isPaddingFrame e b offset) (\<lambda>err. Inr (offset + align (sint len) FRAME_ALIGNMENT, m, onError err s)) (\<lambda>isPadding.
           if isPadding then read_loop e b limitOffset handler onError limit hdr m (offset + align (sint len) FRAME_ALIGNMENT) s
           else case handler s b (offset + DATA_FRAME_LENGTH) (sint len - DATA_FRAME_LENGTH) (hdr\<lparr>hd_buffer := b, hd_offset := offset\<rparr>) of
             (s', None) \<Rightarrow> read_loop e b limitOffset handler onError limit hdr (m + 1) (offset + align (sint len) FRAME_ALIGNMENT) s'
           | (s', Some err) \<Rightarrow> Inr (offset + align (sint len) FRAME_ALIGNMENT, m + 1, onError err s')) = Inr (offset', n, s')"
      by (fastforce simp: Let_def not_le dest!: catching_eq_Inr split: if_splits)
    then show ?thesis
    proof cases
      case 2
      have dec: "nat (limitOffset - (offset + align (sint len) FRAME_ALIGNMENT)) < nat (limitOffset - offset)"
        using True align_pos [OF 2(2)] by simp
      from 2(3) consider "n = m" | "read_loop e b limitOffset handler onError limit hdr m (offset + align (sint len) FRAME_ALIGNMENT) s = Inr (offset', n, s')"
        | t where "read_loop e b limitOffset handler onError limit hdr (m + 1) (offset + align (sint len) FRAME_ALIGNMENT) t = Inr (offset', n, s')" | "n = m + 1"
        by (fastforce dest!: catching_eq_Inr split: if_splits prod.splits option.splits)
      then show ?thesis using less.hyps [OF dec] True by cases fastforce+
    qed simp
  next
    case False
    then show ?thesis using less.prems by (auto simp: read_loop.simps [of e b limitOffset])
  qed
qed

lemma controlled_loop_count:
  "controlled_loop e b limitOffset handler onError limit hdr v s = Inr (v', s') \<Longrightarrow>
   cv_fragmentsRead v \<le> cv_fragmentsRead v' \<and> (cv_fragmentsRead v' \<le> limit \<or> cv_fragmentsRead v' = cv_fragmentsRead v)"
proof (induction "nat (limitOffset - cv_offset v)" arbitrary: v s rule: less_induct)
  case less
  show ?case
  proof (cases "cv_fragmentsRead v < limit \<and> cv_offset v < limitOffset")
    case True
    let ?m = "cv_fragmentsRead v" and ?n = "cv_fragmentsRead v'"
    note loop = less.prems [unfolded controlled_loop.simps [of e b limitOffset handler onError limit hdr v s], simplified True, simplified]
    then consider "?n = ?m" | len where "frameLengthVolatile e b (cv_offset v) = Inr len" "0 < sint len"
        "catching (isPaddingFrame e b (cv_offset v)) (\<lambda>err. Inr (v\<lparr>cv_offset := cv_offset v + align (sint len) FRAME_ALIGNMENT\<rparr>, onError err s)) (\<lambda>isPadding.
           if isPadding then controlled_loop e b limitOffset handler onError limit hdr (v\<lparr>cv_offset := cv_offset v + align (sint len) FRAME_ALIGNMENT\<rparr>) s
           else let w = v\<lparr>cv_offset := cv_offset v + align (sint len) FRAME_ALIGNMENT, cv_fragmentsRead := ?m + 1\<rparr>
             in case handler s b (cv_offset v + DATA_FRAME_LENGTH) (sint len - DATA_FRAME_LENGTH) (hdr\<lparr>hd_buffer := b, hd_offset := cv_offset v\<rparr>) of
               (s', Inl err) \<Rightarrow> Inr (w, onError err s')
             | (s', Inr ABORT) \<Rightarrow> Inr (w\<lparr>cv_fragmentsRead := cv_fragmentsRead w - 1, cv_offset := cv_offset w - align (sint len) FRAME_ALIGNMENT\<rparr>, s')
             | (s', Inr BREAK) \<Rightarrow> Inr (w, s')
             | (s', Inr COMMIT) \<Rightarrow> controlled_loop e b limitOffset handler onError limit hdr (commit w) s'
             | (s', Inr CONTINUE) \<Rightarrow> controlled_loop e b limitOffset handler onError limit hdr w s') = Inr (v', s')"
      by (fastforce simp: Let_def not_le dest!: catching_eq_Inr split: if_splits)
    then show ?thesis
    proof cases
      case 2
      let ?o = "cv_offset v + align (sint len) FRAME_ALIGNMENT"
      have dec: "nat (limitOffset - ?o) < nat (limitOffset - cv_offset v)" using True align_pos [OF 2(2)] by simp
      have IH: "cv_fragmentsRead w \<le> ?n \<and> (?n \<le> limit \<or> ?n = cv_fragmentsRead w)"
        if "cv_offset w = ?o" "controlled_loop e b limitOffset handler onError limit hdr w t = Inr (v', s')" for w t
        using less.hyps [of w t] that dec by simp
      have c: "cv_offset (commit w) = cv_offset w" "cv_fragmentsRead (commit w) = cv_fragmentsRead w" for w by (simp_all add: commit_def Let_def)
      let ?w = "v\<lparr>cv_offset := ?o, cv_fragmentsRead := ?m + 1\<rparr>" and ?loop = "controlled_loop e b limitOffset handler onError limit hdr"
      obtain t a where h: "handler s b (cv_offset v + DATA_FRAME_LENGTH) (sint len - DATA_FRAME_LENGTH) (hdr\<lparr>hd_buffer := b, hd_offset := cv_offset v\<rparr>) = (t, a)"
        by fastforce
      have "?n = ?m \<or> ?n = ?m + 1 \<or> ?loop (v\<lparr>cv_offset := ?o\<rparr>) s = Inr (v', s') \<or> ?loop (commit ?w) t = Inr (v', s') \<or> ?loop ?w t = Inr (v', s')"
        using catching_eq_Inr [OF 2(3)] unfolding h Let_def prod.case by (auto split: if_splits sum.splits ControlledPollAction.splits)
      then show ?thesis using IH [of "v\<lparr>cv_offset := ?o\<rparr>" s] IH [of "commit ?w" t] IH [of ?w t] True by (auto simp: c)
    qed simp
  next
    case False
    then show ?thesis using less.prems by (auto simp: controlled_loop.simps [of e b limitOffset])
  qed
qed

interpretation image_poll: bounded_poll "\<lambda>im limit s. poll e im handler onError limit s" for e handler onError
proof
  fix im limit s im' n s'
  assume "poll e im handler onError limit s = Inr (im', n, s')" "0 < limit"
  then show "0 \<le> n \<and> n \<le> limit"
    by (auto simp: poll_def TermReader_read_def andThen_eq_Inr Let_def dest!: read_loop_count split: if_splits)
qed

interpretation image_controlled: bounded_poll "\<lambda>im limit s. controlledPoll e im handler onError limit s" for e handler onError
proof
  fix im limit s im' n s'
  assume "controlledPoll e im handler onError limit s = Inr (im', n, s')" "0 < limit"
  then show "0 \<le> n \<and> n \<le> limit"
    by (auto simp: controlledPoll_def controlled_poll_to_def andThen_eq_Inr Let_def dest!: controlled_loop_count split: if_splits)
qed

section \<open>Polling a subscription\<close>

text \<open>
  C31. A poll of a subscription, plain or controlled, reads at most the given number of fragments over all
  images and keeps the images in their places; a poll that reads less has polled every image once,
  in the order that begins at the round robin index, each with the limit the others have left.
\<close>

theorem subscription_poll:
  assumes "0 \<le> limit"
  shows "(sub_poll e sub handler onError limit s = Inr (sub', n, s') \<longrightarrow>
      0 \<le> n \<and> n \<le> limit \<and> map fst (sub_images sub') = map fst (sub_images sub) \<and>
      (n < limit \<longrightarrow> poll_each (\<lambda>im limit s. poll e im handler onError limit s) limit
         (rotate (fst (starting_index sub)) [0..<length (sub_images sub)]) (sub_images sub) 0 s = Inr (sub_images sub', n, s'))) \<and>
    (sub_controlledPoll e sub controlled onError limit s = Inr (sub', n, s') \<longrightarrow>
      0 \<le> n \<and> n \<le> limit \<and> map fst (sub_images sub') = map fst (sub_images sub) \<and>
      (n < limit \<longrightarrow> poll_each (\<lambda>im limit s. controlledPoll e im controlled onError limit s) limit
         (rotate (fst (starting_index sub)) [0..<length (sub_images sub)]) (sub_images sub) 0 s = Inr (sub_images sub', n, s')))"
  using image_poll.poll_round_count [of e handler onError sub limit s sub' n s']
    image_controlled.poll_round_count [of e controlled onError sub limit s sub' n s'] assms
  by (simp add: sub_poll_def sub_controlledPoll_def)

text \<open>The index a sequence of polls starts at.\<close>

lemma round_end: "n \<le> k mod Suc n \<longleftrightarrow> k mod Suc n = n"
  using mod_less_divisor [of "Suc n" k] by linarith

lemma starting_index_run:
  assumes "sub_roundRobinIndex sub = 0" and n: "n = length (sub_images sub)"
  shows "(((snd \<circ> starting_index) ^^ k) sub) = sub\<lparr>sub_roundRobinIndex := k mod (n + 1)\<rparr>"
proof (induction k)
  case (Suc k)
  have "snd (starting_index (sub\<lparr>sub_roundRobinIndex := k mod (n + 1)\<rparr>)) = sub\<lparr>sub_roundRobinIndex := Suc k mod (n + 1)\<rparr>"
    using n by (cases "k mod (n + 1) = n") (simp_all add: starting_index_def Let_def mod_Suc round_end)
  then show ?case using Suc by simp
qed (use assms in simp)

text \<open>
  C38. Polls of a subscription with \<open>n\<close> images start at the images in turn, but a round takes \<open>n + 1\<close> polls:
  the last of a round starts at the first image again, as the first poll of the next round does, since
  the index is set back to zero and not to one.
\<close>

theorem round_robin_order:
  assumes "sub_roundRobinIndex sub = 0" and "0 < length (sub_images sub)"
  shows "fst (starting_index (((snd \<circ> starting_index) ^^ k) sub)) =
    (let r = k mod (length (sub_images sub) + 1) in if r = length (sub_images sub) then 0 else r)"
  unfolding starting_index_run [OF assms(1) refl, of k]
  by (cases "k mod (length (sub_images sub) + 1) = length (sub_images sub)") (simp_all add: starting_index_def Let_def round_end)

text \<open>A closed image and one with two frames to read.\<close>

definition example_subscription :: "image \<Rightarrow> subscription" where
  "example_subscription im = \<lparr>sub_images = [(1, im_close im), (2, im)], sub_roundRobinIndex = 0, sub_isClosed = False\<rparr>"

theorem subscription_poll_witness:
  "\<exists>im. Image 11 0 new_metadata example_terms = Inr im \<and>
     sub_poll Little (example_subscription im) collect (\<lambda>_ s. s) 10 [] =
       Inr ((example_subscription im)\<lparr>sub_images := [(1, im_close im), (2, im\<lparr>im_subscriberPosition := 128\<rparr>)], sub_roundRobinIndex := 1\<rparr>, 2, [[1], [2]]) \<and>
     poll_each (\<lambda>im limit s. poll Little im collect (\<lambda>_ s. s) limit s) 10 [0, 1] (sub_images (example_subscription im)) 0 [] =
       Inr ([(1, im_close im), (2, im\<lparr>im_subscriberPosition := 128\<rparr>)], 2, [[1], [2]])"
proof -
  obtain im where im: "Image 11 0 new_metadata example_terms = Inr im" "image_ok im 0 0"
      "m_buffer (im_termBuffers im ! (0 mod 3)) = [] @ frames_image Little example_frames @ replicate (65536 - 128) 0"
    by (rule example_image)
  have "\<exists>s' rest. poll Little im collect (\<lambda>_ s. s) (int 10) [] =
      Inr (im\<lparr>im_subscriberPosition := word_of_nat (0 * image_term_length im + 0 + length (frames_image Little example_frames))\<rparr>, int 2, s') \<and>
      example_frames = example_frames @ rest \<and> s' = [[1], [2]]"
    by (rule poll_follows [OF im(2) sees_follows [OF collect_sees] im(3) _ example_frames_facts(2,3) refl example_frames_facts(4)]) simp
  then have poll: "poll Little im collect (\<lambda>_ s. s) 10 [] = Inr (im\<lparr>im_subscriberPosition := 128\<rparr>, 2, [[1], [2]])"
    unfolding example_frames_facts(1) by auto
  have "im_isClosed (im_close im)" by (simp add: im_close_def Let_def)
  then have closed: "poll Little (im_close im) collect (\<lambda>_ s. s) 10 [] = Inr (im_close im, 0, [])" by (simp add: poll_def)
  have start: "starting_index (example_subscription im) = (0, (example_subscription im)\<lparr>sub_roundRobinIndex := 1\<rparr>)"
    by (simp add: starting_index_def example_subscription_def)
  let ?sub = "(example_subscription im)\<lparr>sub_images := [(1, im_close im), (2, im\<lparr>im_subscriberPosition := 128\<rparr>)], sub_roundRobinIndex := 1\<rparr>"
  have two: "[0..<2] = [0, Suc 0]" by (simp add: numeral_2_eq_2)
  have "sub_poll Little (example_subscription im) collect (\<lambda>_ s. s) 10 [] = Inr (?sub, 2, [[1], [2]])"
    unfolding sub_poll_def poll_round_def start using poll closed by (simp add: example_subscription_def two)
  then show ?thesis
    using subscription_poll [of 10 Little "example_subscription im" collect "\<lambda>_ s. s" "[]" ?sub 2 "[[1], [2]]"] im(1) start
    by (simp add: example_subscription_def two)
qed

theorem round_robin_order_witness:
  "\<exists>sub. length (sub_images sub) = 2 \<and> map (\<lambda>k. fst (starting_index (((snd \<circ> starting_index) ^^ k) sub))) [0, 1, 2, 3, 4] = [0, 1, 0, 0, 1]"
proof -
  obtain im where "Image 11 0 new_metadata example_terms = Inr im" by (rule example_image)
  have "sub_roundRobinIndex (example_subscription im) = 0" "0 < length (sub_images (example_subscription im))" "length (sub_images (example_subscription im)) = 2"
    by (simp_all add: example_subscription_def)
  with round_robin_order [OF this(1,2)] show ?thesis by (intro exI [of _ "example_subscription im"]) (simp add: Let_def)
qed

end
