(* ===== verification/Spec2Isabelle.thy ===== *)
theory Spec2Isabelle
  imports BinaryMessage RecordedRuns ConfigProperties Programs Int64ToPtrHashMap Int64ToTaggedPtrHashMap ArrayToPtrHashMap
    Int64CounterMap BitSet SpscQueue MpscQueue LogRotation LogStream RingQueue Subscription
begin

text \<open>
  A verification library for the repository's C program, the Aeron latency test under
  \<open>src/c-performance\<close>, and for the code of the Aeron client headers it ships with under
  \<open>src/c-performance/aeron-lib/include\<close>.

  The program and its parts. \<open>binary_publisher\<close> (\<open>src/binary_publisher.c\<close>) offers messages that carry
  the time they were sent at to an Aeron publication; \<open>binary_subscriber\<close> (\<open>src/binary_subscriber.c\<close>)
  polls a subscription and records how old each message is. Both read a configuration
  (\<open>src/config_parser.c\<close>), use the wire format of \<open>src/binary_message.c\<close>, the clocks of
  \<open>src/time_utils.c\<close> and the statistics of \<open>src/performance_stats.c\<close>. The client library between them
  comes as headers: collections, queues and the log buffer descriptor in C, and the C++ client, in
  which a publication appends the frames of a message to the shared log, an image reads them at the
  other end, and a fragment assembler puts the messages together again.

  Theories and sources.
  \<^item> \<open>Prelude\<close>: machine integers, bytes and memory blocks, C strings; lemmas all components share.
  \<^item> \<open>TimeUtils\<close>, \<open>BinaryMessage\<close>: \<open>time_utils.c\<close>, \<open>binary_message.c\<close>. The byte order of the host is a
    parameter. Shown: the exact bytes of a message, no access outside the buffer, and that the time
    stamp survives between hosts of any byte orders.
  \<^item> \<open>PerformanceStats\<close>, \<open>LatencyRecording\<close>, \<open>RecordedRuns\<close>, \<open>StatsReports\<close>: \<open>performance_stats.c\<close>, the
    state as the record \<open>performance_stats\<close>. The locale \<open>latency_recorder\<close> states what the two recording
    functions share; both refine an abstract summary of the latencies.
  \<^item> \<open>CLibrary\<close>, \<open>ConfigParser\<close>, \<open>ConfigProperties\<close>: \<open>config_parser.c\<close> over models of \<open>strtol\<close> and GNU
    \<open>getopt_long\<close>; the locale \<open>option_switch\<close> is the contract between a program's option switch and the
    option loop. Shown: what an accepted command line leaves, and the channel string.
  \<^item> \<open>Publisher\<close>, \<open>PublisherProperties\<close>, \<open>Subscriber\<close>, \<open>SubscriberProperties\<close>, \<open>Programs\<close>: the two programs
    with their loops, threads of reports, signals and \<open>main\<close> functions. The Aeron calls are parameters
    (\<open>offer_appends\<close>, \<open>poll_ok\<close>, \<open>undisturbed\<close> name what is asked of them). Shown: exact accounts,
    termination, what ends the loops, release of every resource. The last sections of this theory
    connect the two programs.
  \<^item> \<open>AeronUtil\<close>, \<open>OpenAddressing\<close>, \<open>MapContract\<close>, \<open>CountedTable\<close>, \<open>CellMap\<close> and one theory for each map:
    the hash maps of \<open>aeron/collections\<close>. The loops of open addressing with backward-shift deletion are
    treated once, with locales from the slots of a table up to the finite map it implements, and
    interpreted for the five maps; every operation refines the finite map and returns. \<open>BitSet\<close>:
    \<open>aeron_bit_set.h\<close>.
  \<^item> \<open>ArrayQueue\<close>, \<open>SpscQueue\<close>, \<open>MpscQueue\<close>: the lock-free queues of \<open>aeron/concurrent\<close> as machines of their
    memory accesses, all threads interleaved; first in, first out by an invariant.
  \<^item> \<open>LogBufferDescriptor\<close>, \<open>LogRotation\<close>: \<open>aeron_logbuffer_descriptor.h\<close> with the data frame of
    \<open>aeron_udp_protocol.h\<close>; positions and headers, and the rotation of the log by any number of threads.
  \<^item> \<open>AtomicBuffer\<close>, \<open>FrameDescriptor\<close>, \<open>CppLogBuffer\<close>: \<open>AtomicBuffer.h\<close>, \<open>FrameDescriptor.h\<close> with
    \<open>HeaderWriter.h\<close> and \<open>BufferClaim.h\<close>, and \<open>LogBufferDescriptor.h\<close> of the C++ client. A result is a value,
    an exception or undefined behaviour (\<open>'a cpp\<close>). The locale \<open>buffer_field\<close> is the contract of a stored
    number; the C++ descriptor is shown to agree with the C one.
  \<^item> \<open>CppPublication\<close>, \<open>PublicationAppends\<close>, \<open>ClaimedMessages\<close>: \<open>Publication.h\<close>, the object as the record \<open>publication\<close>. The locale
    \<open>payload_source\<close> is what the loop over the fragments asks of where the bytes come from, interpreted
    for one buffer and for several. Shown: an offer adds exactly the frames of the message, or fills the
    term and moves the log on; what it answers otherwise; that claiming, filling and committing is
    offering.
  \<^item> \<open>CppImage\<close>, \<open>ImageReads\<close>: \<open>Header.h\<close>, \<open>TermReader.h\<close>, \<open>TermBlockScanner.h\<close>, \<open>Image.h\<close>; a poll refines the
    walk over the list of frames a term holds.
  \<^item> \<open>FragmentAssembler\<close>, \<open>AssembledMessages\<close>: \<open>BufferBuilder.h\<close>, \<open>FragmentAssembler.h\<close>; the assembler refines
    the reassembly of messages by session.
  \<^item> \<open>LogStream\<close>: publication, log, image and assembler composed: a step relation in which offers, committed
    claims, polls and the promised updates of the driver, a parameter of the steps, follow each other in any order. Shown:
    what is delivered is always a prefix of what was accepted, and three polls deliver the rest.
  \<^item> \<open>AtomicArray\<close>, \<open>Subscription\<close>: \<open>AtomicArrayUpdater.h\<close> as a machine of one writer and many readers, whose
    loads are consistent, and \<open>Subscription.h\<close>. The locale \<open>bounded_poll\<close> is what a round of polls asks of the
    poll of an image; the plain and the controlled poll of \<open>Image.h\<close> provide it.
  \<^item> \<open>RingBuffer\<close>, \<open>RingQueue\<close>: \<open>RecordDescriptor.h\<close>, \<open>RingBufferDescriptor.h\<close>, \<open>OneToOneRingBuffer.h\<close>. The
    layout of the records in the circular bytes is the invariant; the ring refines a queue.

  Loops, fuel and bounds. Loops that can be shown to end are total functions with a measure; the ones
  that need not end (those of the hash maps, the polling and waiting loops, \<open>grow_capacity\<close>) are partial functions whose
  value is \<open>None\<close> when they do not, and that they return is part of what is shown. Integers
  have their width where they can wrap; indexes and lengths of the C++ client, which the code keeps
  below \<open>2 ^ 31\<close>, are integers, and the theorems about it ask for the term lengths, from 64 KiB to 1 GiB, and
  payload lengths the client permits. Where signed integers can go round, which C and C++ leave undefined (term ids
  and counts, the values of the counter map, the test for an overflow in the vectored offer), the model takes the wrapped
  value; the theorem on the counter map asks that its sums stay in range.

  Not modelled. Sockets, files, shared memory and threads of the client library; the functions
  \<open>aeron/aeronc.h\<close> and its companions declare, whose bodies are in a binary; the C++ classes under
  \<open>wrapper\<close>, which forward to them; the exclusive publication, the conductor, the proxy to the driver and the
  channel strings of the C++ client, and the ring buffer of many producers and the broadcast buffers of its
  control protocol; the output of text, except for the numbers it prints; weak memory orders: the machines of the
  queues, of the rotation and of the array of images interleave their accesses one at a time, and the operations of the
  C++ publication and image run one at a time.
\<close>

section \<open>From the publisher to the subscriber\<close>

text \<open>The moments at which the fragments of the polls from pass \<open>i\<close> on are handled.\<close>

fun receipts :: "(nat \<Rightarrow> sub_iteration) \<Rightarrow> nat \<Rightarrow> u8 list list list \<Rightarrow> sub_moment list" where
  "receipts env i [] = []"
| "receipts env i (fs # fss) = map (at_fragment (env i)) [0..<length fs] @ receipts env (Suc i) fss"

lemma length_receipts [simp]: "length (receipts env i fss) = length (concat fss)"
  by (induction fss arbitrary: i) simp_all

lemma observed_whole:
  "(\<And>f. f \<in> set fs \<Longrightarrow> whole_stamp f) \<Longrightarrow>
   observed moments k fs = map2 latency_at (map moments [k..<k + length fs]) fs"
proof (induction fs arbitrary: k)
  case Nil
  then show ?case by simp
next
  case (Cons f fs)
  have "[k..<k + length (f # fs)] = k # [Suc k..<Suc k + length fs]"
    by (simp add: upt_conv_Cons del: upt_Suc)
  then show ?case using Cons by simp
qed

lemma latencies_of_whole:
  "(\<And>f. f \<in> set (concat fss) \<Longrightarrow> whole_stamp f) \<Longrightarrow>
   latencies_of env i fss = map2 latency_at (receipts env i fss) (concat fss)"
proof (induction fss arbitrary: i)
  case Nil
  then show ?case by simp
next
  case (Cons fs fss)
  have "latencies_of env (Suc i) fss = map2 latency_at (receipts env (Suc i) fss) (concat fss)"
    using Cons by simp
  moreover have "observed (at_fragment (env i)) 0 fs = map2 latency_at (map (at_fragment (env i)) [0..<length fs]) fs"
    using observed_whole [of fs "at_fragment (env i)" 0] Cons.prems by simp
  ultimately show ?case by simp
qed

lemma polls_prefix: "n \<le> k \<Longrightarrow> \<exists>rest. concat (polls aeron_poll limit k s) = concat (polls aeron_poll limit n s) @ rest"
proof (induction n arbitrary: k s)
  case 0
  then show ?case by simp
next
  case (Suc n)
  then obtain k' where k: "k = Suc k'" "n \<le> k'" by (cases k) auto
  obtain fs r s' where "aeron_poll s limit = (fs, r, s')" by (cases "aeron_poll s limit")
  then show ?case using Suc.IH [OF k(2), of s'] k by auto
qed

text \<open>When the polls in the end bring \<open>ms\<close>, any number of them has brought a first part of \<open>ms\<close>.\<close>

lemma polls_take:
  assumes all: "\<And>k. concat (polls aeron_poll limit (m + k) s) = ms"
  shows "concat (polls aeron_poll limit n s) = take (length (concat (polls aeron_poll limit n s))) ms"
proof -
  obtain rest where "ms = concat (polls aeron_poll limit n s) @ rest"
    using polls_prefix [of n "m + n" aeron_poll limit s] all [of n] by auto
  then show ?thesis by simp
qed

text \<open>The latencies and bytes of fragments that are the messages of the passes \<open>js\<close>.\<close>

lemma sent_latencies:
  assumes "8 \<le> unat msize" and "concat fss = map (\<lambda>j. pass_message msize (its j)) js"
  shows "latencies_of env 0 fss = map2 (-) (map (\<lambda>mo. get_timestamp_ns (receive_clock mo)) (receipts env 0 fss))
    (map (\<lambda>j. get_timestamp_ns (send_clock (its j))) js)"
proof -
  have "whole_stamp f" if "f \<in> set (concat fss)" for f
    using that assms(1) unfolding assms(2) by (auto simp: whole_stamp_def)
  then have "latencies_of env 0 fss = map2 latency_at (receipts env 0 fss) (concat fss)" by (rule latencies_of_whole)
  moreover have "stamp_of (pass_message msize (its j)) = get_timestamp_ns (send_clock (its j))" for j
    using stamp_of_wire [OF assms(1), of _ "[]"] by simp
  ultimately show ?thesis by (simp add: assms(2) zip_map1 zip_map2 case_prod_beta' comp_def)
qed

lemma sent_bytes:
  assumes "8 \<le> unat msize" and "fs = map (\<lambda>j. pass_message msize (its j)) js"
  shows "byte_total fs = word_of_nat (length js) * msize"
proof -
  have "filter whole_stamp fs = fs" using assms(1) by (intro filter_True) (auto simp: assms(2) whole_stamp_def)
  moreover have "map length fs = replicate (length js) (unat msize)"
    using assms(1) by (simp add: assms(2) comp_def map_replicate_const)
  ultimately show ?thesis by (simp add: sum_list_replicate)
qed

text \<open>
  C1. End to end: let the publisher run on a publication that starts empty, against any library and
  whatever ends its run (all messages sent, an answer such as \<open>ADMIN_ACTION\<close> at the end of a term, too much
  back pressure, or a signal). Let the subscriber, waiting for no more messages than the publisher counted
  as sent and running undisturbed on a host of either byte order, poll a subscription that delivers
  what the publication has accepted, whole and in order. Then the subscriber returns, and its final report is
  the one of the first messages the publisher counted, in their order: at least as many as it waits
  for, less than a fragment limit more, all of them when it waits for all. The latencies are
  the differences of the subscriber's clock at the message's receipt and the publisher's clock in the pass the
  message was sent in, and the bytes are the messages' bytes.
\<close>

theorem end_to_end:
  assumes "8 \<le> unat (message_size config)" and "good_env penv config"
    and "offer_appends aeron_offer accepted" and "accepted p = []"
    and "run_publisher aeron_offer e1 penv config p initial_pub_state = Some (code, p', pst)"
    and "calloc_ok senv" and "sub_thread_created senv" and "poll_ok aeron_poll (fragment_limit sconfig)"
    and "0 < fragment_limit sconfig"
    and "unat (target_message_count sconfig) + nat (fragment_limit sconfig) \<le> 2 ^ 64"
    and "undisturbed aeron_poll (fragment_limit sconfig) (sub_iterations senv)"
    and "target_message_count sconfig \<le> messages_sent (g_stats pst)"
    and "\<And>k. concat (polls aeron_poll (fragment_limit sconfig) (m + k) s) = accepted p'"
  shows "\<exists>n s' st' reports js received.
    run_subscriber aeron_poll e2 senv sconfig s initial_sub_state = Some (Some (ERROR_SUCCESS, s', st')) \<and>
    accepted p' = map (\<lambda>j. wire_message (unat (message_size config))
      (get_timestamp_ns (send_clock (iterations penv j)))) js \<and>
    sorted_wrt (<) js \<and> length js = unat (messages_sent (g_stats pst)) \<and>
    received = map (\<lambda>mo. get_timestamp_ns (receive_clock mo))
      (receipts (sub_iterations senv) 0 (polls aeron_poll (fragment_limit sconfig) n s)) \<and>
    unat (target_message_count sconfig) \<le> length received \<and> length received \<le> length js \<and>
    length received < unat (target_message_count sconfig) + nat (fragment_limit sconfig) \<and>
    sub_printed st' = reports @ report_of
      (map2 (-) received (map (\<lambda>j. get_timestamp_ns (send_clock (iterations penv j))) (take (length received) js)))
      (word_of_nat (length received) * message_size config) n
      (end_time (sub_stats st') - get_timestamp_ns (init_clock senv))"
proof -
  let ?limit = "fragment_limit sconfig" and ?msg = "\<lambda>j. pass_message (message_size config) (iterations penv j)"
  obtain js where acc: "accepted p' = map ?msg js" and sorted: "sorted_wrt (<) js"
    and le: "length js \<le> unat (config_message_count config)"
    and sent: "messages_sent (g_stats pst) = word_of_nat (length js)"
    using run_publisher_books [OF assms(1-3), of e1 p] assms(4,5) by auto
  have js: "length js = unat (messages_sent (g_stats pst))"
    using le unat_u64_less [of "config_message_count config"] by (simp add: sent unat_of_nat)
  have whole: "filter whole_stamp (take k (accepted p')) = take k (accepted p')" for k
    using assms(1) by (intro filter_True) (auto simp: acc whole_stamp_def dest!: in_set_takeD)
  have "unat (target_message_count sconfig) \<le>
      length (filter (\<lambda>f. 8 \<le> length f) (concat (polls aeron_poll ?limit m s)))"
    using assms(12) assms(13) [of 0] whole [of "length js"] by (simp add: acc js word_le_nat_alt whole_stamp_def [abs_def])
  from run_subscriber_complete [OF assms(6-11) this, of e2] obtain n s' st' reports where
    run: "run_subscriber aeron_poll e2 senv sconfig s initial_sub_state = Some (Some (ERROR_SUCCESS, s', st'))"
    and printed: "sub_printed st' = reports @ report_of (latencies_of (sub_iterations senv) 0 (polls aeron_poll ?limit n s))
      (byte_total (concat (polls aeron_poll ?limit n s))) n
      (end_time (sub_stats st') - get_timestamp_ns (init_clock senv))"
    and len: "unat (target_message_count sconfig) \<le> length (latencies_of (sub_iterations senv) 0 (polls aeron_poll ?limit n s))"
      "length (latencies_of (sub_iterations senv) 0 (polls aeron_poll ?limit n s)) <
        unat (target_message_count sconfig) + nat ?limit"
    by blast
  define received where "received = map (\<lambda>mo. get_timestamp_ns (receive_clock mo))
      (receipts (sub_iterations senv) 0 (polls aeron_poll ?limit n s))"
  have got: "concat (polls aeron_poll ?limit n s) = map ?msg (take (length received) js)"
    using polls_take [OF assms(13), of n] by (simp add: received_def acc take_map)
  have lat: "latencies_of (sub_iterations senv) 0 (polls aeron_poll ?limit n s) =
      map2 (-) received (map (\<lambda>j. get_timestamp_ns (send_clock (iterations penv j))) (take (length received) js))"
    unfolding received_def by (rule sent_latencies [OF assms(1) got [unfolded received_def]])
  have "length received = length (concat (polls aeron_poll ?limit n s))" by (simp add: received_def)
  then have short: "length received \<le> length js" unfolding got by simp
  then have bytes: "byte_total (concat (polls aeron_poll ?limit n s)) = word_of_nat (length received) * message_size config"
    using sent_bytes [OF assms(1) got] by simp
  have "length (latencies_of (sub_iterations senv) 0 (polls aeron_poll ?limit n s)) = length received"
    using short by (simp add: lat)
  then have bounds: "unat (target_message_count sconfig) \<le> length received"
    "length received < unat (target_message_count sconfig) + nat ?limit"
    using len by simp_all
  show ?thesis
    by (intro exI conjI, rule run, rule acc, rule sorted, rule js, rule received_def, rule bounds(1), rule short,
        rule bounds(2), rule printed [unfolded lat bytes])
qed

lemma scripted_polls_done: "concat (polls scripted_poll limit k []) = []"
  by (induction k) simp_all

text \<open>
  A publisher that meets back pressure, sends one message and stops at the \<open>ADMIN_ACTION\<close> after it.
\<close>

lemma admin_action_run:
  "\<exists>st'. run_publisher scripted_offer Little example_env example_config ([], [- 2, 64, - 3]) initial_pub_state =
     Some (ERROR_SUCCESS, ([wire_message 16 3000000001], []), st')"
proof -
  have v: "message_size example_config = 16" "config_message_count example_config = 2"
    "\<And>j. \<not> signalled (iterations example_env j)" "running (started example_env initial_pub_state)"
    "\<And>j. get_timestamp_ns (send_clock (iterations example_env j)) = 3000000000 + word_of_nat j"
    by (simp_all add: example_config_def example_env_def initial_pub_state_def get_timestamp_ns_def)
  obtain buffer :: "u8 list" where len: "length buffer = unat (16 :: u64)" and
    run: "run_publisher scripted_offer Little example_env example_config ([], [- 2, 64, - 3]) initial_pub_state =
      map_option (\<lambda>(p', st', _, _). (ERROR_SUCCESS, p', finished example_env st'))
        (publisher_loop scripted_offer Little 16 2 (iterations example_env) 0 0 0 buffer ([], [- 2, 64, - 3])
           (started example_env initial_pub_state))"
    using run_publisher_eq [OF example_run_setup(1), of scripted_offer Little "([], [- 2, 64, - 3])" initial_pub_state]
    unfolding v by blast
  have "\<not> (2 :: u64) \<le> 1" by (simp add: word_le_nat_alt)
  then show ?thesis
    using len v(3-5) by (simp add: run publisher_loop_pass offer_outcome_def Let_def count_sent_def offer_failed_handler_def)
qed

theorem end_to_end_witness:
  "\<exists>code p' pst n s' st' reports js received.
    run_publisher scripted_offer Little example_env example_config ([], [- 2, 64, - 3]) initial_pub_state
      = Some (code, p', pst) \<and>
    run_subscriber scripted_poll Big example_sub_env (example_sub_config\<lparr>target_message_count := 1\<rparr>)
      (map (\<lambda>m. [m]) (fst p')) initial_sub_state = Some (Some (ERROR_SUCCESS, s', st')) \<and>
    length js = 1 \<and> length received = 1 \<and>
    sub_printed st' = reports @ report_of
      (map2 (-) received (map (\<lambda>j. get_timestamp_ns (send_clock (iterations example_env j))) (take (length received) js)))
      (word_of_nat (length received) * 16) n (end_time (sub_stats st') - 1000000000)"
proof -
  let ?sconfig = "example_sub_config\<lparr>target_message_count := 1\<rparr>"
  obtain pst where run: "run_publisher scripted_offer Little example_env example_config ([], [- 2, 64, - 3])
      initial_pub_state = Some (ERROR_SUCCESS, ([wire_message 16 3000000001], []), pst)"
    using admin_action_run by blast
  with run_publisher_books [OF example_run_setup(2,1) scripted_offer_appends, of Little "([], [- 2, 64, - 3])"]
  have sent: "messages_sent (g_stats pst) = 1" by (auto dest: arg_cong [where f = length])
  have v: "fragment_limit ?sconfig = 10" "message_size example_config = 16" "target_message_count ?sconfig = 1"
    "get_timestamp_ns (init_clock example_sub_env) = 1000000000"
    by (simp_all add: example_sub_config_def example_config_def example_sub_env_def get_timestamp_ns_def)
  have polls: "concat (polls scripted_poll (fragment_limit ?sconfig) (1 + k) [[wire_message 16 3000000001]])
      = fst ([wire_message 16 3000000001], [] :: int list)" for k
    by (simp add: v Let_def scripted_polls_done)
  have "0 \<le> fst (snd (scripted_poll s limit))" for s limit
    by (cases "(s, limit)" rule: scripted_poll.cases) (simp_all add: Let_def)
  then have u: "undisturbed scripted_poll (fragment_limit ?sconfig) (sub_iterations example_sub_env)"
    by (simp add: undisturbed_def example_sub_env_def quiet_moment_def)
  have sub: "poll_ok scripted_poll (fragment_limit ?sconfig)" "0 < fragment_limit ?sconfig"
    "unat (target_message_count ?sconfig) + nat (fragment_limit ?sconfig) \<le> 2 ^ 64"
    "target_message_count ?sconfig \<le> messages_sent (g_stats pst)"
    by (simp_all add: v sent scripted_poll_ok)
  have "fst ([] :: u8 list list, [- 2, 64, - 3 :: int]) = []" by simp
  from end_to_end [OF example_run_setup(2,1) scripted_offer_appends this run example_sub_setup(1,2) sub(1-3) u sub(4) polls, of Big]
  obtain n s' st' reports js received where
    "run_subscriber scripted_poll Big example_sub_env ?sconfig [[wire_message 16 3000000001]] initial_sub_state =
      Some (Some (ERROR_SUCCESS, s', st'))"
    "length js = 1" "1 \<le> length received" "length received \<le> length js"
    "sub_printed st' = reports @ report_of
      (map2 (-) received (map (\<lambda>j. get_timestamp_ns (send_clock (iterations example_env j))) (take (length received) js)))
      (word_of_nat (length received) * 16) n (end_time (sub_stats st') - 1000000000)"
    unfolding v sent unat_1 by blast
  moreover from this have "length received = 1" by simp
  ultimately show ?thesis using run by fastforce
qed

end
